(* ===== verification/Prelude.thy ===== *)
theory Prelude
  imports Main "HOL-Library.AList" "HOL-Library.Char_ord" "HOL-Library.List_Lexorder"
    "HOL-Library.Multiset"
begin

text \<open>
  What the components share: Python exceptions as values, dictionaries as association lists in
  insertion order and the stable sorts of \<^verbatim>\<open>sorted\<close>.  Every operation that can raise returns \<open>pyexc + 'a\<close>.
\<close>

section \<open>Exceptions\<close>

text \<open>
  A dictionary is an association list: Python dictionaries keep insertion order, \<open>AList.update\<close>
  keeps the position of an existing key and appends a new one, and \<open>AList.delete\<close> drops the key.
\<close>

type_synonym ('k, 'v) dict = "('k \<times> 'v) list"
type_synonym metadata = "(string, string) dict"

text \<open>
  The exceptions the modelled code raises or handles.  Message texts are left out;
  \<open>DiskFileDeleted\<close> and \<open>DiskFileExpired\<close> carry the metadata dictionary the handlers read,
  \<open>OSError\<close> the errno (\<^verbatim>\<open>IOError\<close> is the same class).
\<close>

datatype pyexc =
    OSError int
  | ValueError
  | KeyError
  | TypeError
  | IndexError
  | RuntimeError
  | PathNotDir
  | UnboundLocalError
  | AttributeError
  | DiskFileError
  | DiskFileNotOpen
  | DiskFileNotExist
  | DiskFileDeleted metadata
  | DiskFileExpired metadata
  | DiskFileQuarantined
  | DiskFileCollision
  | DiskFileNoSpace
  | DiskFileDeviceUnavailable
  | DiskFileXattrNotSupported
  | DiskFileBadMetadataChecksum

text \<open>The errno values of Linux that the code compares with (\<open>ENOTSUP\<close> is also \<open>EOPNOTSUPP\<close>).\<close>

definition ENOENT :: int where "ENOENT = 2"
definition EIO :: int where "EIO = 5"
definition EEXIST :: int where "EEXIST = 17"
definition ENOTDIR :: int where "ENOTDIR = 20"
definition ENOSPC :: int where "ENOSPC = 28"
definition EISDIR :: int where "EISDIR = 21"
definition EINVAL :: int where "EINVAL = 22"
definition ENOTEMPTY :: int where "ENOTEMPTY = 39"
definition ENODATA :: int where "ENODATA = 61"
definition ENOTSUP :: int where "ENOTSUP = 95"
definition EUCLEAN :: int where "EUCLEAN = 117"
definition EDQUOT :: int where "EDQUOT = 122"

named_theorems errno_simps

declare ENOENT_def [errno_simps] EIO_def [errno_simps] EEXIST_def [errno_simps]
  ENOTDIR_def [errno_simps] EISDIR_def [errno_simps] EINVAL_def [errno_simps]
  ENOSPC_def [errno_simps] ENOTEMPTY_def [errno_simps]
  ENODATA_def [errno_simps] ENOTSUP_def [errno_simps] EUCLEAN_def [errno_simps]
  EDQUOT_def [errno_simps]

text \<open>The classes under \<^verbatim>\<open>DiskFileError\<close> in \<^verbatim>\<open>swift.common.exceptions\<close>, and under \<^verbatim>\<open>DiskFileNotExist\<close>.\<close>

fun is_disk_file_error :: "pyexc \<Rightarrow> bool" where
  "is_disk_file_error DiskFileError = True"
| "is_disk_file_error DiskFileNotOpen = True"
| "is_disk_file_error DiskFileNotExist = True"
| "is_disk_file_error (DiskFileDeleted m) = True"
| "is_disk_file_error (DiskFileExpired m) = True"
| "is_disk_file_error DiskFileQuarantined = True"
| "is_disk_file_error DiskFileCollision = True"
| "is_disk_file_error DiskFileNoSpace = True"
| "is_disk_file_error DiskFileDeviceUnavailable = True"
| "is_disk_file_error DiskFileXattrNotSupported = True"
| "is_disk_file_error DiskFileBadMetadataChecksum = True"
| "is_disk_file_error e = False"

fun is_not_exist :: "pyexc \<Rightarrow> bool" where
  "is_not_exist DiskFileNotExist = True"
| "is_not_exist (DiskFileDeleted m) = True"
| "is_not_exist (DiskFileExpired m) = True"
| "is_not_exist e = False"

text \<open>Sequencing: stop at the first exception.\<close>

fun try_then :: "pyexc + 'a \<Rightarrow> ('a \<Rightarrow> pyexc + 'b) \<Rightarrow> pyexc + 'b" where
  "try_then (Inl e) f = Inl e"
| "try_then (Inr a) f = f a"

lemma try_then_Inr [simp]: "try_then r f = Inr b \<longleftrightarrow> (\<exists>a. r = Inr a \<and> f a = Inr b)"
  by (cases r) auto

lemma try_then_Inl:
  "try_then r f = Inl e \<longleftrightarrow> r = Inl e \<or> (\<exists>a. r = Inr a \<and> f a = Inl e)"
  by (cases r) auto

text \<open>A list comprehension whose element expression may raise.\<close>

fun map_result :: "('a \<Rightarrow> pyexc + 'b) \<Rightarrow> 'a list \<Rightarrow> pyexc + 'b list" where
  "map_result f [] = Inr []"
| "map_result f (x # xs) =
     try_then (f x) (\<lambda>y. try_then (map_result f xs) (\<lambda>ys. Inr (y # ys)))"

lemma map_result_pure: "(\<And>x. x \<in> set xs \<Longrightarrow> f x = Inr (g x)) \<Longrightarrow> map_result f xs = Inr (map g xs)"
  by (induction xs) auto

section \<open>Dictionaries\<close>

definition dict_get :: "('k, 'v) dict \<Rightarrow> 'k \<Rightarrow> 'v \<Rightarrow> 'v" where
  "dict_get d k v = (case map_of d k of None \<Rightarrow> v | Some w \<Rightarrow> w)"

definition dict_setdefault :: "'k \<Rightarrow> 'v \<Rightarrow> ('k, 'v) dict \<Rightarrow> ('k, 'v) dict" where
  "dict_setdefault k v d = (case map_of d k of None \<Rightarrow> AList.update k v d | Some w \<Rightarrow> d)"

definition dict_update :: "('k, 'v) dict \<Rightarrow> ('k, 'v) dict \<Rightarrow> ('k, 'v) dict" where
  "dict_update d items = fold (\<lambda>(k, v). AList.update k v) items d"

text \<open>Equality of dictionaries in Python does not see the order of the keys.\<close>

definition dict_eq :: "('k, 'v) dict \<Rightarrow> ('k, 'v) dict \<Rightarrow> bool" where
  "dict_eq d d' \<longleftrightarrow> (\<forall>k \<in> set (map fst d @ map fst d'). map_of d k = map_of d' k)"

lemma dict_eq_map_of: "dict_eq d d' \<longleftrightarrow> map_of d = map_of d'"
proof
  assume *: "dict_eq d d'"
  show "map_of d = map_of d'"
  proof
    fix k
    show "map_of d k = map_of d' k"
    proof (cases "k \<in> set (map fst d @ map fst d')")
      case True
      with * show ?thesis by (simp add: dict_eq_def)
    next
      case False
      then have "map_of d k = None" "map_of d' k = None" by (simp_all add: map_of_eq_None_iff)
      then show ?thesis by simp
    qed
  qed
qed (simp add: dict_eq_def)

lemma map_of_dict_setdefault:
  "map_of (dict_setdefault k v d) =
     (case map_of d k of None \<Rightarrow> (map_of d)(k \<mapsto> v) | Some w \<Rightarrow> map_of d)"
  by (simp add: dict_setdefault_def AList.update_conv' split: option.split)

lemma map_of_dict_update:
  "map_of (dict_update d items) k =
     (case map_of (rev items) k of None \<Rightarrow> map_of d k | Some v \<Rightarrow> Some v)"
proof (induction items arbitrary: d)
  case Nil
  then show ?case by (simp add: dict_update_def)
next
  case (Cons p items)
  obtain k' v' where p: "p = (k', v')" by (cases p)
  have "dict_update d (p # items) = dict_update (AList.update k' v' d) items"
    by (simp add: dict_update_def p)
  then show ?case
    by (simp add: Cons.IH p AList.update_conv' map_add_Some_iff map_add_def split: option.split)
qed

lemma map_of_dict_update_distinct:
  "distinct (map fst items) \<Longrightarrow> map_of (dict_update d items) = map_of d ++ map_of items"
proof -
  assume dist: "distinct (map fst items)"
  then have "map_of (rev items) = map_of items"
    by (intro map_of_eqI) (auto simp: rev_map [symmetric] dest: map_of_SomeD)
  then show ?thesis by (auto simp: fun_eq_iff map_of_dict_update map_add_def)
qed

lemma map_of_AList_update [simp]: "map_of (AList.update k v d) = (map_of d)(k \<mapsto> v)"
  by (simp add: AList.update_conv')

lemma dict_get_update [simp]:
  "dict_get (AList.update k v d) k' w = (if k' = k then v else dict_get d k' w)"
  by (simp add: dict_get_def)

lemma dict_get_map_values [simp]:
  "dict_get (map (\<lambda>(k, v). (k, f k v)) d) k w =
     (case map_of d k of None \<Rightarrow> w | Some v \<Rightarrow> f k v)"
  by (induction d) (auto simp: dict_get_def)

section \<open>Stable sorts\<close>

text \<open>
  \<^verbatim>\<open>sorted(xs, key=k, reverse=True)\<close> keeps the order of elements with equal keys: it is the stable
  ascending sort between two reversals.
\<close>

definition sorted_rev :: "('a \<Rightarrow> 'b :: linorder) \<Rightarrow> 'a list \<Rightarrow> 'a list" where
  "sorted_rev k xs = rev (sort_key k (rev xs))"

lemma set_sorted_rev [simp]: "set (sorted_rev k xs) = set xs"
  by (simp add: sorted_rev_def)

lemma length_sorted_rev [simp]: "length (sorted_rev k xs) = length xs"
  by (simp add: sorted_rev_def)

lemma sorted_rev_eq_Nil [simp]: "sorted_rev k xs = [] \<longleftrightarrow> xs = []"
  by (metis length_sorted_rev length_0_conv)

lemma sorted_rev_Nil [simp]: "sorted_rev k [] = []"
  by (simp add: sorted_rev_def)

lemma filter_sorted_rev: "filter P (sorted_rev k xs) = sorted_rev k (filter P xs)"
  by (simp add: sorted_rev_def filter_sort flip: rev_filter)

definition descending :: "('a \<Rightarrow> 'b :: linorder) \<Rightarrow> 'a list \<Rightarrow> bool" where
  "descending k xs \<longleftrightarrow> sorted_wrt (\<lambda>x y. k y \<le> k x) xs"

lemma descending_sorted_rev [simp, intro]: "descending k (sorted_rev k xs)"
proof -
  have "sorted_wrt (\<lambda>x y. k x \<le> k y) (sort_key k (rev xs))"
    using sorted_sort_key [of k "rev xs"] by (simp add: sorted_map)
  then show ?thesis by (simp add: descending_def sorted_rev_def sorted_wrt_rev)
qed

lemma descending_filter: "descending k xs \<Longrightarrow> descending k (filter P xs)"
  by (simp add: descending_def sorted_wrt_filter)

lemma descending_hd: "descending k xs \<Longrightarrow> x \<in> set xs \<Longrightarrow> k x \<le> k (hd xs)"
  by (cases xs) (auto simp: descending_def)

lemma descending_Nil [simp]: "descending k []"
  by (simp add: descending_def)

lemma descending_Cons: "descending k (x # xs) \<longleftrightarrow> (\<forall>y \<in> set xs. k y \<le> k x) \<and> descending k xs"
  by (simp add: descending_def)

text \<open>Sorting a list that is sorted already changes nothing.\<close>

lemma sorted_rev_id: "descending k xs \<Longrightarrow> sorted_rev k xs = xs"
proof -
  assume "descending k xs"
  then have "sorted (map k (rev xs))"
    by (simp add: descending_def sorted_wrt_rev sorted_map)
  then have "sort_key k (rev xs) = rev xs" by (rule sort_key_id_if_sorted)
  then show ?thesis by (simp add: sorted_rev_def)
qed

section \<open>Sub-multisets of distinct lists\<close>

lemma distinct_count_le: "distinct xs \<longleftrightarrow> (\<forall>a. count (mset xs) a \<le> 1)"
proof
  assume "distinct xs"
  then show "\<forall>a. count (mset xs) a \<le> 1" by (simp add: distinct_count_atmost_1)
next
  assume le: "\<forall>a. count (mset xs) a \<le> 1"
  have "count (mset xs) a = (if a \<in> set xs then 1 else 0)" for a
  proof (cases "a \<in> set xs")
    case True
    then have "count (mset xs) a \<noteq> 0" by (simp only: count_eq_zero_iff set_mset_mset not_not)
    moreover have "count (mset xs) a \<le> 1" using le by blast
    ultimately have "count (mset xs) a = 1" by linarith
    with True show ?thesis by simp
  qed (simp add: count_eq_zero_iff)
  then show "distinct xs" unfolding distinct_count_atmost_1 by blast
qed

lemma distinct_submset: "mset xs \<subseteq># mset ys \<Longrightarrow> distinct ys \<Longrightarrow> distinct xs"
  unfolding distinct_count_le by (meson mset_subset_eq_count order_trans)

section \<open>Strictly descending sublists\<close>

definition strictly :: "('a \<Rightarrow> 'k :: linorder) \<Rightarrow> 'a list \<Rightarrow> bool" where
  "strictly k xs \<longleftrightarrow> sorted_wrt (\<lambda>a b. k b < k a) xs"

lemma filter_strictly:
  assumes "descending k xs" and "distinct xs" and "set ys \<subseteq> set xs" and "strictly k ys"
  shows "filter (\<lambda>x. x \<in> set ys) xs = ys"
  using assms
proof (induction xs arbitrary: ys)
  case (Cons x xs)
  show ?case
  proof (cases "x \<in> set ys")
    case False
    then show ?thesis using Cons by (auto simp: descending_Cons)
  next
    case True
    then obtain y ys' where ys: "ys = y # ys'" by (cases ys) auto
    have "x = y"
    proof (rule ccontr)
      assume "x \<noteq> y"
      then have "k x < k y" using True Cons.prems(4) by (auto simp: ys strictly_def)
      moreover have "k y \<le> k x" using Cons.prems(1,3) by (auto simp: ys descending_Cons)
      ultimately show False by simp
    qed
    moreover have "x \<notin> set ys'" using Cons.prems(4) \<open>x = y\<close> by (auto simp: ys strictly_def)
    moreover have "filter (\<lambda>x. x \<in> set ys') xs = ys'"
      using Cons.prems \<open>x = y\<close> \<open>x \<notin> set ys'\<close>
      by (intro Cons.IH) (auto simp: ys strictly_def descending_Cons)
    moreover have "filter (\<lambda>z. z \<in> set ys) xs = filter (\<lambda>z. z \<in> set ys') xs"
      using Cons.prems(2) \<open>x = y\<close> by (auto simp: ys intro!: filter_cong)
    ultimately show ?thesis by (simp add: ys)
  qed
qed simp

lemma strictly_filter: "strictly k xs \<Longrightarrow> strictly k (filter P xs)"
  by (simp add: strictly_def sorted_wrt_filter)

end
