(* ===== verification/PyStrings.thy ===== *)
theory PyStrings
  imports Prelude
begin

text \<open>
  The string and path functions of the Python standard library that the code uses, on strings as
  lists of characters: \<^verbatim>\<open>os.path.join\<close>, \<^verbatim>\<open>basename\<close>, \<^verbatim>\<open>dirname\<close>, \<^verbatim>\<open>splitext\<close>, \<^verbatim>\<open>str.split(c)\<close>,
  \<^verbatim>\<open>str(i)\<close> and \<^verbatim>\<open>int(s)\<close> (POSIX paths, ASCII digits and white space), and the laws the file
  name round trips need.
\<close>

section \<open>Paths\<close>

abbreviation slash :: char where "slash \<equiv> CHR ''/''"
abbreviation dot :: char where "dot \<equiv> CHR ''.''"

definition join :: "string \<Rightarrow> string \<Rightarrow> string" where
  "join a b =
     (if b \<noteq> [] \<and> hd b = slash then b
      else if a = [] \<or> last a = slash then a @ b
      else a @ [slash] @ b)"

text \<open>The part after the last slash, and the part up to and including it.\<close>

definition basename :: "string \<Rightarrow> string" where
  "basename p = rev (takeWhile (\<lambda>c. c \<noteq> slash) (rev p))"

definition head_part :: "string \<Rightarrow> string" where
  "head_part p = rev (dropWhile (\<lambda>c. c \<noteq> slash) (rev p))"

text \<open>\<^verbatim>\<open>dirname\<close> strips the trailing slashes of the head unless it is all slashes.\<close>

definition dirname :: "string \<Rightarrow> string" where
  "dirname p =
     (let h = head_part p; s = rev (dropWhile (\<lambda>c. c = slash) (rev h))
      in if s = [] then h else s)"

text \<open>
  \<^verbatim>\<open>splitext\<close> splits before the last dot of the last path component; the leading dots of the
  component belong to the root.
\<close>

definition splitext :: "string \<Rightarrow> string \<times> string" where
  "splitext p =
     (let b = basename p;
          ext = rev (takeWhile (\<lambda>c. c \<noteq> dot) (rev b));
          n = length b - length ext
      in if n = 0 \<or> list_all (\<lambda>c. c = dot) (take (n - 1) b) then (p, [])
         else (take (length p - length ext - 1) p, dot # ext))"

lemma takeWhile_neq [simp]: "c \<notin> set xs \<Longrightarrow> takeWhile (\<lambda>x. x \<noteq> c) (xs @ c # ys) = xs"
  by (induction xs) auto

lemma dropWhile_neq [simp]: "c \<notin> set xs \<Longrightarrow> dropWhile (\<lambda>x. x \<noteq> c) (xs @ c # ys) = c # ys"
  by (induction xs) auto

lemma takeWhile_neq_all [simp]: "c \<notin> set xs \<Longrightarrow> takeWhile (\<lambda>x. x \<noteq> c) xs = xs"
  by (induction xs) auto

lemma basename_join:
  assumes "slash \<notin> set f"
  shows "basename (join d f) = f"
proof -
  have *: "takeWhile (\<lambda>c. c \<noteq> slash) (rev f) = rev f"
    using assms by simp
  have hd: "f \<noteq> [] \<longrightarrow> hd f \<noteq> slash" using assms by (cases f) auto
  show ?thesis
  proof (cases "d = [] \<or> last d = slash")
    case False
    with hd have "join d f = d @ slash # f" by (auto simp: join_def)
    then show ?thesis
      using assms by (simp add: basename_def)
  next
    case True
    show ?thesis
    proof (cases "d = []")
      case True
      with hd have "join d f = f" by (simp add: join_def)
      with * show ?thesis by (simp only: basename_def rev_rev_ident)
    next
      case False
      with True have "last d = slash" by simp
      with False obtain e where e: "d = e @ [slash]" by (metis append_butlast_last_id)
      with hd have "join d f = e @ slash # f" by (auto simp: join_def)
      then show ?thesis
        using assms by (simp add: basename_def)
    qed
  qed
qed

lemma join_inj: "slash \<notin> set f \<Longrightarrow> slash \<notin> set g \<Longrightarrow> join d f = join d g \<longleftrightarrow> f = g"
  by (metis basename_join)

lemma dirname_join:
  assumes "f \<noteq> []" "slash \<notin> set f" "d \<noteq> []" "last d \<noteq> slash"
  shows "dirname (join d f) = d"
proof -
  have hd: "hd f \<noteq> slash" using assms(1,2) by (cases f) auto
  with assms have j: "join d f = d @ slash # f" by (simp add: join_def)
  have "head_part (join d f) = d @ [slash]"
    using assms(2) by (simp add: j head_part_def)
  moreover have "dropWhile (\<lambda>c. c = slash) (rev d) = rev d"
    using assms(3,4) by (metis dropWhile_eq_self_iff hd_rev)
  moreover have "dropWhile (\<lambda>c. c = slash) (slash # rev d) = dropWhile (\<lambda>c. c = slash) (rev d)"
    by simp
  moreover have "\<exists>x \<in> set d. x \<noteq> slash" using assms(3,4) by (metis last_in_set)
  ultimately show ?thesis using assms(3) by (simp add: dirname_def Let_def)
qed

lemma splitext_append:
  assumes "slash \<notin> set s" "slash \<notin> set e" "dot \<notin> set e" "\<not> list_all (\<lambda>c. c = dot) s"
  shows "splitext (s @ dot # e) = (s, dot # e)"
proof -
  have b: "basename (s @ dot # e) = s @ dot # e"
    using assms(1,2) by (simp add: basename_def)
  have x: "takeWhile (\<lambda>c. c \<noteq> dot) (rev (s @ dot # e)) = rev e"
    using assms(3) by simp
  show ?thesis
    using assms(4) by (simp add: splitext_def b x Let_def del: rev_append rev.simps(2))
qed

section \<open>Splitting at a character\<close>

fun split_on :: "char \<Rightarrow> string \<Rightarrow> string list" where
  "split_on c [] = [[]]"
| "split_on c (x # xs) =
     (if x = c then [] # split_on c xs
      else (case split_on c xs of [] \<Rightarrow> [[x]] | w # ws \<Rightarrow> (x # w) # ws))"

lemma split_on_nonempty [simp]: "split_on c s \<noteq> []"
  by (induction s) (auto split: list.splits)

lemma split_on_none: "c \<notin> set s \<Longrightarrow> split_on c s = [s]"
  by (induction s) auto

lemma split_on_append: "c \<notin> set s \<Longrightarrow> split_on c (s @ c # t) = s # split_on c t"
  by (induction s) auto

section \<open>Decimal integers\<close>

definition digit_char :: "nat \<Rightarrow> char" where
  "digit_char d = char_of (48 + d)"

fun str_nat :: "nat \<Rightarrow> string" where
  "str_nat n = (if n < 10 then [digit_char n] else str_nat (n div 10) @ [digit_char (n mod 10)])"

declare str_nat.simps [simp del]

definition str_int :: "int \<Rightarrow> string" where
  "str_int i = (if i < 0 then CHR ''-'' # str_nat (nat (- i)) else str_nat (nat i))"

definition is_digit :: "char \<Rightarrow> bool" where
  "is_digit c \<longleftrightarrow> 48 \<le> (of_char c :: nat) \<and> (of_char c :: nat) \<le> 57"

definition digit_val :: "char \<Rightarrow> nat" where
  "digit_val c = of_char c - 48"

text \<open>
  \<^verbatim>\<open>int(s)\<close>: white space around, an optional sign, then digits, with single underscores between
  digits allowed; anything else raises \<^verbatim>\<open>ValueError\<close> (\<open>None\<close> here).
\<close>

fun digits_val :: "nat \<Rightarrow> string \<Rightarrow> nat option" where
  "digits_val acc [] = Some acc"
| "digits_val acc (c # cs) =
     (if is_digit c then digits_val (10 * acc + digit_val c) cs
      else if c = CHR ''_'' \<and> cs \<noteq> [] \<and> is_digit (hd cs) then digits_val acc cs
      else None)"

definition py_space :: "char \<Rightarrow> bool" where
  "py_space c \<longleftrightarrow> of_char c \<in> {9 :: nat, 10, 11, 12, 13, 28, 29, 30, 31, 32}"

definition strip :: "string \<Rightarrow> string" where
  "strip s = rev (dropWhile py_space (rev (dropWhile py_space s)))"

definition unsigned_int :: "string \<Rightarrow> nat option" where
  "unsigned_int s = (if s \<noteq> [] \<and> is_digit (hd s) then digits_val 0 s else None)"

definition py_int :: "string \<Rightarrow> int option" where
  "py_int s =
     (case strip s of
        [] \<Rightarrow> None
      | c # cs \<Rightarrow>
          if c = CHR ''-'' then map_option (\<lambda>n. - int n) (unsigned_int cs)
          else if c = CHR ''+'' then map_option int (unsigned_int cs)
          else map_option int (unsigned_int (c # cs)))"

lemma of_char_digit_char [simp]: "d < 10 \<Longrightarrow> (of_char (digit_char d) :: nat) = 48 + d"
  by (simp add: digit_char_def)

lemma is_digit_digit_char [simp]: "d < 10 \<Longrightarrow> is_digit (digit_char d)"
  by (simp add: is_digit_def)

lemma digit_val_digit_char [simp]: "d < 10 \<Longrightarrow> digit_val (digit_char d) = d"
  by (simp add: digit_val_def)

lemma digits_val_foldl:
  "list_all is_digit s \<Longrightarrow> digits_val acc s = Some (foldl (\<lambda>a c. 10 * a + digit_val c) acc s)"
  by (induction s arbitrary: acc) auto

lemma str_nat_digits: "list_all is_digit (str_nat n)"
proof (induction n rule: str_nat.induct)
  case (1 n)
  show ?case
  proof (cases "n < 10")
    case True
    then show ?thesis by (simp add: str_nat.simps [of n])
  next
    case False
    with 1 show ?thesis by (simp add: str_nat.simps [of n])
  qed
qed

lemma str_nat_nonempty [simp]: "str_nat n \<noteq> []"
  by (simp add: str_nat.simps [of n])

lemma str_nat_value: "foldl (\<lambda>a c. 10 * a + digit_val c) 0 (str_nat n) = n"
proof (induction n rule: str_nat.induct)
  case (1 n)
  show ?case
  proof (cases "n < 10")
    case True
    then show ?thesis by (simp add: str_nat.simps [of n])
  next
    case False
    with 1 show ?thesis by (simp add: str_nat.simps [of n])
  qed
qed

lemma not_digit [simp]:
  "\<not> is_digit (CHR ''-'')" "\<not> is_digit (CHR ''+'')" "\<not> is_digit (CHR ''#'')"
  "\<not> is_digit (CHR ''.'')" "\<not> is_digit (CHR ''/'')" "\<not> is_digit (CHR ''_'')"
  by (simp_all add: is_digit_def)

lemma digit_not_space: "is_digit c \<Longrightarrow> \<not> py_space c"
  by (auto simp: is_digit_def py_space_def)

lemma str_nat_avoids: "\<not> is_digit c \<Longrightarrow> c \<notin> set (str_nat n)"
  using str_nat_digits [of n] by (auto simp: list_all_iff)

lemma dropWhile_hd: "s \<noteq> [] \<Longrightarrow> \<not> P (hd s) \<Longrightarrow> dropWhile P s = s"
  by (cases s) auto

lemma strip_id: "s \<noteq> [] \<Longrightarrow> \<not> py_space (hd s) \<Longrightarrow> \<not> py_space (last s) \<Longrightarrow> strip s = s"
  by (simp add: strip_def dropWhile_hd hd_rev)

lemma strip_digits: "list_all is_digit s \<Longrightarrow> strip s = s"
  by (cases "s = []")
    (simp_all add: strip_id list_all_iff digit_not_space strip_def [of "[]"])

lemma py_int_str_nat [simp]: "py_int (str_nat n) = Some (int n)"
proof -
  have d: "list_all is_digit (str_nat n)" by (rule str_nat_digits)
  obtain c cs where s: "str_nat n = c # cs" using str_nat_nonempty by (metis neq_Nil_conv)
  with d have c: "is_digit c" by simp
  then have "c \<noteq> CHR ''-''" "c \<noteq> CHR ''+''" using not_digit by blast+
  moreover have "unsigned_int (c # cs) = Some n"
    using d c by (simp add: unsigned_int_def s [symmetric] digits_val_foldl str_nat_value) (simp add: s)
  ultimately show ?thesis
    by (simp add: py_int_def strip_digits [OF d]) (simp add: s)
qed

lemma py_int_str_int [simp]: "py_int (str_int i) = Some i"
proof (cases "i < 0")
  case True
  have d: "list_all is_digit (str_nat (nat (- i)))" by (rule str_nat_digits)
  obtain c cs where s: "str_nat (nat (- i)) = c # cs" using str_nat_nonempty by (metis neq_Nil_conv)
  have "last (str_nat (nat (- i))) \<in> set (str_nat (nat (- i)))" by simp
  with d have "\<not> py_space (last (str_nat (nat (- i))))"
    by (auto simp: list_all_iff digit_not_space)
  then have "strip (CHR ''-'' # str_nat (nat (- i))) = CHR ''-'' # str_nat (nat (- i))"
    by (intro strip_id) (simp_all add: py_space_def)
  moreover have "unsigned_int (str_nat (nat (- i))) = Some (nat (- i))"
    using d by (simp add: unsigned_int_def digits_val_foldl str_nat_value) (simp add: s)
  ultimately show ?thesis using True by (simp add: py_int_def str_int_def)
next
  case False
  then show ?thesis by (simp add: str_int_def)
qed

end
