(* ===== verification/OnDisk.thy ===== *)
theory OnDisk
  imports PyStrings
begin

text \<open>
  \<^verbatim>\<open>BaseDiskFileManager\<close> of \<^verbatim>\<open>swift_patches/obj/bs_diskfile.py\<close>: deciding from the names in an object's
  hash directory which files make up the object (\<^verbatim>\<open>get_ondisk_files\<close>), and removing the others
  (\<^verbatim>\<open>cleanup_ondisk_files\<close>).  The methods a subclass overrides (\<^verbatim>\<open>parse_on_disk_filename\<close>,
  \<^verbatim>\<open>_process_ondisk_files\<close>, \<^verbatim>\<open>_verify_ondisk_files\<close>) are the fields of a record \<open>policy_ops\<close>, and the
  locale \<open>ondisk_policy\<close> states what the template relies on from them; the theories \<open>Replicated\<close> and
  \<open>ErasureCoded\<close> interpret it.

  \<^verbatim>\<open>swift.common.utils.Timestamp\<close> is not part of the repository: timestamps are a type \<open>'t\<close> with a
  total order whose least element \<open>bot\<close> is \<^verbatim>\<open>Timestamp(0)\<close>; a comparison with \<^verbatim>\<open>None\<close> puts \<^verbatim>\<open>None\<close>
  below every timestamp.
\<close>

section \<open>Data\<close>

text \<open>
  A file info dictionary: the keys \<^verbatim>\<open>timestamp\<close>, \<^verbatim>\<open>ext\<close>, \<^verbatim>\<open>ctype_timestamp\<close> and \<^verbatim>\<open>filename\<close>, and for the
  EC policy \<^verbatim>\<open>frag_index\<close> and \<^verbatim>\<open>durable\<close> (\<open>None\<close> when the key is absent).
\<close>

record 't finfo =
  fi_timestamp :: 't
  fi_ext :: string
  fi_ctype :: "'t option"
  fi_frag :: "int option"
  fi_durable :: "bool option"
  fi_filename :: string

type_synonym 't exts = "(string, 't finfo list) dict"
type_synonym 't frag_sets = "('t, 't finfo list) dict"

text \<open>
  The results dictionary.  The lists are empty where the key is absent, the options \<open>None\<close>;
  \<open>r_durable_frag_set\<close> is \<open>Some None\<close> when the key holds \<^verbatim>\<open>None\<close>.
\<close>

record 't results =
  r_unexpected :: "string list"
  r_obsolete :: "'t finfo list"
  r_possible_reclaim :: "'t finfo list"
  r_data_info :: "'t finfo option"
  r_meta_info :: "'t finfo option"
  r_ts_info :: "'t finfo option"
  r_ctype_info :: "'t finfo option"
  r_data_file :: "string option"
  r_meta_file :: "string option"
  r_ts_file :: "string option"
  r_ctype_file :: "string option"
  r_durable_frag_set :: "'t finfo list option option"
  r_chosen_frag_set :: "'t finfo list option"
  r_frag_sets :: "'t frag_sets option"

definition empty_results :: "'t results" where
  "empty_results =
     \<lparr>r_unexpected = [], r_obsolete = [], r_possible_reclaim = [],
      r_data_info = None, r_meta_info = None, r_ts_info = None, r_ctype_info = None,
      r_data_file = None, r_meta_file = None, r_ts_file = None, r_ctype_file = None,
      r_durable_frag_set = None, r_chosen_frag_set = None, r_frag_sets = None\<rparr>"

definition add_obsolete :: "'t finfo list \<Rightarrow> 't results \<Rightarrow> 't results" where
  "add_obsolete l r = r\<lparr>r_obsolete := r_obsolete r @ l\<rparr>"

definition add_reclaim :: "'t finfo list \<Rightarrow> 't results \<Rightarrow> 't results" where
  "add_reclaim l r = r\<lparr>r_possible_reclaim := r_possible_reclaim r @ l\<rparr>"

text \<open>\<^verbatim>\<open>exts\<close> is a \<^verbatim>\<open>defaultdict(list)\<close>; \<^verbatim>\<open>exts.get(e)\<close> is used for its truth value only.\<close>

definition files_of :: "'t exts \<Rightarrow> string \<Rightarrow> 't finfo list" where
  "files_of exts e = dict_get exts e []"

definition set_files :: "string \<Rightarrow> 't finfo list \<Rightarrow> 't exts \<Rightarrow> 't exts" where
  "set_files e l exts = AList.update e l exts"

text \<open>The methods of the subclass, with the keyword arguments of the call already applied.\<close>

record 't policy_ops =
  op_parse :: "string \<Rightarrow> pyexc + 't finfo"
  op_process :: "'t exts \<Rightarrow> 't results \<Rightarrow> pyexc + ('t exts \<times> 't results)"
  op_verify :: "'t results \<Rightarrow> bool"

section \<open>Splitting sorted lists\<close>

fun split_list :: "('a \<Rightarrow> bool) \<Rightarrow> 'a list \<Rightarrow> 'a list \<times> 'a list" where
  "split_list c [] = ([], [])"
| "split_list c (x # xs) =
     (if \<not> c x then ([], x # xs)
      else (x # fst (split_list c xs), snd (split_list c xs)))"

definition split_gt_timestamp ::
  "'t :: linorder finfo list \<Rightarrow> 't \<Rightarrow> 't finfo list \<times> 't finfo list" where
  "split_gt_timestamp l t = split_list (\<lambda>x. fi_timestamp x > t) l"

definition split_gte_timestamp ::
  "'t :: linorder finfo list \<Rightarrow> 't \<Rightarrow> 't finfo list \<times> 't finfo list" where
  "split_gte_timestamp l t = split_list (\<lambda>x. fi_timestamp x \<ge> t) l"

text \<open>
  \<^verbatim>\<open>for ext in exts: exts[ext], older = split(exts[ext]); obsolete.extend(older)\<close>, over the selected
  keys in the order of the dictionary.
\<close>

definition split_exts ::
  "(string \<Rightarrow> 't finfo list \<Rightarrow> 't finfo list \<times> 't finfo list) \<Rightarrow> 't exts \<Rightarrow> 't exts \<times> 't finfo list" where
  "split_exts sp exts =
     (map (\<lambda>(e, l). (e, fst (sp e l))) exts, concat (map (\<lambda>(e, l). snd (sp e l)) exts))"

section \<open>get_ondisk_files\<close>

text \<open>The first loop: parse every name and sort the infos into lists by extension.\<close>

fun categorize ::
  "(string \<Rightarrow> pyexc + 't finfo) \<Rightarrow> string \<Rightarrow> string list \<Rightarrow> 't exts \<Rightarrow> 't results
     \<Rightarrow> pyexc + ('t exts \<times> 't results)" where
  "categorize parse datadir [] exts res = Inr (exts, res)"
| "categorize parse datadir (f # fs) exts res =
     (case parse f of
        Inr info \<Rightarrow>
          (let info = info\<lparr>fi_filename := f\<rparr>; e = fi_ext info
           in categorize parse datadir fs (set_files e (files_of exts e @ [info]) exts) res)
      | Inl exc \<Rightarrow>
          if is_disk_file_error exc
          then categorize parse datadir fs exts
                 (res\<lparr>r_unexpected := r_unexpected res @ [join datadir f]\<rparr>)
          else Inl exc)"

definition sort_exts :: "'t :: linorder exts \<Rightarrow> 't exts" where
  "sort_exts exts = map (\<lambda>(e, l). (e, sorted_rev fi_timestamp l)) exts"

text \<open>What is at most as new as the newest tombstone is obsolete, and so are older tombstones.\<close>

definition drop_tombstoned ::
  "'t :: linorder exts \<Rightarrow> 't results \<Rightarrow> 't exts \<times> 't results" where
  "drop_tombstoned exts res =
     (case files_of exts ''.ts'' of
        [] \<Rightarrow> (exts, res)
      | t # ts \<Rightarrow>
          (let (exts, older) =
                 split_exts (\<lambda>e l. if e \<noteq> ''.ts'' then split_gt_timestamp l (fi_timestamp t) else (l, []))
                   exts;
               res = add_obsolete older res;
               res = add_obsolete ts res
           in (set_files ''.ts'' [t] exts, res)))"

text \<open>\<^verbatim>\<open>info['ctype_timestamp'] or 0\<close>\<close>

definition ctype_or_0 :: "'t :: {linorder, order_bot} finfo \<Rightarrow> 't" where
  "ctype_or_0 i = (case fi_ctype i of None \<Rightarrow> bot | Some t \<Rightarrow> t)"

text \<open>
  The \<^verbatim>\<open>.meta\<close> files to keep: the newest, and a second one when it has a newer content type; the
  second component is the number of files kept at the head of the reordered list.
\<close>

definition retain_meta :: "'t :: {linorder, order_bot} finfo list \<Rightarrow> 't finfo list \<times> nat" where
  "retain_meta ms =
     (case ms of
        [] \<Rightarrow> ([], 1)
      | m0 # rest \<Rightarrow>
          (case sorted_rev ctype_or_0 rest of
             [] \<Rightarrow> (ms, 1)
           | m1 # rest' \<Rightarrow>
               if ctype_or_0 m1 > ctype_or_0 m0
               then if fi_timestamp m1 = fi_timestamp m0
                    then (m1 # m0 # rest', 1)
                    else (m0 # m1 # rest', 2)
               else (m0 # m1 # rest', 1)))"

definition drop_old_meta ::
  "'t :: {linorder, order_bot} exts \<Rightarrow> 't results \<Rightarrow> 't exts \<times> 't results" where
  "drop_old_meta exts res =
     (if files_of exts ''.meta'' = [] then (exts, res)
      else (let (ms, retain) = retain_meta (files_of exts ''.meta'')
            in (set_files ''.meta'' (take retain ms) exts, add_obsolete (drop retain ms) res)))"

text \<open>\<^verbatim>\<open>ctype_timestamp > timestamp\<close>, false for \<^verbatim>\<open>None\<close>\<close>

definition newer_than :: "'t :: linorder option \<Rightarrow> 't \<Rightarrow> bool" where
  "newer_than c t = (case c of None \<Rightarrow> False | Some c \<Rightarrow> c > t)"

definition choose_files ::
  "string \<Rightarrow> 't :: {linorder, order_bot} exts \<Rightarrow> 't results \<Rightarrow> 't results" where
  "choose_files datadir exts res =
     (let res =
        (case r_data_info res of
           Some d \<Rightarrow>
             (case files_of exts ''.meta'' of
                [] \<Rightarrow> res
              | m # ms \<Rightarrow>
                  (let res = res\<lparr>r_meta_info := Some m\<rparr>; c = last (m # ms)
                   in if newer_than (fi_ctype c) (fi_timestamp d)
                      then res\<lparr>r_ctype_info := Some c\<rparr> else res))
         | None \<Rightarrow>
             (case files_of exts ''.ts'' of
                [] \<Rightarrow> res
              | t # ts \<Rightarrow> res\<lparr>r_ts_info := Some t\<rparr>));
        path = map_option (\<lambda>i. join datadir (fi_filename i))
      in res\<lparr>r_data_file := path (r_data_info res), r_meta_file := path (r_meta_info res),
             r_ts_file := path (r_ts_info res), r_ctype_file := path (r_ctype_info res)\<rparr>)"

text \<open>\<^verbatim>\<open>BaseDiskFileManager._verify_ondisk_files\<close>\<close>

definition base_verify :: "'t results \<Rightarrow> bool" where
  "base_verify res \<longleftrightarrow>
     (r_data_file res = None \<and> r_meta_file res = None \<and> r_ts_file res = None) \<or>
     (r_ts_file res \<noteq> None \<and> r_data_file res = None \<and> r_meta_file res = None) \<or>
     (r_data_file res \<noteq> None \<and> r_ts_file res = None)"

definition get_ondisk_files ::
  "'t :: {linorder, order_bot} policy_ops \<Rightarrow> string list \<Rightarrow> string \<Rightarrow> bool \<Rightarrow> pyexc + 't results" where
  "get_ondisk_files ops files datadir verify =
     try_then (categorize (op_parse ops) datadir files [] empty_results) (\<lambda>(exts, res).
     let exts = sort_exts exts;
         (exts, res) = drop_tombstoned exts res;
         (exts, res) = drop_old_meta exts res
     in try_then (op_process ops exts res) (\<lambda>(exts, res).
        let res = choose_files datadir exts res
        in if verify \<and> \<not> op_verify ops res then Inl RuntimeError else Inr res))"

section \<open>cleanup_ondisk_files\<close>

text \<open>
  What the clean-up reads of its surroundings: the clock, \<^verbatim>\<open>float(timestamp)\<close>, the manager's
  \<^verbatim>\<open>reclaim_age\<close> and \<^verbatim>\<open>commit_window\<close>, and \<^verbatim>\<open>is_file_older(path, commit_window)\<close>, all times in the
  same unit.
\<close>

record 't clean_env =
  ce_now :: int
  ce_float :: "'t \<Rightarrow> int"
  ce_reclaim_age :: int
  ce_commit_window :: int
  ce_older :: "string \<Rightarrow> bool"

definition is_reclaimable :: "'t clean_env \<Rightarrow> 't \<Rightarrow> bool" where
  "is_reclaimable env t \<longleftrightarrow> ce_now env - ce_float env t > ce_reclaim_age env"

text \<open>
  A hash directory is the list of the names in it, \<open>None\<close> when it does not exist.  \<^verbatim>\<open>remove_file\<close>
  (of Swift's library) unlinks a name and does not mind that it is gone; that an unlink fails otherwise, and leaves the
  file, is not modelled.  A name that is not in the list \<^verbatim>\<open>files\<close> any more
  makes \<^verbatim>\<open>files.remove\<close> raise.
\<close>

fun remove_files ::
  "'t finfo list \<Rightarrow> string list \<Rightarrow> string list \<Rightarrow> string list \<times> (pyexc + string list)" where
  "remove_files [] disk files = (disk, Inr files)"
| "remove_files (i # is) disk files =
     (let disk = removeAll (fi_filename i) disk
      in if fi_filename i \<in> set files then remove_files is disk (remove1 (fi_filename i) files)
         else (disk, Inl ValueError))"

definition reclaimable_now :: "'t clean_env \<Rightarrow> string \<Rightarrow> 't finfo \<Rightarrow> bool" where
  "reclaimable_now env hsh_path i \<longleftrightarrow>
     is_reclaimable env (fi_timestamp i) \<and>
     ((case fi_durable i of None \<Rightarrow> True | Some b \<Rightarrow> b) \<or>
      ce_commit_window env \<le> 0 \<or>
      ce_older env (join hsh_path (fi_filename i)))"

text \<open>
  The result: the directory afterwards, and the results dictionary with the names left (the key
  \<^verbatim>\<open>files\<close>) or the exception.
\<close>

definition cleanup_ondisk_files ::
  "'t :: {linorder, order_bot} policy_ops \<Rightarrow> 't clean_env \<Rightarrow> string \<Rightarrow> string list option
     \<Rightarrow> string list option \<times> (pyexc + ('t results \<times> string list))" where
  "cleanup_ondisk_files ops env hsh_path dir =
     (case dir of
        None \<Rightarrow> (None, map_sum id (\<lambda>res. (res, [])) (get_ondisk_files ops [] hsh_path False))
      | Some disk \<Rightarrow>
          (let files = rev (sort disk)
           in case get_ondisk_files ops files hsh_path False of
                Inl e \<Rightarrow> (Some disk, Inl e)
              | Inr res \<Rightarrow>
                  (let (res, stale_ts) =
                         (case r_ts_info res of
                            Some t \<Rightarrow>
                              if is_reclaimable env (fi_timestamp t)
                              then (res\<lparr>r_ts_info := None\<rparr>, [t]) else (res, [])
                          | None \<Rightarrow> (res, []));
                       res = add_obsolete
                               (filter (reclaimable_now env hsh_path) (r_possible_reclaim res)) res;
                       (disk, left) = remove_files (stale_ts @ r_obsolete res) disk files
                   in case left of
                        Inl e \<Rightarrow> (Some disk, Inl e)
                      | Inr files \<Rightarrow>
                          (if files = [] \<and> disk = [] then None else Some disk,
                           Inr (res, files)))))"

section \<open>Splitting and the extension dictionary\<close>

named_theorems ondisk_simps

lemma split_list_eq: "split_list c xs = (takeWhile c xs, dropWhile c xs)"
  by (induction xs) auto

lemma split_list_append: "fst (split_list c xs) @ snd (split_list c xs) = xs"
  by (simp add: split_list_eq)

lemma descending_takeWhile:
  "descending k xs \<Longrightarrow> (\<And>x y. k y \<le> k x \<Longrightarrow> P y \<Longrightarrow> P x) \<Longrightarrow>
     takeWhile P xs = filter P xs \<and> dropWhile P xs = filter (\<lambda>x. \<not> P x) xs"
proof (induction xs)
  case (Cons x xs)
  show ?case
  proof (cases "P x")
    case True
    with Cons show ?thesis by (simp add: descending_Cons)
  next
    case False
    with Cons have "\<forall>y \<in> set xs. \<not> P y" by (auto simp: descending_Cons)
    with False show ?thesis by simp
  qed
qed simp

text \<open>On a list sorted newest first the splits are filters.\<close>

lemma split_gt_filter [ondisk_simps]:
  "descending fi_timestamp l \<Longrightarrow>
     split_gt_timestamp l t =
       (filter (\<lambda>i. t < fi_timestamp i) l, filter (\<lambda>i. fi_timestamp i \<le> t) l)"
  using descending_takeWhile [of fi_timestamp l "\<lambda>i. t < fi_timestamp i"]
  by (simp add: split_gt_timestamp_def split_list_eq not_less)

lemma split_gte_filter [ondisk_simps]:
  "descending fi_timestamp l \<Longrightarrow>
     split_gte_timestamp l t =
       (filter (\<lambda>i. t \<le> fi_timestamp i) l, filter (\<lambda>i. fi_timestamp i < t) l)"
  using descending_takeWhile [of fi_timestamp l "\<lambda>i. t \<le> fi_timestamp i"]
  by (simp add: split_gte_timestamp_def split_list_eq not_le)

lemma split_gt_Nil [simp]: "split_gt_timestamp [] t = ([], [])"
  by (simp add: split_gt_timestamp_def)

lemma split_gte_Nil [simp]: "split_gte_timestamp [] t = ([], [])"
  by (simp add: split_gte_timestamp_def)

lemma set_split_gt: "set l = set (fst (split_gt_timestamp l t)) \<union> set (snd (split_gt_timestamp l t))"
  by (metis set_append split_gt_timestamp_def split_list_append)

lemma set_split_gte: "set l = set (fst (split_gte_timestamp l t)) \<union> set (snd (split_gte_timestamp l t))"
  by (metis set_append split_gte_timestamp_def split_list_append)

lemma files_of_set_files [simp]: "files_of (set_files e l exts) e' = (if e' = e then l else files_of exts e')"
  by (simp add: files_of_def set_files_def)

lemma files_of_Nil [simp]: "files_of [] e = []"
  by (simp add: files_of_def dict_get_def)

lemma files_of_map [simp]:
  "f e [] = [] \<Longrightarrow> files_of (map (\<lambda>(e, l). (e, f e l)) exts) e = f e (files_of exts e)"
  by (simp add: files_of_def) (simp add: dict_get_def split: option.split)

lemma files_of_sort_exts [simp]: "files_of (sort_exts exts) e = sorted_rev fi_timestamp (files_of exts e)"
  unfolding sort_exts_def by (rule files_of_map) simp

lemma files_of_split_exts:
  "fst (sp e []) = [] \<Longrightarrow> files_of (fst (split_exts sp exts)) e = fst (sp e (files_of exts e))"
  unfolding split_exts_def by (simp add: files_of_map [where f = "\<lambda>e l. fst (sp e l)"])

definition keys_ok :: "'t exts \<Rightarrow> bool" where
  "keys_ok exts \<longleftrightarrow> distinct (map fst exts)"

lemma keys_ok_set_files [simp, intro]: "keys_ok exts \<Longrightarrow> keys_ok (set_files e l exts)"
  by (simp add: keys_ok_def set_files_def AList.distinct_update)

lemma keys_ok_map [simp]: "keys_ok (map (\<lambda>(e, l). (e, f e l)) exts) = keys_ok exts"
  by (simp add: keys_ok_def split_def comp_def)

lemma keys_ok_sort [simp]: "keys_ok (sort_exts exts) = keys_ok exts"
  by (simp add: sort_exts_def)

lemma keys_ok_split [simp]: "keys_ok (fst (split_exts sp exts)) = keys_ok exts"
  by (simp add: split_exts_def keys_ok_map [where f = "\<lambda>e l. fst (sp e l)"])

lemma files_of_entry: "keys_ok exts \<Longrightarrow> (e, l) \<in> set exts \<Longrightarrow> files_of exts e = l"
  by (simp add: keys_ok_def files_of_def dict_get_def)

lemma in_files_of: "i \<in> set (files_of exts e) \<Longrightarrow> (e, files_of exts e) \<in> set exts"
  by (auto simp: files_of_def dict_get_def split: option.splits dest: map_of_SomeD)

lemma set_older_split_exts:
  assumes "keys_ok exts" and "\<And>e. snd (sp e []) = []"
  shows "set (snd (split_exts sp exts)) = (\<Union>e. set (snd (sp e (files_of exts e))))"
proof
  show "set (snd (split_exts sp exts)) \<subseteq> (\<Union>e. set (snd (sp e (files_of exts e))))"
    using files_of_entry [OF assms(1)] by (fastforce simp: split_exts_def)
  show "(\<Union>e. set (snd (sp e (files_of exts e)))) \<subseteq> set (snd (split_exts sp exts))"
  proof
    fix x assume "x \<in> (\<Union>e. set (snd (sp e (files_of exts e))))"
    then obtain e where x: "x \<in> set (snd (sp e (files_of exts e)))" by auto
    with assms(2) [of e] have "files_of exts e \<noteq> []" by auto
    then obtain i where "i \<in> set (files_of exts e)" by (meson list.set_sel(1))
    then have "(e, files_of exts e) \<in> set exts" by (rule in_files_of)
    with x show "x \<in> set (snd (split_exts sp exts))" by (fastforce simp: split_exts_def)
  qed
qed

section \<open>The lists the template builds\<close>

text \<open>The infos of a directory listing, in the order of the listing.\<close>

fun infos :: "(string \<Rightarrow> pyexc + 't finfo) \<Rightarrow> string list \<Rightarrow> 't finfo list" where
  "infos parse [] = []"
| "infos parse (f # fs) =
     (case parse f of Inl e \<Rightarrow> infos parse fs | Inr i \<Rightarrow> i\<lparr>fi_filename := f\<rparr> # infos parse fs)"

definition of_ext :: "string \<Rightarrow> 't finfo list \<Rightarrow> 't finfo list" where
  "of_ext e l = filter (\<lambda>i. fi_ext i = e) l"

lemma in_infos:
  "i \<in> set (infos parse fs) \<longleftrightarrow> (\<exists>f \<in> set fs. \<exists>i0. parse f = Inr i0 \<and> i = i0\<lparr>fi_filename := f\<rparr>)"
  by (induction fs) (auto split: sum.splits)

lemma infos_filename: "i \<in> set (infos parse fs) \<Longrightarrow> fi_filename i \<in> set fs"
  by (auto simp: in_infos)

lemma infos_filter:
  "infos parse (filter P fs) = filter (\<lambda>i. P (fi_filename i)) (infos parse fs)"
  by (induction fs) (auto split: sum.splits)

lemma infos_inj:
  "i \<in> set (infos parse fs) \<Longrightarrow> j \<in> set (infos parse fs) \<Longrightarrow> fi_filename i = fi_filename j \<Longrightarrow> i = j"
  by (auto simp: in_infos)

lemma categorize_spec:
  assumes "\<And>f e. f \<in> set fs \<Longrightarrow> parse f = Inl e \<Longrightarrow> is_disk_file_error e"
  shows "\<exists>exts'. categorize parse datadir fs exts res =
      Inr (exts', res\<lparr>r_unexpected := r_unexpected res @
             map (join datadir) (filter (\<lambda>f. isl (parse f)) fs)\<rparr>) \<and>
      (\<forall>e. files_of exts' e = files_of exts e @ of_ext e (infos parse fs)) \<and>
      (keys_ok exts \<longrightarrow> keys_ok exts')"
  using assms
proof (induction fs arbitrary: exts res)
  case Nil
  then show ?case by (simp add: of_ext_def)
next
  case (Cons f fs)
  show ?case
  proof (cases "parse f")
    case (Inl e)
    with Cons.prems have "is_disk_file_error e" by auto
    with Inl Cons.IH [of exts "res\<lparr>r_unexpected := r_unexpected res @ [join datadir f]\<rparr>"] Cons.prems
    show ?thesis by auto
  next
    case (Inr i)
    let ?i = "i\<lparr>fi_filename := f\<rparr>"
    let ?exts = "set_files (fi_ext ?i) (files_of exts (fi_ext ?i) @ [?i]) exts"
    obtain exts' where *: "categorize parse datadir fs ?exts res =
      Inr (exts', res\<lparr>r_unexpected := r_unexpected res @
             map (join datadir) (filter (\<lambda>f. isl (parse f)) fs)\<rparr>)"
      "\<forall>e. files_of exts' e = files_of ?exts e @ of_ext e (infos parse fs)"
      "keys_ok ?exts \<longrightarrow> keys_ok exts'"
      using Cons.IH [of ?exts res] Cons.prems by auto
    with Inr show ?thesis by (auto simp: Let_def of_ext_def)
  qed
qed

text \<open>
  The dictionary as a function from extensions to lists: what the first three steps leave in it and
  mark as obsolete.
\<close>

abbreviation sorted_exts :: "'t :: linorder exts \<Rightarrow> bool" where
  "sorted_exts exts \<equiv> \<forall>e. descending fi_timestamp (files_of exts e)"

lemma files_of_drop_tombstoned [ondisk_simps]:
  assumes "sorted_exts exts"
  shows "files_of (fst (drop_tombstoned exts res)) e =
    (case files_of exts ''.ts'' of
       [] \<Rightarrow> files_of exts e
     | t # ts \<Rightarrow> if e = ''.ts'' then [t]
                else filter (\<lambda>i. fi_timestamp t < fi_timestamp i) (files_of exts e))"
  using assms
  by (auto simp: drop_tombstoned_def files_of_split_exts split_gt_filter split_def Let_def split: list.split)

lemma drop_tombstoned_keys [simp]: "keys_ok exts \<Longrightarrow> keys_ok (fst (drop_tombstoned exts res))"
  by (auto simp: drop_tombstoned_def split_def Let_def split: list.split)

lemma obsolete_drop_tombstoned [ondisk_simps]:
  assumes "sorted_exts exts" and "keys_ok exts"
  shows "set (r_obsolete (snd (drop_tombstoned exts res))) = set (r_obsolete res) \<union>
    (case files_of exts ''.ts'' of
       [] \<Rightarrow> {}
     | t # ts \<Rightarrow> set ts \<union>
         (\<Union>e \<in> - {''.ts''}. {i \<in> set (files_of exts e). fi_timestamp i \<le> fi_timestamp t}))"
proof (cases "files_of exts ''.ts''")
  case Nil
  then show ?thesis by (simp add: drop_tombstoned_def)
next
  case (Cons t ts)
  let ?sp = "\<lambda>e l. if e \<noteq> ''.ts'' then split_gt_timestamp l (fi_timestamp t) else (l, [])"
  have "set (snd (split_exts ?sp exts)) = (\<Union>e. set (snd (?sp e (files_of exts e))))"
    using assms(2) by (rule set_older_split_exts) simp
  also have "\<dots> = (\<Union>e \<in> - {''.ts''}. {i \<in> set (files_of exts e). fi_timestamp i \<le> fi_timestamp t})"
    using assms(1) by (auto simp: split_gt_filter split: if_splits)
  finally show ?thesis
    by (auto simp: drop_tombstoned_def Cons split_def Let_def add_obsolete_def)
qed

lemma files_of_drop_old_meta [ondisk_simps]:
  "files_of (fst (drop_old_meta exts res)) e =
    (if e = ''.meta''
     then take (snd (retain_meta (files_of exts ''.meta''))) (fst (retain_meta (files_of exts ''.meta'')))
     else files_of exts e)"
  by (auto simp: drop_old_meta_def split_def Let_def retain_meta_def)

lemma drop_old_meta_keys [simp]: "keys_ok exts \<Longrightarrow> keys_ok (fst (drop_old_meta exts res))"
  by (simp add: drop_old_meta_def split_def Let_def)

lemma obsolete_drop_old_meta [ondisk_simps]:
  "set (r_obsolete (snd (drop_old_meta exts res))) = set (r_obsolete res) \<union>
     set (drop (snd (retain_meta (files_of exts ''.meta''))) (fst (retain_meta (files_of exts ''.meta''))))"
  by (auto simp: drop_old_meta_def split_def Let_def add_obsolete_def retain_meta_def)

text \<open>Only the obsolete list changes.\<close>

definition same_but_dropped :: "'t results \<Rightarrow> 't results \<Rightarrow> bool" where
  "same_but_dropped r r' \<longleftrightarrow>
     r' = r\<lparr>r_obsolete := r_obsolete r', r_possible_reclaim := r_possible_reclaim r'\<rparr>"

lemma same_but_dropped_unexpected: "same_but_dropped r r' \<Longrightarrow> r_unexpected r' = r_unexpected r"
  by (cases r; cases r') (simp add: same_but_dropped_def)

lemma same_but_dropped_trans: "same_but_dropped r r' \<Longrightarrow> same_but_dropped r' r'' \<Longrightarrow> same_but_dropped r r''"
  by (cases r; cases r'; cases r'') (simp add: same_but_dropped_def)

lemma drop_tombstoned_same [simp]: "same_but_dropped res (snd (drop_tombstoned exts res))"
  by (simp add: same_but_dropped_def drop_tombstoned_def split_def Let_def add_obsolete_def split: list.split)

lemma drop_old_meta_same [simp]: "same_but_dropped res (snd (drop_old_meta exts res))"
  by (simp add: same_but_dropped_def drop_old_meta_def split_def Let_def add_obsolete_def)

lemma drop_tombstoned_reclaim [simp]: "r_possible_reclaim (snd (drop_tombstoned exts res)) = r_possible_reclaim res"
  by (simp add: drop_tombstoned_def split_def Let_def add_obsolete_def split: list.split)

lemma drop_old_meta_reclaim [simp]: "r_possible_reclaim (snd (drop_old_meta exts res)) = r_possible_reclaim res"
  by (simp add: drop_old_meta_def split_def Let_def add_obsolete_def)

section \<open>The retained .meta files\<close>

definition kept_meta :: "'t :: {linorder, order_bot} finfo list \<Rightarrow> 't finfo list" where
  "kept_meta ms = take (snd (retain_meta ms)) (fst (retain_meta ms))"

definition dropped_meta :: "'t :: {linorder, order_bot} finfo list \<Rightarrow> 't finfo list" where
  "dropped_meta ms = drop (snd (retain_meta ms)) (fst (retain_meta ms))"

lemma set_retain_meta: "set (fst (retain_meta ms)) = set ms"
proof (cases ms)
  case (Cons m0 rest)
  have "set (sorted_rev ctype_or_0 rest) = set rest" by simp
  then show ?thesis
    by (cases "sorted_rev ctype_or_0 rest") (auto simp: retain_meta_def Cons)
qed (simp add: retain_meta_def)

lemma set_kept_dropped: "set (kept_meta ms) \<union> set (dropped_meta ms) = set ms"
  by (simp add: kept_meta_def dropped_meta_def flip: set_append) (simp add: set_retain_meta)

lemma kept_meta_Nil [simp]: "kept_meta ms = [] \<longleftrightarrow> ms = []"
  by (auto simp: kept_meta_def retain_meta_def split: list.split)

lemma kept_meta_cases:
  assumes "ms \<noteq> []" and "descending fi_timestamp ms"
  obtains (one) m where "kept_meta ms = [m]" "m \<in> set ms"
      "\<forall>i \<in> set ms. fi_timestamp i \<le> fi_timestamp m \<and> ctype_or_0 i \<le> ctype_or_0 m"
    | (two) m c where "kept_meta ms = [m, c]" "m \<in> set ms" "c \<in> set ms"
      "fi_timestamp c < fi_timestamp m" "ctype_or_0 m < ctype_or_0 c"
      "\<forall>i \<in> set ms. fi_timestamp i \<le> fi_timestamp m \<and> ctype_or_0 i \<le> ctype_or_0 c"
proof -
  obtain m0 rest where ms: "ms = m0 # rest" using assms(1) by (cases ms) auto
  have m0: "\<forall>i \<in> set rest. fi_timestamp i \<le> fi_timestamp m0"
    using assms(2) by (simp add: ms descending_Cons)
  show thesis
  proof (cases "sorted_rev ctype_or_0 rest")
    case Nil
    then have "rest = []" by simp
    then show thesis using one [of m0] by (simp add: kept_meta_def retain_meta_def ms)
  next
    case (Cons m1 rest')
    have sub: "set rest = insert m1 (set rest')" by (metis Cons list.simps(15) set_sorted_rev)
    have m1: "\<forall>i \<in> set rest. ctype_or_0 i \<le> ctype_or_0 m1"
      by (metis Cons descending_hd descending_sorted_rev list.sel(1) set_sorted_rev)
    consider (old) "\<not> ctype_or_0 m0 < ctype_or_0 m1"
      | (same) "ctype_or_0 m0 < ctype_or_0 m1" "fi_timestamp m1 = fi_timestamp m0"
      | (both) "ctype_or_0 m0 < ctype_or_0 m1" "fi_timestamp m1 \<noteq> fi_timestamp m0" by blast
    then show thesis
    proof cases
      case old
      with m0 m1 show thesis
        by (intro one [of m0]) (auto simp: kept_meta_def retain_meta_def ms Cons not_less dest: order_trans)
    next
      case same
      with m0 m1 sub show thesis
        by (intro one [of m1]) (auto simp: kept_meta_def retain_meta_def ms Cons)
    next
      case both
      with m0 m1 sub show thesis
        by (intro two [of m0 m1]) (auto simp: kept_meta_def retain_meta_def ms Cons order_less_le)
    qed
  qed
qed

lemma descending_kept_meta: "descending fi_timestamp ms \<Longrightarrow> descending fi_timestamp (kept_meta ms)"
proof (cases "ms = []")
  case False
  assume "descending fi_timestamp ms"
  with False show ?thesis by (cases rule: kept_meta_cases) (auto simp: descending_Cons)
qed (simp add: kept_meta_def retain_meta_def)

lemma strictly_kept_meta: "descending fi_timestamp ms \<Longrightarrow> strictly fi_timestamp (kept_meta ms)"
proof (cases "ms = []")
  case False
  assume "descending fi_timestamp ms"
  with False show ?thesis by (cases rule: kept_meta_cases) (auto simp: strictly_def)
qed (simp add: kept_meta_def retain_meta_def strictly_def)

lemma kept_meta_idem: "descending fi_timestamp ms \<Longrightarrow> retain_meta (kept_meta ms) = (kept_meta ms, max 1 (length (kept_meta ms)))"
proof (cases "ms = []")
  case False
  assume "descending fi_timestamp ms"
  with False show ?thesis
    by (cases rule: kept_meta_cases) (auto simp: retain_meta_def sorted_rev_def)
qed (simp add: kept_meta_def retain_meta_def)

section \<open>No file is counted twice\<close>

text \<open>
  The steps move infos between the dictionary and the obsolete list and lose or duplicate none.
\<close>

definition all_files :: "'t exts \<Rightarrow> 't finfo list" where
  "all_files exts = concat (map snd exts)"

lemma all_files_simps [simp]: "all_files [] = []" "all_files ((e, l) # exts) = l @ all_files exts"
  by (simp_all add: all_files_def)

lemma set_all_files:
  assumes "keys_ok exts"
  shows "set (all_files exts) = (\<Union>e. set (files_of exts e))"
proof
  show "set (all_files exts) \<subseteq> (\<Union>e. set (files_of exts e))"
    using files_of_entry [OF assms] by (fastforce simp: all_files_def)
  show "(\<Union>e. set (files_of exts e)) \<subseteq> set (all_files exts)"
  proof
    fix i assume "i \<in> (\<Union>e. set (files_of exts e))"
    then obtain e where i: "i \<in> set (files_of exts e)" by auto
    then have "(e, files_of exts e) \<in> set exts" by (rule in_files_of)
    then have "files_of exts e \<in> set (map snd exts)" by force
    with i show "i \<in> set (all_files exts)" unfolding all_files_def set_concat by blast
  qed
qed

lemma mset_move: "x + a = y + k \<Longrightarrow> d + k = a \<Longrightarrow> d + x = (y :: 'a multiset)"
  by (metis add_right_cancel union_assoc union_commute)

lemma mset_all_files_set_files:
  assumes "keys_ok exts"
  shows "mset (all_files (set_files e l exts)) + mset (files_of exts e) = mset (all_files exts) + mset l"
  using assms
proof (induction exts)
  case (Cons x exts)
  obtain e' l' where x: "x = (e', l')" by (cases x)
  from Cons have IH: "mset (all_files (set_files e l exts)) + mset (files_of exts e) = mset (all_files exts) + mset l"
    by (simp add: keys_ok_def)
  show ?case
  proof (cases "e' = e")
    case True
    then show ?thesis by (simp add: x set_files_def files_of_def dict_get_def)
  next
    case False
    then have "files_of ((e', l') # exts) e = files_of exts e"
      by (simp add: files_of_def dict_get_def)
    with False IH show ?thesis by (simp add: x set_files_def)
  qed
qed (simp add: set_files_def)

lemma files_of_submset: "keys_ok exts \<Longrightarrow> mset (files_of exts e) \<subseteq># mset (all_files exts)"
  using mset_all_files_set_files [of exts e "[]"] by (metis add_0_right mset.simps(1) mset_subset_eq_add_right)

lemma files_of_submset2:
  assumes "keys_ok exts" and "e \<noteq> e'"
  shows "mset (files_of exts e @ files_of exts e') \<subseteq># mset (all_files exts)"
proof -
  have "mset (files_of exts e') \<subseteq># mset (all_files (set_files e [] exts))"
    using files_of_submset [of "set_files e [] exts" e'] assms by simp
  moreover have "mset (all_files (set_files e [] exts)) + mset (files_of exts e) = mset (all_files exts)"
    using mset_all_files_set_files [OF assms(1), of e "[]"] by simp
  ultimately show ?thesis
    unfolding mset_append by (metis subset_mset.add_right_mono union_commute)
qed

lemma mset_split_exts:
  assumes "\<And>e l. fst (sp e l) @ snd (sp e l) = l"
  shows "mset (all_files (fst (split_exts sp exts))) + mset (snd (split_exts sp exts)) = mset (all_files exts)"
proof (induction exts)
  case (Cons x exts)
  obtain e l where x: "x = (e, l)" by (cases x)
  have l: "mset l = mset (fst (sp e l)) + mset (snd (sp e l))" by (simp add: assms flip: mset_append)
  show ?case
    unfolding x all_files_simps mset_append l Cons.IH [symmetric]
    by (simp add: split_exts_def ac_simps)
qed (simp add: split_exts_def)

lemma split_gt_append: "fst (split_gt_timestamp l t) @ snd (split_gt_timestamp l t) = l"
  by (simp add: split_gt_timestamp_def split_list_append)

lemma split_gte_append: "fst (split_gte_timestamp l t) @ snd (split_gte_timestamp l t) = l"
  by (simp add: split_gte_timestamp_def split_list_append)

lemmas split_append = split_gt_append split_gte_append

lemma mset_sort_exts: "mset (all_files (sort_exts exts)) = mset (all_files exts)"
  by (induction exts) (auto simp: sort_exts_def sorted_rev_def)

definition counted :: "'t exts \<Rightarrow> 't results \<Rightarrow> 't finfo multiset" where
  "counted exts res = mset (all_files exts) + mset (r_obsolete res)"

lemma counted_categorize:
  assumes "categorize parse datadir fs exts res = Inr (exts', res')" and "keys_ok exts"
  shows "counted exts' res' = counted exts res + mset (infos parse fs)"
  using assms
proof (induction fs arbitrary: exts res)
  case (Cons f fs)
  show ?case
  proof (cases "parse f")
    case (Inl e)
    with Cons.prems Cons.IH [of exts "res\<lparr>r_unexpected := r_unexpected res @ [join datadir f]\<rparr>"]
    show ?thesis by (auto simp: counted_def split: if_splits)
  next
    case (Inr i)
    let ?i = "i\<lparr>fi_filename := f\<rparr>" and ?e = "fi_ext i"
    let ?exts = "set_files ?e (files_of exts ?e @ [?i]) exts"
    have "counted exts' res' = counted ?exts res + mset (infos parse fs)"
      using Cons.prems Inr by (intro Cons.IH) (auto simp: Let_def)
    moreover have "mset (all_files ?exts) = add_mset ?i (mset (all_files exts))"
      using mset_all_files_set_files [OF Cons.prems(2), of ?e "files_of exts ?e @ [?i]"] by simp
    ultimately show ?thesis by (simp add: counted_def Inr)
  qed
qed simp

lemma counted_drop_tombstoned:
  assumes "keys_ok exts"
  shows "counted (fst (drop_tombstoned exts res)) (snd (drop_tombstoned exts res)) = counted exts res"
proof (cases "files_of exts ''.ts''")
  case Nil
  then show ?thesis by (simp add: drop_tombstoned_def)
next
  case (Cons t ts)
  let ?sp = "\<lambda>e l. if e \<noteq> ''.ts'' then split_gt_timestamp l (fi_timestamp t) else (l, [])"
  let ?exts = "fst (split_exts ?sp exts)"
  have 1: "mset (all_files ?exts) + mset (snd (split_exts ?sp exts)) = mset (all_files exts)"
    by (rule mset_split_exts) (simp add: split_append)
  have "files_of ?exts ''.ts'' = t # ts" by (simp add: files_of_split_exts Cons)
  then have 2: "mset (all_files (set_files ''.ts'' [t] ?exts)) + mset ts = mset (all_files ?exts)"
    using mset_all_files_set_files [of ?exts "''.ts''" "[t]"] assms by simp
  show ?thesis
    by (simp add: drop_tombstoned_def Cons split_def Let_def counted_def add_obsolete_def flip: 1 2)
qed

lemma mset_kept_dropped: "mset (kept_meta ms) + mset (dropped_meta ms) = mset ms"
proof -
  have "mset (kept_meta ms) + mset (dropped_meta ms) = mset (fst (retain_meta ms))"
    by (simp add: kept_meta_def dropped_meta_def flip: mset_append)
  also have "\<dots> = mset ms"
  proof (cases ms)
    case (Cons m rest)
    have "mset (sorted_rev ctype_or_0 rest) = mset rest" by (simp add: sorted_rev_def)
    then show ?thesis
      by (cases "sorted_rev ctype_or_0 rest") (auto simp: retain_meta_def Cons)
  qed (simp add: retain_meta_def)
  finally show ?thesis .
qed

lemma drop_old_meta_eq:
  "drop_old_meta exts res =
     (if files_of exts ''.meta'' = [] then (exts, res)
      else (set_files ''.meta'' (kept_meta (files_of exts ''.meta'')) exts,
            add_obsolete (dropped_meta (files_of exts ''.meta'')) res))"
  by (simp add: drop_old_meta_def split_def Let_def kept_meta_def dropped_meta_def)

lemma counted_drop_old_meta:
  assumes "keys_ok exts"
  shows "counted (fst (drop_old_meta exts res)) (snd (drop_old_meta exts res)) = counted exts res"
proof (cases "files_of exts ''.meta'' = []")
  case False
  define ms where "ms = files_of exts ''.meta''"
  define exts' where "exts' = set_files ''.meta'' (kept_meta ms) exts"
  have "mset (all_files exts') + mset ms = mset (all_files exts) + mset (kept_meta ms)"
    unfolding exts'_def ms_def by (rule mset_all_files_set_files [OF assms])
  then have "mset (dropped_meta ms) + mset (all_files exts') = mset (all_files exts)"
    by (rule mset_move) (subst union_commute, rule mset_kept_dropped)
  then have "mset (all_files exts) = mset (all_files exts') + mset (dropped_meta ms)"
    by (simp add: union_commute)
  moreover have "drop_old_meta exts res = (exts', add_obsolete (dropped_meta ms) res)"
    using False by (simp add: drop_old_meta_eq exts'_def ms_def)
  ultimately show ?thesis by (simp add: counted_def add_obsolete_def ac_simps)
qed (simp add: drop_old_meta_def)

end
