(* ===== verification/PolicyInterface.thy ===== *)
theory PolicyInterface
  imports OnDisk
begin

text \<open>
  The interface between \<^verbatim>\<open>BaseDiskFileManager.get_ondisk_files\<close> and the subclass methods it calls, as
  the locale \<open>ondisk_policy\<close>, and what the template guarantees for every policy that keeps the laws:
  where the chosen and the obsolete files come from, that a tombstone wins over everything at most
  as new, and that the contract check at the end can not fail.
\<close>

section \<open>What the subclass method is called with\<close>

definition listed ::
  "(string \<Rightarrow> pyexc + 't :: {linorder, order_bot} finfo) \<Rightarrow> string list \<Rightarrow> string \<Rightarrow> 't finfo list" where
  "listed parse fs e = sorted_rev fi_timestamp (of_ext e (infos parse fs))"

definition live ::
  "(string \<Rightarrow> pyexc + 't :: {linorder, order_bot} finfo) \<Rightarrow> string list \<Rightarrow> string \<Rightarrow> 't finfo list" where
  "live parse fs e =
     (case listed parse fs ''.ts'' of
        [] \<Rightarrow> listed parse fs e
      | t # ts \<Rightarrow> if e = ''.ts'' then [t]
                 else filter (\<lambda>i. fi_timestamp t < fi_timestamp i) (listed parse fs e))"

definition staged ::
  "(string \<Rightarrow> pyexc + 't :: {linorder, order_bot} finfo) \<Rightarrow> string list \<Rightarrow> string \<Rightarrow> 't finfo list" where
  "staged parse fs e =
     (if e = ''.meta'' then kept_meta (live parse fs e) else live parse fs e)"

definition superseded ::
  "(string \<Rightarrow> pyexc + 't :: {linorder, order_bot} finfo) \<Rightarrow> string list \<Rightarrow> 't finfo set" where
  "superseded parse fs =
     (case listed parse fs ''.ts'' of
        [] \<Rightarrow> {}
      | t # ts \<Rightarrow> set ts \<union>
          {i \<in> set (infos parse fs). fi_ext i \<noteq> ''.ts'' \<and> fi_timestamp i \<le> fi_timestamp t})
     \<union> set (dropped_meta (live parse fs ''.meta''))"

lemma set_listed [simp]: "set (listed parse fs e) = {i \<in> set (infos parse fs). fi_ext i = e}"
  by (auto simp: listed_def of_ext_def)

lemma descending_listed [simp, intro]: "descending fi_timestamp (listed parse fs e)"
  by (simp add: listed_def)

lemma listed_ConsD:
  assumes "listed parse fs e = t # ts"
  shows "insert t (set ts) = {i \<in> set (infos parse fs). fi_ext i = e}"
proof -
  have "set (t # ts) = {i \<in> set (infos parse fs). fi_ext i = e}"
    unfolding assms [symmetric] by (rule set_listed)
  then show ?thesis by simp
qed

lemma live_subset: "set (live parse fs e) \<subseteq> set (listed parse fs e)"
  by (auto simp: live_def split: list.split dest: listed_ConsD)

lemma descending_live [simp, intro]: "descending fi_timestamp (live parse fs e)"
  by (auto simp: live_def descending_filter descending_Cons split: list.split)

lemma staged_subset: "set (staged parse fs e) \<subseteq> set (live parse fs e)"
  using set_kept_dropped [of "live parse fs e"] by (auto simp: staged_def)

lemma descending_staged [simp, intro]: "descending fi_timestamp (staged parse fs e)"
  by (auto simp: staged_def descending_kept_meta)

lemma staged_ext: "i \<in> set (staged parse fs e) \<Longrightarrow> i \<in> set (infos parse fs) \<and> fi_ext i = e"
  using staged_subset [of parse fs e] live_subset [of parse fs e] by auto

text \<open>Every parsed file is either kept for the subclass or obsolete already.\<close>

lemma staged_or_superseded:
  assumes "i \<in> set (infos parse fs)"
  shows "i \<in> set (staged parse fs (fi_ext i)) \<or> i \<in> superseded parse fs"
proof (cases "i \<in> set (live parse fs (fi_ext i))")
  case True
  show ?thesis
  proof (cases "fi_ext i = ''.meta''")
    case meta: True
    with True set_kept_dropped [of "live parse fs ''.meta''"]
    have "i \<in> set (kept_meta (live parse fs ''.meta'')) \<or> i \<in> set (dropped_meta (live parse fs ''.meta''))"
      by (metis Un_iff)
    with meta show ?thesis unfolding staged_def superseded_def by simp blast
  next
    case False
    with True show ?thesis by (simp add: staged_def)
  qed
next
  case False
  have l: "i \<in> set (listed parse fs (fi_ext i))" using assms by simp
  show ?thesis
  proof (cases "listed parse fs ''.ts''")
    case Nil
    with False l show ?thesis by (simp add: live_def)
  next
    case (Cons t ts)
    show ?thesis
    proof (cases "fi_ext i = ''.ts''")
      case True
      with False Cons have "i \<noteq> t" by (simp add: live_def)
      moreover have "i \<in> insert t (set ts)" using assms True listed_ConsD [OF Cons] by simp
      ultimately show ?thesis by (simp add: superseded_def Cons)
    next
      case ext: False
      with False Cons l have "fi_timestamp i \<le> fi_timestamp t"
        by (simp add: live_def not_less)
      with ext assms show ?thesis by (simp add: superseded_def Cons)
    qed
  qed
qed

lemma superseded_infos: "superseded parse fs \<subseteq> set (infos parse fs)"
proof -
  have "set (dropped_meta (live parse fs ''.meta'')) \<subseteq> set (live parse fs ''.meta'')"
    using set_kept_dropped by blast
  also have "\<dots> \<subseteq> set (infos parse fs)" using live_subset [of parse fs "''.meta''"] by auto
  finally have "set (dropped_meta (live parse fs ''.meta'')) \<subseteq> set (infos parse fs)" .
  moreover have "listed parse fs ''.ts'' = t # ts \<Longrightarrow> set ts \<subseteq> set (infos parse fs)" for t ts
    by (auto dest: listed_ConsD)
  ultimately show ?thesis by (auto simp: superseded_def split: list.splits)
qed

definition fresh :: "'t results \<Rightarrow> bool" where
  "fresh r \<longleftrightarrow> same_but_dropped (empty_results\<lparr>r_unexpected := r_unexpected r\<rparr>) r"

text \<open>The template up to the call of \<^verbatim>\<open>_process_ondisk_files\<close>.\<close>

lemma get_ondisk_files_staged:
  assumes "\<And>f e. op_parse ops f = Inl e \<Longrightarrow> is_disk_file_error e"
  obtains exts res where
    "\<And>verify. get_ondisk_files ops fs datadir verify =
      try_then (op_process ops exts res) (\<lambda>(exts, res).
        let res = choose_files datadir exts res
        in if verify \<and> \<not> op_verify ops res then Inl RuntimeError else Inr res)"
    "keys_ok exts" "\<And>e. files_of exts e = staged (op_parse ops) fs e"
    "fresh res" "r_possible_reclaim res = []"
    "r_unexpected res = map (join datadir) (filter (\<lambda>f. isl (op_parse ops f)) fs)"
    "set (r_obsolete res) = superseded (op_parse ops) fs"
    "counted exts res = mset (infos (op_parse ops) fs)"
proof -
  let ?p = "op_parse ops"
  obtain exts0 where cat: "categorize ?p datadir fs [] empty_results =
      Inr (exts0, empty_results\<lparr>r_unexpected := map (join datadir) (filter (\<lambda>f. isl (?p f)) fs)\<rparr>)"
    and f0: "\<And>e. files_of exts0 e = of_ext e (infos ?p fs)" and k0: "keys_ok exts0"
    using categorize_spec [of fs ?p datadir "[]" empty_results] assms
    by (auto simp: keys_ok_def empty_results_def)
  define res0 :: "'a results" where "res0 = empty_results\<lparr>r_unexpected := map (join datadir) (filter (\<lambda>f. isl (?p f)) fs)\<rparr>"
  define exts1 where "exts1 = sort_exts exts0"
  define s2 where "s2 = drop_tombstoned exts1 res0"
  define s3 where "s3 = drop_old_meta (fst s2) (snd s2)"
  have f1: "files_of exts1 e = listed ?p fs e" for e by (simp add: exts1_def f0 listed_def)
  have k1: "keys_ok exts1" by (simp add: exts1_def k0)
  have so: "sorted_exts exts1" by (simp add: f1)
  have f2: "files_of (fst s2) e = live ?p fs e" for e
    by (simp add: s2_def files_of_drop_tombstoned [OF so] f1 live_def split: list.split)
  have k2: "keys_ok (fst s2)" by (simp add: s2_def k1)
  show thesis
  proof (rule that)
    show "get_ondisk_files ops fs datadir verify =
      try_then (op_process ops (fst s3) (snd s3)) (\<lambda>(exts, res).
        let res = choose_files datadir exts res
        in if verify \<and> \<not> op_verify ops res then Inl RuntimeError else Inr res)" for verify
      unfolding get_ondisk_files_def cat s3_def s2_def exts1_def res0_def
      by (simp add: split_def Let_def)
    show "keys_ok (fst s3)" by (simp add: s3_def k2)
    show "files_of (fst s3) e = staged ?p fs e" for e
      by (simp add: s3_def files_of_drop_old_meta f2 staged_def kept_meta_def)
    have s: "same_but_dropped res0 (snd s3)"
      unfolding s2_def s3_def by (rule same_but_dropped_trans [OF drop_tombstoned_same drop_old_meta_same])
    then show "r_unexpected (snd s3) = map (join datadir) (filter (\<lambda>f. isl (?p f)) fs)"
      by (simp add: same_but_dropped_unexpected) (simp add: res0_def)
    then show "fresh (snd s3)" using s by (simp add: fresh_def res0_def)
    show "r_possible_reclaim (snd s3) = []"
      by (simp add: s3_def s2_def res0_def empty_results_def)
    have "set (r_obsolete (snd s2)) =
      (case listed ?p fs ''.ts'' of [] \<Rightarrow> {}
       | t # ts \<Rightarrow> set ts \<union>
          (\<Union>e \<in> - {''.ts''}. {i \<in> set (listed ?p fs e). fi_timestamp i \<le> fi_timestamp t}))"
      by (simp add: s2_def obsolete_drop_tombstoned [OF so k1] f1 res0_def empty_results_def split: list.split)
    also have "\<dots> = (case listed ?p fs ''.ts'' of [] \<Rightarrow> {}
       | t # ts \<Rightarrow> set ts \<union>
          {i \<in> set (infos ?p fs). fi_ext i \<noteq> ''.ts'' \<and> fi_timestamp i \<le> fi_timestamp t})"
      by (auto split: list.split)
    finally show "set (r_obsolete (snd s3)) = superseded ?p fs"
      by (simp add: s3_def obsolete_drop_old_meta f2 superseded_def dropped_meta_def)
    have "counted (fst s3) (snd s3) = counted exts0 res0"
      by (simp add: s3_def counted_drop_old_meta k2) (simp add: s2_def counted_drop_tombstoned k1,
          simp add: exts1_def counted_def mset_sort_exts)
    also have "\<dots> = mset (infos ?p fs)"
      using counted_categorize [OF cat] by (simp add: res0_def counted_def keys_ok_def empty_results_def)
    finally show "counted (fst s3) (snd s3) = mset (infos ?p fs)" .
  qed
qed

section \<open>The interface\<close>

text \<open>Two infos of the same file, up to the durable mark that the EC policy may set.\<close>

definition same_file :: "'t finfo \<Rightarrow> 't finfo \<Rightarrow> bool" where
  "same_file i j \<longleftrightarrow> i\<lparr>fi_durable := None\<rparr> = j\<lparr>fi_durable := None\<rparr>"

lemma same_file_fields:
  assumes "same_file i j"
  shows "fi_timestamp i = fi_timestamp j" "fi_ext i = fi_ext j" "fi_ctype i = fi_ctype j"
    "fi_frag i = fi_frag j" "fi_filename i = fi_filename j"
  using assms by (cases i; cases j; simp add: same_file_def)+

lemma same_file_refl [simp]: "same_file i i"
  by (simp add: same_file_def)

definition untouched :: "'t results \<Rightarrow> 't results \<Rightarrow> bool" where
  "untouched r r' \<longleftrightarrow>
     r_unexpected r' = r_unexpected r \<and> r_meta_info r' = r_meta_info r \<and>
     r_ts_info r' = r_ts_info r \<and> r_ctype_info r' = r_ctype_info r"

definition dropped :: "'t results \<Rightarrow> 't finfo set" where
  "dropped r = set (r_obsolete r) \<union> set (r_possible_reclaim r)"

locale ondisk_policy =
  fixes ops :: "'t :: {linorder, order_bot} policy_ops"
  assumes parse_error: "op_parse ops f = Inl exc \<Longrightarrow> is_disk_file_error exc"
    and process_frame: "op_process ops exts res = Inr (exts', res') \<Longrightarrow> untouched res res'"
    and process_listed: "op_process ops exts res = Inr (exts', res') \<Longrightarrow> sorted_exts exts \<Longrightarrow>
      e \<noteq> ''.data'' \<Longrightarrow> set (files_of exts' e) \<subseteq> set (files_of exts e)"
    and process_data: "op_process ops exts res = Inr (exts', res') \<Longrightarrow> sorted_exts exts \<Longrightarrow>
      r_data_info res = None \<Longrightarrow> r_data_info res' = Some d \<Longrightarrow>
      \<exists>i \<in> set (files_of exts ''.data''). same_file d i"
    and process_dropped: "op_process ops exts res = Inr (exts', res') \<Longrightarrow> sorted_exts exts \<Longrightarrow>
      keys_ok exts \<Longrightarrow> i \<in> dropped res' \<Longrightarrow>
      i \<in> dropped res \<or> (\<exists>x. \<exists>j \<in> set (files_of exts x). same_file i j)"
    and process_verify: "op_process ops exts res = Inr (exts', res') \<Longrightarrow> fresh res \<Longrightarrow>
      op_verify ops (choose_files datadir exts' res')"
begin

lemma get_ondisk_files_cases:
  assumes "get_ondisk_files ops fs datadir verify = Inr r"
  obtains exts res exts' res' where
    "op_process ops exts res = Inr (exts', res')" "r = choose_files datadir exts' res'"
    "keys_ok exts" "\<And>e. files_of exts e = staged (op_parse ops) fs e"
    "fresh res" "r_possible_reclaim res = []"
    "r_unexpected res = map (join datadir) (filter (\<lambda>f. isl (op_parse ops f)) fs)"
    "set (r_obsolete res) = superseded (op_parse ops) fs"
    "counted exts res = mset (infos (op_parse ops) fs)"
proof -
  obtain exts res where *: "\<And>verify. get_ondisk_files ops fs datadir verify =
      try_then (op_process ops exts res) (\<lambda>(exts, res).
        let res = choose_files datadir exts res
        in if verify \<and> \<not> op_verify ops res then Inl RuntimeError else Inr res)"
    and rest: "keys_ok exts" "\<And>e. files_of exts e = staged (op_parse ops) fs e" "fresh res"
      "r_possible_reclaim res = []"
      "r_unexpected res = map (join datadir) (filter (\<lambda>f. isl (op_parse ops f)) fs)"
      "set (r_obsolete res) = superseded (op_parse ops) fs"
      "counted exts res = mset (infos (op_parse ops) fs)"
    by (rule get_ondisk_files_staged [where ops = ops and fs = fs and datadir = datadir]) (erule parse_error, rule that)
  from assms obtain exts' res' where "op_process ops exts res = Inr (exts', res')"
    "r = choose_files datadir exts' res'"
    by (auto simp: * Let_def split: if_splits)
  from this rest show thesis by (rule that)
qed

text \<open>The contract check never fails: the flag \<open>verify\<close> makes no difference.\<close>

lemma verify_irrelevant:
  "get_ondisk_files ops fs datadir True = get_ondisk_files ops fs datadir False"
proof -
  obtain exts res where *: "\<And>verify. get_ondisk_files ops fs datadir verify =
      try_then (op_process ops exts res) (\<lambda>(exts, res).
        let res = choose_files datadir exts res
        in if verify \<and> \<not> op_verify ops res then Inl RuntimeError else Inr res)"
    and "fresh res"
    by (rule get_ondisk_files_staged [where ops = ops and fs = fs and datadir = datadir]) (erule parse_error, rule that)
  then show ?thesis
    using process_verify [of exts res _ _ datadir] by (cases "op_process ops exts res") (auto simp: Let_def)
qed

lemma chosen_files:
  assumes "get_ondisk_files ops fs datadir verify = Inr r"
  shows "r_data_info r = Some d \<Longrightarrow> \<exists>i \<in> set (staged (op_parse ops) fs ''.data''). same_file d i"
    and "r_ts_info r = Some t \<Longrightarrow> t \<in> set (staged (op_parse ops) fs ''.ts'')"
    and "r_meta_info r = Some m \<Longrightarrow> m \<in> set (staged (op_parse ops) fs ''.meta'')"
    and "r_ctype_info r = Some c \<Longrightarrow> c \<in> set (staged (op_parse ops) fs ''.meta'')"
    and "r_unexpected r = map (join datadir) (filter (\<lambda>f. isl (op_parse ops f)) fs)"
proof -
  from assms obtain exts res exts' res' where
    p: "op_process ops exts res = Inr (exts', res')" and r: "r = choose_files datadir exts' res'"
    and f: "\<And>e. files_of exts e = staged (op_parse ops) fs e" and fr: "fresh res"
    and un: "r_unexpected res = map (join datadir) (filter (\<lambda>f. isl (op_parse ops f)) fs)"
    by (rule get_ondisk_files_cases) (rule that)
  have so: "sorted_exts exts" by (simp add: f)
  have none: "r_data_info res = None" "r_meta_info res = None" "r_ts_info res = None" "r_ctype_info res = None"
    using fr by (cases res; simp add: fresh_def same_but_dropped_def empty_results_def)+
  note u = process_frame [OF p, unfolded untouched_def none]
  note l = process_listed [OF p so, unfolded f]
  show "r_data_info r = Some d \<Longrightarrow> \<exists>i \<in> set (staged (op_parse ops) fs ''.data''). same_file d i"
    using process_data [OF p so none(1)]
    by (auto simp: r f choose_files_def Let_def split: option.splits list.splits if_splits)
  show "r_ts_info r = Some t \<Longrightarrow> t \<in> set (staged (op_parse ops) fs ''.ts'')"
    using u l [of "''.ts''"]
    by (auto simp: r choose_files_def Let_def split: option.splits list.splits if_splits)
  show "r_meta_info r = Some m \<Longrightarrow> m \<in> set (staged (op_parse ops) fs ''.meta'')"
    using u l [of "''.meta''"]
    by (auto simp: r choose_files_def Let_def split: option.splits list.splits if_splits)
  show "r_ctype_info r = Some c \<Longrightarrow> c \<in> set (staged (op_parse ops) fs ''.meta'')"
    using u l [of "''.meta''"] last_in_set [of "files_of exts' ''.meta''"]
    by (auto simp: r choose_files_def Let_def split: option.splits list.splits if_splits)
  show "r_unexpected r = map (join datadir) (filter (\<lambda>f. isl (op_parse ops f)) fs)"
    using u un
    by (auto simp: r choose_files_def Let_def split: option.splits list.splits if_splits)
qed

text \<open>A tombstone wins over every \<^verbatim>\<open>.data\<close> and \<^verbatim>\<open>.meta\<close> file that is not newer.\<close>

lemma tombstone_wins:
  assumes "get_ondisk_files ops fs datadir verify = Inr r"
    and "r_data_info r = Some d \<or> r_meta_info r = Some d"
    and "t \<in> set (infos (op_parse ops) fs)" and "fi_ext t = ''.ts''"
  shows "fi_timestamp t < fi_timestamp d"
proof -
  obtain e i where i: "i \<in> set (live (op_parse ops) fs e)" "same_file d i" "e \<noteq> ''.ts''"
  proof (cases "r_data_info r = Some d")
    case True
    then obtain i where "i \<in> set (staged (op_parse ops) fs ''.data'')" "same_file d i"
      using chosen_files(1) [OF assms(1)] by blast
    then show thesis using that [of i "''.data''"] staged_subset by fastforce
  next
    case False
    then have "d \<in> set (staged (op_parse ops) fs ''.meta'')"
      using chosen_files(3) [OF assms(1)] assms(2) by blast
    then show thesis using that [of d "''.meta''"] staged_subset by fastforce
  qed
  have t: "t \<in> set (listed (op_parse ops) fs ''.ts'')" using assms(3,4) by simp
  then obtain t0 ts where l: "listed (op_parse ops) fs ''.ts'' = t0 # ts"
    by (cases "listed (op_parse ops) fs ''.ts''") auto
  then have "fi_timestamp t \<le> fi_timestamp t0"
    using descending_hd [OF descending_listed t] by simp
  moreover have "fi_timestamp t0 < fi_timestamp i" using i l by (simp add: live_def)
  ultimately show ?thesis using i(2) by (simp add: same_file_fields)
qed

text \<open>Everything the results name, and everything they drop, is a file of the listing.\<close>

lemma dropped_listed:
  assumes "get_ondisk_files ops fs datadir verify = Inr r" and "i \<in> dropped r"
  shows "\<exists>j \<in> set (infos (op_parse ops) fs). same_file i j"
proof -
  from assms obtain exts res exts' res' where
    p: "op_process ops exts res = Inr (exts', res')" and r: "r = choose_files datadir exts' res'"
    and k: "keys_ok exts" and f: "\<And>e. files_of exts e = staged (op_parse ops) fs e"
    and po: "r_possible_reclaim res = []" and ob: "set (r_obsolete res) = superseded (op_parse ops) fs"
    using get_ondisk_files_cases by metis
  have so: "sorted_exts exts" by (simp add: f)
  have "dropped r = dropped res'"
    by (auto simp: r dropped_def choose_files_def Let_def split: option.splits list.splits)
  with assms(2) have "i \<in> dropped res \<or> (\<exists>e. \<exists>j \<in> set (files_of exts e). same_file i j)"
    using process_dropped [OF p so k] by simp
  then show ?thesis
  proof
    assume "i \<in> dropped res"
    then have "i \<in> set (infos (op_parse ops) fs)"
      using superseded_infos po ob by (auto simp: dropped_def)
    then show ?thesis using same_file_refl by blast
  qed (auto simp: f dest: staged_ext)
qed

end

section \<open>Cleaning up\<close>

text \<open>What \<^verbatim>\<open>cleanup_ondisk_files\<close> removes: a reclaimable tombstone, the obsolete files, and those possibly reclaimable that are.\<close>

definition doomed :: "'t clean_env \<Rightarrow> string \<Rightarrow> 't results \<Rightarrow> 't finfo list" where
  "doomed env hsh_path r =
     (case r_ts_info r of None \<Rightarrow> [] | Some t \<Rightarrow> if is_reclaimable env (fi_timestamp t) then [t] else []) @
     r_obsolete r @ filter (reclaimable_now env hsh_path) (r_possible_reclaim r)"

definition kept_names :: "'t clean_env \<Rightarrow> string \<Rightarrow> 't results \<Rightarrow> string list \<Rightarrow> string list" where
  "kept_names env hsh_path r = filter (\<lambda>f. f \<notin> fi_filename ` set (doomed env hsh_path r))"

definition cleaned :: "'t clean_env \<Rightarrow> string \<Rightarrow> 't results \<Rightarrow> 't results" where
  "cleaned env hsh_path r =
     add_obsolete (filter (reclaimable_now env hsh_path) (r_possible_reclaim r))
       (r\<lparr>r_ts_info := (case r_ts_info r of None \<Rightarrow> None
            | Some t \<Rightarrow> if is_reclaimable env (fi_timestamp t) then None else Some t)\<rparr>)"

lemma remove_files_ok:
  assumes "distinct (map fi_filename l)" and "fi_filename ` set l \<subseteq> set files" and "distinct files"
  shows "remove_files l disk files =
    (filter (\<lambda>f. f \<notin> fi_filename ` set l) disk, Inr (filter (\<lambda>f. f \<notin> fi_filename ` set l) files))"
  using assms
proof (induction l arbitrary: disk files)
  case (Cons i l)
  have "remove_files l (removeAll (fi_filename i) disk) (remove1 (fi_filename i) files) =
      (filter (\<lambda>f. f \<notin> fi_filename ` set l) (removeAll (fi_filename i) disk),
       Inr (filter (\<lambda>f. f \<notin> fi_filename ` set l) (remove1 (fi_filename i) files)))"
  proof (rule Cons.IH)
    have "fi_filename i \<notin> fi_filename ` set l" using Cons.prems(1) by simp
    moreover have "fi_filename ` set l \<subseteq> set files" using Cons.prems(2) by simp
    ultimately show "fi_filename ` set l \<subseteq> set (remove1 (fi_filename i) files)"
      unfolding set_remove1_eq [OF Cons.prems(3)] subset_Diff_insert by simp
    show "distinct (map fi_filename l)" using Cons.prems(1) by simp
    show "distinct (remove1 (fi_filename i) files)" using Cons.prems(3) by simp
  qed
  moreover have "filter (\<lambda>f. f \<notin> fi_filename ` set l) (removeAll (fi_filename i) xs) =
      filter (\<lambda>f. f \<notin> fi_filename ` set (i # l)) xs" for xs
    unfolding removeAll_filter_not_eq filter_filter by (rule filter_cong) auto
  moreover have "remove1 (fi_filename i) files = removeAll (fi_filename i) files"
    using Cons.prems(3) by (rule distinct_remove1_removeAll)
  moreover have "fi_filename i \<in> set files" using Cons.prems(2) by simp
  ultimately show ?case unfolding remove_files.simps Let_def by simp
qed simp

locale conserving_policy = ondisk_policy ops
  for ops :: "'t :: {linorder, order_bot} policy_ops" +
  fixes legacy :: "string set"
  assumes process_once: "op_process ops exts res = Inr (exts', res') \<Longrightarrow> sorted_exts exts \<Longrightarrow>
      keys_ok exts \<Longrightarrow> fresh res \<Longrightarrow> r_possible_reclaim res = [] \<Longrightarrow>
      (\<forall>x \<in> legacy. files_of exts x = []) \<Longrightarrow>
      mset (map fi_filename (files_of exts' ''.ts'' @ r_obsolete res' @ r_possible_reclaim res')) \<subseteq>#
      mset (map fi_filename (all_files exts @ r_obsolete res))"
begin

lemma doomed_distinct:
  assumes "get_ondisk_files ops fs datadir verify = Inr r" and "distinct fs"
    and "\<forall>i \<in> set (infos (op_parse ops) fs). fi_ext i \<notin> legacy"
  shows "distinct (map fi_filename (doomed env hsh_path r))"
    and "fi_filename ` set (doomed env hsh_path r) \<subseteq> set fs"
proof -
  from assms(1) obtain exts res exts' res' where
    p: "op_process ops exts res = Inr (exts', res')" and r: "r = choose_files datadir exts' res'"
    and k: "keys_ok exts" and f: "\<And>e. files_of exts e = staged (op_parse ops) fs e"
    and fr: "fresh res" and pr: "r_possible_reclaim res = []"
    and c: "counted exts res = mset (infos (op_parse ops) fs)"
    by (rule get_ondisk_files_cases) (rule that)
  have so: "sorted_exts exts" by (simp add: f)
  have leg: "\<forall>x \<in> legacy. files_of exts x = []"
  proof
    fix x assume "x \<in> legacy"
    then have "i \<notin> set (files_of exts x)" for i
      using assms(3) staged_ext [of i "op_parse ops" fs x] by (auto simp: f)
    then show "files_of exts x = []" by (meson list.set_sel(1))
  qed
  let ?l = "files_of exts' ''.ts'' @ r_obsolete res' @ r_possible_reclaim res'"
  have "mset (map fi_filename ?l) \<subseteq># image_mset fi_filename (counted exts res)"
    using process_once [OF p so k fr pr leg] by (simp add: counted_def)
  also have "\<dots> = mset (map fi_filename (infos (op_parse ops) fs))" by (simp add: c)
  finally have sub: "mset (map fi_filename ?l) \<subseteq># mset (map fi_filename (infos (op_parse ops) fs))" .
  have "distinct (map fi_filename (infos (op_parse ops) fs))"
    using assms(2) infos_filename [of _ "op_parse ops"]
    by (induction fs) (auto split: sum.split)
  then have d: "distinct (map fi_filename ?l)"
    using sub by (metis distinct_submset)
  have in_fs: "fi_filename ` set ?l \<subseteq> set fs"
  proof
    fix x assume "x \<in> fi_filename ` set ?l"
    then have "x \<in># mset (map fi_filename ?l)" by (simp only: set_mset_mset set_map)
    then have "x \<in># mset (map fi_filename (infos (op_parse ops) fs))" by (rule mset_subset_eqD [OF sub])
    then show "x \<in> set fs" using infos_filename by auto
  qed
  have parts: "r_obsolete r = r_obsolete res'" "r_possible_reclaim r = r_possible_reclaim res'"
    by (simp_all add: r choose_files_def Let_def split: option.split list.split)
  have "r_ts_info res' = None"
    using process_frame [OF p] fr
    by (cases res; cases res') (simp add: untouched_def fresh_def same_but_dropped_def empty_results_def)
  then have ts: "r_ts_info r = Some t \<Longrightarrow> \<exists>ts. files_of exts' ''.ts'' = t # ts" for t
    by (auto simp: r choose_files_def Let_def split: option.splits list.splits if_splits)
  show "distinct (map fi_filename (doomed env hsh_path r))"
  proof (rule distinct_submset [OF _ d])
    have "mset (doomed env hsh_path r) \<subseteq># mset ?l"
      unfolding doomed_def parts mset_append
      by (intro subset_mset.add_mono) (auto simp: multiset_filter_subset split: option.split dest!: ts)
    then show "mset (map fi_filename (doomed env hsh_path r)) \<subseteq># mset (map fi_filename ?l)"
      unfolding mset_map by (rule image_mset_subseteq_mono)
  qed
  show "fi_filename ` set (doomed env hsh_path r) \<subseteq> set fs"
    using in_fs by (auto simp: doomed_def parts split: option.splits if_splits dest!: ts ts [OF sym])
qed

lemma cleanup_ok:
  assumes "get_ondisk_files ops (rev (sort disk)) hsh_path False = Inr r" and "distinct disk"
    and "\<forall>i \<in> set (infos (op_parse ops) disk). fi_ext i \<notin> legacy"
  shows "cleanup_ondisk_files ops env hsh_path (Some disk) =
    (if kept_names env hsh_path r disk = [] then None else Some (kept_names env hsh_path r disk),
     Inr (cleaned env hsh_path r, kept_names env hsh_path r (rev (sort disk))))"
proof -
  let ?files = "rev (sort disk)" and ?l = "doomed env hsh_path r"
  have "set (infos (op_parse ops) ?files) = set (infos (op_parse ops) disk)"
    by (auto simp: in_infos)
  with assms(3) have leg: "\<forall>i \<in> set (infos (op_parse ops) ?files). fi_ext i \<notin> legacy" by simp
  have d: "distinct ?files" using assms(2) by simp
  have rm: "remove_files ?l disk ?files =
      (kept_names env hsh_path r disk, Inr (kept_names env hsh_path r ?files))"
    unfolding kept_names_def
    using doomed_distinct [OF assms(1) d leg] d by (rule remove_files_ok)
  have empty: "kept_names env hsh_path r ?files = [] \<longleftrightarrow> kept_names env hsh_path r disk = []"
    by (simp add: kept_names_def filter_empty_conv)
  show ?thesis
    using rm empty
    by (auto simp: cleanup_ondisk_files_def assms(1) Let_def doomed_def cleaned_def add_obsolete_def
        split: option.split)
qed

end

lemma sort_kept_names: "rev (sort (kept_names env hsh_path r disk)) = kept_names env hsh_path r (rev (sort disk))"
  by (simp add: kept_names_def filter_sort flip: rev_filter)

lemma infos_kept_names:
  "infos parse (kept_names env hsh_path r fs) =
     filter (\<lambda>i. fi_filename i \<notin> fi_filename ` set (doomed env hsh_path r)) (infos parse fs)"
  unfolding kept_names_def by (rule infos_filter)

section \<open>Selecting again in a cleaned directory\<close>

lemma listed_filter:
  "listed parse (filter P fs) e = filter (\<lambda>i. P (fi_filename i)) (listed parse fs e)"
  by (simp add: listed_def infos_filter of_ext_def filter_sorted_rev conj_commute)

lemma distinct_infos: "distinct fs \<Longrightarrow> distinct (map fi_filename (infos parse fs))"
  using infos_filename [of _ parse] by (induction fs) (auto split: sum.split)

lemma distinct_listed: "distinct fs \<Longrightarrow> distinct (listed parse fs e)"
  using distinct_infos [of fs parse]
  by (simp add: listed_def of_ext_def sorted_rev_def distinct_map distinct_sort)

text \<open>A name is removed iff its info is doomed, when the doomed infos are those of the listing.\<close>

lemma listed_kept_names:
  assumes "set (doomed env hsh_path r) \<subseteq> set (infos parse fs)"
  shows "listed parse (kept_names env hsh_path r fs) e =
    filter (\<lambda>i. i \<notin> set (doomed env hsh_path r)) (listed parse fs e)"
proof -
  have "fi_filename i \<notin> fi_filename ` set (doomed env hsh_path r) \<longleftrightarrow> i \<notin> set (doomed env hsh_path r)"
    if "i \<in> set (listed parse fs e)" for i
    using that assms infos_inj [of i parse fs] by auto
  then show ?thesis unfolding kept_names_def listed_filter by (rule filter_cong [OF refl])
qed

lemma live_no_ts: "listed parse fs ''.ts'' = [] \<Longrightarrow> live parse fs e = listed parse fs e"
  by (simp add: live_def)

lemma live_infos: "i \<in> set (live parse fs e) \<Longrightarrow> i \<in> set (infos parse fs) \<and> fi_ext i = e"
  using live_subset [of parse fs e] by auto

text \<open>What the template keeps is not superseded, and a directory without the superseded files lists just that.\<close>

lemma staged_not_superseded:
  assumes "distinct fs" and "i \<in> set (staged parse fs e)"
  shows "i \<notin> superseded parse fs"
proof -
  have i: "i \<in> set (infos parse fs)" "fi_ext i = e" "i \<in> set (live parse fs e)"
    using staged_ext [OF assms(2)] staged_subset assms(2) by blast+
  have "i \<notin> set (dropped_meta (live parse fs ''.meta''))"
  proof
    assume d: "i \<in> set (dropped_meta (live parse fs ''.meta''))"
    then have "e = ''.meta''" using set_kept_dropped live_infos i(2) by blast
    then have "i \<in> set (kept_meta (live parse fs ''.meta''))" using assms(2) by (simp add: staged_def)
    moreover have "distinct (live parse fs ''.meta'')"
      using distinct_listed [OF assms(1), of parse "''.meta''"] by (auto simp: live_def split: list.split)
    then have "distinct (kept_meta (live parse fs ''.meta'') @ dropped_meta (live parse fs ''.meta''))"
      using mset_kept_dropped [of "live parse fs ''.meta''"]
      by (metis distinct_submset mset_append subset_mset.order_refl)
    ultimately show False using d by auto
  qed
  moreover have "i \<notin> set ts \<and> \<not> (e \<noteq> ''.ts'' \<and> fi_timestamp i \<le> fi_timestamp t)"
    if l: "listed parse fs ''.ts'' = t # ts" for t ts
  proof -
    have "distinct (t # ts)" using distinct_listed [OF assms(1), of parse "''.ts''"] l by simp
    moreover have "set ts \<subseteq> {j. fi_ext j = ''.ts''}" using listed_ConsD [OF l] by auto
    ultimately show ?thesis using i by (auto simp: live_def l split: if_splits)
  qed
  ultimately show ?thesis using i by (auto simp: superseded_def split: list.splits)
qed

lemma filter_staged:
  assumes "distinct fs"
  shows "filter (\<lambda>i. i \<in> set (staged parse fs e)) (listed parse fs e) = staged parse fs e"
proof -
  note d = distinct_listed [OF assms, of parse e]
  have f: "filter (\<lambda>i. i \<in> set (filter P l)) l = filter P l" for P and l :: "'a finfo list"
    by (rule filter_cong) auto
  consider "e = ''.meta''" | "e = ''.ts''" | "e \<noteq> ''.meta''" "e \<noteq> ''.ts''" by blast
  then show ?thesis
  proof cases
    case 1
    then show ?thesis
      using staged_subset [of parse fs e] live_subset [of parse fs e] strictly_kept_meta [OF descending_live] d
      by (intro filter_strictly) (auto simp: staged_def)
  next
    case 2
    show ?thesis
    proof (cases "listed parse fs ''.ts''")
      case (Cons t ts)
      then have "filter (\<lambda>i. i = t) (t # ts) = [t]" using d 2 by (simp add: filter_empty_conv) blast
      then show ?thesis by (simp add: 2 staged_def live_def Cons)
    qed (simp add: 2 staged_def live_def)
  next
    case 3
    then show ?thesis
      by (cases "listed parse fs ''.ts''") (simp_all add: staged_def live_def f del: set_filter)
  qed
qed

lemma listed_again:
  assumes "distinct fs" and "set G = superseded parse fs \<union> X"
    and "listed parse fs' e = filter (\<lambda>i. i \<notin> set G) (listed parse fs e)"
  shows "listed parse fs' e = filter (\<lambda>i. i \<notin> X) (staged parse fs e)"
proof -
  have "i \<notin> set G \<longleftrightarrow> i \<in> set (staged parse fs e) \<and> i \<notin> X" if "i \<in> set (listed parse fs e)" for i
    using that staged_or_superseded [of i parse fs] staged_not_superseded [OF assms(1)] assms(2) by auto
  then have "listed parse fs' e = filter (\<lambda>i. i \<in> set (staged parse fs e) \<and> i \<notin> X) (listed parse fs e)"
    unfolding assms(3) by (rule filter_cong [OF refl])
  also have "\<dots> = filter (\<lambda>i. i \<notin> X) (staged parse fs e)"
    by (simp add: filter_staged [OF assms(1)] flip: filter_filter)
  finally show ?thesis .
qed

end
