(* ===== verification/Replicated.thy ===== *)
theory Replicated
  imports PolicyInterface
begin

text \<open>
  \<^verbatim>\<open>DiskFileManager\<close> of \<^verbatim>\<open>swift_patches/obj/bs_diskfile.py\<close>, the manager of the replication policy, with the
  file name methods of \<^verbatim>\<open>BaseDiskFileManager\<close> it inherits: names for timestamps and back, the choice
  of the newest \<^verbatim>\<open>.data\<close> file, and what a clean-up of the hash directory leaves.
\<close>

section \<open>File names\<close>

text \<open>
  What is used of \<^verbatim>\<open>swift.common.utils\<close>, which is not in the repository: \<^verbatim>\<open>Timestamp(s)\<close> (\<open>None\<close>: the
  \<^verbatim>\<open>ValueError\<close>), \<^verbatim>\<open>t.internal\<close>, \<^verbatim>\<open>bool(t)\<close>, \<^verbatim>\<open>encode_timestamps(t1, t2, explicit=True)\<close> and
  \<^verbatim>\<open>decode_timestamps(s, explicit=True)[:2]\<close>.
\<close>

record 't ts_lib =
  ts_parse :: "string \<Rightarrow> 't option"
  ts_internal :: "'t \<Rightarrow> string"
  ts_truth :: "'t \<Rightarrow> bool"
  ts_encode :: "'t \<Rightarrow> 't \<Rightarrow> string"
  ts_decode :: "string \<Rightarrow> ('t \<times> 't option) option"

definition base_make_filename :: "'t ts_lib \<Rightarrow> 't \<Rightarrow> string option \<Rightarrow> 't option \<Rightarrow> string" where
  "base_make_filename lib timestamp ext ctype_timestamp =
     (let rv = (case ctype_timestamp of
                  Some c \<Rightarrow> if ext = Some ''.meta'' \<and> ts_truth lib c then ts_encode lib timestamp c
                            else ts_internal lib timestamp
                | None \<Rightarrow> ts_internal lib timestamp)
      in case ext of None \<Rightarrow> rv | Some e \<Rightarrow> rv @ e)"

definition base_parse_filename :: "'t ts_lib \<Rightarrow> string \<Rightarrow> pyexc + 't finfo" where
  "base_parse_filename lib filename =
     (let (fname, ext) = splitext filename;
          parsed = (if ext = ''.meta'' then ts_decode lib fname
                    else map_option (\<lambda>t. (t, None)) (ts_parse lib fname))
      in case parsed of
           None \<Rightarrow> Inl DiskFileError
         | Some (timestamp, ts_ctype) \<Rightarrow>
             Inr \<lparr>fi_timestamp = timestamp, fi_ext = ext, fi_ctype = ts_ctype,
                  fi_frag = None, fi_durable = None, fi_filename = []\<rparr>)"

text \<open>Hypotheses on the library for one timestamp: parsing undoes encoding, and names are ordinary file names.\<close>

definition name_safe :: "string \<Rightarrow> bool" where
  "name_safe s \<longleftrightarrow> slash \<notin> set s \<and> \<not> list_all (\<lambda>c. c = dot) s"

definition internal_ok :: "'t ts_lib \<Rightarrow> 't \<Rightarrow> bool" where
  "internal_ok lib t \<longleftrightarrow> ts_parse lib (ts_internal lib t) = Some t \<and> name_safe (ts_internal lib t)"

definition given_ctype :: "'t ts_lib \<Rightarrow> 't option \<Rightarrow> 't option" where
  "given_ctype lib c = (case c of None \<Rightarrow> None | Some c \<Rightarrow> if ts_truth lib c then Some c else None)"

definition encode_ok :: "'t ts_lib \<Rightarrow> 't \<Rightarrow> 't option \<Rightarrow> bool" where
  "encode_ok lib t c \<longleftrightarrow>
     (case given_ctype lib c of
        None \<Rightarrow> ts_decode lib (ts_internal lib t) = Some (t, None)
      | Some c \<Rightarrow> ts_decode lib (ts_encode lib t c) = Some (t, Some c) \<and> name_safe (ts_encode lib t c))"

text \<open>A concrete library over natural numbers: decimal timestamps, and \<^verbatim>\<open>t+c\<close> for a pair.\<close>

definition sample_parse :: "string \<Rightarrow> nat option" where
  "sample_parse s = (case py_int s of None \<Rightarrow> None | Some i \<Rightarrow> if 0 \<le> i then Some (nat i) else None)"

definition sample_lib :: "nat ts_lib" where
  "sample_lib = \<lparr>ts_parse = sample_parse, ts_internal = str_nat, ts_truth = (\<lambda>t. t \<noteq> 0),
     ts_encode = (\<lambda>t c. str_nat t @ CHR ''+'' # str_nat c),
     ts_decode = (\<lambda>s. case split_on (CHR ''+'') s of
        [a] \<Rightarrow> map_option (\<lambda>t. (t, None)) (sample_parse a)
      | [a, b] \<Rightarrow> (case (sample_parse a, sample_parse b) of
           (Some t, Some c) \<Rightarrow> Some (t, Some c) | _ \<Rightarrow> None)
      | _ \<Rightarrow> None)\<rparr>"

lemma sample_parse_str [simp]: "sample_parse (str_nat n) = Some n"
  by (simp add: sample_parse_def)

lemma str_nat_chars:
  "CHR ''+'' \<notin> set (str_nat n)" "slash \<notin> set (str_nat n)" "dot \<notin> set (str_nat n)" "CHR ''#'' \<notin> set (str_nat n)"
  by (simp_all add: str_nat_avoids)

lemma name_safe_append: "name_safe s \<Longrightarrow> slash \<notin> set r \<Longrightarrow> name_safe (s @ r)"
  by (simp add: name_safe_def)

lemma name_safe_str_nat [simp]: "name_safe (str_nat n)"
proof -
  have "\<exists>c \<in> set (str_nat n). c \<noteq> dot"
    using str_nat_nonempty [of n] str_nat_chars(3) [of n] by (metis list.set_sel(1))
  then show ?thesis using str_nat_chars(2) by (auto simp: name_safe_def list_all_iff)
qed

lemma sample_lib_ok: "internal_ok sample_lib t" "encode_ok sample_lib t c"
  using str_nat_chars name_safe_append [OF name_safe_str_nat]
  by (auto simp: internal_ok_def encode_ok_def given_ctype_def sample_lib_def split_on_none split_on_append
      split: option.split)

lemma splitext_made:
  assumes "name_safe s" and "slash \<notin> set x" and "dot \<notin> set x"
  shows "splitext (s @ dot # x) = (s, dot # x)"
  using assms by (simp add: splitext_append name_safe_def)

section \<open>_process_ondisk_files\<close>

definition repl_process ::
  "'t :: linorder exts \<Rightarrow> 't results \<Rightarrow> pyexc + ('t exts \<times> 't results)" where
  "repl_process exts res =
     (let (exts, res) =
            (case files_of exts ''.data'' of
               [] \<Rightarrow> (exts, res)
             | d # ds \<Rightarrow>
                 (let (exts, obsolete) =
                        split_exts (\<lambda>e l. if e = ''.data'' then split_gte_timestamp l (fi_timestamp d)
                                          else split_gt_timestamp l (fi_timestamp d)) exts
                  in (exts, (add_obsolete obsolete res)\<lparr>r_data_info := Some (hd (files_of exts ''.data''))\<rparr>)));
          res = (if files_of exts ''.meta'' \<noteq> [] \<and> files_of exts ''.data'' = []
                 then add_reclaim (files_of exts ''.meta'') res else res)
      in Inr (exts, res))"

definition repl_ops :: "'t :: linorder ts_lib \<Rightarrow> 't policy_ops" where
  "repl_ops lib = \<lparr>op_parse = base_parse_filename lib, op_process = repl_process, op_verify = base_verify\<rparr>"

lemma repl_ops_simps [simp]:
  "op_parse (repl_ops lib) = base_parse_filename lib" "op_process (repl_ops lib) = repl_process"
  "op_verify (repl_ops lib) = base_verify"
  by (simp_all add: repl_ops_def)

text \<open>The newest \<^verbatim>\<open>.data\<close> file splits every list; the effect on sorted lists, by extension.\<close>

definition repl_split :: "'t :: linorder \<Rightarrow> string \<Rightarrow> 't finfo list \<Rightarrow> 't finfo list \<times> 't finfo list" where
  "repl_split t e l = (if e = ''.data'' then split_gte_timestamp l t else split_gt_timestamp l t)"

lemma repl_split_simps:
  "fst (repl_split t e []) = []" "snd (repl_split t e []) = []"
  "fst (repl_split t e l) @ snd (repl_split t e l) = l"
  by (simp_all add: repl_split_def split_append)

lemma repl_split_filter:
  assumes "descending fi_timestamp l"
  shows "fst (repl_split t e l) = filter (\<lambda>i. if e = ''.data'' then t \<le> fi_timestamp i else t < fi_timestamp i) l"
    and "snd (repl_split t e l) = filter (\<lambda>i. if e = ''.data'' then fi_timestamp i < t else fi_timestamp i \<le> t) l"
  using assms by (simp_all add: repl_split_def split_gt_filter split_gte_filter)

lemma repl_process_eq:
  "repl_process exts res =
    (case files_of exts ''.data'' of
       [] \<Rightarrow> Inr (exts, add_reclaim (files_of exts ''.meta'') res)
     | d # ds \<Rightarrow> Inr (fst (split_exts (repl_split (fi_timestamp d)) exts),
         (add_obsolete (snd (split_exts (repl_split (fi_timestamp d)) exts)) res)\<lparr>r_data_info := Some d\<rparr>))"
proof (cases "files_of exts ''.data''")
  case Nil
  then show ?thesis by (simp add: repl_process_def add_reclaim_def)
next
  case (Cons d ds)
  have sp: "(\<lambda>e l. if e = ''.data'' then split_gte_timestamp l t else split_gt_timestamp l t) = repl_split t" for t :: 'a
    by (simp add: repl_split_def fun_eq_iff)
  have "files_of (fst (split_exts (repl_split (fi_timestamp d)) exts)) ''.data'' =
      d # fst (split_gte_timestamp ds (fi_timestamp d))"
    by (simp add: files_of_split_exts repl_split_simps Cons)
      (simp add: repl_split_def split_gte_timestamp_def)
  then show ?thesis
    unfolding repl_process_def Cons sp by (simp add: split_def Let_def)
qed

definition repl_kept :: "'t :: linorder exts \<Rightarrow> string \<Rightarrow> 't finfo list" where
  "repl_kept exts e =
     (case files_of exts ''.data'' of
        [] \<Rightarrow> files_of exts e
      | d # ds \<Rightarrow> fst (repl_split (fi_timestamp d) e (files_of exts e)))"

lemma files_of_repl:
  "repl_process exts res = Inr (exts', res') \<Longrightarrow> files_of exts' e = repl_kept exts e"
  by (auto simp: repl_process_eq repl_kept_def files_of_split_exts repl_split_simps split: list.splits)

lemma repl_process_total: "\<exists>exts' res'. repl_process exts res = Inr (exts', res')"
  by (simp add: repl_process_eq split: list.split)

lemma repl_results:
  assumes "repl_process exts res = Inr (exts', res')"
  shows "r_data_info res' = (case files_of exts ''.data'' of [] \<Rightarrow> r_data_info res | d # ds \<Rightarrow> Some d)"
    and "r_possible_reclaim res' = r_possible_reclaim res @
      (if files_of exts ''.data'' = [] then files_of exts ''.meta'' else [])"
    and "untouched res res'"
  using assms
  by (auto simp: repl_process_eq untouched_def add_obsolete_def add_reclaim_def split: list.splits)

lemma repl_obsolete:
  assumes "repl_process exts res = Inr (exts', res')" and "keys_ok exts"
  shows "set (r_obsolete res') = set (r_obsolete res) \<union>
    (case files_of exts ''.data'' of [] \<Rightarrow> {}
     | d # ds \<Rightarrow> (\<Union>e. set (snd (repl_split (fi_timestamp d) e (files_of exts e)))))"
  using assms
  by (auto simp: repl_process_eq add_reclaim_def add_obsolete_def set_older_split_exts repl_split_simps
      split: list.splits)

lemma counted_repl:
  assumes "repl_process exts res = Inr (exts', res')"
  shows "counted exts' res' = counted exts res"
  using assms mset_split_exts [OF repl_split_simps(3), where exts = exts]
  by (auto simp: repl_process_eq counted_def add_reclaim_def add_obsolete_def ac_simps split: list.splits)

section \<open>The replicated policy keeps the laws of the interface\<close>

lemma base_parse_error: "base_parse_filename lib f = Inl e \<Longrightarrow> is_disk_file_error e"
  by (auto simp: base_parse_filename_def Let_def split_def split: option.splits)

lemma repl_split_subset: "set (fst (repl_split t e l)) \<subseteq> set l" "set (snd (repl_split t e l)) \<subseteq> set l"
  using repl_split_simps(3) [of t e l] by (metis set_append Un_upper1, metis set_append Un_upper2)

lemma repl_kept_subset: "set (repl_kept exts e) \<subseteq> set (files_of exts e)"
  by (cases "files_of exts ''.data''") (simp_all add: repl_kept_def repl_split_subset)

lemma repl_keys_ok:
  "repl_process exts res = Inr (exts', res') \<Longrightarrow> keys_ok exts \<Longrightarrow> keys_ok exts'"
  by (auto simp: repl_process_eq split: list.splits)

lemma base_verify_choose:
  assumes "fresh res" and "untouched res res'"
  shows "base_verify (choose_files datadir exts res')"
  using assms
  by (cases res; cases res')
    (auto simp: base_verify_def choose_files_def fresh_def untouched_def same_but_dropped_def
      empty_results_def Let_def split: option.split list.split)

lemma repl_dropped:
  assumes p: "repl_process exts res = Inr (exts', res')" and k: "keys_ok exts" and i: "i \<in> dropped res'"
  shows "i \<in> dropped res \<or> (\<exists>x. i \<in> set (files_of exts x))"
proof -
  show ?thesis
    using repl_split_subset(2) i unfolding dropped_def repl_obsolete [OF p k] repl_results(2) [OF p]
    by (auto split: list.splits if_splits) blast+
qed

interpretation repl: conserving_policy "repl_ops lib" "{}"
proof
  fix exts exts' :: "'a exts" and res res' :: "'a results" and datadir e f exc d i
  show "op_parse (repl_ops lib) f = Inl exc \<Longrightarrow> is_disk_file_error exc"
    by (simp add: base_parse_error)
  assume "op_process (repl_ops lib) exts res = Inr (exts', res')"
  then have p: "repl_process exts res = Inr (exts', res')" by simp
  show "untouched res res'" by (rule repl_results(3) [OF p])
  show "set (files_of exts' e) \<subseteq> set (files_of exts e)"
    unfolding files_of_repl [OF p] by (rule repl_kept_subset)
  show "fresh res \<Longrightarrow> op_verify (repl_ops lib) (choose_files datadir exts' res')"
    using base_verify_choose repl_results(3) [OF p] by simp
  show "r_data_info res = None \<Longrightarrow> r_data_info res' = Some d \<Longrightarrow>
      \<exists>i \<in> set (files_of exts ''.data''). same_file d i"
    unfolding repl_results(1) [OF p] by (auto split: list.splits)
  assume k: "keys_ok exts"
  show "i \<in> dropped res' \<Longrightarrow> i \<in> dropped res \<or> (\<exists>x. \<exists>j \<in> set (files_of exts x). same_file i j)"
    using repl_dropped [OF p k] same_file_refl by blast
  assume pr: "r_possible_reclaim res = []"
  have "mset (files_of exts' ''.ts'' @ r_possible_reclaim res') \<subseteq># mset (all_files exts')"
    using files_of_submset2 [OF repl_keys_ok [OF p k], of "''.ts''" "''.meta''"]
      files_of_submset [OF repl_keys_ok [OF p k], of "''.ts''"] p
    unfolding repl_results(2) [OF p] pr by (auto simp: repl_process_eq split: list.splits)
  then have "mset (files_of exts' ''.ts'' @ r_possible_reclaim res') + mset (r_obsolete res') \<subseteq># counted exts' res'"
    unfolding counted_def by (rule subset_mset.add_right_mono)
  then have "mset (files_of exts' ''.ts'' @ r_obsolete res' @ r_possible_reclaim res') \<subseteq>#
      mset (all_files exts @ r_obsolete res)"
    unfolding counted_repl [OF p] by (simp add: counted_def ac_simps)
  then show "mset (map fi_filename (files_of exts' ''.ts'' @ r_obsolete res' @ r_possible_reclaim res')) \<subseteq>#
      mset (map fi_filename (all_files exts @ r_obsolete res))"
    unfolding mset_map by (rule image_mset_subseteq_mono)
qed

section \<open>The choice\<close>

definition meta_choice :: "'t :: linorder finfo \<Rightarrow> 't finfo list \<Rightarrow> 't finfo option \<times> 't finfo option" where
  "meta_choice d ms =
     (case ms of [] \<Rightarrow> (None, None)
      | m # ms' \<Rightarrow> (Some m, if newer_than (fi_ctype (last ms)) (fi_timestamp d) then Some (last ms) else None))"

definition first :: "'a list \<Rightarrow> 'a option" where
  "first xs = (case xs of [] \<Rightarrow> None | x # _ \<Rightarrow> Some x)"

definition newer :: "'t :: linorder finfo \<Rightarrow> 't finfo list \<Rightarrow> 't finfo list" where
  "newer d l = filter (\<lambda>i. fi_timestamp d < fi_timestamp i) l"

text \<open>The results of the whole template over the replicated policy, from the four staged lists.\<close>

definition repl_outcome ::
  "(string \<Rightarrow> pyexc + 't :: {linorder, order_bot} finfo) \<Rightarrow> string list \<Rightarrow> 't results \<Rightarrow> bool" where
  "repl_outcome p fs r \<longleftrightarrow>
     r_data_info r = first (staged p fs ''.data'') \<and>
     (case staged p fs ''.data'' of
        [] \<Rightarrow> r_meta_info r = None \<and> r_ctype_info r = None \<and>
          r_ts_info r = first (staged p fs ''.ts'') \<and>
          r_possible_reclaim r = staged p fs ''.meta'' \<and> set (r_obsolete r) = superseded p fs
      | d # ds \<Rightarrow>
          (r_meta_info r, r_ctype_info r) = meta_choice d (newer d (staged p fs ''.meta'')) \<and>
          r_ts_info r = None \<and> r_possible_reclaim r = [] \<and>
          set (r_obsolete r) = superseded p fs \<union>
            (\<Union>e. {i \<in> set (staged p fs e).
                   if e = ''.data'' then fi_timestamp i < fi_timestamp d
                   else fi_timestamp i \<le> fi_timestamp d}))"

lemma repl_run:
  obtains r where
    "\<And>verify. get_ondisk_files (repl_ops lib) fs datadir verify = Inr r"
    "repl_outcome (base_parse_filename lib) fs r"
proof -
  let ?p = "base_parse_filename lib"
  let ?D = "staged ?p fs ''.data''"
  obtain exts res where run: "\<And>verify. get_ondisk_files (repl_ops lib) fs datadir verify =
      try_then (repl_process exts res) (\<lambda>(exts, res).
        let res = choose_files datadir exts res
        in if verify \<and> \<not> base_verify res then Inl RuntimeError else Inr res)"
    and k: "keys_ok exts" and f: "\<And>e. files_of exts e = staged ?p fs e" and fr: "fresh res"
    and pr: "r_possible_reclaim res = []" and ob: "set (r_obsolete res) = superseded ?p fs"
    by (rule get_ondisk_files_staged [where ops = "repl_ops lib" and fs = fs and datadir = datadir])
      (simp_all add: base_parse_error)
  obtain exts' res' where p: "repl_process exts res = Inr (exts', res')"
    using repl_process_total by blast
  have none: "r_data_info res = None" "r_meta_info res = None" "r_ts_info res = None" "r_ctype_info res = None"
    using fr by (cases res; simp add: fresh_def same_but_dropped_def empty_results_def)+
  have r': "r_data_info res' = first ?D" "r_possible_reclaim res' = (if ?D = [] then staged ?p fs ''.meta'' else [])"
      "r_meta_info res' = None" "r_ts_info res' = None" "r_ctype_info res' = None"
    using repl_results [OF p]
    by (simp_all add: f none pr untouched_def first_def split: list.split)
  have f': "files_of exts' e = (case ?D of [] \<Rightarrow> staged ?p fs e
      | d # ds \<Rightarrow> filter (\<lambda>i. if e = ''.data'' then fi_timestamp d \<le> fi_timestamp i else fi_timestamp d < fi_timestamp i)
          (staged ?p fs e))" for e
    by (simp add: files_of_repl [OF p] repl_kept_def f repl_split_filter(1) split: list.split)
  have o': "set (r_obsolete res') = superseded ?p fs \<union> (case ?D of [] \<Rightarrow> {}
      | d # ds \<Rightarrow> (\<Union>e. {i \<in> set (staged ?p fs e).
          if e = ''.data'' then fi_timestamp i < fi_timestamp d else fi_timestamp i \<le> fi_timestamp d}))"
    by (simp add: repl_obsolete [OF p k] ob f repl_split_filter(2) split: list.split)
  let ?r = "choose_files datadir exts' res'"
  have same: "r_data_info ?r = r_data_info res'" "r_obsolete ?r = r_obsolete res'"
      "r_possible_reclaim ?r = r_possible_reclaim res'"
    by (auto simp: choose_files_def Let_def split: option.split list.split)
  show thesis
  proof (rule that)
    show "get_ondisk_files (repl_ops lib) fs datadir verify = Inr ?r" for verify
      using base_verify_choose [OF fr repl_results(3) [OF p]] by (simp add: run p Let_def)
    show "repl_outcome ?p fs ?r"
      unfolding repl_outcome_def same
      by (auto simp: choose_files_def Let_def r' f' o' first_def newer_def meta_choice_def split: list.split)
  qed
qed

text \<open>
  What the choice is to be, over the set of parsed names: the newest \<^verbatim>\<open>.data\<close> file newer than every
  tombstone; with it the newest \<^verbatim>\<open>.meta\<close> file newer than it; without it the newest tombstone.
\<close>

definition newest :: "'t :: linorder finfo set \<Rightarrow> 't finfo option \<Rightarrow> bool" where
  "newest S i \<longleftrightarrow>
     (case i of None \<Rightarrow> S = {} | Some i \<Rightarrow> i \<in> S \<and> (\<forall>j \<in> S. fi_timestamp j \<le> fi_timestamp i))"

definition with_ext :: "string \<Rightarrow> 't finfo set \<Rightarrow> 't finfo set" where
  "with_ext e S = {i \<in> S. fi_ext i = e}"

definition live_data :: "'t :: linorder finfo set \<Rightarrow> 't finfo set" where
  "live_data S = {i \<in> with_ext ''.data'' S. \<forall>t \<in> with_ext ''.ts'' S. fi_timestamp t < fi_timestamp i}"

definition meta_after :: "'t :: linorder finfo \<Rightarrow> 't finfo set \<Rightarrow> 't finfo set" where
  "meta_after d S = {i \<in> with_ext ''.meta'' S. fi_timestamp d < fi_timestamp i}"

lemma newest_first:
  assumes "descending fi_timestamp l" shows "newest (set l) (first l)"
  using assms by (cases l) (auto simp: newest_def first_def descending_Cons)

lemma live_ts_bound:
  "listed parse fs ''.ts'' = t # ts \<Longrightarrow> j \<in> with_ext ''.ts'' (set (infos parse fs)) \<Longrightarrow>
     fi_timestamp j \<le> fi_timestamp t"
  using descending_hd [OF descending_listed, of j parse fs "''.ts''"] listed_ConsD [of parse fs "''.ts''" t ts]
  by (auto simp: with_ext_def)

lemma set_live:
  assumes "e \<noteq> ''.ts''"
  shows "set (live parse fs e) = {i \<in> with_ext e (set (infos parse fs)).
    \<forall>t \<in> with_ext ''.ts'' (set (infos parse fs)). fi_timestamp t < fi_timestamp i}"
proof (cases "listed parse fs ''.ts''")
  case Nil
  then have "with_ext ''.ts'' (set (infos parse fs)) = {}"
    using set_listed [of parse fs "''.ts''"] by (simp add: with_ext_def)
  then show ?thesis by (simp add: live_no_ts [OF Nil]) (simp add: with_ext_def)
next
  case (Cons t ts)
  then have "t \<in> with_ext ''.ts'' (set (infos parse fs))"
    using listed_ConsD [OF Cons] by (auto simp: with_ext_def)
  with assms show ?thesis
    by (auto simp: live_def Cons with_ext_def [of e] dest: live_ts_bound [OF Cons] order_le_less_trans)
qed

lemma staged_data: "set (staged parse fs ''.data'') = live_data (set (infos parse fs))"
  by (simp add: staged_def set_live live_data_def)

lemma first_staged_ts: "newest (with_ext ''.ts'' (set (infos parse fs))) (first (staged parse fs ''.ts''))"
proof (cases "listed parse fs ''.ts''")
  case Nil
  then have "with_ext ''.ts'' (set (infos parse fs)) = {}"
    using set_listed [of parse fs "''.ts''"] by (simp add: with_ext_def)
  with Nil show ?thesis by (simp add: staged_def live_def first_def newest_def)
next
  case (Cons t ts)
  then have "t \<in> with_ext ''.ts'' (set (infos parse fs))"
    using listed_ConsD [OF Cons] by (auto simp: with_ext_def)
  with Cons show ?thesis
    by (simp add: staged_def live_def first_def newest_def live_ts_bound [OF Cons])
qed

lemma set_live_meta_after:
  assumes "d \<in> live_data (set (infos parse fs))"
  shows "set (newer d (live parse fs ''.meta'')) = meta_after d (set (infos parse fs))"
  using assms by (auto simp: newer_def set_live meta_after_def live_data_def dest: less_trans)

lemma first_newer_kept:
  assumes "descending fi_timestamp ms"
  shows "newest (set (newer d ms)) (first (newer d (kept_meta ms)))"
proof (cases "ms = []")
  case True
  then show ?thesis by (simp add: newer_def newest_def first_def kept_meta_def retain_meta_def)
next
  case False
  then show ?thesis using assms
    by (cases rule: kept_meta_cases) (auto simp: newer_def newest_def first_def)
qed

lemma outcome_choice:
  assumes out: "repl_outcome p fs r" and S: "S = set (infos p fs)"
  shows "newest (live_data S) (r_data_info r)"
    and "r_data_info r = None \<Longrightarrow> r_meta_info r = None \<and> r_ctype_info r = None \<and> newest (with_ext ''.ts'' S) (r_ts_info r)"
    and "r_data_info r = Some d \<Longrightarrow> r_ts_info r = None \<and> newest (meta_after d S) (r_meta_info r)"
proof -
  let ?D = "staged p fs ''.data''"
  show "newest (live_data S) (r_data_info r)"
    using out newest_first [OF descending_staged, of p fs "''.data''"]
    by (simp add: repl_outcome_def staged_data S)
  show "r_meta_info r = None \<and> r_ctype_info r = None \<and> newest (with_ext ''.ts'' S) (r_ts_info r)" if "r_data_info r = None"
    using that out first_staged_ts [of p fs] by (cases ?D) (auto simp: repl_outcome_def first_def S)
  show "r_ts_info r = None \<and> newest (meta_after d S) (r_meta_info r)" if d: "r_data_info r = Some d"
  proof -
    obtain ds where D: "?D = d # ds" using d out by (cases ?D) (auto simp: repl_outcome_def first_def)
    then have x: "d \<in> live_data (set (infos p fs))" using staged_data [of p fs] by auto
    have "newest (meta_after d S) (first (newer d (staged p fs ''.meta'')))"
      using first_newer_kept [of "live p fs ''.meta''" d]
      by (simp add: staged_def set_live_meta_after [OF x] S)
    moreover have "r_meta_info r = first (newer d (staged p fs ''.meta''))"
      using out D by (simp add: repl_outcome_def meta_choice_def first_def split: list.splits)
    ultimately show ?thesis using out D by (simp add: repl_outcome_def)
  qed
qed

text \<open>C9: \<^verbatim>\<open>get_ondisk_files\<close> of the replicated policy always returns (the contract check can not fail), and
  picks the newest \<^verbatim>\<open>.data\<close> file that is newer than every tombstone, with the newest \<^verbatim>\<open>.meta\<close> file newer
  than it, or else the newest tombstone.\<close>

theorem repl_choice:
  "\<exists>r. (\<forall>verify. get_ondisk_files (repl_ops lib) fs datadir verify = Inr r) \<and>
     (let S = set (infos (base_parse_filename lib) fs) in
        newest (live_data S) (r_data_info r) \<and>
        (case r_data_info r of
           None \<Rightarrow> r_meta_info r = None \<and> r_ctype_info r = None \<and>
             newest (with_ext ''.ts'' S) (r_ts_info r)
         | Some d \<Rightarrow> r_ts_info r = None \<and> newest (meta_after d S) (r_meta_info r)))"
proof -
  obtain r where "\<And>verify. get_ondisk_files (repl_ops lib) fs datadir verify = Inr r"
    and "repl_outcome (base_parse_filename lib) fs r"
    by (rule repl_run [of lib fs datadir]) (rule that)
  with outcome_choice [OF this(2) refl] show ?thesis
    by (intro exI [of _ r]) (simp add: Let_def split: option.split)
qed

section \<open>The clean-up\<close>

text \<open>Choosing again after the doomed files are gone: with a live \<^verbatim>\<open>.data\<close> file.\<close>

lemma kept_meta_newer:
  "descending fi_timestamp ms \<Longrightarrow> kept_meta (newer d (kept_meta ms)) = newer d (kept_meta ms)"
proof (cases "ms = []")
  case False
  assume "descending fi_timestamp ms"
  with False show ?thesis
    by (cases rule: kept_meta_cases) (auto simp: newer_def kept_meta_def retain_meta_def sorted_rev_def)
qed (simp add: kept_meta_def retain_meta_def newer_def)

lemma newer_staged_ts:
  assumes "staged p fs ''.data'' = d # ds" shows "newer d (staged p fs ''.ts'') = []"
proof -
  have "d \<in> live_data (set (infos p fs))" using staged_data [of p fs] assms by auto
  then have "\<not> fi_timestamp d < fi_timestamp i" if "i \<in> set (staged p fs ''.ts'')" for i
    using staged_ext [OF that] by (auto simp: live_data_def with_ext_def)
  then show ?thesis by (simp add: newer_def filter_empty_conv)
qed

lemma staged_again_data:
  assumes D: "staged p fs ''.data'' = d # ds" and dist: "distinct fs"
    and gone: "set G = superseded p fs \<union>
         (\<Union>e. {i \<in> set (staged p fs e).
                if e = ''.data'' then fi_timestamp i < fi_timestamp d else fi_timestamp i \<le> fi_timestamp d})"
    and l: "\<And>e. listed p fs' e = filter (\<lambda>i. i \<notin> set G) (listed p fs e)"
  shows "first (staged p fs' ''.data'') = Some d"
    and "staged p fs' ''.meta'' = newer d (staged p fs ''.meta'')"
    and "listed p fs' ''.ts'' = []"
proof -
  define X where "X = (\<Union>e. {i \<in> set (staged p fs e).
      if e = ''.data'' then fi_timestamp i < fi_timestamp d else fi_timestamp i \<le> fi_timestamp d})"
  have X: "i \<notin> X \<longleftrightarrow>
      (if e = ''.data'' then fi_timestamp d \<le> fi_timestamp i else fi_timestamp d < fi_timestamp i)"
    if "i \<in> set (staged p fs e)" for i e
  proof -
    have "i \<in> set (staged p fs x) \<longleftrightarrow> x = e" for x
      using that staged_ext [of i p fs] by auto
    then show ?thesis unfolding X_def by (auto simp: not_less not_le)
  qed
  have again: "listed p fs' e = filter (\<lambda>i. i \<notin> X) (staged p fs e)" for e
    using listed_again [OF dist gone [folded X_def] l] .
  have other: "listed p fs' e = newer d (staged p fs e)" if "e \<noteq> ''.data''" for e
    unfolding again newer_def using that X by (intro filter_cong) auto
  show ts: "listed p fs' ''.ts'' = []" by (simp add: other newer_staged_ts [OF D])
  have "first (filter (\<lambda>i. i \<notin> X) (d # ds)) = Some d" using X [of d "''.data''"] D by (simp add: first_def)
  then show "first (staged p fs' ''.data'') = Some d"
    by (simp add: staged_def live_no_ts [OF ts] again) (simp add: D [unfolded staged_def, simplified])
  show "staged p fs' ''.meta'' = newer d (staged p fs ''.meta'')"
    by (simp add: staged_def live_no_ts [OF ts] other kept_meta_newer)
qed

text \<open>Without one: only the tombstone counts.\<close>

lemma staged_again_ts:
  assumes dist: "distinct fs" and gone: "set G = superseded p fs \<union> X"
    and l: "\<And>e. listed p fs' e = filter (\<lambda>i. i \<notin> set G) (listed p fs e)"
  shows "first (staged p fs' ''.ts'') =
      (case staged p fs ''.ts'' of [] \<Rightarrow> None | t # ts \<Rightarrow> if t \<in> X then None else Some t)"
proof -
  have again: "listed p fs' e = filter (\<lambda>i. i \<notin> X) (staged p fs e)" for e
    using listed_again [OF dist gone l] .
  have "staged p fs' ''.ts'' = (case listed p fs' ''.ts'' of [] \<Rightarrow> [] | t # ts \<Rightarrow> [t])"
    by (simp add: staged_def live_def split: list.split)
  moreover have "length (staged p fs ''.ts'') \<le> 1"
    by (simp add: staged_def live_def split: list.split)
  ultimately show "first (staged p fs' ''.ts'') =
      (case staged p fs ''.ts'' of [] \<Rightarrow> None | t # ts \<Rightarrow> if t \<in> X then None else Some t)"
    by (cases "staged p fs ''.ts''") (auto simp: again first_def)
qed

lemma staged_again_subset:
  assumes dist: "distinct fs" and gone: "set G = superseded p fs \<union> X"
    and l: "\<And>e. listed p fs' e = filter (\<lambda>i. i \<notin> set G) (listed p fs e)"
  shows "set (staged p fs' e) \<subseteq> set (staged p fs e)"
proof -
  have "set (staged p fs' e) \<subseteq> set (listed p fs' e)"
    using staged_subset [of p fs' e] live_subset [of p fs' e] by blast
  then show ?thesis unfolding listed_again [OF dist gone l] by auto
qed

lemma repl_doomed_listed:
  assumes "repl_outcome p fs r"
  shows "set (doomed env hsh_path r) \<subseteq> set (infos p fs)"
proof -
  have st: "set (staged p fs e) \<subseteq> set (infos p fs)" for e using staged_ext by blast
  show ?thesis
  proof (cases "staged p fs ''.data''")
    case Nil
    have "t \<in> set (infos p fs)" if "r_ts_info r = Some t" for t
      using assms Nil that st [of "''.ts''"]
      by (cases "staged p fs ''.ts''") (auto simp: repl_outcome_def first_def)
    then have "set (case r_ts_info r of None \<Rightarrow> [] | Some t \<Rightarrow> if is_reclaimable env (fi_timestamp t) then [t] else [])
        \<subseteq> set (infos p fs)"
      by (auto split: option.split dest: sym)
    then show ?thesis using assms Nil superseded_infos [of p fs] st [of "''.meta''"]
      by (auto simp: repl_outcome_def doomed_def)
  next
    case (Cons d ds)
    then have "set (doomed env hsh_path r) = set (r_obsolete r)"
      using assms by (simp add: repl_outcome_def doomed_def)
    also have "\<dots> \<subseteq> superseded p fs \<union> (\<Union>e. set (staged p fs e))"
      using assms Cons by (auto simp: repl_outcome_def)
    finally show ?thesis using superseded_infos [of p fs] st by blast
  qed
qed

lemma repl_outcome_again:
  assumes r: "repl_outcome p fs r" and r': "repl_outcome p (kept_names env hsh_path r fs) r'"
    and dist: "distinct fs"
  shows "r_data_info r' = r_data_info r \<and> r_meta_info r' = r_meta_info r \<and>
     r_ctype_info r' = r_ctype_info r \<and> r_ts_info r' = r_ts_info (cleaned env hsh_path r)"
proof (cases "staged p fs ''.data''")
  case Nil
  let ?G = "doomed env hsh_path r"
  let ?X = "set (filter (\<lambda>t. is_reclaimable env (fi_timestamp t)) (staged p fs ''.ts'')) \<union>
    set (filter (reclaimable_now env hsh_path) (staged p fs ''.meta''))"
  note l = listed_kept_names [OF repl_doomed_listed [OF r]]
  have len: "length (staged p fs ''.ts'') \<le> 1"
    by (simp add: staged_def live_def split: list.split)
  have "set ?G = superseded p fs \<union> ?X"
    using r Nil len
    by (cases "staged p fs ''.ts''") (auto simp: repl_outcome_def doomed_def first_def)
  note again = staged_again_subset [OF dist this l, of "''.data''"] staged_again_ts [OF dist this l]
  have Nil': "staged p (kept_names env hsh_path r fs) ''.data'' = []" using again(1) Nil by simp
  have X: "t \<in> ?X \<longleftrightarrow> is_reclaimable env (fi_timestamp t)" if "t \<in> set (staged p fs ''.ts'')" for t
    using that by (auto simp: reclaimable_now_def)
  show ?thesis
    using r r' again(2) Nil Nil' X
    by (cases "staged p fs ''.ts''")
      (simp_all add: repl_outcome_def cleaned_def add_obsolete_def first_def split del: if_split split: if_split_asm)
next
  case (Cons x xs)
  let ?G = "doomed env hsh_path r"
  note l = listed_kept_names [OF repl_doomed_listed [OF r]]
  have "set ?G = set (r_obsolete r)" using r Cons by (simp add: repl_outcome_def doomed_def)
  then have gone: "set ?G = superseded p fs \<union>
       (\<Union>e. {i \<in> set (staged p fs e).
              if e = ''.data'' then fi_timestamp i < fi_timestamp x else fi_timestamp i \<le> fi_timestamp x})"
    using r Cons by (simp add: repl_outcome_def)
  note again = staged_again_data [OF Cons dist gone l]
  have idem: "newer x (newer x m) = newer x m" for m by (simp add: newer_def)
  from again(1) obtain xs' where x': "staged p (kept_names env hsh_path r fs) ''.data'' = x # xs'"
    by (cases "staged p (kept_names env hsh_path r fs) ''.data''") (auto simp: first_def)
  show ?thesis
    using r r' again(2) Cons x'
    by (cases "meta_choice x (newer x (staged p fs ''.meta''))")
      (simp add: repl_outcome_def first_def cleaned_def add_obsolete_def idem)
qed

lemma unexpected_kept:
  assumes "set (doomed env hsh_path r) \<subseteq> set (infos p fs)"
  shows "filter (\<lambda>f. isl (p f)) (kept_names env hsh_path r fs) = filter (\<lambda>f. isl (p f)) fs"
proof -
  have "f \<notin> fi_filename ` set (doomed env hsh_path r)" if "isl (p f)" for f
    using that assms by (fastforce simp: in_infos)
  then show ?thesis by (auto simp: kept_names_def intro!: filter_cong)
qed

lemma repl_cleanup_run:
  assumes "distinct disk"
  obtains r r' where
    "\<And>verify. get_ondisk_files (repl_ops lib) (rev (sort disk)) hsh_path verify = Inr r"
    "repl_outcome (base_parse_filename lib) (rev (sort disk)) r"
    "cleanup_ondisk_files (repl_ops lib) env hsh_path (Some disk) =
       (if kept_names env hsh_path r disk = [] then None else Some (kept_names env hsh_path r disk),
        Inr (cleaned env hsh_path r, rev (sort (kept_names env hsh_path r disk))))"
    "\<And>verify. get_ondisk_files (repl_ops lib) (rev (sort (kept_names env hsh_path r disk))) hsh_path verify = Inr r'"
    "repl_outcome (base_parse_filename lib) (rev (sort (kept_names env hsh_path r disk))) r'"
    "r_data_info r' = r_data_info r" "r_meta_info r' = r_meta_info r" "r_ctype_info r' = r_ctype_info r"
    "r_ts_info r' = r_ts_info (cleaned env hsh_path r)"
proof -
  let ?p = "base_parse_filename lib" and ?fs = "rev (sort disk)"
  obtain r where run: "\<And>verify. get_ondisk_files (repl_ops lib) ?fs hsh_path verify = Inr r"
    and out: "repl_outcome ?p ?fs r"
    by (rule repl_run [of lib ?fs hsh_path]) (rule that)
  define disk' where "disk' = kept_names env hsh_path r disk"
  have fs': "rev (sort disk') = kept_names env hsh_path r ?fs" by (simp add: disk'_def sort_kept_names)
  have cl: "cleanup_ondisk_files (repl_ops lib) env hsh_path (Some disk) =
       (if disk' = [] then None else Some disk', Inr (cleaned env hsh_path r, rev (sort disk')))"
    unfolding disk'_def sort_kept_names by (rule repl.cleanup_ok) (use run assms in simp_all)
  obtain r' where run': "\<And>verify. get_ondisk_files (repl_ops lib) (rev (sort disk')) hsh_path verify = Inr r'"
    and out': "repl_outcome ?p (rev (sort disk')) r'"
    by (rule repl_run [of lib "rev (sort disk')" hsh_path]) (rule that)
  have "distinct ?fs" using assms by simp
  note again = repl_outcome_again [OF out out' [unfolded fs'] this]
  show thesis
    by (rule that [OF run out cl [unfolded disk'_def] run' [unfolded disk'_def] out' [unfolded disk'_def]])
      (use again in auto)
qed

text \<open>C10: cleaning up a replicated object's directory raises nothing and removes no file of the object: choosing
  again among the names left gives the same \<^verbatim>\<open>.data\<close>, \<^verbatim>\<open>.meta\<close> and content type files and the same
  unexpected names; only a reclaimable tombstone is gone, and nothing it hid has come back.\<close>

theorem repl_cleanup_preserves:
  assumes "distinct disk"
  shows "\<exists>r disk' r'. get_ondisk_files (repl_ops lib) (rev (sort disk)) hsh_path False = Inr r \<and>
     cleanup_ondisk_files (repl_ops lib) env hsh_path (Some disk) =
       (if disk' = [] then None else Some disk', Inr (cleaned env hsh_path r, rev (sort disk'))) \<and>
     set disk' \<subseteq> set disk \<and>
     get_ondisk_files (repl_ops lib) (rev (sort disk')) hsh_path True = Inr r' \<and>
     r_data_info r' = r_data_info r \<and> r_meta_info r' = r_meta_info r \<and>
     r_ctype_info r' = r_ctype_info r \<and> r_unexpected r' = r_unexpected r \<and>
     r_ts_info r' = r_ts_info (cleaned env hsh_path r)"
proof -
  obtain r r' where run: "get_ondisk_files (repl_ops lib) (rev (sort disk)) hsh_path False = Inr r"
    and out: "repl_outcome (base_parse_filename lib) (rev (sort disk)) r"
    and cl: "cleanup_ondisk_files (repl_ops lib) env hsh_path (Some disk) =
       (if kept_names env hsh_path r disk = [] then None else Some (kept_names env hsh_path r disk),
        Inr (cleaned env hsh_path r, rev (sort (kept_names env hsh_path r disk))))"
    and run': "\<And>verify. get_ondisk_files (repl_ops lib) (rev (sort (kept_names env hsh_path r disk))) hsh_path verify = Inr r'"
    and same: "r_data_info r' = r_data_info r" "r_meta_info r' = r_meta_info r" "r_ctype_info r' = r_ctype_info r"
      "r_ts_info r' = r_ts_info (cleaned env hsh_path r)"
    by (rule repl_cleanup_run [OF assms, of lib hsh_path env]) (rule that)
  have "r_unexpected r' = r_unexpected r"
    using repl.chosen_files(5) [OF run] repl.chosen_files(5) [OF run' [of False]]
      unexpected_kept [OF repl_doomed_listed [OF out]] by (simp add: sort_kept_names)
  moreover have "set (kept_names env hsh_path r disk) \<subseteq> set disk" by (auto simp: kept_names_def)
  ultimately show ?thesis using run cl run' same by blast
qed

text \<open>C11: a file name made for a timestamp, an extension and a content type timestamp parses back to them.\<close>

theorem base_filename_roundtrip:
  assumes "internal_ok lib t" and "encode_ok lib t c"
    and "ext = dot # x" and "slash \<notin> set x" and "dot \<notin> set x"
  shows "base_parse_filename lib (base_make_filename lib t (Some ext) c) =
    Inr \<lparr>fi_timestamp = t, fi_ext = ext,
         fi_ctype = (if ext = ''.meta'' then given_ctype lib c else None),
         fi_frag = None, fi_durable = None, fi_filename = []\<rparr>"
  using assms splitext_made [OF _ assms(4,5)]
  by (cases c)
    (auto simp: base_parse_filename_def base_make_filename_def internal_ok_def encode_ok_def given_ctype_def
      Let_def split: if_splits)

theorem base_filename_roundtrip_witness:
  "base_parse_filename sample_lib (base_make_filename sample_lib 17 (Some ''.meta'') (Some 12)) =
    Inr \<lparr>fi_timestamp = 17, fi_ext = ''.meta'', fi_ctype = Some 12,
         fi_frag = None, fi_durable = None, fi_filename = []\<rparr>"
  using base_filename_roundtrip [OF sample_lib_ok, of "''.meta''" "''meta''" 17 "Some 12"]
  by (simp add: given_ctype_def sample_lib_def)

definition sample_env :: "nat clean_env" where
  "sample_env = \<lparr>ce_now = 1000, ce_float = int, ce_reclaim_age = 100, ce_commit_window = 60, ce_older = (\<lambda>_. False)\<rparr>"

theorem repl_cleanup_preserves_witness:
  "\<exists>l. set l \<subseteq> {''1.ts'', ''2.data'', ''1.data''} \<and>
     fst (cleanup_ondisk_files (repl_ops sample_lib) sample_env ''/o''
       (Some [''1.ts'', ''2.data'', ''1.data''])) = (if l = [] then None else Some l)"
proof -
  have "distinct [''1.ts'', ''2.data'', ''1.data'']" by simp
  from repl_cleanup_preserves [OF this, of sample_lib "''/o''" sample_env]
  obtain r l where "cleanup_ondisk_files (repl_ops sample_lib) sample_env ''/o''
       (Some [''1.ts'', ''2.data'', ''1.data'']) =
       (if l = [] then None else Some l, Inr (cleaned sample_env ''/o'' r, rev (sort l)))"
    and "set l \<subseteq> set [''1.ts'', ''2.data'', ''1.data'']"
    by blast
  then show ?thesis by (intro exI [of _ l]) (simp only: fst_conv list.set)
qed

end
