(* ===== verification/DiskFile.thy ===== *)
theory DiskFile
  imports Replicated "HOL-Library.Product_Lexorder"
begin

text \<open>
  \<^verbatim>\<open>BaseDiskFile\<close> and \<^verbatim>\<open>BaseDiskFileWriter\<close> of \<^verbatim>\<open>swift_patches/obj/bs_diskfile.py\<close> with the replicated
  subclasses \<^verbatim>\<open>DiskFile\<close> and \<^verbatim>\<open>DiskFileWriter\<close>: opening an object from the files of its hash directory,
  its metadata, and writing, updating and deleting it.  A hash directory maps names to files with their
  bytes and metadata; an instance of \<^verbatim>\<open>DiskFile\<close> is a record.
\<close>

section \<open>Files\<close>

text \<open>
  A file: its bytes, what reading its metadata gives (\<open>read_metadata\<close> in theory \<open>Xattr\<close>), and the errno
  of opening it, if it can not be opened.
\<close>

record stored =
  st_body :: string
  st_md :: "pyexc + metadata"
  st_open_error :: "int option"

text \<open>A hash directory is missing, can not be listed, or lists files.\<close>

datatype hash_dir = Missing | Unlistable int | Files "(string \<times> stored) list"

definition file_at :: "hash_dir \<Rightarrow> string \<Rightarrow> stored option" where
  "file_at d path = (case d of Files fs \<Rightarrow> map_of fs (basename path) | _ \<Rightarrow> None)"

text \<open>
  What is used of the surroundings: timestamps, the clean-up's environment, \<^verbatim>\<open>hash_path(name)\<close>, and
  \<^verbatim>\<open>is_sys_meta('object', key)\<close>.
\<close>

record 't df_env =
  de_lib :: "'t ts_lib"
  de_clean :: "'t clean_env"
  de_hash_path :: "string \<Rightarrow> string"
  de_sys_meta :: "string \<Rightarrow> bool"

text \<open>An instance; \<^verbatim>\<open>_fp\<close> is only whether the data file is held open.\<close>

record 't disk_file =
  df_name :: "string option"
  df_datadir :: string
  df_open_expired :: bool
  df_ondisk_info :: "'t results option"
  df_metadata :: "metadata option"
  df_datafile :: "metadata option"
  df_metafile :: "metadata option"
  df_data_file :: "string option"
  df_fp :: bool
  df_content_length :: "int option"

text \<open>
  \<^verbatim>\<open>BaseDiskFile.__init__\<close>: all of account, container and object or none; empty strings count as not
  given.  The directory is \<open>storage_dir\<close> of the name, unless it is given.
\<close>

definition new_disk_file ::
  "(string \<Rightarrow> string \<Rightarrow> string \<Rightarrow> string) \<Rightarrow> string \<Rightarrow> string \<Rightarrow> string \<Rightarrow> string option \<Rightarrow> bool \<Rightarrow> pyexc + 't disk_file" where
  "new_disk_file storage_dir account container obj datadir open_expired =
     (let given = (account \<noteq> [] \<and> container \<noteq> [] \<and> obj \<noteq> []);
          some = (account \<noteq> [] \<or> container \<noteq> [] \<or> obj \<noteq> [])
      in if \<not> given \<and> some then Inl ValueError
         else Inr \<lparr>df_name = (if given then Some (slash # account @ slash # container @ slash # obj) else None),
                df_datadir = (case datadir of Some (c # cs) \<Rightarrow> c # cs | _ \<Rightarrow> storage_dir account container obj),
                df_open_expired = open_expired, df_ondisk_info = None, df_metadata = None, df_datafile = None,
                df_metafile = None, df_data_file = None, df_fp = False, df_content_length = None\<rparr>)"

section \<open>Accessors\<close>

text \<open>\<^verbatim>\<open>Timestamp(x)\<close> of a value of a dictionary: \<^verbatim>\<open>TypeError\<close> for \<^verbatim>\<open>None\<close>, \<^verbatim>\<open>ValueError\<close> for a bad string.\<close>

definition timestamp_of :: "'t ts_lib \<Rightarrow> string option \<Rightarrow> pyexc + 't" where
  "timestamp_of lib v =
     (case v of
        None \<Rightarrow> Inl TypeError
      | Some s \<Rightarrow> (case ts_parse lib s of None \<Rightarrow> Inl ValueError | Some t \<Rightarrow> Inr t))"

definition content_length :: "'t disk_file \<Rightarrow> pyexc + int option" where
  "content_length df = (case df_metadata df of None \<Rightarrow> Inl DiskFileNotOpen | Some m \<Rightarrow> Inr (df_content_length df))"

definition object_timestamp :: "'t ts_lib \<Rightarrow> 't disk_file \<Rightarrow> pyexc + 't" where
  "object_timestamp lib df =
     (case df_metadata df of
        None \<Rightarrow> Inl DiskFileNotOpen
      | Some m \<Rightarrow> timestamp_of lib (map_of m ''X-Timestamp''))"

definition data_timestamp :: "'t ts_lib \<Rightarrow> 't disk_file \<Rightarrow> pyexc + 't" where
  "data_timestamp lib df =
     (case df_datafile df of
        None \<Rightarrow> Inl DiskFileNotOpen
      | Some m \<Rightarrow> timestamp_of lib (map_of m ''X-Timestamp''))"

definition durable_timestamp :: "'t ts_lib \<Rightarrow> 't disk_file \<Rightarrow> pyexc + 't option" where
  "durable_timestamp lib df =
     (case df_ondisk_info df of
        None \<Rightarrow> Inl DiskFileNotOpen
      | Some r \<Rightarrow>
          (case df_datafile df of
             None \<Rightarrow> Inr None
           | Some m \<Rightarrow> if m = [] then Inr None
                       else try_then (timestamp_of lib (map_of m ''X-Timestamp'')) (\<lambda>t. Inr (Some t))))"

definition content_type :: "'t disk_file \<Rightarrow> pyexc + string option" where
  "content_type df =
     (case df_metadata df of None \<Rightarrow> Inl DiskFileNotOpen | Some m \<Rightarrow> Inr (map_of m ''Content-Type''))"

text \<open>The default of \<^verbatim>\<open>get\<close> is evaluated first, and fails when the data file's metadata was never read.\<close>

definition content_type_timestamp :: "'t ts_lib \<Rightarrow> 't disk_file \<Rightarrow> pyexc + 't" where
  "content_type_timestamp lib df =
     (case df_metadata df of
        None \<Rightarrow> Inl DiskFileNotOpen
      | Some m \<Rightarrow>
          (case df_datafile df of
             None \<Rightarrow> Inl AttributeError
           | Some dm \<Rightarrow> timestamp_of lib
               (case map_of m ''Content-Type-Timestamp'' of
                  Some t \<Rightarrow> Some t | None \<Rightarrow> map_of dm ''X-Timestamp'')))"

definition get_metadata :: "'t disk_file \<Rightarrow> pyexc + metadata" where
  "get_metadata df = (case df_metadata df of None \<Rightarrow> Inl DiskFileNotOpen | Some m \<Rightarrow> Inr m)"

definition get_datafile_metadata :: "'t disk_file \<Rightarrow> pyexc + metadata" where
  "get_datafile_metadata df = (case df_datafile df of None \<Rightarrow> Inl DiskFileNotOpen | Some m \<Rightarrow> Inr m)"

definition get_metafile_metadata :: "'t disk_file \<Rightarrow> pyexc + metadata option" where
  "get_metafile_metadata df = (case df_metadata df of None \<Rightarrow> Inl DiskFileNotOpen | Some m \<Rightarrow> Inr (df_metafile df))"

definition validate_metadata :: "'t disk_file \<Rightarrow> pyexc + bool" where
  "validate_metadata df =
     (case df_datafile df of None \<Rightarrow> Inl TypeError | Some m \<Rightarrow> Inr (map_of m ''Content-Length'' \<noteq> None))"

section \<open>Reading metadata\<close>

text \<open>
  Every function from here returns the directory too: quarantining a file moves the hash directory away.
  \<^verbatim>\<open>_failsafe_read_metadata\<close> of a path: a file that is gone has no metadata.  The rename of a quarantine succeeds: when it
  finds the name taken it takes another, and what else can go wrong with it is not modelled.
\<close>

definition failsafe_read :: "hash_dir \<Rightarrow> string \<Rightarrow> hash_dir \<times> (pyexc + metadata)" where
  "failsafe_read d path =
     (case (case file_at d path of None \<Rightarrow> Inl DiskFileNotExist | Some f \<Rightarrow> st_md f) of
        Inr md \<Rightarrow> (d, Inr md)
      | Inl e \<Rightarrow> if e = DiskFileXattrNotSupported \<or> e = DiskFileNotExist then (d, Inl e)
                 else (Missing, Inl DiskFileQuarantined))"

definition exception_from_ts_file :: "hash_dir \<Rightarrow> string option \<Rightarrow> hash_dir \<times> pyexc" where
  "exception_from_ts_file d ts_file =
     (case ts_file of
        None \<Rightarrow> (d, DiskFileNotExist)
      | Some path \<Rightarrow>
          (case failsafe_read d path of
             (d, Inl DiskFileQuarantined) \<Rightarrow> (d, DiskFileNotExist)
           | (d, Inl e) \<Rightarrow> (d, e)
           | (d, Inr md) \<Rightarrow> (d, DiskFileDeleted md)))"

definition lower :: "string \<Rightarrow> string" where
  "lower s = map (\<lambda>c. if 65 \<le> (of_char c :: nat) \<and> (of_char c :: nat) \<le> 90 then char_of ((of_char c :: nat) + 32) else c) s"

definition reserved_keys :: "string list" where
  "reserved_keys = [''content-length'', ''deleted'', ''etag'', ''x-static-large-object'']"

definition sys_metadata :: "'t df_env \<Rightarrow> metadata \<Rightarrow> metadata" where
  "sys_metadata env m = filter (\<lambda>(k, v). lower k \<in> set reserved_keys \<or> de_sys_meta env k) m"

text \<open>
  A second \<^verbatim>\<open>.meta\<close> file with a newer content type is merged into the metadata of the first.  The
  timestamps of the two are compared as strings, and the newer with the data file's as timestamps.
\<close>

definition merge_content_type ::
  "'t :: linorder df_env \<Rightarrow> 't disk_file \<Rightarrow> metadata \<Rightarrow> pyexc + 't disk_file" where
  "merge_content_type env df cm =
     (let meta = (case df_metafile df of None \<Rightarrow> [] | Some m \<Rightarrow> m);
          t = dict_get cm ''Content-Type-Timestamp'' []
      in case map_of cm ''Content-Type'' of
           None \<Rightarrow> Inr df
         | Some c \<Rightarrow>
             if \<not> dict_get meta ''Content-Type-Timestamp'' [] < t then Inr df
             else try_then (data_timestamp (de_lib env) df) (\<lambda>dt.
               case ts_parse (de_lib env) t of
                 None \<Rightarrow> Inl ValueError
               | Some t' \<Rightarrow>
                   if dt < t'
                   then Inr (df\<lparr>df_metafile := Some (AList.update ''Content-Type-Timestamp'' t
                          (AList.update ''Content-Type'' c meta))\<rparr>)
                   else Inr df))"

definition verify_name_matches_hash :: "'t df_env \<Rightarrow> 't disk_file \<Rightarrow> string \<Rightarrow> bool" where
  "verify_name_matches_hash env df name \<longleftrightarrow>
     basename (df_datadir df) = de_hash_path env (dropWhile (\<lambda>c. c = slash) name)"

text \<open>
  \<^verbatim>\<open>_verify_data_file\<close>.  \<open>expired x\<close> is \<^verbatim>\<open>x <= current_time\<close>.  The outcome is an error, or the size;
  \<^verbatim>\<open>DiskFileQuarantined\<close> stands for quarantining and raising.
\<close>

definition verify_data_file ::
  "'t disk_file \<Rightarrow> (int \<Rightarrow> bool) \<Rightarrow> metadata \<Rightarrow> string \<Rightarrow> pyexc + int" where
  "verify_data_file df expired m body =
     (case map_of m ''name'' of
        None \<Rightarrow> Inl DiskFileQuarantined
      | Some mname \<Rightarrow>
          if Some mname \<noteq> df_name df then Inl DiskFileCollision
          else try_then
            (case map_of m ''X-Delete-At'' of
               None \<Rightarrow> Inr ()
             | Some x \<Rightarrow>
                 (case py_int x of
                    None \<Rightarrow> Inl DiskFileQuarantined
                  | Some x_delete_at \<Rightarrow>
                      if expired x_delete_at \<and> \<not> df_open_expired df then Inl (DiskFileExpired m) else Inr ()))
            (\<lambda>_. case map_of m ''Content-Length'' of
               None \<Rightarrow> Inl DiskFileQuarantined
             | Some x \<Rightarrow>
                 (case py_int x of
                    None \<Rightarrow> Inl DiskFileQuarantined
                  | Some metadata_size \<Rightarrow>
                      if int (length body) \<noteq> metadata_size then Inl DiskFileQuarantined
                      else Inr (int (length body)))))"

text \<open>Merging the metadata of the data file and of the \<^verbatim>\<open>.meta\<close> file.\<close>

definition merged_metadata ::
  "'t :: linorder df_env \<Rightarrow> 't disk_file \<Rightarrow> metadata \<Rightarrow> metadata \<Rightarrow> pyexc + metadata" where
  "merged_metadata env df dm mm =
     (let m = dict_update (dict_update [] mm) (sys_metadata env dm)
      in case map_of dm ''Content-Type'' of
           None \<Rightarrow> Inr m
         | Some c \<Rightarrow>
             try_then (data_timestamp (de_lib env) df) (\<lambda>dt.
             try_then (case map_of mm ''Content-Type-Timestamp'' of
                         None \<Rightarrow> Inr True
                       | Some s \<Rightarrow> (case ts_parse (de_lib env) s of None \<Rightarrow> Inl ValueError | Some t \<Rightarrow> Inr (t < dt)))
               (\<lambda>newer. Inr (if newer
                 then AList.delete ''Content-Type-Timestamp'' (AList.update ''Content-Type'' c m) else m))))"

section \<open>Opening\<close>

text \<open>
  \<^verbatim>\<open>_construct_from_data_file\<close>: the instance is returned in every case, with the fields set up to the
  error.  An errno from opening the data file is an \<^verbatim>\<open>OSError\<close>, except that \<^verbatim>\<open>ENOENT\<close> means that the object
  does not exist.
\<close>

definition quarantining :: "hash_dir \<Rightarrow> pyexc + 'a \<Rightarrow> hash_dir" where
  "quarantining d r = (case r of Inl DiskFileQuarantined \<Rightarrow> Missing | _ \<Rightarrow> d)"

definition check_data_file ::
  "'t df_env \<Rightarrow> 't disk_file \<Rightarrow> hash_dir \<Rightarrow> (int \<Rightarrow> bool) \<Rightarrow> metadata \<Rightarrow> string
     \<Rightarrow> 't disk_file \<times> hash_dir \<times> (pyexc + unit)" where
  "check_data_file env df d expired m body =
     (let df = df\<lparr>df_metadata := Some m\<rparr>;
          (df, named) =
            (case df_name df of
               Some n \<Rightarrow> (df, Inr ())
             | None \<Rightarrow>
                 (case map_of m ''name'' of
                    None \<Rightarrow> (df, Inl KeyError)
                  | Some n \<Rightarrow> (df\<lparr>df_name := Some n\<rparr>,
                      if verify_name_matches_hash env df n then Inr () else Inl DiskFileQuarantined)));
          r = try_then named (\<lambda>_. verify_data_file df expired m body)
      in case r of
           Inl e \<Rightarrow> (df, quarantining d r, Inl e)
         | Inr n \<Rightarrow> (df\<lparr>df_content_length := Some n\<rparr>, d, Inr ()))"

definition read_meta_files ::
  "'t :: linorder df_env \<Rightarrow> 't disk_file \<Rightarrow> hash_dir \<Rightarrow> 't results
     \<Rightarrow> 't disk_file \<times> hash_dir \<times> (pyexc + metadata)" where
  "read_meta_files env df d info =
     (let dm = (case df_datafile df of None \<Rightarrow> [] | Some m \<Rightarrow> m)
      in case r_meta_file info of
           None \<Rightarrow> (df, d, Inr (dict_update [] dm))
         | Some mf \<Rightarrow>
             (case failsafe_read d mf of
                (d, Inl e) \<Rightarrow> (df, d, Inl e)
              | (d, Inr mm) \<Rightarrow>
                  (let df = df\<lparr>df_metafile := Some mm\<rparr>;
                       (d, merged) =
                         (case r_ctype_file info of
                            None \<Rightarrow> (d, Inr df)
                          | Some cf \<Rightarrow>
                              if cf = mf then (d, Inr df)
                              else (case failsafe_read d cf of
                                      (d, Inl e) \<Rightarrow> (d, Inl e)
                                    | (d, Inr cm) \<Rightarrow> (d, merge_content_type env df cm)))
                   in case merged of
                        Inl e \<Rightarrow> (df, d, Inl e)
                      | Inr df \<Rightarrow>
                          (let mm = (case df_metafile df of None \<Rightarrow> [] | Some m \<Rightarrow> m)
                           in (df\<lparr>df_metafile := Some (AList.delete ''name'' mm)\<rparr>, d, merged_metadata env df dm mm)))))"

definition construct_from_data_file ::
  "'t :: linorder df_env \<Rightarrow> 't disk_file \<Rightarrow> hash_dir \<Rightarrow> (int \<Rightarrow> bool) \<Rightarrow> 't results \<Rightarrow> string
     \<Rightarrow> 't disk_file \<times> hash_dir \<times> (pyexc + unit)" where
  "construct_from_data_file env df d expired info data_file =
     (case file_at d data_file of
        None \<Rightarrow> (df, d, Inl DiskFileNotExist)
      | Some f \<Rightarrow>
          (case st_open_error f of
             Some e \<Rightarrow> (df, d, if e = ENOENT then Inl DiskFileNotExist else Inl (OSError e))
           | None \<Rightarrow>
               (case failsafe_read d data_file of
                  (d, Inl e) \<Rightarrow> (df, d, Inl e)
                | (d, Inr dm) \<Rightarrow>
                    (let df = df\<lparr>df_datafile := Some dm, df_metadata := Some []\<rparr>
                     in case read_meta_files env df d info of
                          (df, d, Inl e) \<Rightarrow> (df, d, Inl e)
                        | (df, d, Inr m) \<Rightarrow> check_data_file env df d expired m (st_body f)))))"

text \<open>
  \<^verbatim>\<open>open\<close>.  The chosen files come from \<open>ops\<close>, the manager's policy.  An \<^verbatim>\<open>IOError\<close> of opening the data
  file other than the two is caught and forgotten, as the code does.
\<close>

definition open_disk_file ::
  "'t :: {linorder, order_bot} policy_ops \<Rightarrow> 't df_env \<Rightarrow> 't disk_file \<Rightarrow> hash_dir \<Rightarrow> (int \<Rightarrow> bool)
     \<Rightarrow> 't disk_file \<times> hash_dir \<times> (pyexc + unit)" where
  "open_disk_file ops env df d expired =
     (case (case d of
              Missing \<Rightarrow> Inr []
            | Files fs \<Rightarrow> Inr (map fst fs)
            | Unlistable e \<Rightarrow>
                if e \<in> {ENOTDIR, ENODATA, EUCLEAN} then Inl DiskFileQuarantined
                else if e \<noteq> ENOENT then Inl DiskFileError else Inr []) of
        Inl e \<Rightarrow> (df, if e = DiskFileQuarantined then Missing else d, Inl e)
      | Inr files \<Rightarrow>
          (case get_ondisk_files ops files (df_datadir df) True of
             Inl e \<Rightarrow> (df, d, Inl e)
           | Inr info \<Rightarrow>
               (let df = df\<lparr>df_ondisk_info := Some info, df_data_file := r_data_file info\<rparr>
                in case r_data_file info of
                     None \<Rightarrow> (let (d, e) = exception_from_ts_file d (r_ts_file info) in (df, d, Inl e))
                   | Some data_file \<Rightarrow>
                       (case construct_from_data_file env df d expired info data_file of
                          (df, d, Inl (OSError e)) \<Rightarrow>
                            if e = ENODATA \<or> e = EUCLEAN then (df, Missing, Inl DiskFileQuarantined)
                            else (df\<lparr>df_metadata := Some (case df_metadata df of None \<Rightarrow> [] | Some m \<Rightarrow> m)\<rparr>, d, Inr ())
                        | (df, d, Inl e) \<Rightarrow> (df, d, Inl e)
                        | (df, d, Inr u) \<Rightarrow> (df\<lparr>df_fp := True\<rparr>, d, Inr ())))))"

text \<open>\<^verbatim>\<open>read_metadata\<close>: open, get the metadata, close.\<close>

definition close_disk_file :: "'t disk_file \<Rightarrow> 't disk_file" where
  "close_disk_file df = df\<lparr>df_fp := False\<rparr>"

definition read_object_metadata ::
  "'t :: {linorder, order_bot} policy_ops \<Rightarrow> 't df_env \<Rightarrow> 't disk_file \<Rightarrow> hash_dir \<Rightarrow> (int \<Rightarrow> bool)
     \<Rightarrow> 't disk_file \<times> hash_dir \<times> (pyexc + metadata)" where
  "read_object_metadata ops env df d expired =
     (case open_disk_file ops env df d expired of
        (df, d, Inl e) \<Rightarrow> (df, d, Inl e)
      | (df, d, Inr u) \<Rightarrow> (close_disk_file df, d, get_metadata df))"

text \<open>The timestamp of \<^verbatim>\<open>DiskFileDeleted\<close> and \<^verbatim>\<open>DiskFileExpired\<close>.\<close>

definition exc_timestamp :: "'t :: order_bot ts_lib \<Rightarrow> metadata \<Rightarrow> pyexc + 't" where
  "exc_timestamp lib m =
     (case map_of m ''X-Timestamp'' of None \<Rightarrow> Inr bot | Some s \<Rightarrow> timestamp_of lib (Some s))"

section \<open>Writing\<close>

text \<open>
  The system calls of the writer: the errno of an unnamed or a named temporary file, of preallocation and of
  the final rename (or link), whether there is free space, how many bytes a write of the given bytes takes
  or its errno, and the exception of \<open>write_metadata\<close> on the descriptor.
\<close>

record os =
  os_tmpfile :: "int option"
  os_mkstemp :: "int option"
  os_fallocate :: "int option"
  os_free_space :: bool
  os_write :: "string \<Rightarrow> int + nat"
  os_write_md :: "metadata \<Rightarrow> pyexc option"
  os_rename :: "int option"

text \<open>A writer: \<open>wr_tmppath\<close> is whether a named temporary file exists; \<open>wr_hashed\<close> is what the etag has seen.\<close>

record writer =
  wr_fd :: bool
  wr_tmppath :: bool
  wr_size :: "nat option"
  wr_ext :: string
  wr_data :: string
  wr_hashed :: string
  wr_upload_size :: nat
  wr_last_sync :: nat
  wr_put_succeeded :: bool

definition new_writer :: "nat option \<Rightarrow> string \<Rightarrow> writer" where
  "new_writer sz ext = \<lparr>wr_fd = False, wr_tmppath = False, wr_size = sz, wr_ext = ext, wr_data = [],
     wr_hashed = [], wr_upload_size = 0, wr_last_sync = 0, wr_put_succeeded = False\<rparr>"

text \<open>\<^verbatim>\<open>_get_tempfile\<close>: whether the file is named, and the manager's \<^verbatim>\<open>use_linkat\<close> afterwards.\<close>

definition get_tempfile :: "os \<Rightarrow> bool \<Rightarrow> bool \<times> (int + bool)" where
  "get_tempfile os use_linkat =
     (let named = (case os_mkstemp os of None \<Rightarrow> Inr True | Some e \<Rightarrow> Inl e)
      in if use_linkat
         then (case os_tmpfile os of
                 None \<Rightarrow> (True, Inr False)
               | Some e \<Rightarrow> if e = ENOTSUP \<or> e = EISDIR \<or> e = EINVAL then (False, named) else (True, Inl e))
         else (False, named))"

definition no_space :: "int \<Rightarrow> pyexc" where
  "no_space e = (if e = ENOSPC \<or> e = EDQUOT then DiskFileNoSpace else OSError e)"

definition writer_open :: "os \<Rightarrow> bool \<Rightarrow> writer \<Rightarrow> writer \<times> bool \<times> (pyexc + unit)" where
  "writer_open os use_linkat w =
     (if wr_fd w then (w, use_linkat, Inl ValueError)
      else (case get_tempfile os use_linkat of
              (use_linkat, Inl e) \<Rightarrow> (w, use_linkat, Inl (no_space e))
            | (use_linkat, Inr named) \<Rightarrow>
                (w\<lparr>wr_fd := True, wr_tmppath := named\<rparr>, use_linkat,
                 if wr_ext w = ''.ts'' then Inr ()
                 else if (case wr_size w of None \<Rightarrow> False | Some n \<Rightarrow> n \<noteq> 0)
                 then (case os_fallocate os of None \<Rightarrow> Inr () | Some e \<Rightarrow> Inl (no_space e))
                 else if os_free_space os then Inr () else Inl DiskFileNoSpace)))"

text \<open>Closing removes a named temporary file unless it became the object.\<close>

definition writer_close :: "writer \<Rightarrow> writer" where
  "writer_close w = w\<lparr>wr_fd := False, wr_tmppath := (wr_tmppath w \<and> wr_put_succeeded w)\<rparr>"

partial_function (option) write_loop :: "os \<Rightarrow> writer \<Rightarrow> string \<Rightarrow> (writer \<times> (pyexc + unit)) option" where
  "write_loop os w chunk =
     (if chunk = [] then Some (w, Inr ())
      else (case os_write os chunk of
              Inl e \<Rightarrow> Some (w, Inl (OSError e))
            | Inr written \<Rightarrow>
                write_loop os (w\<lparr>wr_data := wr_data w @ take written chunk, wr_upload_size := wr_upload_size w + written\<rparr>)
                  (drop written chunk)))"

definition writer_write :: "os \<Rightarrow> nat \<Rightarrow> writer \<Rightarrow> string \<Rightarrow> (writer \<times> (pyexc + unit)) option" where
  "writer_write os bytes_per_sync w chunk =
     (if \<not> wr_fd w then Some (w, Inl ValueError)
      else (case write_loop os (w\<lparr>wr_hashed := wr_hashed w @ chunk\<rparr>) chunk of
              None \<Rightarrow> None
            | Some (w, Inl e) \<Rightarrow> Some (w, Inl e)
            | Some (w, Inr u) \<Rightarrow>
                Some (if wr_upload_size w - wr_last_sync w \<ge> bytes_per_sync
                      then w\<lparr>wr_last_sync := wr_upload_size w\<rparr> else w, Inr ())))"

definition chunks_finished :: "(string \<Rightarrow> string) \<Rightarrow> writer \<Rightarrow> nat \<times> string" where
  "chunks_finished md5 w = (wr_upload_size w, md5 (wr_hashed w))"

section \<open>Putting the file in place\<close>

text \<open>
  While the partition power of the ring is being raised (\<^verbatim>\<open>next_part_power\<close>), an object has a second hash
  directory: the one of the next power, where the file is linked too, or, when the power has been raised
  already, the one of the previous power, which is only cleaned up.
\<close>

datatype relink = NoPower | NextPower hash_dir | PrevPower hash_dir

text \<open>What putting changes: the directories, how often the suffix was invalidated, and \<^verbatim>\<open>use_linkat\<close>.\<close>

record odisk =
  od_dir :: hash_dir
  od_other :: relink
  od_invalidated :: nat
  od_use_linkat :: bool

definition clean_dir ::
  "'t :: {linorder, order_bot} policy_ops \<Rightarrow> 't clean_env \<Rightarrow> string \<Rightarrow> hash_dir \<Rightarrow> hash_dir \<times> (pyexc + unit)" where
  "clean_dir ops clean datadir d =
     (case d of
        Missing \<Rightarrow> (Missing, map_sum id (\<lambda>_. ()) (snd (cleanup_ondisk_files ops clean datadir None)))
      | Unlistable e \<Rightarrow> (d, Inl (OSError e))
      | Files fs \<Rightarrow>
          (let (names, r) = cleanup_ondisk_files ops clean datadir (Some (map fst fs))
           in (case names of
                 None \<Rightarrow> Missing
               | Some ns \<Rightarrow> Files (filter (\<lambda>(n, f). n \<in> set ns) fs),
               map_sum id (\<lambda>_. ()) r)))"

text \<open>\<^verbatim>\<open>except OSError\<close>: the error is logged.\<close>

fun ignore_os_error :: "pyexc + unit \<Rightarrow> pyexc + unit" where
  "ignore_os_error (Inl (OSError e)) = Inr ()"
| "ignore_os_error r = r"

text \<open>A rename over an existing name replaces it; the directory is made when it is missing.\<close>

definition rename_into :: "os \<Rightarrow> string \<Rightarrow> stored \<Rightarrow> hash_dir \<Rightarrow> pyexc + hash_dir" where
  "rename_into os n f d =
     (case os_rename os of
        Some e \<Rightarrow> Inl (OSError e)
      | None \<Rightarrow>
          (case d of
             Missing \<Rightarrow> Inr (Files [(n, f)])
           | Unlistable e \<Rightarrow> Inl (OSError e)
           | Files fs \<Rightarrow> Inr (Files (AList.update n f fs))))"

text \<open>Linking into the other directory leaves a file that is there already; errors are logged.\<close>

definition link_into :: "string \<Rightarrow> stored \<Rightarrow> hash_dir \<Rightarrow> hash_dir" where
  "link_into n f d =
     (case d of
        Missing \<Rightarrow> Files [(n, f)]
      | Unlistable e \<Rightarrow> d
      | Files fs \<Rightarrow> if map_of fs n = None then Files (AList.update n f fs) else d)"

definition clean_other ::
  "'t :: {linorder, order_bot} policy_ops \<Rightarrow> 't clean_env \<Rightarrow> string \<Rightarrow> relink \<Rightarrow> relink \<times> (pyexc + unit)" where
  "clean_other ops clean datadir other =
     (case other of
        NoPower \<Rightarrow> (NoPower, Inr ())
      | NextPower d \<Rightarrow> (let (d, r) = clean_dir ops clean datadir d in (NextPower d, ignore_os_error r))
      | PrevPower d \<Rightarrow> (let (d, r) = clean_dir ops clean datadir d in (PrevPower d, ignore_os_error r)))"

text \<open>
  \<^verbatim>\<open>_finalize_put\<close>: errors of the metadata's write and of the rename are parameters; the \<^verbatim>\<open>fsync\<close>, the making of the directory
  and the line added to \<^verbatim>\<open>hashes.invalid\<close> succeed.  The new file has the metadata as they were given: that they read back
  from the extended attributes is what \<open>Xattr\<close> shows.
\<close>

definition finalize_put ::
  "'t :: {linorder, order_bot} policy_ops \<Rightarrow> 't df_env \<Rightarrow> os \<Rightarrow> string \<Rightarrow> writer \<Rightarrow> odisk \<Rightarrow> metadata \<Rightarrow> string \<Rightarrow> bool
     \<Rightarrow> writer \<times> odisk \<times> (pyexc + unit)" where
  "finalize_put ops env os datadir w s metadata filename do_cleanup =
     (case os_write_md os metadata of
        Some e \<Rightarrow> (w, s, Inl e)
      | None \<Rightarrow>
          (let s = s\<lparr>od_invalidated := od_invalidated s + 1\<rparr>;
               f = \<lparr>st_body = wr_data w, st_md = Inr metadata, st_open_error = None\<rparr>
           in case rename_into os filename f (od_dir s) of
                Inl e \<Rightarrow> (w, s, Inl e)
              | Inr d \<Rightarrow>
                  (let s = s\<lparr>od_dir := d,
                         od_other := (case od_other s of NextPower d \<Rightarrow> NextPower (link_into filename f d) | x \<Rightarrow> x)\<rparr>;
                       w = w\<lparr>wr_put_succeeded := True\<rparr>
                   in if \<not> do_cleanup then (w, s, Inr ())
                      else (let (d, r) = clean_dir ops (de_clean env) datadir (od_dir s);
                                s = s\<lparr>od_dir := d\<rparr>
                            in case ignore_os_error r of
                                 Inl e \<Rightarrow> (w, s, Inl e)
                               | Inr u \<Rightarrow>
                                   (let (x, r) = clean_other ops (de_clean env) datadir (od_other s)
                                    in (w, s\<lparr>od_other := x\<rparr>, r))))))"

text \<open>\<^verbatim>\<open>_put\<close>: the file is named after the timestamps of the metadata; \<open>mk\<close> is \<^verbatim>\<open>make_on_disk_filename\<close>.\<close>

definition put_filename :: "'t ts_lib \<Rightarrow> ('t \<Rightarrow> 't option \<Rightarrow> pyexc + string) \<Rightarrow> metadata \<Rightarrow> pyexc + string" where
  "put_filename lib mk metadata =
     try_then (case map_of metadata ''X-Timestamp'' of None \<Rightarrow> Inl KeyError | Some s \<Rightarrow> timestamp_of lib (Some s))
       (\<lambda>timestamp. try_then
          (case map_of metadata ''Content-Type-Timestamp'' of
             None \<Rightarrow> Inr None
           | Some s \<Rightarrow> if s = [] then Inr None else try_then (timestamp_of lib (Some s)) (\<lambda>c. Inr (Some c)))
          (mk timestamp))"

definition base_put ::
  "'t :: {linorder, order_bot} policy_ops \<Rightarrow> 't df_env \<Rightarrow> os \<Rightarrow> ('t \<Rightarrow> 't option \<Rightarrow> pyexc + string) \<Rightarrow> string \<Rightarrow> string
     \<Rightarrow> writer \<Rightarrow> odisk \<Rightarrow> metadata \<Rightarrow> bool \<Rightarrow> writer \<times> odisk \<times> (pyexc + unit)" where
  "base_put ops env os mk datadir name w s metadata do_cleanup =
     (case put_filename (de_lib env) mk metadata of
        Inl e \<Rightarrow> (w, s, Inl e)
      | Inr filename \<Rightarrow>
          finalize_put ops env os datadir w s (AList.update ''name'' name metadata) filename do_cleanup)"

text \<open>\<^verbatim>\<open>DiskFileWriter.put\<close>\<close>

definition repl_put ::
  "'t :: {linorder, order_bot} df_env \<Rightarrow> os \<Rightarrow> string \<Rightarrow> string \<Rightarrow> writer \<Rightarrow> odisk \<Rightarrow> metadata
     \<Rightarrow> writer \<times> odisk \<times> (pyexc + unit)" where
  "repl_put env os datadir name w s metadata =
     base_put (repl_ops (de_lib env)) env os
       (\<lambda>t c. Inr (base_make_filename (de_lib env) t (Some (wr_ext w)) c)) datadir name w s metadata True"

text \<open>
  The context manager \<^verbatim>\<open>create\<close> around a put without data: \<^verbatim>\<open>write_metadata\<close> and \<^verbatim>\<open>delete\<close>.  \<open>put\<close> is the
  put of the writer's class.
\<close>

definition create_and_put ::
  "os \<Rightarrow> (writer \<Rightarrow> odisk \<Rightarrow> metadata \<Rightarrow> writer \<times> odisk \<times> (pyexc + unit)) \<Rightarrow> string \<Rightarrow> odisk \<Rightarrow> metadata
     \<Rightarrow> writer \<times> odisk \<times> (pyexc + unit)" where
  "create_and_put os put ext s metadata =
     (case writer_open os (od_use_linkat s) (new_writer None ext) of
        (w, use_linkat, Inl e) \<Rightarrow> (writer_close w, s\<lparr>od_use_linkat := use_linkat\<rparr>, Inl e)
      | (w, use_linkat, Inr u) \<Rightarrow>
          (let (w, s, r) = put w (s\<lparr>od_use_linkat := use_linkat\<rparr>) metadata in (writer_close w, s, r)))"

definition write_object_metadata ::
  "os \<Rightarrow> (writer \<Rightarrow> odisk \<Rightarrow> metadata \<Rightarrow> writer \<times> odisk \<times> (pyexc + unit)) \<Rightarrow> odisk \<Rightarrow> metadata \<Rightarrow> odisk \<times> (pyexc + unit)" where
  "write_object_metadata os put s metadata = snd (create_and_put os put ''.meta'' s metadata)"

definition delete_object ::
  "'t ts_lib \<Rightarrow> os \<Rightarrow> (writer \<Rightarrow> odisk \<Rightarrow> metadata \<Rightarrow> writer \<times> odisk \<times> (pyexc + unit)) \<Rightarrow> odisk \<Rightarrow> 't \<Rightarrow> odisk \<times> (pyexc + unit)" where
  "delete_object lib os put s timestamp =
     snd (create_and_put os put ''.ts'' s [(''X-Timestamp'', ts_internal lib timestamp)])"

text \<open>
  Writing an object: \<^verbatim>\<open>open\<close>, a write for each chunk, \<^verbatim>\<open>put\<close> and \<^verbatim>\<open>close\<close>, in the order of the object server.
\<close>

primrec write_all :: "os \<Rightarrow> nat \<Rightarrow> writer \<Rightarrow> string list \<Rightarrow> (writer \<times> (pyexc + unit)) option" where
  "write_all os bytes_per_sync w [] = Some (w, Inr ())"
| "write_all os bytes_per_sync w (chunk # chunks) =
     (case writer_write os bytes_per_sync w chunk of
        None \<Rightarrow> None
      | Some (w, Inl e) \<Rightarrow> Some (w, Inl e)
      | Some (w, Inr u) \<Rightarrow> write_all os bytes_per_sync w chunks)"

section \<open>Cleaning a directory\<close>

lemma dict_update_distinct: "distinct (map fst (d @ m)) \<Longrightarrow> dict_update d m = d @ m"
proof (induction m arbitrary: d)
  case (Cons x m)
  obtain k v where x: "x = (k, v)" by (cases x)
  have "AList.update k v d = d @ [(k, v)]"
    using Cons.prems by (induction d) (auto simp: x)
  then show ?case using Cons.IH [of "d @ [(k, v)]"] Cons.prems by (simp add: dict_update_def x)
qed (simp add: dict_update_def)

lemma dict_copy [simp]: "distinct (map fst m) \<Longrightarrow> dict_update [] m = m"
  using dict_update_distinct [of "[]" m] by simp

definition keep_files :: "string list \<Rightarrow> (string \<times> stored) list \<Rightarrow> (string \<times> stored) list" where
  "keep_files ns fs = filter (\<lambda>(n, f). n \<in> set ns) fs"

lemma map_of_keep_files: "map_of (keep_files ns fs) n = (if n \<in> set ns then map_of fs n else None)"
  by (induction fs) (auto simp: keep_files_def)

lemma names_keep_files:
  "map fst (keep_files (kept_names env path r (map fst fs)) fs) = kept_names env path r (map fst fs)"
proof -
  have "map fst (filter (\<lambda>(n, f). Q n) fs) = filter Q (map fst fs)" for Q
    by (induction fs) auto
  then show ?thesis by (force simp: keep_files_def kept_names_def intro: filter_cong)
qed

definition dir_of :: "(string \<times> stored) list \<Rightarrow> hash_dir" where
  "dir_of fs = (if fs = [] then Missing else Files fs)"

lemma clean_dir_repl:
  assumes "distinct (map fst fs)"
  obtains r r' where
    "repl_outcome (base_parse_filename lib) (rev (sort (map fst fs))) r"
    "clean_dir (repl_ops lib) env path (Files fs) =
       (dir_of (keep_files (kept_names env path r (map fst fs)) fs), Inr ())"
    "repl_outcome (base_parse_filename lib) (rev (sort (kept_names env path r (map fst fs)))) r'"
    "r_data_info r' = r_data_info r" "r_meta_info r' = r_meta_info r" "r_ctype_info r' = r_ctype_info r"
    "r_ts_info r' = r_ts_info (cleaned env path r)"
proof -
  obtain r r' where run: "repl_outcome (base_parse_filename lib) (rev (sort (map fst fs))) r"
    and cl: "cleanup_ondisk_files (repl_ops lib) env path (Some (map fst fs)) =
       (if kept_names env path r (map fst fs) = [] then None else Some (kept_names env path r (map fst fs)),
        Inr (cleaned env path r, rev (sort (kept_names env path r (map fst fs)))))"
    and out': "repl_outcome (base_parse_filename lib) (rev (sort (kept_names env path r (map fst fs)))) r'"
    and same: "r_data_info r' = r_data_info r" "r_meta_info r' = r_meta_info r" "r_ctype_info r' = r_ctype_info r"
      "r_ts_info r' = r_ts_info (cleaned env path r)"
    by (rule repl_cleanup_run [OF assms, of lib path env]) (rule that)
  have "kept_names env path r (map fst fs) = [] \<longleftrightarrow> keep_files (kept_names env path r (map fst fs)) fs = []"
    using names_keep_files [of env path r fs] by (metis map_is_Nil_conv)
  then have "clean_dir (repl_ops lib) env path (Files fs) =
       (dir_of (keep_files (kept_names env path r (map fst fs)) fs), Inr ())"
    by (simp add: clean_dir_def cl dir_of_def keep_files_def)
  from that [OF run this out' same] show thesis .
qed

section \<open>The newest file wins\<close>

definition sole_newest :: "'t :: linorder finfo \<Rightarrow> 't finfo set \<Rightarrow> bool" where
  "sole_newest i S \<longleftrightarrow> i \<in> S \<and> (\<forall>j \<in> S. j \<noteq> i \<longrightarrow> fi_timestamp j < fi_timestamp i)"

lemma sole_newest_subset: "sole_newest i S \<Longrightarrow> T \<subseteq> S \<Longrightarrow> i \<in> T \<Longrightarrow> sole_newest i T"
  by (auto simp: sole_newest_def)

lemma newest_data:
  assumes "repl_outcome p fs r" and "sole_newest i (set (infos p fs))" and "fi_ext i = ''.data''"
  shows "r_data_info r = Some i" and "r_meta_info r = None"
proof -
  let ?S = "set (infos p fs)"
  have i: "i \<in> live_data ?S"
    using assms(2,3) by (auto simp: sole_newest_def live_data_def with_ext_def)
  have "newest (live_data ?S) (r_data_info r)" by (rule outcome_choice(1) [OF assms(1) refl])
  with i obtain d where d: "r_data_info r = Some d" "d \<in> live_data ?S" "fi_timestamp i \<le> fi_timestamp d"
    by (cases "r_data_info r") (auto simp: newest_def)
  moreover have "d \<in> ?S" using d(2) by (auto simp: live_data_def with_ext_def)
  ultimately show data: "r_data_info r = Some i" using assms(2) by (force simp: sole_newest_def)
  have "newest (meta_after i ?S) (r_meta_info r)"
    using outcome_choice(3) [OF assms(1) refl data] by simp
  moreover have "meta_after i ?S = {}"
    using assms(2) by (fastforce simp: sole_newest_def meta_after_def with_ext_def)
  ultimately show "r_meta_info r = None" by (cases "r_meta_info r") (auto simp: newest_def)
qed

lemma newest_ts:
  assumes "repl_outcome p fs r" and "sole_newest i (set (infos p fs))" and "fi_ext i = ''.ts''"
  shows "r_data_info r = None" and "r_ts_info r = Some i"
proof -
  let ?S = "set (infos p fs)"
  have i: "i \<in> with_ext ''.ts'' ?S" using assms(2,3) by (auto simp: sole_newest_def with_ext_def)
  have "live_data ?S = {}"
  proof (rule ccontr)
    assume "live_data ?S \<noteq> {}"
    then obtain d where "d \<in> ?S" "fi_ext d = ''.data''" "fi_timestamp i < fi_timestamp d"
      using i by (auto simp: live_data_def with_ext_def)
    with assms(2,3) show False by (auto simp: sole_newest_def dest: less_asym)
  qed
  with outcome_choice(1) [OF assms(1) refl] show none: "r_data_info r = None"
    by (cases "r_data_info r") (auto simp: newest_def)
  have "newest (with_ext ''.ts'' ?S) (r_ts_info r)" using outcome_choice(2) [OF assms(1) refl none] by simp
  with i obtain t where t: "r_ts_info r = Some t" "t \<in> ?S" "fi_timestamp i \<le> fi_timestamp t"
    by (cases "r_ts_info r") (auto simp: newest_def with_ext_def)
  with assms(2) show "r_ts_info r = Some i" by (force simp: sole_newest_def)
qed

section \<open>A put that succeeds\<close>

definition files_ok :: "(string \<times> stored) list \<Rightarrow> bool" where
  "files_ok fs \<longleftrightarrow> distinct (map fst fs)"

definition names_of :: "hash_dir \<Rightarrow> string list" where
  "names_of d = (case d of Files fs \<Rightarrow> map fst fs | _ \<Rightarrow> [])"

fun dir_ok :: "hash_dir \<Rightarrow> bool" where
  "dir_ok Missing = True"
| "dir_ok (Unlistable e) = False"
| "dir_ok (Files fs) = distinct (map fst fs)"

fun relink_ok :: "relink \<Rightarrow> bool" where
  "relink_ok NoPower = True"
| "relink_ok (NextPower d) = (case d of Files fs \<Rightarrow> distinct (map fst fs) | _ \<Rightarrow> True)"
| "relink_ok (PrevPower d) = (case d of Files fs \<Rightarrow> distinct (map fst fs) | _ \<Rightarrow> True)"

lemma clean_dir_returns:
  assumes "case d of Files fs \<Rightarrow> distinct (map fst fs) | _ \<Rightarrow> True"
  shows "ignore_os_error (snd (clean_dir (repl_ops lib) env path d)) = Inr ()"
proof (cases d)
  case Missing
  obtain r where "\<And>verify. get_ondisk_files (repl_ops lib) [] path verify = Inr r"
    by (rule repl_run [of lib "[]" path]) (rule that)
  with Missing show ?thesis by (simp add: clean_dir_def cleanup_ondisk_files_def)
next
  case (Unlistable e)
  then show ?thesis by (simp add: clean_dir_def)
next
  case (Files fs)
  with assms have "distinct (map fst fs)" by simp
  then show ?thesis by (rule clean_dir_repl [of fs lib env path]) (simp add: Files)
qed

lemma distinct_AList_update: "distinct (map fst fs) \<Longrightarrow> distinct (map fst (AList.update n f fs))"
  by (rule distinct_update)

lemma link_into_ok:
  "(case d of Files fs \<Rightarrow> distinct (map fst fs) | _ \<Rightarrow> True) \<Longrightarrow>
   (case link_into n f d of Files fs \<Rightarrow> distinct (map fst fs) | _ \<Rightarrow> True)"
  by (auto simp: link_into_def distinct_update split: hash_dir.splits)

lemma clean_other_returns: "relink_ok other \<Longrightarrow> snd (clean_other (repl_ops lib) env path other) = Inr ()"
  using clean_dir_returns by (cases other) (auto simp: clean_other_def split_def Let_def)

definition new_file :: "writer \<Rightarrow> string \<Rightarrow> metadata \<Rightarrow> stored" where
  "new_file w name md = \<lparr>st_body = wr_data w, st_md = Inr (AList.update ''name'' name md), st_open_error = None\<rparr>"

definition files_in :: "hash_dir \<Rightarrow> (string \<times> stored) list" where
  "files_in d = (case d of Files fs \<Rightarrow> fs | _ \<Rightarrow> [])"

lemma clean_other_ok:
  assumes "relink_ok other"
  shows "relink_ok (fst (clean_other ops env path other))"
proof -
  have "case fst (clean_dir ops env path d) of Files fs \<Rightarrow> distinct (map fst fs) | _ \<Rightarrow> True"
    if "case d of Files fs \<Rightarrow> distinct (map fst fs) | _ \<Rightarrow> True" for d
    using that by (cases d) (auto simp: clean_dir_def split_def Let_def distinct_map_filter split: option.split)
  with assms show ?thesis by (cases other) (auto simp: clean_other_def split_def Let_def)
qed

text \<open>A put without errors, and a put with one: then the directories are as they were.\<close>

lemma repl_put_runs:
  assumes ok: "dir_ok (od_dir s)" "relink_ok (od_other s)"
    and put: "put_filename (de_lib env) (\<lambda>t c. Inr (base_make_filename (de_lib env) t (Some (wr_ext w)) c)) md = Inr n"
    and md: "os_write_md os (AList.update ''name'' name md) = None" and ren: "os_rename os = None"
  obtains s' r r' fs where
    "repl_put env os path name w s md = (w\<lparr>wr_put_succeeded := True\<rparr>, s', Inr ())"
    "fs = AList.update n (new_file w name md) (files_in (od_dir s))" "distinct (map fst fs)"
    "repl_outcome (base_parse_filename (de_lib env)) (rev (sort (map fst fs))) r"
    "repl_outcome (base_parse_filename (de_lib env)) (rev (sort (kept_names (de_clean env) path r (map fst fs)))) r'"
    "r_data_info r' = r_data_info r" "r_meta_info r' = r_meta_info r" "r_ctype_info r' = r_ctype_info r"
    "r_ts_info r' = r_ts_info (cleaned (de_clean env) path r)"
    "od_dir s' = dir_of (keep_files (kept_names (de_clean env) path r (map fst fs)) fs)"
    "od_invalidated s' = od_invalidated s + 1" "relink_ok (od_other s')"
proof -
  define fs where "fs = AList.update n (new_file w name md) (files_in (od_dir s))"
  have into: "rename_into os n (new_file w name md) (od_dir s) = Inr (Files fs)"
    using ren ok(1) by (cases "od_dir s") (simp_all add: rename_into_def fs_def files_in_def)
  have dist: "distinct (map fst fs)"
    using ok(1) by (cases "od_dir s") (simp_all add: fs_def files_in_def distinct_update)
  obtain r r' where r: "repl_outcome (base_parse_filename (de_lib env)) (rev (sort (map fst fs))) r"
    and cl: "clean_dir (repl_ops (de_lib env)) (de_clean env) path (Files fs) =
      (dir_of (keep_files (kept_names (de_clean env) path r (map fst fs)) fs), Inr ())"
    and r': "repl_outcome (base_parse_filename (de_lib env)) (rev (sort (kept_names (de_clean env) path r (map fst fs)))) r'"
    and same: "r_data_info r' = r_data_info r" "r_meta_info r' = r_meta_info r" "r_ctype_info r' = r_ctype_info r"
      "r_ts_info r' = r_ts_info (cleaned (de_clean env) path r)"
    by (rule clean_dir_repl [OF dist, of "de_lib env" "de_clean env" path]) (rule that)
  define other where "other = (case od_other s of NextPower d \<Rightarrow> NextPower (link_into n (new_file w name md) d) | x \<Rightarrow> x)"
  have other: "relink_ok other" using ok(2) link_into_ok by (cases "od_other s") (simp_all add: other_def)
  define s' where "s' = s\<lparr>od_invalidated := od_invalidated s + 1,
      od_dir := dir_of (keep_files (kept_names (de_clean env) path r (map fst fs)) fs),
      od_other := fst (clean_other (repl_ops (de_lib env)) (de_clean env) path other)\<rparr>"
  have "repl_put env os path name w s md = (w\<lparr>wr_put_succeeded := True\<rparr>, s', Inr ())"
    using put md into cl clean_other_returns [OF other, of "de_lib env" "de_clean env" path]
    by (simp add: repl_put_def base_put_def finalize_put_def Let_def split_def s'_def
        other_def [symmetric] new_file_def [symmetric])
  then show thesis
    by (rule that [OF _ fs_def dist r r' same]) (simp_all add: s'_def clean_other_ok [OF other])
qed

lemma repl_put_fails:
  assumes "dir_ok (od_dir s)" and "relink_ok (od_other s)" and "repl_put env os path name w s md = (w', s', Inl e)"
  shows "od_dir s' = od_dir s" and "od_other s' = od_other s" and "w' = w"
proof -
  let ?p = "put_filename (de_lib env) (\<lambda>t c. Inr (base_make_filename (de_lib env) t (Some (wr_ext w)) c)) md"
  have "\<not> ((\<exists>n. ?p = Inr n) \<and> os_write_md os (AList.update ''name'' name md) = None \<and> os_rename os = None)"
  proof
    assume *: "(\<exists>n. ?p = Inr n) \<and> os_write_md os (AList.update ''name'' name md) = None \<and> os_rename os = None"
    then obtain n where "?p = Inr n" by blast
    then show False
      by (rule repl_put_runs [OF assms(1,2), where path = path and name = name]) (use * assms(3) in auto)
  qed
  then consider "\<exists>e. ?p = Inl e" | n e where "?p = Inr n" "os_write_md os (AList.update ''name'' name md) = Some e"
    | n e where "?p = Inr n" "os_write_md os (AList.update ''name'' name md) = None" "os_rename os = Some e"
    by (cases ?p; cases "os_write_md os (AList.update ''name'' name md)"; cases "os_rename os") auto
  then show "od_dir s' = od_dir s" and "od_other s' = od_other s" and "w' = w"
    using assms(3) by (cases; auto simp: repl_put_def base_put_def finalize_put_def rename_into_def)+
qed

section \<open>Opening what is newest\<close>

lemma choose_paths:
  assumes "get_ondisk_files (repl_ops lib) fs datadir verify = Inr r"
  shows "r_data_file r = map_option (\<lambda>i. join datadir (fi_filename i)) (r_data_info r)"
    and "r_meta_file r = map_option (\<lambda>i. join datadir (fi_filename i)) (r_meta_info r)"
    and "r_ts_file r = map_option (\<lambda>i. join datadir (fi_filename i)) (r_ts_info r)"
proof -
  obtain exts' res' where r: "r = choose_files datadir exts' res'"
    by (rule repl.get_ondisk_files_cases [OF assms]) blast
  show "r_data_file r = map_option (\<lambda>i. join datadir (fi_filename i)) (r_data_info r)"
    "r_meta_file r = map_option (\<lambda>i. join datadir (fi_filename i)) (r_meta_info r)"
    "r_ts_file r = map_option (\<lambda>i. join datadir (fi_filename i)) (r_ts_info r)"
    unfolding r choose_files_def Let_def by simp_all
qed

lemma file_at_join: "slash \<notin> set n \<Longrightarrow> file_at (Files fs) (join d n) = map_of fs n"
  by (simp add: file_at_def basename_join)

lemma open_data:
  fixes df :: "'t :: {linorder, order_bot} disk_file"
  assumes i: "sole_newest i (set (infos (base_parse_filename (de_lib env)) (map fst fs)))" "fi_ext i = ''.data''"
    and n: "slash \<notin> set (fi_filename i)"
    and f: "map_of fs (fi_filename i) = Some f" "st_md f = Inr m" "st_open_error f = None" "distinct (map fst m)"
    and v: "df_name df \<noteq> None" "\<And>df' :: 't disk_file. df_name df' = df_name df \<Longrightarrow> df_open_expired df' = df_open_expired df \<Longrightarrow>
        verify_data_file df' expired m (st_body f) = Inr k"
  shows "\<exists>df'. open_disk_file (repl_ops (de_lib env)) env df (Files fs) expired = (df', Files fs, Inr ()) \<and>
    df_metadata df' = Some m \<and> df_datafile df' = Some m \<and>
    df_data_file df' = Some (join (df_datadir df) (fi_filename i)) \<and> df_fp df' \<and> df_content_length df' = Some k"
proof -
  obtain r where run: "\<And>verify. get_ondisk_files (repl_ops (de_lib env)) (map fst fs) (df_datadir df) verify = Inr r"
    and out: "repl_outcome (base_parse_filename (de_lib env)) (map fst fs) r"
    by (rule repl_run [of "de_lib env" "map fst fs" "df_datadir df"]) (rule that)
  have r: "r_data_file r = Some (join (df_datadir df) (fi_filename i))" "r_meta_file r = None"
    using newest_data [OF out i] choose_paths [OF run [of True]] by simp_all
  obtain nm where nm: "df_name df = Some nm" using v(1) by blast
  show ?thesis
    using r n f nm
    by (simp add: open_disk_file_def run construct_from_data_file_def file_at_join failsafe_read_def
        read_meta_files_def check_data_file_def Let_def v(2))
qed

lemma open_tombstone:
  assumes i: "sole_newest i (set (infos (base_parse_filename (de_lib env)) (map fst fs)))" "fi_ext i = ''.ts''"
    and n: "slash \<notin> set (fi_filename i)"
    and f: "map_of fs (fi_filename i) = Some f" "st_md f = Inr m"
  shows "\<exists>df'. open_disk_file (repl_ops (de_lib env)) env df (Files fs) expired = (df', Files fs, Inl (DiskFileDeleted m))"
proof -
  obtain r where run: "\<And>verify. get_ondisk_files (repl_ops (de_lib env)) (map fst fs) (df_datadir df) verify = Inr r"
    and out: "repl_outcome (base_parse_filename (de_lib env)) (map fst fs) r"
    by (rule repl_run [of "de_lib env" "map fst fs" "df_datadir df"]) (rule that)
  have "r_data_file r = None" "r_ts_file r = Some (join (df_datadir df) (fi_filename i))"
    using newest_ts [OF out i] choose_paths [OF run [of True]] by simp_all
  with n f show ?thesis
    by (simp add: open_disk_file_def run exception_from_ts_file_def file_at_join failsafe_read_def)
qed

text \<open>The name of a put, and what it parses to.\<close>

definition put_info :: "'t \<Rightarrow> string \<Rightarrow> string \<Rightarrow> 't finfo" where
  "put_info t ext n = \<lparr>fi_timestamp = t, fi_ext = ext, fi_ctype = None, fi_frag = None, fi_durable = None, fi_filename = n\<rparr>"

lemma put_name:
  assumes "internal_ok lib t" and "map_of md ''X-Timestamp'' = Some (ts_internal lib t)"
    and "map_of md ''Content-Type-Timestamp'' = None" and "ext = ''.data'' \<or> ext = ''.ts''"
  shows "put_filename lib (\<lambda>t c. Inr (base_make_filename lib t (Some ext) c)) md = Inr (ts_internal lib t @ ext)"
    and "base_parse_filename lib (ts_internal lib t @ ext) = Inr (put_info t ext [])"
    and "slash \<notin> set (ts_internal lib t @ ext)"
proof -
  show "put_filename lib (\<lambda>t c. Inr (base_make_filename lib t (Some ext) c)) md = Inr (ts_internal lib t @ ext)"
    using assms(1-3) by (simp add: put_filename_def timestamp_of_def internal_ok_def base_make_filename_def)
  obtain x where x: "ext = dot # x" "slash \<notin> set x" "dot \<notin> set x" "ext \<noteq> ''.meta''" using assms(4) by auto
  show "base_parse_filename lib (ts_internal lib t @ ext) = Inr (put_info t ext [])"
    using assms(1) x splitext_made [of "ts_internal lib t" x]
    by (simp add: base_parse_filename_def internal_ok_def put_info_def)
  show "slash \<notin> set (ts_internal lib t @ ext)"
    using assms(1) x by (simp add: internal_ok_def name_safe_def)
qed

lemma infos_insert:
  "set fs = insert n (set gs) \<Longrightarrow> p n = Inr i0 \<Longrightarrow>
     set (infos p fs) = insert (i0\<lparr>fi_filename := n\<rparr>) (set (infos p gs))"
  by (rule set_eqI) (simp add: in_infos)

lemma sole_newest_put:
  assumes "\<forall>j \<in> set (infos p (map fst old)). fi_timestamp j < t" and "p n = Inr (put_info t ext [])"
  shows "sole_newest (put_info t ext n) (set (infos p (map fst (AList.update n f old))))"
proof -
  have i: "put_info t ext n = (put_info t ext [])\<lparr>fi_filename := n\<rparr>" by (simp add: put_info_def)
  have "set (map fst (AList.update n f old)) = insert n (set (map fst old))" by (simp add: dom_update)
  then have "set (infos p (map fst (AList.update n f old))) = insert (put_info t ext n) (set (infos p (map fst old)))"
    unfolding i using assms(2) by (rule infos_insert)
  with assms(1) show ?thesis by (auto simp: sole_newest_def put_info_def)
qed

lemma sole_newest_kept:
  assumes i: "sole_newest i (set (infos p (map fst fs)))" and ext: "fi_ext i = ''.data'' \<or> fi_ext i = ''.ts'' \<and> \<not> is_reclaimable env (fi_timestamp i)"
    and r: "repl_outcome p (rev (sort (map fst fs))) r"
    and r': "repl_outcome p (rev (sort (kept_names env path r (map fst fs)))) r'"
    and same: "r_data_info r' = r_data_info r" "r_ts_info r' = r_ts_info (cleaned env path r)"
  shows "sole_newest i (set (infos p (map fst (keep_files (kept_names env path r (map fst fs)) fs))))"
    and "fi_filename i \<in> set (kept_names env path r (map fst fs))"
proof -
  let ?K = "kept_names env path r (map fst fs)"
  have set_sort: "set (infos p (rev (sort xs))) = set (infos p xs)" for xs
    by (auto simp: in_infos)
  have i': "sole_newest i (set (infos p (rev (sort (map fst fs)))))" using i by (simp only: set_sort)
  have K: "i \<in> set (infos p ?K)"
  proof (cases "fi_ext i = ''.data''")
    case True
    then have "r_data_info r' = Some i" using newest_data(1) [OF r i'] same(1) by simp
    then have "i \<in> live_data (set (infos p (rev (sort ?K))))"
      using outcome_choice(1) [OF r' refl] by (simp add: newest_def)
    then show ?thesis unfolding set_sort by (simp add: live_data_def with_ext_def)
  next
    case False
    with ext have e: "fi_ext i = ''.ts''" "\<not> is_reclaimable env (fi_timestamp i)" by blast+
    then have t: "r_ts_info r' = Some i" and none: "r_data_info r' = None"
      using newest_ts [OF r i' e(1)] same by (simp_all add: cleaned_def add_obsolete_def)
    then have "newest (with_ext ''.ts'' (set (infos p (rev (sort ?K))))) (Some i)"
      using outcome_choice(2) [OF r' refl none] by simp
    then show ?thesis unfolding set_sort by (simp add: newest_def with_ext_def)
  qed
  have sub: "set (infos p ?K) \<subseteq> set (infos p (map fst fs))" by (simp add: infos_kept_names)
  show "sole_newest i (set (infos p (map fst (keep_files ?K fs))))"
    unfolding names_keep_files by (rule sole_newest_subset [OF i sub K])
  show "fi_filename i \<in> set ?K" using K by (rule infos_filename)
qed

section \<open>Properties of puts and deletes\<close>

definition os_ok :: "os \<Rightarrow> bool" where
  "os_ok os \<longleftrightarrow> os_tmpfile os = None \<and> os_mkstemp os = None \<and> os_rename os = None \<and> os_fallocate os = None \<and>
     os_free_space os \<and> (\<forall>m. os_write_md os m = None)"

definition newer_than_all :: "'t :: {linorder, order_bot} ts_lib \<Rightarrow> 't \<Rightarrow> hash_dir \<Rightarrow> bool" where
  "newer_than_all lib t d \<longleftrightarrow> (\<forall>j \<in> set (infos (base_parse_filename lib) (names_of d)). fi_timestamp j < t)"

lemma names_of_files: "names_of d = map fst (files_in d)"
  by (cases d) (simp_all add: names_of_def files_in_def)

text \<open>What a put of the newest file leaves: that file, still the newest.\<close>

lemma put_newest:
  assumes ok: "dir_ok (od_dir s)" "relink_ok (od_other s)" "os_ok os"
    and t: "internal_ok (de_lib env) t" "map_of md ''X-Timestamp'' = Some (ts_internal (de_lib env) t)"
      "map_of md ''Content-Type-Timestamp'' = None"
      "wr_ext w = ''.data'' \<or> wr_ext w = ''.ts'' \<and> \<not> is_reclaimable (de_clean env) t"
    and new: "newer_than_all (de_lib env) t (od_dir s)"
  obtains s' fs where
    "repl_put env os path name w s md = (w\<lparr>wr_put_succeeded := True\<rparr>, s', Inr ())"
    "od_dir s' = Files fs" "distinct (map fst fs)" "relink_ok (od_other s')"
    "sole_newest (put_info t (wr_ext w) (ts_internal (de_lib env) t @ wr_ext w))
       (set (infos (base_parse_filename (de_lib env)) (map fst fs)))"
    "map_of fs (ts_internal (de_lib env) t @ wr_ext w) = Some (new_file w name md)"
    "slash \<notin> set (ts_internal (de_lib env) t @ wr_ext w)"
proof -
  let ?p = "base_parse_filename (de_lib env)" and ?n = "ts_internal (de_lib env) t @ wr_ext w"
  let ?i = "put_info t (wr_ext w) ?n"
  from t(4) have ext: "wr_ext w = ''.data'' \<or> wr_ext w = ''.ts''" by blast
  note nm = put_name [OF t(1-3) ext]
  have io: "os_write_md os (AList.update ''name'' name md) = None" "os_rename os = None"
    using ok(3) by (simp_all add: os_ok_def)
  obtain s' r r' fs where put: "repl_put env os path name w s md = (w\<lparr>wr_put_succeeded := True\<rparr>, s', Inr ())"
    and fs: "fs = AList.update ?n (new_file w name md) (files_in (od_dir s))" and dist: "distinct (map fst fs)"
    and r: "repl_outcome ?p (rev (sort (map fst fs))) r"
    and r': "repl_outcome ?p (rev (sort (kept_names (de_clean env) path r (map fst fs)))) r'"
    and same: "r_data_info r' = r_data_info r" "r_ts_info r' = r_ts_info (cleaned (de_clean env) path r)"
    and dir: "od_dir s' = dir_of (keep_files (kept_names (de_clean env) path r (map fst fs)) fs)" "relink_ok (od_other s')"
    by (rule repl_put_runs [OF ok(1,2) nm(1) io, where path = path]) (rule that)
  let ?K = "kept_names (de_clean env) path r (map fst fs)"
  have "\<forall>j \<in> set (infos ?p (map fst (files_in (od_dir s)))). fi_timestamp j < t"
    using new by (simp add: newer_than_all_def names_of_files)
  from sole_newest_put [OF this nm(2)]
  have i: "sole_newest ?i (set (infos ?p (map fst fs)))" by (simp add: fs)
  have "fi_ext ?i = ''.data'' \<or> fi_ext ?i = ''.ts'' \<and> \<not> is_reclaimable (de_clean env) (fi_timestamp ?i)"
    using t(4) by (simp add: put_info_def)
  note kept = sole_newest_kept [OF i this r r' same]
  have K: "?n \<in> set ?K" using kept(2) by (simp add: put_info_def)
  then have ne: "keep_files ?K fs \<noteq> []"
    using names_keep_files [of "de_clean env" path r fs] by (metis list.simps(8) list.set(1) empty_iff)
  have "map_of (keep_files ?K fs) ?n = Some (new_file w name md)"
    using K by (simp add: map_of_keep_files fs)
  moreover have "distinct (map fst (keep_files ?K fs))"
    using dist by (simp add: keep_files_def distinct_map_filter)
  moreover have "od_dir s' = Files (keep_files ?K fs)" using dir(1) ne by (simp add: dir_of_def)
  ultimately show thesis using that [OF put _ _ dir(2) kept(1) _ nm(3)] by blast
qed

definition not_expired :: "(int \<Rightarrow> bool) \<Rightarrow> metadata \<Rightarrow> bool" where
  "not_expired expired md \<longleftrightarrow>
     (case map_of md ''X-Delete-At'' of None \<Rightarrow> True | Some x \<Rightarrow> (case py_int x of None \<Rightarrow> False | Some i \<Rightarrow> \<not> expired i))"

lemma writer_opens:
  assumes "os_ok os"
  obtains w u' where "writer_open os u (new_writer sz ext) = (w, u', Inr ())" "wr_ext w = ext"
  using assms by (cases u) (auto simp: writer_open_def new_writer_def get_tempfile_def os_ok_def Let_def)

text \<open>C12: an object that was put with a timestamp newer than everything in its directory can be opened at once:
  the open gives exactly the metadata that was put, with the object's name, and the bytes that were
  written, and it changes nothing on the disk.\<close>

theorem put_then_open:
  assumes "dir_ok (od_dir s)" and "relink_ok (od_other s)" and "os_ok os"
    and "internal_ok (de_lib env) t" and "map_of md ''X-Timestamp'' = Some (ts_internal (de_lib env) t)"
    and "map_of md ''Content-Type-Timestamp'' = None" and "wr_ext w = ''.data''" and "distinct (map fst md)"
    and "newer_than_all (de_lib env) t (od_dir s)"
    and "df_name df = Some name" and "df_datadir df = path" and "not_expired expired md"
    and "map_of md ''Content-Length'' = Some len" and "py_int len = Some (int (length (wr_data w)))"
  shows "\<exists>w' s' df' f. repl_put env os path name w s md = (w', s', Inr ()) \<and>
    open_disk_file (repl_ops (de_lib env)) env df (od_dir s') expired = (df', od_dir s', Inr ()) \<and>
    df_metadata df' = Some (AList.update ''name'' name md) \<and>
    data_timestamp (de_lib env) df' = Inr t \<and>
    df_data_file df' = Some (join path (ts_internal (de_lib env) t @ ''.data'')) \<and>
    file_at (od_dir s') (join path (ts_internal (de_lib env) t @ ''.data'')) = Some f \<and> st_body f = wr_data w"
proof -
  let ?n = "ts_internal (de_lib env) t @ wr_ext w" and ?m = "AList.update ''name'' name md"
  have ext: "wr_ext w = ''.data'' \<or> wr_ext w = ''.ts'' \<and> \<not> is_reclaimable (de_clean env) t" using assms(7) ..
  obtain s' fs where put: "repl_put env os path name w s md = (w\<lparr>wr_put_succeeded := True\<rparr>, s', Inr ())"
    and dir: "od_dir s' = Files fs"
    and i: "sole_newest (put_info t (wr_ext w) ?n) (set (infos (base_parse_filename (de_lib env)) (map fst fs)))"
    and f: "map_of fs ?n = Some (new_file w name md)" and n: "slash \<notin> set ?n"
    by (rule put_newest [OF assms(1-6) ext assms(9), where path = path and name = name]) (rule that)
  have nm: "fi_filename (put_info t (wr_ext w) ?n) = ?n" "fi_ext (put_info t (wr_ext w) ?n) = ''.data''"
    by (simp_all add: put_info_def assms(7))
  have v: "verify_data_file df' expired ?m (wr_data w) = Inr (int (length (wr_data w)))"
    if "df_name df' = df_name df" "df_open_expired df' = df_open_expired df" for df' :: "'a disk_file"
    using that assms(10,12-14) by (auto simp: verify_data_file_def not_expired_def split: option.splits)
  have "\<exists>df'. open_disk_file (repl_ops (de_lib env)) env df (Files fs) expired = (df', Files fs, Inr ()) \<and>
      df_metadata df' = Some ?m \<and> df_datafile df' = Some ?m \<and> df_data_file df' = Some (join (df_datadir df) (fi_filename (put_info t (wr_ext w) ?n))) \<and>
      df_fp df' \<and> df_content_length df' = Some (int (length (wr_data w)))"
    by (rule open_data [OF i nm(2), where f = "new_file w name md" and m = ?m]) (use n f assms(8,10) v nm(1) in \<open>simp_all add: new_file_def distinct_update\<close>)
  then obtain df' where df': "open_disk_file (repl_ops (de_lib env)) env df (Files fs) expired = (df', Files fs, Inr ())"
    "df_metadata df' = Some ?m" "df_datafile df' = Some ?m" "df_data_file df' = Some (join path ?n)"
    unfolding nm(1) using assms(11) by blast
  have "data_timestamp (de_lib env) df' = Inr t"
    using df'(3) assms(4,5) by (simp add: data_timestamp_def timestamp_of_def internal_ok_def)
  moreover have "file_at (od_dir s') (join path ?n) = Some (new_file w name md)"
    using f n by (simp add: dir file_at_join)
  ultimately show ?thesis using put df' dir assms(7) by (simp add: new_file_def)
qed

text \<open>C18: after a delete with a timestamp newer than everything in the directory, and not yet reclaimable,
  opening the object fails with \<^verbatim>\<open>DiskFileDeleted\<close> carrying the time of the delete.\<close>

theorem delete_then_open:
  assumes "dir_ok (od_dir s)" and "relink_ok (od_other s)" and "os_ok os"
    and "internal_ok (de_lib env) t" and "newer_than_all (de_lib env) t (od_dir s)"
    and "\<not> is_reclaimable (de_clean env) t"
  shows "\<exists>s' df' m. delete_object (de_lib env) os (repl_put env os path name) s t = (s', Inr ()) \<and>
    open_disk_file (repl_ops (de_lib env)) env df (od_dir s') expired = (df', od_dir s', Inl (DiskFileDeleted m)) \<and>
    exc_timestamp (de_lib env) m = Inr t"
proof -
  let ?md = "[(''X-Timestamp'', ts_internal (de_lib env) t)]"
  obtain w u where open': "writer_open os (od_use_linkat s) (new_writer None ''.ts'') = (w, u, Inr ())" "wr_ext w = ''.ts''"
    by (rule writer_opens [OF assms(3)]) (rule that)
  have ext: "wr_ext w = ''.data'' \<or> wr_ext w = ''.ts'' \<and> \<not> is_reclaimable (de_clean env) t"
    using open'(2) assms(6) by blast
  let ?s = "s\<lparr>od_use_linkat := u\<rparr>" and ?n = "ts_internal (de_lib env) t @ wr_ext w"
  have d: "dir_ok (od_dir ?s)" "relink_ok (od_other ?s)" "newer_than_all (de_lib env) t (od_dir ?s)"
    using assms(1,2,5) by simp_all
  have m: "map_of ?md ''X-Timestamp'' = Some (ts_internal (de_lib env) t)" "map_of ?md ''Content-Type-Timestamp'' = None"
    by simp_all
  obtain s' fs where put: "repl_put env os path name w ?s ?md = (w\<lparr>wr_put_succeeded := True\<rparr>, s', Inr ())"
    and dir: "od_dir s' = Files fs"
    and i: "sole_newest (put_info t (wr_ext w) ?n) (set (infos (base_parse_filename (de_lib env)) (map fst fs)))"
    and f: "map_of fs ?n = Some (new_file w name ?md)" and n: "slash \<notin> set ?n"
    by (rule put_newest [OF d(1,2) assms(3,4) m ext d(3), where path = path and name = name]) (rule that)
  have nm: "fi_filename (put_info t (wr_ext w) ?n) = ?n" "fi_ext (put_info t (wr_ext w) ?n) = ''.ts''"
    by (simp_all add: put_info_def open'(2))
  have "\<exists>df'. open_disk_file (repl_ops (de_lib env)) env df (Files fs) expired =
      (df', Files fs, Inl (DiskFileDeleted (AList.update ''name'' name ?md)))"
    by (rule open_tombstone [OF i nm(2), where f = "new_file w name ?md"]) (use n f nm(1) in \<open>simp_all add: new_file_def\<close>)
  then obtain df' where op: "open_disk_file (repl_ops (de_lib env)) env df (od_dir s') expired =
      (df', od_dir s', Inl (DiskFileDeleted (AList.update ''name'' name ?md)))"
    unfolding dir by blast
  have "exc_timestamp (de_lib env) (AList.update ''name'' name ?md) = Inr t"
    using assms(4) by (simp add: exc_timestamp_def timestamp_of_def internal_ok_def)
  moreover have "delete_object (de_lib env) os (repl_put env os path name) s t = (s', Inr ())"
    using put open' by (simp add: delete_object_def create_and_put_def)
  ultimately show ?thesis using op by blast
qed

text \<open>C25: a put that raises leaves the object as it was: the files of its directory (and of the directory of
  another partition power) are unchanged, and closing the writer removes the temporary file.\<close>

theorem failed_put_changes_nothing:
  assumes "dir_ok (od_dir s)" and "relink_ok (od_other s)"
    and "repl_put env os path name w s md = (w', s', Inl e)" and "\<not> wr_put_succeeded w"
  shows "od_dir s' = od_dir s \<and> od_other s' = od_other s \<and> \<not> wr_tmppath (writer_close w')"
  using repl_put_fails [OF assms(1-3)] assms(4) by (simp add: writer_close_def)

section \<open>Writing the bytes\<close>

declare write_loop.simps [simp del, code del]

text \<open>A write system call takes at least one byte of a nonempty chunk and at most all.\<close>

definition writes_ok :: "os \<Rightarrow> bool" where
  "writes_ok os \<longleftrightarrow> (\<forall>c. c \<noteq> [] \<longrightarrow> (\<exists>n. os_write os c = Inr n \<and> 0 < n \<and> n \<le> length c))"

lemma write_loop_ok:
  assumes "writes_ok os"
  shows "write_loop os w chunk =
    Some (w\<lparr>wr_data := wr_data w @ chunk, wr_upload_size := wr_upload_size w + length chunk\<rparr>, Inr ())"
proof (induction chunk arbitrary: w rule: length_induct)
  case (1 chunk)
  show ?case
  proof (cases "chunk = []")
    case True
    then show ?thesis by (subst write_loop.simps) simp
  next
    case False
    then obtain n where n: "os_write os chunk = Inr n" "0 < n" "n \<le> length chunk"
      using assms by (auto simp: writes_ok_def)
    then have "length (drop n chunk) < length chunk" using False by simp
    with 1 n False show ?thesis
      by (subst write_loop.simps) (simp add: ac_simps flip: append_assoc)
  qed
qed

text \<open>C21: writing an object's chunks ends, however short the single writes are: the file then holds the chunks
  put together, and the size and the etag that are reported are those of exactly these bytes.\<close>

theorem write_all_ok:
  assumes "writes_ok os" and "wr_fd w"
  shows "\<exists>w'. write_all os bytes_per_sync w chunks = Some (w', Inr ()) \<and>
    wr_data w' = wr_data w @ concat chunks \<and>
    chunks_finished md5 w' = (wr_upload_size w + length (concat chunks), md5 (wr_hashed w @ concat chunks))"
  using assms(2)
proof (induction chunks arbitrary: w)
  case (Cons c chunks)
  obtain w1 where w1: "writer_write os bytes_per_sync w c = Some (w1, Inr ())" "wr_fd w1" "wr_data w1 = wr_data w @ c"
    "wr_hashed w1 = wr_hashed w @ c" "wr_upload_size w1 = wr_upload_size w + length c"
    using Cons.prems write_loop_ok [OF assms(1)] by (simp add: writer_write_def)
  from Cons.IH [OF w1(2)] show ?case by (auto simp: w1 chunks_finished_def)
qed (simp add: chunks_finished_def)

section \<open>Last write wins\<close>

text \<open>What a directory shows: the time of its object, or of its tombstone (marked with \<open>True\<close>).\<close>

definition shown :: "'t results \<Rightarrow> ('t \<times> bool) option" where
  "shown r = (case r_data_info r of
     Some d \<Rightarrow> Some (fi_timestamp d, False)
   | None \<Rightarrow> map_option (\<lambda>t. (fi_timestamp t, True)) (r_ts_info r))"

definition ts_key :: "'t finfo \<Rightarrow> 't \<times> bool" where
  "ts_key i = (fi_timestamp i, fi_ext i = ''.ts'')"

definition ts_keys :: "'t finfo set \<Rightarrow> ('t \<times> bool) set" where
  "ts_keys S = ts_key ` {i \<in> S. fi_ext i = ''.data'' \<or> fi_ext i = ''.ts''}"

text \<open>The newest file is shown, and of a data file and a tombstone of the same time the tombstone.\<close>

lemma shown_max:
  assumes out: "repl_outcome p fs r"
  shows "shown r = (if ts_keys (set (infos p fs)) = {} then None else Some (Max (ts_keys (set (infos p fs)))))"
proof -
  let ?S = "set (infos p fs)"
  have fin: "finite (ts_keys ?S)" by (simp add: ts_keys_def)
  have max: "shown r = Some k \<Longrightarrow> k \<in> ts_keys ?S \<Longrightarrow> (\<And>x. x \<in> ts_keys ?S \<Longrightarrow> x \<le> k) \<Longrightarrow> ?thesis" for k
    using Max_eqI [OF fin, of k] by auto
  note c = outcome_choice [OF out refl]
  show ?thesis
  proof (cases "r_data_info r")
    case (Some d)
    then have d: "d \<in> live_data ?S" "\<forall>j \<in> live_data ?S. fi_timestamp j \<le> fi_timestamp d"
      using c(1) by (simp_all add: newest_def)
    show ?thesis
    proof (rule max)
      show "shown r = Some (fi_timestamp d, False)" by (simp add: shown_def Some)
      show "(fi_timestamp d, False) \<in> ts_keys ?S"
        using d(1) by (auto simp: ts_keys_def ts_key_def live_data_def with_ext_def image_iff intro!: bexI [of _ d])
      fix x assume "x \<in> ts_keys ?S"
      then obtain i where i: "x = ts_key i" "i \<in> ?S" "fi_ext i = ''.data'' \<or> fi_ext i = ''.ts''"
        by (auto simp: ts_keys_def)
      then consider "fi_ext i = ''.ts''" | "i \<in> live_data ?S" | t where "t \<in> with_ext ''.ts'' ?S" "fi_timestamp i \<le> fi_timestamp t" "fi_ext i = ''.data''"
        by (cases "i \<in> live_data ?S") (auto simp: live_data_def with_ext_def not_less)
      then show "x \<le> (fi_timestamp d, False)"
        using d i by cases (auto simp: ts_key_def live_data_def with_ext_def less_imp_le dest: le_less_trans)
    qed
  next
    case None
    note t = c(2) [OF None]
    have live: "live_data ?S = {}" using c(1) None by (simp add: newest_def)
    show ?thesis
    proof (cases "r_ts_info r")
      case N: None
      then have "with_ext ''.ts'' ?S = {}" using t by (simp add: newest_def)
      with live have "ts_keys ?S = {}" by (auto simp: ts_keys_def live_data_def with_ext_def)
      then show ?thesis by (simp add: shown_def None N)
    next
      case (Some ts)
      then have ts: "ts \<in> with_ext ''.ts'' ?S" "\<forall>j \<in> with_ext ''.ts'' ?S. fi_timestamp j \<le> fi_timestamp ts"
        using t by (simp_all add: newest_def)
      show ?thesis
      proof (rule max)
        show "shown r = Some (fi_timestamp ts, True)" by (simp add: shown_def None Some)
        show "(fi_timestamp ts, True) \<in> ts_keys ?S"
          using ts(1) by (auto simp: ts_keys_def ts_key_def with_ext_def image_iff intro!: bexI [of _ ts])
        fix x assume "x \<in> ts_keys ?S"
        then obtain i where i: "x = ts_key i" "i \<in> ?S" "fi_ext i = ''.data'' \<or> fi_ext i = ''.ts''"
          by (auto simp: ts_keys_def)
        then have "\<exists>j \<in> with_ext ''.ts'' ?S. fi_timestamp i \<le> fi_timestamp j"
          using live by (auto simp: live_data_def with_ext_def not_less)
        then have "fi_timestamp i \<le> fi_timestamp ts" using ts(2) by (meson order_trans)
        then show "x \<le> (fi_timestamp ts, True)" by (auto simp: i ts_key_def)
      qed
    qed
  qed
qed

text \<open>Requests that reach a directory: a put of bytes and metadata at a time, or a delete.\<close>

datatype 't dir_request = PutReq 't string metadata | DeleteReq 't

fun req_key :: "'t dir_request \<Rightarrow> 't \<times> bool" where
  "req_key (PutReq t body md) = (t, False)"
| "req_key (DeleteReq t) = (t, True)"

definition apply_request ::
  "'t :: {linorder, order_bot} df_env \<Rightarrow> os \<Rightarrow> string \<Rightarrow> string \<Rightarrow> 't dir_request \<Rightarrow> odisk \<Rightarrow> odisk \<times> (pyexc + unit)" where
  "apply_request env os path name q s =
     (case q of
        PutReq t body md \<Rightarrow>
          (case writer_open os (od_use_linkat s) (new_writer None ''.data'') of
             (w, u, Inl e) \<Rightarrow> (s\<lparr>od_use_linkat := u\<rparr>, Inl e)
           | (w, u, Inr x) \<Rightarrow> snd (repl_put env os path name (w\<lparr>wr_data := body\<rparr>) (s\<lparr>od_use_linkat := u\<rparr>) md))
      | DeleteReq t \<Rightarrow> delete_object (de_lib env) os (repl_put env os path name) s t)"

primrec run_requests ::
  "'t :: {linorder, order_bot} df_env \<Rightarrow> os \<Rightarrow> string \<Rightarrow> string \<Rightarrow> 't dir_request list \<Rightarrow> odisk \<Rightarrow> odisk" where
  "run_requests env os path name [] s = s"
| "run_requests env os path name (q # qs) s = run_requests env os path name qs (fst (apply_request env os path name q s))"

definition request_ok :: "'t df_env \<Rightarrow> 't dir_request \<Rightarrow> bool" where
  "request_ok env q \<longleftrightarrow>
     (case q of
        PutReq t body md \<Rightarrow> internal_ok (de_lib env) t \<and> map_of md ''X-Timestamp'' = Some (ts_internal (de_lib env) t) \<and>
          map_of md ''Content-Type-Timestamp'' = None
      | DeleteReq t \<Rightarrow> internal_ok (de_lib env) t \<and> \<not> is_reclaimable (de_clean env) t)"

definition dir_keys :: "'t ts_lib \<Rightarrow> hash_dir \<Rightarrow> ('t \<times> bool) set" where
  "dir_keys lib d = ts_keys (set (infos (base_parse_filename lib) (names_of d)))"

lemma finite_ts_keys [simp]: "finite (ts_keys (set l))"
  by (simp add: ts_keys_def)

lemma ts_keys_insert:
  "fi_ext i = ''.data'' \<or> fi_ext i = ''.ts'' \<Longrightarrow> ts_keys (insert i S) = insert (ts_key i) (ts_keys S)"
  by (auto simp: ts_keys_def)

definition holds_latest :: "'t :: {linorder, order_bot} ts_lib \<Rightarrow> ('t \<times> bool) set \<Rightarrow> odisk \<Rightarrow> bool" where
  "holds_latest lib Q s \<longleftrightarrow> dir_ok (od_dir s) \<and> relink_ok (od_other s) \<and> dir_keys lib (od_dir s) \<subseteq> Q \<and>
     (if Q = {} then True else dir_keys lib (od_dir s) \<noteq> {} \<and> Max (dir_keys lib (od_dir s)) = Max Q)"

text \<open>One put keeps the latest: of the old files and the new one, the newest survives the clean-up.\<close>

lemma put_holds_latest:
  assumes inv: "holds_latest (de_lib env) Q s" "finite Q"
    and q: "\<forall>t. (t, True) \<in> insert (t0, wr_ext w = ''.ts'') Q \<longrightarrow> \<not> is_reclaimable (de_clean env) t"
    and os: "os_ok os" and t: "internal_ok (de_lib env) t0" "map_of md ''X-Timestamp'' = Some (ts_internal (de_lib env) t0)"
      "map_of md ''Content-Type-Timestamp'' = None" "wr_ext w = ''.data'' \<or> wr_ext w = ''.ts''"
  shows "holds_latest (de_lib env) (insert (t0, wr_ext w = ''.ts'') Q) (fst (snd (repl_put env os path name w s md)))"
proof -
  let ?p = "base_parse_filename (de_lib env)" and ?n = "ts_internal (de_lib env) t0 @ wr_ext w" and ?k = "(t0, wr_ext w = ''.ts'')"
  note nm = put_name [OF t]
  have io: "os_write_md os (AList.update ''name'' name md) = None" "os_rename os = None"
    using os by (simp_all add: os_ok_def)
  have ok: "dir_ok (od_dir s)" "relink_ok (od_other s)" using inv(1) by (simp_all add: holds_latest_def)
  obtain s' r r' fs where put: "repl_put env os path name w s md = (w\<lparr>wr_put_succeeded := True\<rparr>, s', Inr ())"
    and fs: "fs = AList.update ?n (new_file w name md) (files_in (od_dir s))" and dist: "distinct (map fst fs)"
    and r: "repl_outcome ?p (rev (sort (map fst fs))) r"
    and r': "repl_outcome ?p (rev (sort (kept_names (de_clean env) path r (map fst fs)))) r'"
    and same: "r_data_info r' = r_data_info r" "r_ts_info r' = r_ts_info (cleaned (de_clean env) path r)"
    and dir: "od_dir s' = dir_of (keep_files (kept_names (de_clean env) path r (map fst fs)) fs)" "relink_ok (od_other s')"
    by (rule repl_put_runs [OF ok nm(1) io, where path = path]) (rule that)
  let ?K = "kept_names (de_clean env) path r (map fst fs)"
  have set_sort: "ts_keys (set (infos ?p (rev (sort xs)))) = ts_keys (set (infos ?p xs))" for xs
    by (rule arg_cong [where f = ts_keys]) (auto simp: in_infos)
  have names: "set (map fst fs) = insert ?n (set (names_of (od_dir s)))"
    by (simp add: fs names_of_files dom_update)
  have i: "(put_info t0 (wr_ext w) [])\<lparr>fi_filename := ?n\<rparr> = put_info t0 (wr_ext w) ?n" by (simp add: put_info_def)
  have key: "ts_key (put_info t0 (wr_ext w) ?n) = ?k" "fi_ext (put_info t0 (wr_ext w) ?n) = wr_ext w"
    by (simp_all add: ts_key_def put_info_def)
  have all: "ts_keys (set (infos ?p (map fst fs))) = insert ?k (dir_keys (de_lib env) (od_dir s))"
  proof -
    have "set (infos ?p (map fst fs)) = insert (put_info t0 (wr_ext w) ?n) (set (infos ?p (names_of (od_dir s))))"
      unfolding i [symmetric] by (rule infos_insert [OF names]) (rule nm(2))
    then show ?thesis using t(4) by (simp add: ts_keys_insert key dir_keys_def)
  qed
  define A where "A = insert ?k (dir_keys (de_lib env) (od_dir s))"
  have A: "finite A" "A \<noteq> {}" "A \<subseteq> insert ?k Q" using inv by (auto simp: A_def dir_keys_def holds_latest_def)
  have sh: "shown r = Some (Max A)" using shown_max [OF r, unfolded set_sort] all by (simp add: A_def)
  have names': "names_of (od_dir s') = ?K"
    using dir(1) names_keep_files [of "de_clean env" path r fs]
    by (auto simp: dir_of_def names_of_def split: if_splits)
  have "r_ts_info (cleaned (de_clean env) path r) = r_ts_info r"
  proof (cases "r_data_info r")
    case None
    show ?thesis
    proof (cases "r_ts_info r")
      case (Some ts)
      then have "Max A = (fi_timestamp ts, True)" using sh None by (simp add: shown_def)
      then have "(fi_timestamp ts, True) \<in> insert ?k Q" using Max_in [OF A(1,2)] A(3) by auto
      with q have "\<not> is_reclaimable (de_clean env) (fi_timestamp ts)" by blast
      with Some show ?thesis by (simp add: cleaned_def add_obsolete_def)
    qed (simp add: cleaned_def add_obsolete_def)
  next
    case (Some d)
    then show ?thesis using outcome_choice(3) [OF r refl Some] by (simp add: cleaned_def add_obsolete_def)
  qed
  then have "shown r' = shown r" using same by (simp add: shown_def split: option.split)
  then have "(if ts_keys (set (infos ?p ?K)) = {} then None else Some (Max (ts_keys (set (infos ?p ?K))))) = Some (Max A)"
    using shown_max [OF r', unfolded set_sort] sh by simp
  then have K: "dir_keys (de_lib env) (od_dir s') \<noteq> {}" "Max (dir_keys (de_lib env) (od_dir s')) = Max A"
    by (auto simp: dir_keys_def names' split: if_splits)
  have "ts_keys (set (infos ?p ?K)) \<subseteq> ts_keys (set (infos ?p (map fst fs)))"
    by (auto simp: ts_keys_def infos_kept_names)
  then have "dir_keys (de_lib env) (od_dir s') \<subseteq> A"
    unfolding all A_def by (simp add: dir_keys_def names')
  moreover have "Max A = Max (insert ?k Q)"
  proof (cases "Q = {}")
    case False
    with inv show ?thesis by (simp add: A_def holds_latest_def Max_insert dir_keys_def)
  next
    case True
    with inv have "dir_keys (de_lib env) (od_dir s) = {}" by (simp add: holds_latest_def)
    with True show ?thesis by (simp add: A_def)
  qed
  moreover have "dir_ok (od_dir s')"
    using dir(1) dist by (simp add: dir_of_def keep_files_def distinct_map_filter)
  ultimately show ?thesis using K A(3) dir(2) by (auto simp: holds_latest_def put)
qed

lemma apply_holds_latest:
  assumes "holds_latest (de_lib env) Q s" and "finite Q" and "os_ok os" and "request_ok env q"
    and "\<forall>t. (t, True) \<in> Q \<longrightarrow> \<not> is_reclaimable (de_clean env) t"
  shows "holds_latest (de_lib env) (insert (req_key q) Q) (fst (apply_request env os path name q s))"
proof (cases q)
  case (PutReq t body md)
  obtain w u where w: "writer_open os (od_use_linkat s) (new_writer None ''.data'') = (w, u, Inr ())" "wr_ext w = ''.data''"
    by (rule writer_opens [OF assms(3)]) (rule that)
  have "holds_latest (de_lib env) Q (s\<lparr>od_use_linkat := u\<rparr>)" using assms(1) by (simp add: holds_latest_def)
  from put_holds_latest [OF this assms(2) _ assms(3), of t "w\<lparr>wr_data := body\<rparr>" md path name]
  show ?thesis using assms(4,5) w by (simp add: PutReq apply_request_def request_ok_def)
next
  case (DeleteReq t)
  obtain w u where w: "writer_open os (od_use_linkat s) (new_writer None ''.ts'') = (w, u, Inr ())" "wr_ext w = ''.ts''"
    by (rule writer_opens [OF assms(3)]) (rule that)
  have "holds_latest (de_lib env) Q (s\<lparr>od_use_linkat := u\<rparr>)" using assms(1) by (simp add: holds_latest_def)
  from put_holds_latest [OF this assms(2) _ assms(3), of t w "[(''X-Timestamp'', ts_internal (de_lib env) t)]" path name]
  show ?thesis using assms(4,5) w
    by (simp add: DeleteReq apply_request_def request_ok_def delete_object_def create_and_put_def split_def Let_def)
qed

lemma run_holds_latest:
  assumes "os_ok os" and "\<forall>q \<in> set qs. request_ok env q" and "holds_latest (de_lib env) Q s" and "finite Q"
    and "\<forall>t. (t, True) \<in> Q \<longrightarrow> \<not> is_reclaimable (de_clean env) t"
  shows "holds_latest (de_lib env) (req_key ` set qs \<union> Q) (run_requests env os path name qs s)"
  using assms(2-5)
proof (induction qs arbitrary: s Q)
  case (Cons q qs)
  have q: "\<forall>t. (t, True) \<in> insert (req_key q) Q \<longrightarrow> \<not> is_reclaimable (de_clean env) t"
    using Cons.prems by (cases q) (auto simp: request_ok_def)
  have "holds_latest (de_lib env) (req_key ` set qs \<union> insert (req_key q) Q)
      (run_requests env os path name qs (fst (apply_request env os path name q s)))"
    by (rule Cons.IH) (use Cons.prems q apply_holds_latest [OF Cons.prems(2,3) assms(1)] in simp_all)
  then show ?case by simp
qed simp

text \<open>C15: the last write wins, whatever the order: two directories that start empty and get the same puts and
  deletes, each in its own order and possibly repeated, show the same in the end, the request with the
  newest time, and a delete before a put of the same time.\<close>

theorem replicas_converge:
  assumes "os_ok os" and "\<forall>q \<in> set qs. request_ok env q" and "set qs' = set qs" and "qs \<noteq> []"
    and "od_dir s = Missing" and "od_other s = NoPower"
    and "get_ondisk_files (repl_ops (de_lib env)) (names_of (od_dir (run_requests env os path name qs s))) path v = Inr r"
    and "get_ondisk_files (repl_ops (de_lib env)) (names_of (od_dir (run_requests env os path name qs' s))) path v' = Inr r'"
  shows "shown r = Some (Max (req_key ` set qs)) \<and> shown r' = shown r"
proof -
  have start: "holds_latest (de_lib env) {} s"
    using assms(5,6) by (simp add: holds_latest_def dir_keys_def names_of_def ts_keys_def)
  have end': "shown r = Some (Max (req_key ` set qs))"
    if "set xs = set qs" "get_ondisk_files (repl_ops (de_lib env)) (names_of (od_dir (run_requests env os path name xs s))) path v = Inr r"
    for xs v r
  proof -
    let ?d = "od_dir (run_requests env os path name xs s)"
    have "holds_latest (de_lib env) (req_key ` set xs \<union> {}) (run_requests env os path name xs s)"
      by (rule run_holds_latest [OF assms(1)]) (use assms(2) start that in simp_all)
    then have k: "dir_keys (de_lib env) ?d \<noteq> {}" "Max (dir_keys (de_lib env) ?d) = Max (req_key ` set qs)"
      using that(1) assms(4) by (simp_all add: holds_latest_def split: if_splits)
    obtain r0 where r0: "\<And>v. get_ondisk_files (repl_ops (de_lib env)) (names_of ?d) path v = Inr r0"
      and out: "repl_outcome (base_parse_filename (de_lib env)) (names_of ?d) r0"
      by (rule repl_run [of "de_lib env" "names_of ?d" path]) (rule that)
    have "r0 = r" using r0 [of v] that(2) by simp
    with shown_max [OF out] k show ?thesis by (simp add: dir_keys_def)
  qed
  show ?thesis using end' [OF refl assms(7)] end' [OF assms(3) assms(8)] by simp
qed

section \<open>What a successful open has checked\<close>

lemma verify_data_file_ok:
  assumes "verify_data_file df expired m body = Inr k"
  shows "map_of m ''name'' = df_name df" and "df_name df \<noteq> None" and "k = int (length body)"
    and "\<exists>x. map_of m ''Content-Length'' = Some x \<and> py_int x = Some (int (length body))"
    and "df_open_expired df \<or> not_expired expired m"
  using assms by (cases "df_name df"; auto simp: verify_data_file_def not_expired_def split: option.splits if_splits)+

lemma check_data_file_ok:
  assumes "check_data_file env df d expired m body = (df', d', Inr ())"
  shows "d' = d" and "df_metadata df' = Some m" and "map_of m ''name'' = df_name df'" and "df_name df' \<noteq> None"
    and "df_content_length df' = Some (int (length body))"
    and "\<exists>x. map_of m ''Content-Length'' = Some x \<and> py_int x = Some (int (length body))"
    and "df_open_expired df \<or> not_expired expired m"
    and "df_data_file df' = df_data_file df" and "df_name df \<noteq> None \<Longrightarrow> df_name df' = df_name df"
    and "df_name df = None \<Longrightarrow> verify_name_matches_hash env df (the (df_name df'))"
proof -
  note [simp] = check_data_file_def Let_def
  from assms obtain df1 k where *: "verify_data_file df1 expired m body = Inr k" "df' = df1\<lparr>df_content_length := Some k\<rparr>"
    "d' = d" "df_metadata df1 = Some m" "df_data_file df1 = df_data_file df" "df_open_expired df1 = df_open_expired df"
    "df_name df \<noteq> None \<Longrightarrow> df_name df1 = df_name df"
    "df_name df = None \<Longrightarrow> verify_name_matches_hash env df (the (df_name df1))"
    by (auto simp: verify_name_matches_hash_def split: option.splits sum.splits if_splits)
  note v = verify_data_file_ok [OF *(1)]
  show "d' = d" "df_metadata df' = Some m" "map_of m ''name'' = df_name df'" "df_name df' \<noteq> None"
    "df_content_length df' = Some (int (length body))"
    "\<exists>x. map_of m ''Content-Length'' = Some x \<and> py_int x = Some (int (length body))"
    "df_open_expired df \<or> not_expired expired m" "df_data_file df' = df_data_file df"
    using v * by simp_all
  show "df_name df \<noteq> None \<Longrightarrow> df_name df' = df_name df" using *(2,7) by simp
  show "df_name df = None \<Longrightarrow> verify_name_matches_hash env df (the (df_name df'))" using *(2,8) by simp
qed

lemma failsafe_ok: "failsafe_read d path = (d', Inr md) \<Longrightarrow> d' = d"
  by (auto simp: failsafe_read_def split: sum.splits option.splits if_splits)

lemma merge_content_type_frame:
  "merge_content_type env df cm = Inr df' \<Longrightarrow> \<exists>m. df' = df\<lparr>df_metafile := m\<rparr>"
  by (auto simp: merge_content_type_def Let_def split: option.splits if_splits)
    (metis disk_file.surjective disk_file.update_convs(7))+

lemma read_meta_files_ok:
  assumes "read_meta_files env df d info = (df', d', Inr m)"
  shows "d' = d" and "\<exists>mf. df' = df\<lparr>df_metafile := mf\<rparr>"
proof -
  have id: "\<exists>mf. df = df\<lparr>df_metafile := mf\<rparr>" by (rule exI [of _ "df_metafile df"]) simp
  show "d' = d" "\<exists>mf. df' = df\<lparr>df_metafile := mf\<rparr>"
    using assms id
    by (auto simp: read_meta_files_def Let_def split_def failsafe_read_def
        split: option.splits if_splits sum.splits dest!: merge_content_type_frame)
qed

lemma construct_ok:
  assumes "construct_from_data_file env df d expired info path = (df', d', Inr ())"
  obtains f m df1 where "file_at d path = Some f" "d' = d" "st_open_error f = None"
    "check_data_file env df1 d expired m (st_body f) = (df', d, Inr ())"
    "df_name df1 = df_name df" "df_open_expired df1 = df_open_expired df" "df_data_file df1 = df_data_file df"
    "df_datadir df1 = df_datadir df"
proof -
  from assms obtain f dm where f: "file_at d path = Some f" "st_open_error f = None" "failsafe_read d path = (d, Inr dm)"
    by (auto simp: construct_from_data_file_def split: option.splits if_splits sum.splits prod.splits dest: failsafe_ok)
  let ?df = "df\<lparr>df_datafile := Some dm, df_metadata := Some []\<rparr>"
  from assms f obtain df1 d1 m where r: "read_meta_files env ?df d info = (df1, d1, Inr m)"
    and c: "check_data_file env df1 d1 expired m (st_body f) = (df', d', Inr ())"
    by (auto simp: construct_from_data_file_def Let_def split: option.splits if_splits sum.splits prod.splits)
  from read_meta_files_ok [OF r] obtain mf where "d1 = d" "df1 = ?df\<lparr>df_metafile := mf\<rparr>" by blast
  with c check_data_file_ok(1) [OF c] f that show thesis by simp
qed

text \<open>The file is held open by \<^verbatim>\<open>open\<close> itself, at the end.\<close>

lemma merge_content_type_fp: "merge_content_type env df cm = Inr df' \<Longrightarrow> df_fp df' = df_fp df"
  by (auto dest: merge_content_type_frame)

lemma construct_fp: "df_fp (fst (construct_from_data_file env df d expired info path)) = df_fp df"
proof -
  have 1: "df_fp (fst (check_data_file env df d expired m body)) = df_fp df" for df d m body
    by (simp add: check_data_file_def Let_def split: option.split sum.split)
  have 2: "df_fp (fst (read_meta_files env df d info)) = df_fp df" for df d
    by (auto simp: read_meta_files_def Let_def split: option.split sum.split prod.split dest!: merge_content_type_fp)
  show ?thesis
    by (auto simp: construct_from_data_file_def Let_def 1 split: option.split sum.split prod.split
        dest!: arg_cong [where f = "\<lambda>x. df_fp (fst x)"] simp: 2)
qed

lemma open_cases:
  assumes "open_disk_file ops env df d expired = (df', d', Inr ())" and "df_fp df'" and "\<not> df_fp df"
  obtains info path df1 where
    "construct_from_data_file env (df\<lparr>df_ondisk_info := Some info, df_data_file := Some path\<rparr>) d expired info path = (df1, d', Inr ())"
    "df' = df1\<lparr>df_fp := True\<rparr>"
proof -
  from assms(1) obtain info path where
    run: "(case construct_from_data_file env (df\<lparr>df_ondisk_info := Some info, df_data_file := Some path\<rparr>) d expired info path of
       (df, d, Inl (OSError e)) \<Rightarrow>
         if e = ENODATA \<or> e = EUCLEAN then (df, Missing, Inl DiskFileQuarantined)
         else (df\<lparr>df_metadata := Some (case df_metadata df of None \<Rightarrow> [] | Some m \<Rightarrow> m)\<rparr>, d, Inr ())
     | (df, d, Inl e) \<Rightarrow> (df, d, Inl e)
     | (df, d, Inr u) \<Rightarrow> (df\<lparr>df_fp := True\<rparr>, d, Inr ())) = (df', d', Inr ())"
    by (auto simp: open_disk_file_def Let_def split: sum.splits option.splits prod.splits hash_dir.splits if_splits)
  let ?c = "construct_from_data_file env (df\<lparr>df_ondisk_info := Some info, df_data_file := Some path\<rparr>) d expired info path"
  obtain df1 d1 u where c: "?c = (df1, d1, u)" by (cases ?c)
  have fp: "df_fp df1 = df_fp df"
    using construct_fp [of env "df\<lparr>df_ondisk_info := Some info, df_data_file := Some path\<rparr>" d expired info path]
    by (simp add: c)
  show thesis
  proof (cases u)
    case (Inl e)
    with run c fp assms(2,3) show thesis by (cases e) (auto split: if_splits)
  next
    case (Inr x)
    with run c that show thesis by simp
  qed
qed

text \<open>C22: an open that succeeds, with the data file held open, has checked the object: nothing on the disk was
  moved away, the name in the metadata is the name the instance was made for, or, when it was made without a name,
  hashes to the directory it was made for; the stored length is the length of the file, and the object has not
  expired unless expired objects may be opened.\<close>

theorem open_has_checked:
  assumes "open_disk_file ops env df d expired = (df', d', Inr ())" and "df_fp df'" and "\<not> df_fp df"
  shows "d' = d \<and> (\<exists>path f m x. df_data_file df' = Some path \<and> file_at d path = Some f \<and> df_metadata df' = Some m \<and>
    (case df_name df of
       Some n \<Rightarrow> map_of m ''name'' = Some n
     | None \<Rightarrow> \<exists>n. map_of m ''name'' = Some n \<and> basename (df_datadir df) = de_hash_path env (dropWhile (\<lambda>c. c = slash) n)) \<and>
    df_name df' = map_of m ''name'' \<and>
    map_of m ''Content-Length'' = Some x \<and> py_int x = Some (int (length (st_body f))) \<and>
    df_content_length df' = Some (int (length (st_body f))) \<and> (df_open_expired df \<or> not_expired expired m))"
proof -
  obtain info path df1 where c: "construct_from_data_file env (df\<lparr>df_ondisk_info := Some info, df_data_file := Some path\<rparr>) d expired info path = (df1, d', Inr ())"
    and df': "df' = df1\<lparr>df_fp := True\<rparr>"
    by (rule open_cases [OF assms])
  let ?df = "df\<lparr>df_ondisk_info := Some info, df_data_file := Some path\<rparr>"
  obtain f m df2 where *: "file_at d path = Some f" "d' = d" "check_data_file env df2 d expired m (st_body f) = (df1, d', Inr ())"
    "df_open_expired df2 = df_open_expired ?df" "df_data_file df2 = df_data_file ?df" "df_name df2 = df_name df"
    "df_datadir df2 = df_datadir df"
    by (rule construct_ok [OF c]) simp
  note k = check_data_file_ok [OF *(3)]
  have "df_data_file df1 = Some path" "df_open_expired df2 = df_open_expired df" using k(8) *(4,5) by simp_all
  moreover have "case df_name df of Some n \<Rightarrow> map_of m ''name'' = Some n
     | None \<Rightarrow> \<exists>n. map_of m ''name'' = Some n \<and> basename (df_datadir df) = de_hash_path env (dropWhile (\<lambda>c. c = slash) n)"
    using k(3,4,9,10) *(6,7) by (auto simp: verify_name_matches_hash_def split: option.split)
  ultimately show ?thesis using *(1,2) k(2-7) df' by simp
qed

text \<open>an error of opening the data file that is none of the expected ones (\<^verbatim>\<open>EACCES\<close>, \<^verbatim>\<open>EIO\<close>, \<^verbatim>\<open>EMFILE\<close>) is
  lost: \<^verbatim>\<open>open\<close> returns as if it had succeeded, with empty metadata and no file held open.\<close>

theorem open_forgets_errors:
  assumes "get_ondisk_files ops fs (df_datadir df) True = Inr r" and "r_data_file r = Some path"
    and "d = Files files" and "fs = map fst files" and "file_at d path = Some f" and "st_open_error f = Some e"
    and "e \<noteq> ENOENT" and "e \<noteq> ENODATA" and "e \<noteq> EUCLEAN" and "df_metadata df = None"
  shows "\<exists>df'. open_disk_file ops env df d expired = (df', d, Inr ()) \<and> df_metadata df' = Some [] \<and> df_fp df' = df_fp df"
  using assms by (simp add: open_disk_file_def construct_from_data_file_def)

section \<open>Metadata of a POST\<close>

text \<open>The metadata of a \<^verbatim>\<open>.meta\<close> file can not change what belongs to the system: for every system key of the
  data file (its length, its etag, sysmeta) the object has the data file's value; every other key, apart
  from the content type, comes from the \<^verbatim>\<open>.meta\<close> file alone.\<close>

theorem merge_keeps_system_metadata:
  assumes "merged_metadata env df dm mm = Inr m" and "distinct (map fst dm)" and "distinct (map fst mm)"
    and "k \<noteq> ''Content-Type''" and "k \<noteq> ''Content-Type-Timestamp''"
  shows "map_of m k =
    (if (lower k \<in> set reserved_keys \<or> de_sys_meta env k) \<and> map_of dm k \<noteq> None then map_of dm k else map_of mm k)"
proof -
  have sys: "map_of (sys_metadata env dm) k = (if lower k \<in> set reserved_keys \<or> de_sys_meta env k then map_of dm k else None)"
    unfolding sys_metadata_def by (induction dm) auto
  have "distinct (map fst (sys_metadata env dm))"
    using assms(2) by (simp add: sys_metadata_def distinct_map_filter)
  then have u: "map_of (dict_update (dict_update [] mm) (sys_metadata env dm)) = map_of mm ++ map_of (sys_metadata env dm)"
    using assms(3) by (simp add: map_of_dict_update_distinct)
  let ?b = "dict_update (dict_update [] mm) (sys_metadata env dm)"
  have "m = ?b \<or> (\<exists>c. m = AList.delete ''Content-Type-Timestamp'' (AList.update ''Content-Type'' c ?b))"
    using assms(1)
    by (cases "map_of dm ''Content-Type''"; cases "map_of mm ''Content-Type-Timestamp''";
        auto simp: merged_metadata_def Let_def split: option.splits if_splits)
  then have "map_of m k = map_of ?b k" using assms(4,5) by (auto simp: delete_conv')
  then show ?thesis by (auto simp: u sys map_add_def split: option.split)
qed

section \<open>Concrete runs\<close>

definition sample_df_env :: "nat df_env" where
  "sample_df_env = \<lparr>de_lib = sample_lib, de_clean = sample_env, de_hash_path = id, de_sys_meta = (\<lambda>_. False)\<rparr>"

definition sample_os :: os where
  "sample_os = \<lparr>os_tmpfile = None, os_mkstemp = None, os_fallocate = None, os_free_space = True,
     os_write = (\<lambda>c. Inr (min 3 (length c))), os_write_md = (\<lambda>m. None), os_rename = None\<rparr>"

definition sample_disk :: "hash_dir \<Rightarrow> odisk" where
  "sample_disk d = \<lparr>od_dir = d, od_other = NoPower, od_invalidated = 0, od_use_linkat = True\<rparr>"

definition sample_md :: metadata where
  "sample_md = [(''X-Timestamp'', ''960''), (''Content-Length'', ''5''), (''ETag'', ''e'')]"

definition sample_old :: "(string \<times> stored) list" where
  "sample_old = [(''950.data'', \<lparr>st_body = ''old'', st_md = Inr [(''X-Timestamp'', ''950''), (''name'', ''/a/c/o''), (''Content-Length'', ''3'')],
     st_open_error = None\<rparr>)]"

definition sample_df :: "nat disk_file" where
  "sample_df = \<lparr>df_name = Some ''/a/c/o'', df_datadir = ''/d'', df_open_expired = False, df_ondisk_info = None,
     df_metadata = None, df_datafile = None, df_metafile = None, df_data_file = None, df_fp = False, df_content_length = None\<rparr>"

definition full_writer :: "string \<Rightarrow> writer" where
  "full_writer body = (new_writer None ''.data'')\<lparr>wr_fd := True, wr_data := body\<rparr>"

lemma sample_os_ok: "os_ok sample_os" "writes_ok sample_os"
  by (auto simp: os_ok_def writes_ok_def sample_os_def)

lemma sample_internal: "internal_ok (de_lib sample_df_env) t" "ts_internal (de_lib sample_df_env) 960 = ''960''"
  using sample_lib_ok(1) [of t] by (simp add: sample_df_env_def, code_simp)

lemma sample_newer: "newer_than_all (de_lib sample_df_env) 960 (Files sample_old)"
proof -
  have "infos (base_parse_filename sample_lib) (map fst sample_old) = [put_info 950 ''.data'' ''950.data'']" by code_simp
  then show ?thesis by (simp add: newer_than_all_def names_of_def sample_df_env_def put_info_def)
qed

theorem put_then_open_witness:
  "\<exists>w' s' df' f. repl_put sample_df_env sample_os ''/d'' ''/a/c/o'' (full_writer ''hello'') (sample_disk (Files sample_old)) sample_md = (w', s', Inr ()) \<and>
    open_disk_file (repl_ops (de_lib sample_df_env)) sample_df_env sample_df (od_dir s') (\<lambda>x. x \<le> 970) = (df', od_dir s', Inr ()) \<and>
    df_metadata df' = Some (AList.update ''name'' ''/a/c/o'' sample_md) \<and>
    data_timestamp (de_lib sample_df_env) df' = Inr 960 \<and>
    df_data_file df' = Some (join ''/d'' (ts_internal (de_lib sample_df_env) 960 @ ''.data'')) \<and>
    file_at (od_dir s') (join ''/d'' (ts_internal (de_lib sample_df_env) 960 @ ''.data'')) = Some f \<and> st_body f = wr_data (full_writer ''hello'')"
proof (rule put_then_open [OF _ _ sample_os_ok(1) sample_internal(1)])
  show "newer_than_all (de_lib sample_df_env) 960 (od_dir (sample_disk (Files sample_old)))"
    using sample_newer by (simp add: sample_disk_def)
  show "py_int ''5'' = Some (int (length (wr_data (full_writer ''hello''))))" by code_simp
qed (simp_all add: sample_internal sample_disk_def sample_old_def sample_md_def full_writer_def new_writer_def sample_df_def not_expired_def)

theorem delete_then_open_witness:
  "\<exists>s' df' m. delete_object (de_lib sample_df_env) sample_os (repl_put sample_df_env sample_os ''/d'' ''/a/c/o'') (sample_disk (Files sample_old)) 960 = (s', Inr ()) \<and>
    open_disk_file (repl_ops (de_lib sample_df_env)) sample_df_env sample_df (od_dir s') (\<lambda>x. x \<le> 970) = (df', od_dir s', Inl (DiskFileDeleted m)) \<and>
    exc_timestamp (de_lib sample_df_env) m = Inr 960"
proof (rule delete_then_open [OF _ _ sample_os_ok(1) sample_internal(1)])
  show "newer_than_all (de_lib sample_df_env) 960 (od_dir (sample_disk (Files sample_old)))"
    using sample_newer by (simp add: sample_disk_def)
qed (simp_all add: sample_disk_def sample_old_def sample_df_env_def sample_env_def is_reclaimable_def)

lemma full_writer_simps [simp]: "wr_fd (full_writer b)" "wr_data (full_writer b) = b" "wr_hashed (full_writer b) = []"
  "wr_upload_size (full_writer b) = 0" "\<not> wr_put_succeeded (full_writer b)" "\<not> wr_tmppath (full_writer b)"
  by (simp_all add: full_writer_def new_writer_def)

theorem failed_put_changes_nothing_witness:
  "\<exists>w' s'. repl_put sample_df_env (sample_os\<lparr>os_write_md := (\<lambda>m. Some TypeError)\<rparr>) ''/d'' ''/a/c/o'' (full_writer ''hello'')
     (sample_disk (Files sample_old)) sample_md = (w', s', Inl TypeError) \<and>
     od_dir s' = od_dir (sample_disk (Files sample_old)) \<and> \<not> wr_tmppath (writer_close w')"
proof -
  let ?w = "full_writer ''hello''" and ?s = "sample_disk (Files sample_old)"
  have p: "put_filename (de_lib sample_df_env) (\<lambda>t c. Inr (base_make_filename (de_lib sample_df_env) t (Some (wr_ext ?w)) c)) sample_md = Inr ''960.data''"
    by code_simp
  have r: "repl_put sample_df_env (sample_os\<lparr>os_write_md := (\<lambda>m. Some TypeError)\<rparr>) ''/d'' ''/a/c/o'' ?w ?s sample_md = (?w, ?s, Inl TypeError)"
    unfolding repl_put_def base_put_def p by (simp add: finalize_put_def)
  have "dir_ok (od_dir ?s)" "relink_ok (od_other ?s)" "\<not> wr_put_succeeded ?w"
    by (simp_all add: sample_disk_def sample_old_def)
  from failed_put_changes_nothing [OF this(1,2) r this(3)] r show ?thesis by blast
qed

theorem write_all_ok_witness:
  "\<exists>w'. write_all sample_os 512 (full_writer []) [''hello'', [], ''world''] = Some (w', Inr ()) \<and> wr_data w' = ''helloworld''"
proof -
  have "wr_fd (full_writer [])" by simp
  from write_all_ok [OF sample_os_ok(2) this, of 512 "[''hello'', [], ''world'']" id]
  obtain w' where "write_all sample_os 512 (full_writer []) [''hello'', [], ''world''] = Some (w', Inr ())"
    "wr_data w' = wr_data (full_writer []) @ concat [''hello'', [], ''world'']" by blast
  then show ?thesis by (intro exI [of _ w'] conjI) simp_all
qed

definition sample_requests :: "nat dir_request list" where
  "sample_requests = [PutReq 960 ''hello'' sample_md, DeleteReq 970]"

theorem replicas_converge_witness:
  "\<exists>r r'. get_ondisk_files (repl_ops (de_lib sample_df_env)) (names_of (od_dir (run_requests sample_df_env sample_os ''/d'' ''/a/c/o'' sample_requests (sample_disk Missing)))) ''/d'' True = Inr r \<and>
    get_ondisk_files (repl_ops (de_lib sample_df_env)) (names_of (od_dir (run_requests sample_df_env sample_os ''/d'' ''/a/c/o'' (rev sample_requests) (sample_disk Missing)))) ''/d'' True = Inr r' \<and>
    shown r = Some (970, True) \<and> shown r' = Some (970, True)"
proof -
  let ?run = "\<lambda>qs. names_of (od_dir (run_requests sample_df_env sample_os ''/d'' ''/a/c/o'' qs (sample_disk Missing)))"
  obtain r where r: "\<And>v. get_ondisk_files (repl_ops (de_lib sample_df_env)) (?run sample_requests) ''/d'' v = Inr r"
    by (rule repl_run [of "de_lib sample_df_env" "?run sample_requests" "''/d''"]) (rule that)
  obtain r' where r': "\<And>v. get_ondisk_files (repl_ops (de_lib sample_df_env)) (?run (rev sample_requests)) ''/d'' v = Inr r'"
    by (rule repl_run [of "de_lib sample_df_env" "?run (rev sample_requests)" "''/d''"]) (rule that)
  have "\<forall>q \<in> set sample_requests. request_ok sample_df_env q"
    using sample_internal by (simp add: sample_requests_def request_ok_def sample_md_def)
      (simp add: sample_df_env_def sample_env_def is_reclaimable_def)
  from replicas_converge [OF sample_os_ok(1) this _ _ _ _ r r']
  have "shown r = Some (Max (req_key ` set sample_requests)) \<and> shown r' = shown r"
    by (simp add: sample_requests_def sample_disk_def insert_commute)
  moreover have "Max (req_key ` set sample_requests) = (970, True)" by (simp add: sample_requests_def max_def)
  ultimately show ?thesis using r r' by auto
qed

definition one_file :: "int option \<Rightarrow> hash_dir" where
  "one_file e = Files [(''960.data'', \<lparr>st_body = ''hello'', st_md = Inr (AList.update ''name'' ''/a/c/o'' sample_md), st_open_error = e\<rparr>)]"

lemma one_file_info:
  "infos (base_parse_filename (de_lib sample_df_env)) [''960.data''] = [put_info (960::nat) ''.data'' ''960.data'']"
  by code_simp

lemma one_file_chosen:
  obtains r where "get_ondisk_files (repl_ops (de_lib sample_df_env)) [''960.data''] ''/d'' True = Inr r" "r_data_file r = Some ''/d/960.data''"
proof -
  obtain r where r: "\<And>v. get_ondisk_files (repl_ops (de_lib sample_df_env)) [''960.data''] ''/d'' v = Inr r"
    and out: "repl_outcome (base_parse_filename (de_lib sample_df_env)) [''960.data''] r"
    by (rule repl_run [of "de_lib sample_df_env" "[''960.data'']" "''/d''"]) (rule that)
  have "sole_newest (put_info (960::nat) ''.data'' ''960.data'') (set (infos (base_parse_filename (de_lib sample_df_env)) [''960.data'']))"
    unfolding one_file_info sole_newest_def by simp
  then have "r_data_info r = Some (put_info (960::nat) ''.data'' ''960.data'')"
    by (rule newest_data(1) [OF out]) (simp add: put_info_def)
  then have "r_data_file r = Some ''/d/960.data''"
    using choose_paths(1) [OF r [of True]] by (simp add: put_info_def) code_simp
  with r that show thesis by blast
qed

theorem open_has_checked_witness:
  "\<exists>df' d' x. open_disk_file (repl_ops (de_lib sample_df_env)) sample_df_env sample_df (one_file None) (\<lambda>x. False) = (df', d', Inr ()) \<and>
     d' = one_file None \<and> map_of x ''name'' = Some ''/a/c/o'' \<and> df_metadata df' = Some x"
proof -
  have "\<exists>df'. open_disk_file (repl_ops (de_lib sample_df_env)) sample_df_env sample_df (one_file None) (\<lambda>x. False) = (df', one_file None, Inr ()) \<and>
      df_metadata df' = Some (AList.update ''name'' ''/a/c/o'' sample_md) \<and> df_datafile df' = Some (AList.update ''name'' ''/a/c/o'' sample_md) \<and>
      df_data_file df' = Some (join (df_datadir sample_df) (fi_filename (put_info (960::nat) ''.data'' ''960.data''))) \<and> df_fp df' \<and> df_content_length df' = Some 5"
    unfolding one_file_def
  proof (rule open_data)
    show "sole_newest (put_info (960::nat) ''.data'' ''960.data'') (set (infos (base_parse_filename (de_lib sample_df_env))
        (map fst [(''960.data'', \<lparr>st_body = ''hello'', st_md = Inr (AList.update ''name'' ''/a/c/o'' sample_md), st_open_error = None\<rparr>)])))"
      unfolding list.map fst_conv one_file_info sole_newest_def by simp
    have "py_int ''5'' = Some 5" by code_simp
    then show "verify_data_file df' (\<lambda>x. False) (AList.update ''name'' ''/a/c/o'' sample_md) (st_body \<lparr>st_body = ''hello'', st_md = Inr (AList.update ''name'' ''/a/c/o'' sample_md), st_open_error = None\<rparr>) = Inr 5"
      if "df_name df' = df_name sample_df" for df' :: "nat disk_file"
      using that by (simp add: verify_data_file_def sample_df_def sample_md_def)
  qed (simp_all add: put_info_def sample_df_def sample_md_def)
  then obtain df' where r: "open_disk_file (repl_ops (de_lib sample_df_env)) sample_df_env sample_df (one_file None) (\<lambda>x. False) = (df', one_file None, Inr ())"
    "df_fp df'" by blast
  have "\<not> df_fp sample_df" by (simp add: sample_df_def)
  moreover have "df_name sample_df = Some ''/a/c/o''" by (simp add: sample_df_def)
  ultimately show ?thesis using open_has_checked [OF r] r(1) by auto
qed

theorem open_forgets_errors_witness:
  "\<exists>df'. open_disk_file (repl_ops (de_lib sample_df_env)) sample_df_env sample_df (one_file (Some EIO)) (\<lambda>x. False) = (df', one_file (Some EIO), Inr ()) \<and>
     df_metadata df' = Some []"
proof (rule one_file_chosen)
  fix r assume r: "get_ondisk_files (repl_ops (de_lib sample_df_env)) [''960.data''] ''/d'' True = Inr r" "r_data_file r = Some ''/d/960.data''"
  have "basename ''/d/960.data'' = ''960.data''" by code_simp
  then have f: "file_at (one_file (Some EIO)) ''/d/960.data'' = Some \<lparr>st_body = ''hello'', st_md = Inr (AList.update ''name'' ''/a/c/o'' sample_md), st_open_error = Some EIO\<rparr>"
    by (simp add: file_at_def one_file_def)
  have d: "df_datadir sample_df = ''/d''" "df_metadata sample_df = None" by (simp_all add: sample_df_def)
  note open_forgets_errors [OF r(1) [folded d(1)] r(2) one_file_def _ f _ _ _ _ d(2), of EIO sample_df_env "\<lambda>x. False"]
  then show ?thesis by (simp add: errno_simps del: One_nat_def) blast
qed

theorem merge_keeps_system_metadata_witness:
  "map_of (AList.update ''ETag'' ''e'' [(''ETag'', ''forged''), (''X-Object-Meta-A'', ''1'')]) ''ETag'' = Some ''e''"
proof -
  have "merged_metadata sample_df_env sample_df [(''ETag'', ''e'')] [(''ETag'', ''forged''), (''X-Object-Meta-A'', ''1'')] =
      Inr (AList.update ''ETag'' ''e'' [(''ETag'', ''forged''), (''X-Object-Meta-A'', ''1'')])" by code_simp
  from merge_keeps_system_metadata [OF this, of "''ETag''"] show ?thesis by (simp add: lower_def reserved_keys_def)
qed

end
