(* ===== verification/Http.thy ===== *)
theory Http
  imports PyStrings
begin

text \<open>
  Requests and responses of the object server (\<^verbatim>\<open>swift_patches/obj/bs_server.py\<close>): header dictionaries,
  the responses its handlers return or raise, and sequencing of steps that change a state and may raise.
\<close>

section \<open>Headers\<close>

text \<open>
  Request headers and \<^verbatim>\<open>HeaderKeyDict\<close>s have title-case names: every run of letters starts with a capital.
\<close>

definition is_upper :: "char \<Rightarrow> bool" where
  "is_upper c \<longleftrightarrow> 65 \<le> (of_char c :: nat) \<and> (of_char c :: nat) \<le> 90"

definition is_lower :: "char \<Rightarrow> bool" where
  "is_lower c \<longleftrightarrow> 97 \<le> (of_char c :: nat) \<and> (of_char c :: nat) \<le> 122"

definition lower_char :: "char \<Rightarrow> char" where
  "lower_char c = (if is_upper c then char_of ((of_char c :: nat) + 32) else c)"

definition upper_char :: "char \<Rightarrow> char" where
  "upper_char c = (if is_lower c then char_of ((of_char c :: nat) - 32) else c)"

fun title_from :: "bool \<Rightarrow> string \<Rightarrow> string" where
  "title_from inside [] = []"
| "title_from inside (c # cs) =
     (if is_upper c \<or> is_lower c
      then (if inside then lower_char c else upper_char c) # title_from True cs
      else c # title_from False cs)"

definition title :: "string \<Rightarrow> string" where
  "title = title_from False"

type_synonym headers = "(string, string) dict"

definition hk_get :: "headers \<Rightarrow> string \<Rightarrow> string option" where
  "hk_get h k = map_of h (title k)"

definition hk_default :: "headers \<Rightarrow> string \<Rightarrow> string \<Rightarrow> string" where
  "hk_default h k v = (case hk_get h k of None \<Rightarrow> v | Some w \<Rightarrow> w)"

definition hk_set :: "headers \<Rightarrow> string \<Rightarrow> string \<Rightarrow> headers" where
  "hk_set h k v = AList.update (title k) v h"

text \<open>\<^verbatim>\<open>HeaderKeyDict\<close> drops a key that is set to \<^verbatim>\<open>None\<close>.\<close>

definition hk_put :: "headers \<Rightarrow> string \<Rightarrow> string option \<Rightarrow> headers" where
  "hk_put h k v = (case v of None \<Rightarrow> AList.delete (title k) h | Some w \<Rightarrow> hk_set h k w)"

definition hk_update :: "headers \<Rightarrow> (string, string) dict \<Rightarrow> headers" where
  "hk_update h items = fold (\<lambda>(k, v) h. hk_set h k v) items h"

lemma hk_get_set [simp]: "hk_get (hk_set h k v) k' = (if title k' = title k then Some v else hk_get h k')"
  by (simp add: hk_get_def hk_set_def)

text \<open>A header that is missing or empty counts as not given.\<close>

definition given :: "string option \<Rightarrow> string option" where
  "given v = (case v of Some (c # cs) \<Rightarrow> Some (c # cs) | _ \<Rightarrow> None)"

section \<open>String methods\<close>

definition starts_with :: "string \<Rightarrow> string \<Rightarrow> bool" where
  "starts_with p s \<longleftrightarrow> take (length p) s = p"

text \<open>\<^verbatim>\<open>s.replace(p, r)\<close> for a nonempty \<^verbatim>\<open>p\<close>\<close>

function replace_all :: "string \<Rightarrow> string \<Rightarrow> string \<Rightarrow> string" where
  "replace_all p r [] = []"
| "replace_all p r (c # cs) =
     (if p \<noteq> [] \<and> starts_with p (c # cs) then r @ replace_all p r (drop (length p) (c # cs))
      else c # replace_all p r cs)"
  by pat_completeness auto
termination by (relation "measure (\<lambda>(p, r, s). length s)") (auto simp: neq_Nil_conv)

text \<open>\<^verbatim>\<open>s.split()\<close>: the words between white space\<close>

fun words_from :: "string \<Rightarrow> string \<Rightarrow> string list" where
  "words_from w [] = (if w = [] then [] else [w])"
| "words_from w (c # cs) =
     (if py_space c then (if w = [] then [] else [w]) @ words_from [] cs else words_from (w @ [c]) cs)"

definition words :: "string \<Rightarrow> string list" where
  "words = words_from []"

text \<open>\<^verbatim>\<open>s.rsplit(':', 1)\<close>, or \<open>None\<close> without a colon\<close>

definition host_port :: "string \<Rightarrow> (string \<times> string) option" where
  "host_port s =
     (let r = rev s; port = takeWhile (\<lambda>c. c \<noteq> CHR '':'') r
      in if length port = length r then None else Some (rev (drop (length port + 1) r), rev port))"

section \<open>Responses and exceptions\<close>

record response =
  rs_status :: nat
  rs_headers :: headers
  rs_body :: string

definition reply :: "nat \<Rightarrow> response" where
  "reply st = \<lparr>rs_status = st, rs_headers = [], rs_body = []\<rparr>"

definition reply_with :: "nat \<Rightarrow> headers \<Rightarrow> response" where
  "reply_with st h = \<lparr>rs_status = st, rs_headers = h, rs_body = []\<rparr>"

text \<open>What a handler may raise: an exception of the disk file, a response, or an error of the input.\<close>

datatype raised =
    Py pyexc
  | Http response
  | ChunkReadError
  | ChunkReadTimeout
  | StopIteration
  | OtherError

text \<open>Sequencing with a state: stop at the first exception, keeping the state it left.\<close>

fun and_then :: "'s \<times> (raised + 'a) \<Rightarrow> ('s \<Rightarrow> 'a \<Rightarrow> 's \<times> (raised + 'b)) \<Rightarrow> 's \<times> (raised + 'b)" where
  "and_then (s, Inl e) f = (s, Inl e)"
| "and_then (s, Inr a) f = f s a"

lemma and_then_Inr: "and_then r f = (s', Inr b) \<longleftrightarrow> (\<exists>s a. r = (s, Inr a) \<and> f s a = (s', Inr b))"
  by (cases "(r, f)" rule: and_then.cases) auto

definition py :: "pyexc + 'a \<Rightarrow> raised + 'a" where
  "py r = map_sum Py id r"

lemma py_simps [simp]: "py (Inl e) = Inl (Py e)" "py (Inr a) = Inr a"
  by (simp_all add: py_def)

end
