(* ===== verification/Updates.thy ===== *)
theory Updates
  imports DiskFile Http
begin

text \<open>
  The updates an object server sends to container servers (\<^verbatim>\<open>swift_patches/obj/bs_server.py\<close>): every
  change of an object is reported to the replicas of its container, and its expiry to the expirer's
  queue; an update that is not accepted is saved in \<^verbatim>\<open>async_pending\<close> for the updater.
\<close>

section \<open>What is sent and saved\<close>

record sent =
  sn_host :: string
  sn_port :: string
  sn_device :: string
  sn_partition :: string
  sn_op :: string
  sn_path :: string
  sn_headers :: headers

record pending =
  pe_file :: string
  pe_op :: string
  pe_account :: string
  pe_container :: string
  pe_obj :: string
  pe_headers :: headers
  pe_db_state :: "string option"
  pe_container_path :: "string option"

text \<open>
  The answer of a container server: none (refused, timed out), a status, or a 301 with the path of its
  location, if it has a valid one.
\<close>

datatype creply = NoReply | Status nat | Moved "string option"

datatype event = Sent sent creply | Saved pending

text \<open>A time an object expires at: a number, a header's text, or a timestamp.\<close>

datatype 't at = AtInt int | AtText string | AtTime 't

text \<open>
  The surroundings: container servers, the disk of \<^verbatim>\<open>async_pending\<close>, and functions of Swift's library:
  \<^verbatim>\<open>hash_path\<close>, whether \<^verbatim>\<open>split_path('/' + path, 2, 2)\<close> accepts a path, \<^verbatim>\<open>unquote\<close>,
  \<^verbatim>\<open>config_true_value\<close>, \<^verbatim>\<open>normalize_delete_at_timestamp\<close>, \<^verbatim>\<open>get_expirer_account_and_container\<close>,
  \<^verbatim>\<open>build_task_obj\<close>, \<^verbatim>\<open>X_DELETE_TYPE\<close> and \<^verbatim>\<open>embed_expirer_bytes_in_ctype\<close> of it.
\<close>

record 't update_env =
  ue_lib :: "'t ts_lib"
  ue_agent :: string
  ue_reply :: "sent \<Rightarrow> creply"
  ue_save :: "pending \<Rightarrow> pyexc option"
  ue_hash_path :: "string \<Rightarrow> string \<Rightarrow> string \<Rightarrow> string"
  ue_valid_path :: "string \<Rightarrow> bool"
  ue_unquote :: "string \<Rightarrow> string"
  ue_true :: "string \<Rightarrow> bool"
  ue_normalize :: "'t at \<Rightarrow> pyexc + string"
  ue_expirer :: "string \<Rightarrow> string \<Rightarrow> string \<Rightarrow> string \<Rightarrow> string \<times> string"
  ue_task :: "string \<Rightarrow> string \<Rightarrow> string \<Rightarrow> string \<Rightarrow> string"
  ue_delete_type :: string
  ue_bytes_ctype :: "metadata \<Rightarrow> string"

text \<open>The parts of a request's path, and of a request what updates read.\<close>

record placement =
  pl_device :: string
  pl_partition :: string
  pl_account :: string
  pl_container :: string
  pl_obj :: string
  pl_policy :: int

record request =
  rq_method :: string
  rq_headers :: headers
  rq_referer :: string

section \<open>One update\<close>

definition pending_file :: "(string \<Rightarrow> string \<Rightarrow> string \<Rightarrow> string) \<Rightarrow> string \<Rightarrow> string \<Rightarrow> string \<Rightarrow> string \<Rightarrow> string" where
  "pending_file hash account container obj ts =
     (let ohash = hash account container obj
      in drop (length ohash - 3) ohash @ slash # ohash @ CHR ''-'' # ts)"

definition pickle_async_update ::
  "'t update_env \<Rightarrow> string option \<Rightarrow> pending \<Rightarrow> event list \<Rightarrow> event list \<times> (raised + unit)" where
  "pickle_async_update env timestamp p evs =
     (case timestamp_of (ue_lib env) timestamp of
        Inl e \<Rightarrow> (evs, Inl (Py e))
      | Inr t \<Rightarrow>
          (let p = p\<lparr>pe_file := pending_file (ue_hash_path env) (pe_account p) (pe_container p) (pe_obj p)
                                 (ts_internal (ue_lib env) t)\<rparr>
           in case ue_save env p of
                Some e \<Rightarrow> (evs, Inl (Py e))
              | None \<Rightarrow> (evs @ [Saved p], Inr ())))"

definition is_success :: "nat \<Rightarrow> bool" where
  "is_success st \<longleftrightarrow> 200 \<le> st \<and> st \<le> 299"

text \<open>Whether a reply settles the update, and where it redirects to.\<close>

definition accepted :: "creply \<Rightarrow> bool" where
  "accepted r = (case r of Status st \<Rightarrow> is_success st | _ \<Rightarrow> False)"

definition redirect :: "creply \<Rightarrow> string option" where
  "redirect r = (case r of Moved p \<Rightarrow> p | _ \<Rightarrow> None)"

definition update_time :: "headers \<Rightarrow> string option" where
  "update_time h =
     (case hk_get h ''x-meta-timestamp'' of Some t \<Rightarrow> Some t | None \<Rightarrow> hk_get h ''x-timestamp'')"

text \<open>
  \<^verbatim>\<open>async_update\<close>.  The handler of errors logs \<^verbatim>\<open>ip\<close> and \<^verbatim>\<open>port\<close>, which are unbound when the host has no
  colon: then the handler itself raises.
\<close>

definition async_update ::
  "'t update_env \<Rightarrow> string \<Rightarrow> string \<Rightarrow> string \<Rightarrow> string \<Rightarrow> string option \<Rightarrow> string option \<Rightarrow> string option \<Rightarrow> headers
     \<Rightarrow> string option \<Rightarrow> string option \<Rightarrow> event list \<Rightarrow> event list \<times> (raised + unit)" where
  "async_update env op account container obj host contpart contdevice headers_out container_path db_state evs =
     (let headers_out = hk_set headers_out ''user-agent'' (ue_agent env);
          full_path = (case given container_path of
                         Some p \<Rightarrow> slash # p @ slash # obj
                       | None \<Rightarrow> slash # account @ slash # container @ slash # obj);
          save = (\<lambda>container_path. pickle_async_update env (update_time headers_out)
                    \<lparr>pe_file = [], pe_op = op, pe_account = account, pe_container = container, pe_obj = obj,
                     pe_headers = headers_out, pe_db_state = db_state, pe_container_path = given container_path\<rparr>)
      in case (given host, given contpart, given contdevice) of
           (Some h, Some p, Some d) \<Rightarrow>
             (case host_port h of
                None \<Rightarrow> (evs, Inl (Py UnboundLocalError))
              | Some (ip, port) \<Rightarrow>
                  (let s = \<lparr>sn_host = ip, sn_port = port, sn_device = d, sn_partition = p, sn_op = op,
                            sn_path = full_path, sn_headers = headers_out\<rparr>;
                       r = ue_reply env s;
                       evs = evs @ [Sent s r]
                   in if accepted r then (evs, Inr ())
                      else save (case redirect r of Some p \<Rightarrow> Some p | None \<Rightarrow> container_path) evs))
         | _ \<Rightarrow> save container_path evs)"

section \<open>Updates of the container\<close>

text \<open>
  The green threads of the updates run to their ends whatever the others do; waiting for them raises the
  first error, in the order of the hosts.  (When the wait times out the server answers without waiting
  for the rest, which changes nothing in what is sent and saved.)
\<close>

fun run_all :: "(event list \<Rightarrow> event list \<times> (raised + unit)) list \<Rightarrow> event list \<Rightarrow> event list \<times> (raised + unit)" where
  "run_all [] evs = (evs, Inr ())"
| "run_all (f # fs) evs =
     (let (evs, r) = f evs; (evs, r') = run_all fs evs in (evs, case r of Inl e \<Rightarrow> Inl e | Inr u \<Rightarrow> r'))"

definition comma_list :: "string \<Rightarrow> string list" where
  "comma_list s = map strip (split_on (CHR '','') s)"

definition container_path_of :: "'t update_env \<Rightarrow> headers \<Rightarrow> string option" where
  "container_path_of env h =
     (let contpath = (case given (hk_get h ''X-Backend-Quoted-Container-Path'') of
                        Some q \<Rightarrow> Some (ue_unquote env q)
                      | None \<Rightarrow> hk_get h ''X-Backend-Container-Path'')
      in case given contpath of
           None \<Rightarrow> contpath
         | Some p \<Rightarrow> if ue_valid_path env p then Some p else None)"

definition container_update ::
  "'t update_env \<Rightarrow> string \<Rightarrow> placement \<Rightarrow> request \<Rightarrow> headers \<Rightarrow> event list \<Rightarrow> event list \<times> (raised + unit)" where
  "container_update env op pl rq headers_out evs =
     (let h = rq_headers rq;
          conthosts = comma_list (hk_default h ''X-Container-Host'' []);
          contdevices = comma_list (hk_default h ''X-Container-Device'' []);
          contpartition = hk_default h ''X-Container-Partition'' []
      in if length conthosts \<noteq> length contdevices then (evs, Inr ())
         else (let contpath = container_path_of env h;
                   updates = (if contpartition = [] then [] else zip conthosts contdevices);
                   headers_out = hk_set (hk_set (hk_set headers_out
                     ''x-trans-id'' (hk_default h ''x-trans-id'' ''-''))
                     ''referer'' (rq_referer rq))
                     ''X-Backend-Storage-Policy-Index'' (str_int (pl_policy pl))
               in run_all (map (\<lambda>(host, device). async_update env op (pl_account pl) (pl_container pl) (pl_obj pl)
                     (Some host) (Some contpartition) (Some device) headers_out contpath
                     (hk_get h ''X-Container-Root-Db-State'')) updates) evs))"

text \<open>Overrides of the update's headers: of two namespaces, and of headers and footers in each.\<close>

definition override_prefixes :: "string list" where
  "override_prefixes = [''x-backend-container-update-override-'', ''x-object-sysmeta-container-update-override-'']"

definition overrides :: "string \<Rightarrow> (string, string) dict \<Rightarrow> (string, string) dict" where
  "overrides p d = map (\<lambda>(k, v). (replace_all p ''x-'' (lower k), v)) (filter (\<lambda>(k, v). starts_with p (lower k)) d)"

definition check_container_override ::
  "headers \<Rightarrow> (string, string) dict \<Rightarrow> (string, string) dict \<Rightarrow> headers" where
  "check_container_override update_headers metadata footers =
     fold (\<lambda>p h. hk_update (hk_update h (overrides p metadata)) (overrides p footers)) override_prefixes update_headers"

section \<open>Updates of the expirer's queue\<close>

text \<open>A loop over updates that stops at the first error.\<close>

fun run_seq :: "(event list \<Rightarrow> event list \<times> (raised + unit)) list \<Rightarrow> event list \<Rightarrow> event list \<times> (raised + unit)" where
  "run_seq [] evs = (evs, Inr ())"
| "run_seq (f # fs) evs = and_then (f evs) (\<lambda>evs u. run_seq fs evs)"

definition delete_at_container :: "'t update_env \<Rightarrow> headers \<Rightarrow> string \<Rightarrow> pyexc + string" where
  "delete_at_container env h expected =
     (case hk_get h ''X-Delete-At-Container'' of
        None \<Rightarrow> ue_normalize env (AtText expected)
      | Some c \<Rightarrow> if c = expected then Inr expected
                  else if c = [] then ue_normalize env (AtText expected) else ue_normalize env (AtText c))"

definition delete_at_targets :: "headers \<Rightarrow> string \<Rightarrow> (string option \<times> string option) list" where
  "delete_at_targets h hosts =
     (let us = filter (\<lambda>(a, b). a \<noteq> [] \<and> b \<noteq> [] \<and> given (hk_get h ''X-Delete-At-Partition'') \<noteq> None)
                 (zip (comma_list hosts) (comma_list (hk_default h ''X-Delete-At-Device'' [])))
      in if us = [] then [(None, None)] else map (\<lambda>(a, b). (Some a, Some b)) us)"

definition delete_at_update ::
  "'t update_env \<Rightarrow> string \<Rightarrow> 't at \<Rightarrow> placement \<Rightarrow> request \<Rightarrow> 't \<Rightarrow> (string \<times> string option) list
     \<Rightarrow> event list \<Rightarrow> event list \<times> (raised + unit)" where
  "delete_at_update env op delete_at pl rq timestamp extra_headers evs =
     (let h = rq_headers rq
      in if ue_true env (hk_default h ''x-backend-replication'' ''f'') then (evs, Inr ())
         else case ue_normalize env delete_at of
           Inl e \<Rightarrow> (evs, Inl (Py e))
         | Inr at \<Rightarrow>
             (let headers_out = hk_update [] [(''X-Backend-Storage-Policy-Index'', ''0''),
                    (''x-timestamp'', ts_internal (ue_lib env) timestamp),
                    (''x-trans-id'', hk_default h ''x-trans-id'' ''-''), (''referer'', rq_referer rq)];
                  (account, container) = ue_expirer env at (pl_account pl) (pl_container pl) (pl_obj pl);
                  task = ue_task env at (pl_account pl) (pl_container pl) (pl_obj pl)
              in if op \<noteq> ''DELETE''
                 then (case hk_get h ''X-Delete-At-Host'' of
                         None \<Rightarrow> (evs, Inr ())
                       | Some hosts \<Rightarrow>
                           (case delete_at_container env h container of
                              Inl e \<Rightarrow> (evs, Inl (Py e))
                            | Inr container \<Rightarrow>
                                (let headers_out = hk_update headers_out [(''x-size'', ''0''),
                                       (''x-content-type'', ue_delete_type env),
                                       (''x-etag'', ''d41d8cd98f00b204e9800998ecf8427e'')];
                                     headers_out = fold (\<lambda>(k, v) h. hk_put h k v) extra_headers headers_out
                                 in run_seq (map (\<lambda>(host, device). async_update env op account container task host
                                      (hk_get h ''X-Delete-At-Partition'') device headers_out None None)
                                      (delete_at_targets h hosts)) evs)))
                 else if \<not> ue_true env (hk_default h ''X-Backend-Clean-Expiring-Object-Queue'' ''t'') then (evs, Inr ())
                 else async_update env op account container task None None None headers_out None None evs))"

text \<open>The old and the new expiry of an object; \<open>None\<close> and 0 stand for none.\<close>

definition conditional_delete_at_update ::
  "'t update_env \<Rightarrow> placement \<Rightarrow> request \<Rightarrow> 't \<Rightarrow> metadata \<Rightarrow> 't at option \<Rightarrow> int
     \<Rightarrow> event list \<Rightarrow> event list \<times> (raised + unit)" where
  "conditional_delete_at_update env pl rq timestamp metadata orig_delete_at new_delete_at evs =
     and_then
       (if new_delete_at = 0 then (evs, Inr ())
        else delete_at_update env ''PUT'' (AtInt new_delete_at) pl rq timestamp
               [(''x-content-type'', Some (ue_bytes_ctype env metadata)),
                (''x-content-type-timestamp'', map_of metadata ''X-Timestamp'')] evs)
       (\<lambda>evs u. case orig_delete_at of
          None \<Rightarrow> (evs, Inr ())
        | Some at \<Rightarrow> if at = AtInt new_delete_at then (evs, Inr ())
                     else delete_at_update env ''DELETE'' at pl rq timestamp [] evs)"

section \<open>No update is lost\<close>

text \<open>
  What has to happen for one container server, named by \<^verbatim>\<open>ip:port\<close> and a device: the update of the object, with the
  request's headers, goes to it, at the path of the object in the container (or at the container path that the proxy
  gives); unless a status of 200 to 299 comes back, or when the server or its device is not named, the update is saved
  for the updater, with the path the reply redirects to, if any.
\<close>

definition same_headers :: "headers \<Rightarrow> headers \<Rightarrow> bool" where
  "same_headers h h' \<longleftrightarrow> (\<forall>k. title k \<notin> {''User-Agent'', ''X-Trans-Id'', ''Referer'', ''X-Backend-Storage-Policy-Index''} \<longrightarrow>
     hk_get h' k = hk_get h k)"

definition update_of_object :: "string \<Rightarrow> placement \<Rightarrow> string option \<Rightarrow> headers \<Rightarrow> string \<Rightarrow> string \<Rightarrow> string \<Rightarrow> sent \<Rightarrow> bool" where
  "update_of_object op pl path headers part host device s \<longleftrightarrow>
     sn_host s @ CHR '':'' # sn_port s = host \<and> CHR '':'' \<notin> set (sn_port s) \<and> sn_device s = device \<and> sn_partition s = part \<and>
     sn_op s = op \<and> same_headers headers (sn_headers s) \<and>
     sn_path s = (if path = None \<or> path = Some [] then slash # pl_account pl @ slash # pl_container pl @ slash # pl_obj pl
                  else slash # the path @ slash # pl_obj pl)"

definition saved_for_updater :: "string \<Rightarrow> placement \<Rightarrow> string option \<Rightarrow> headers \<Rightarrow> string option \<Rightarrow> pending \<Rightarrow> bool" where
  "saved_for_updater op pl path headers db_state p \<longleftrightarrow>
     pe_op p = op \<and> pe_account p = pl_account pl \<and> pe_container p = pl_container pl \<and> pe_obj p = pl_obj pl \<and>
     same_headers headers (pe_headers p) \<and> pe_db_state p = db_state \<and>
     pe_container_path p = (if path = Some [] then None else path)"

definition update_settled ::
  "(sent \<Rightarrow> creply) \<Rightarrow> string \<Rightarrow> placement \<Rightarrow> string option \<Rightarrow> headers \<Rightarrow> string \<Rightarrow> string option
     \<Rightarrow> string \<Rightarrow> string \<Rightarrow> event list \<Rightarrow> bool" where
  "update_settled answer op pl path headers part db_state host device evs \<longleftrightarrow>
     (if host = [] \<or> device = []
      then \<exists>p. evs = [Saved p] \<and> saved_for_updater op pl path headers db_state p
      else \<exists>s. update_of_object op pl path headers part host device s \<and>
             (if (case answer s of Status st \<Rightarrow> 200 \<le> st \<and> st < 300 | _ \<Rightarrow> False) then evs = [Sent s (answer s)]
              else (\<exists>p. evs = [Sent s (answer s), Saved p] \<and>
                 saved_for_updater op pl (case answer s of Moved (Some q) \<Rightarrow> Some q | _ \<Rightarrow> path) headers db_state p)))"

text \<open>The pending file can be written, and the update has a valid time.\<close>

definition can_save :: "'t update_env \<Rightarrow> headers \<Rightarrow> bool" where
  "can_save env h \<longleftrightarrow> (\<forall>p. ue_save env p = None) \<and> (\<exists>t. timestamp_of (ue_lib env) (update_time h) = Inr t)"

lemma update_time_set:
  assumes "title k \<noteq> ''X-Meta-Timestamp''" and "title k \<noteq> ''X-Timestamp''"
  shows "update_time (hk_set h k v) = update_time h"
proof -
  have "title ''x-meta-timestamp'' = ''X-Meta-Timestamp''" "title ''x-timestamp'' = ''X-Timestamp''" by code_simp+
  with assms have "title ''x-meta-timestamp'' \<noteq> title k" "title ''x-timestamp'' \<noteq> title k" by metis+
  then have "hk_get (hk_set h k v) ''x-meta-timestamp'' = hk_get h ''x-meta-timestamp''"
    "hk_get (hk_set h k v) ''x-timestamp'' = hk_get h ''x-timestamp''" by simp_all
  then show ?thesis by (simp only: update_time_def)
qed

lemma update_time_sets [simp]:
  "update_time (hk_set h ''user-agent'' v) = update_time h"
  "update_time (hk_set h ''x-trans-id'' v) = update_time h"
  "update_time (hk_set h ''referer'' v) = update_time h"
  "update_time (hk_set h ''X-Backend-Storage-Policy-Index'' v) = update_time h"
proof -
  have "title ''user-agent'' = ''User-Agent''" "title ''x-trans-id'' = ''X-Trans-Id''" "title ''referer'' = ''Referer''"
    "title ''X-Backend-Storage-Policy-Index'' = ''X-Backend-Storage-Policy-Index''" by code_simp+
  then show "update_time (hk_set h ''user-agent'' v) = update_time h"
    "update_time (hk_set h ''x-trans-id'' v) = update_time h"
    "update_time (hk_set h ''referer'' v) = update_time h"
    "update_time (hk_set h ''X-Backend-Storage-Policy-Index'' v) = update_time h"
    by (simp_all add: update_time_set)
qed

lemma pickle_saves:
  assumes "timestamp_of (ue_lib env) ts = Inr t" and "\<And>p. ue_save env p = None"
  shows "\<exists>f. pickle_async_update env ts p evs = (evs @ [Saved (p\<lparr>pe_file := f\<rparr>)], Inr ())"
  using assms by (auto simp: pickle_async_update_def Let_def)

definition has_port :: "string option \<Rightarrow> bool" where
  "has_port host \<longleftrightarrow> (case given host of None \<Rightarrow> True | Some h \<Rightarrow> host_port h \<noteq> None)"

lemma host_port_spec:
  assumes "host_port h = Some (ip, port)"
  shows "ip @ CHR '':'' # port = h" and "CHR '':'' \<notin> set port"
proof -
  let ?r = "rev h" and ?t = "takeWhile (\<lambda>c. c \<noteq> CHR '':'') (rev h)"
  have l: "length ?t \<noteq> length ?r" and ip: "ip = rev (drop (length ?t + 1) ?r)" and port: "port = rev ?t"
    using assms by (simp_all add: host_port_def Let_def split: if_splits)
  have "length ?t < length ?r" using l length_takeWhile_le [of "\<lambda>c. c \<noteq> CHR '':''" ?r] by simp
  then have c: "?r ! length ?t = CHR '':''" using nth_length_takeWhile by fastforce
  have "?r = ?t @ ?r ! length ?t # drop (Suc (length ?t)) ?r"
    using \<open>length ?t < length ?r\<close> by (metis Cons_nth_drop_Suc append_take_drop_id takeWhile_eq_take)
  then have "h = rev (?t @ CHR '':'' # drop (Suc (length ?t)) ?r)" unfolding c by (metis rev_rev_ident)
  then show "ip @ CHR '':'' # port = h" unfolding ip port by simp
  show "CHR '':'' \<notin> set port" unfolding port by (auto dest: set_takeWhileD)
qed

lemma same_headers_refl [simp]: "same_headers h h"
  by (simp add: same_headers_def)

lemma same_headers_sets:
  "same_headers h h' \<Longrightarrow> same_headers h (hk_set h' ''user-agent'' v)"
  "same_headers h h' \<Longrightarrow> same_headers h (hk_set h' ''x-trans-id'' v)"
  "same_headers h h' \<Longrightarrow> same_headers h (hk_set h' ''referer'' v)"
  "same_headers h h' \<Longrightarrow> same_headers h (hk_set h' ''X-Backend-Storage-Policy-Index'' v)"
proof -
  have "title ''user-agent'' = ''User-Agent''" "title ''x-trans-id'' = ''X-Trans-Id''" "title ''referer'' = ''Referer''"
    "title ''X-Backend-Storage-Policy-Index'' = ''X-Backend-Storage-Policy-Index''" by code_simp+
  then show "same_headers h h' \<Longrightarrow> same_headers h (hk_set h' ''user-agent'' v)"
    "same_headers h h' \<Longrightarrow> same_headers h (hk_set h' ''x-trans-id'' v)"
    "same_headers h h' \<Longrightarrow> same_headers h (hk_set h' ''referer'' v)"
    "same_headers h h' \<Longrightarrow> same_headers h (hk_set h' ''X-Backend-Storage-Policy-Index'' v)"
    by (simp_all add: same_headers_def)
qed

lemma given_alt: "given v = (if v = None \<or> v = Some [] then None else v)"
  by (auto simp: given_def split: option.split list.split)

lemma async_update_settles:
  assumes "can_save env h" and "has_port (Some host)" and "part \<noteq> []" and "same_headers headers h"
  shows "\<exists>new. async_update env op (pl_account pl) (pl_container pl) (pl_obj pl) (Some host) (Some part) (Some device) h path db evs =
      (evs @ new, Inr ()) \<and> update_settled (ue_reply env) op pl path headers part db host device new"
proof -
  from assms(1) obtain t where t: "timestamp_of (ue_lib env) (update_time h) = Inr t" and s: "\<And>p. ue_save env p = None"
    by (auto simp: can_save_def)
  let ?h = "hk_set h ''user-agent'' (ue_agent env)"
  let ?p = "\<lambda>q. \<lparr>pe_file = [], pe_op = op, pe_account = pl_account pl, pe_container = pl_container pl, pe_obj = pl_obj pl,
        pe_headers = ?h, pe_db_state = db, pe_container_path = given q\<rparr>"
  have hs: "same_headers headers ?h" using assms(4) by (rule same_headers_sets)
  have *: "\<exists>p. pickle_async_update env (update_time h) (?p q) evs = (evs @ [Saved p], Inr ()) \<and>
      saved_for_updater op pl q headers db p" for q evs
    using pickle_saves [OF t s, of "?p q" evs] hs by (auto simp: saved_for_updater_def given_alt)
  show ?thesis
  proof (cases "host = [] \<or> device = []")
    case True
    then have "async_update env op (pl_account pl) (pl_container pl) (pl_obj pl) (Some host) (Some part) (Some device) h path db evs =
        pickle_async_update env (update_time h) (?p path) evs"
      by (auto simp: async_update_def Let_def given_alt split: option.split)
    with * [of path evs] True show ?thesis by (auto simp: update_settled_def)
  next
    case False
    then have g: "given (Some host) = Some host" "given (Some part) = Some part" "given (Some device) = Some device"
      using assms(3) by (simp_all add: given_alt)
    then obtain ip port where hp: "host_port host = Some (ip, port)" using assms(2) by (auto simp: has_port_def)
    let ?path = "case given path of Some p \<Rightarrow> slash # p @ slash # pl_obj pl
      | None \<Rightarrow> slash # pl_account pl @ slash # pl_container pl @ slash # pl_obj pl"
    let ?s = "\<lparr>sn_host = ip, sn_port = port, sn_device = device, sn_partition = part, sn_op = op, sn_path = ?path, sn_headers = ?h\<rparr>"
    have u: "update_of_object op pl path headers part host device ?s"
      using host_port_spec [OF hp] hs by (auto simp: update_of_object_def given_alt)
    have ac: "accepted (ue_reply env ?s) \<longleftrightarrow> (case ue_reply env ?s of Status st \<Rightarrow> 200 \<le> st \<and> st < 300 | _ \<Rightarrow> False)"
      by (auto simp: accepted_def is_success_def split: creply.splits)
    show ?thesis
    proof (cases "accepted (ue_reply env ?s)")
      case True
      then have "async_update env op (pl_account pl) (pl_container pl) (pl_obj pl) (Some host) (Some part) (Some device) h path db evs =
          (evs @ [Sent ?s (ue_reply env ?s)], Inr ())"
        by (simp add: async_update_def Let_def g hp)
      moreover have "update_settled (ue_reply env) op pl path headers part db host device [Sent ?s (ue_reply env ?s)]"
        unfolding update_settled_def using u True ac False by (auto intro!: exI [of _ ?s])
      ultimately show ?thesis by blast
    next
      case no: False
      let ?q = "case redirect (ue_reply env ?s) of Some q \<Rightarrow> Some q | None \<Rightarrow> path"
      have q: "?q = (case ue_reply env ?s of Moved (Some q) \<Rightarrow> Some q | _ \<Rightarrow> path)"
        by (simp add: redirect_def split: creply.split option.split)
      obtain p where p: "pickle_async_update env (update_time h) (?p ?q) (evs @ [Sent ?s (ue_reply env ?s)]) =
          ((evs @ [Sent ?s (ue_reply env ?s)]) @ [Saved p], Inr ())" "saved_for_updater op pl ?q headers db p"
        using * by blast
      have "async_update env op (pl_account pl) (pl_container pl) (pl_obj pl) (Some host) (Some part) (Some device) h path db evs =
          (evs @ [Sent ?s (ue_reply env ?s), Saved p], Inr ())"
        using p(1) no by (simp add: async_update_def Let_def g hp)
      moreover have "update_settled (ue_reply env) op pl path headers part db host device [Sent ?s (ue_reply env ?s), Saved p]"
        unfolding update_settled_def using u no ac False p(2) [unfolded q] by (auto intro!: exI [of _ ?s])
      ultimately show ?thesis by blast
    qed
  qed
qed

lemma run_all_settles:
  assumes "list_all2 (\<lambda>x f. \<forall>evs. \<exists>new. f evs = (evs @ new, Inr ()) \<and> P x new) xs fs"
  shows "\<exists>news. run_all fs evs = (evs @ concat news, Inr ()) \<and> list_all2 P xs news"
  using assms
proof (induction arbitrary: evs rule: list_all2_induct)
  case Nil
  then show ?case by (intro exI [of _ "[]"]) simp
next
  case (Cons x xs f fs)
  obtain new where new: "f evs = (evs @ new, Inr ())" "P x new" using Cons.hyps(1) by blast
  obtain news where "run_all fs (evs @ new) = ((evs @ new) @ concat news, Inr ())" "list_all2 P xs news"
    using Cons.IH [of "evs @ new"] by blast
  then show ?case using new by (intro exI [of _ "new # news"]) simp
qed

text \<open>C8: no update of the container is lost.  With as many devices as hosts in the request, the update of the object
  is sent to each of the hosts for its device, at the object's path in the container, with the operation and the
  headers of the update; each update that its server does not accept is saved in \<^verbatim>\<open>async_pending\<close>.  Nothing else is
  sent or saved, and nothing is raised, whatever the servers answer.\<close>

theorem container_updates_settled:
  assumes "hk_default (rq_headers rq) ''X-Container-Partition'' [] = part" and "part \<noteq> []"
    and "comma_list (hk_default (rq_headers rq) ''X-Container-Host'' []) = hosts"
    and "comma_list (hk_default (rq_headers rq) ''X-Container-Device'' []) = devices" and "length devices = length hosts"
    and "\<forall>h \<in> set hosts. has_port (Some h)" and "can_save env headers"
  shows "\<exists>news. container_update env op pl rq headers evs = (evs @ concat news, Inr ()) \<and>
    list_all2 (\<lambda>(host, device). update_settled (ue_reply env) op pl (container_path_of env (rq_headers rq)) headers part
      (hk_get (rq_headers rq) ''X-Container-Root-Db-State'') host device) (zip hosts devices) news"
proof -
  let ?h = "hk_set (hk_set (hk_set headers ''x-trans-id'' (hk_default (rq_headers rq) ''x-trans-id'' ''-''))
      ''referer'' (rq_referer rq)) ''X-Backend-Storage-Policy-Index'' (str_int (pl_policy pl))"
  let ?path = "container_path_of env (rq_headers rq)" and ?db = "hk_get (rq_headers rq) ''X-Container-Root-Db-State''"
  let ?f = "\<lambda>(host, device). async_update env op (pl_account pl) (pl_container pl) (pl_obj pl)
      (Some host) (Some part) (Some device) ?h ?path ?db"
  let ?P = "\<lambda>(host, device). update_settled (ue_reply env) op pl ?path headers part ?db host device"
  have cs: "can_save env ?h" using assms(7) by (simp add: can_save_def)
  have hs: "same_headers headers ?h" by (intro same_headers_sets same_headers_refl)
  have "list_all2 (\<lambda>x f. \<forall>evs. \<exists>new. f evs = (evs @ new, Inr ()) \<and> ?P x new) (zip hosts devices) (map ?f (zip hosts devices))"
    unfolding list_all2_map2
  proof (rule list_all2_all_nthI, rule refl)
    fix n assume n: "n < length (zip hosts devices)"
    obtain h d where x: "zip hosts devices ! n = (h, d)" by (cases "zip hosts devices ! n")
    then have "has_port (Some h)" using n assms(6) by (metis nth_mem set_zip_leftD)
    from async_update_settles [OF cs this assms(2) hs]
    show "\<forall>evs. \<exists>new. ?f (zip hosts devices ! n) evs = (evs @ new, Inr ()) \<and> ?P (zip hosts devices ! n) new"
      unfolding x prod.case by blast
  qed
  from run_all_settles [OF this, of evs] show ?thesis
    using assms(1-5) by (simp add: container_update_def Let_def)
qed

text \<open>a container host without a port in the request loses the update: the handler of errors raises, so nothing is
  sent and nothing is saved for it.\<close>

theorem host_without_port_loses_update:
  assumes "given host = Some h" and "given contpart \<noteq> None" and "given dev \<noteq> None" and "host_port h = None"
  shows "async_update env op account container obj host contpart dev headers path db evs = (evs, Inl (Py UnboundLocalError))"
  using assms by (auto simp: async_update_def Let_def)

section \<open>Overrides\<close>

text \<open>The value that a list of settings gives to a header: that of the last one.\<close>

definition last_set :: "(string, string) dict \<Rightarrow> string \<Rightarrow> string option" where
  "last_set items k = map_of (rev (map (\<lambda>(n, v). (title n, v)) items)) (title k)"

lemma hk_get_update:
  "hk_get (hk_update h items) k = (case last_set items k of Some v \<Rightarrow> Some v | None \<Rightarrow> hk_get h k)"
proof (induction items arbitrary: h)
  case Nil
  then show ?case by (simp add: hk_update_def last_set_def)
next
  case (Cons x items)
  obtain n v where x: "x = (n, v)" by (cases x)
  have "hk_update h (x # items) = hk_update (hk_set h n v) items" by (simp add: hk_update_def x)
  then show ?case
    by (auto simp: Cons.IH last_set_def x map_add_def split: option.split)
qed

fun first_some :: "'a option list \<Rightarrow> 'a option" where
  "first_some [] = None"
| "first_some (None # xs) = first_some xs"
| "first_some (Some x # xs) = Some x"

text \<open>Overrides of a container update: the sysmeta namespace comes before the backend one, in each the footers come
  before the request's headers, and a header that none of them names keeps its value.\<close>

theorem override_precedence:
  "hk_get (check_container_override headers metadata footers) k =
     first_some [last_set (overrides ''x-object-sysmeta-container-update-override-'' footers) k,
       last_set (overrides ''x-object-sysmeta-container-update-override-'' metadata) k,
       last_set (overrides ''x-backend-container-update-override-'' footers) k,
       last_set (overrides ''x-backend-container-update-override-'' metadata) k, hk_get headers k]"
  by (cases "hk_get headers k") (simp_all add: check_container_override_def override_prefixes_def hk_get_update split: option.split)

section \<open>The expirer's queue\<close>

lemma async_update_saves:
  assumes "async_update env op account container obj None contpart dev h path db evs = (evs', Inr u)"
  shows "\<exists>p. evs' = evs @ [Saved p] \<and> pe_op p = op \<and> pe_account p = account \<and> pe_container p = container \<and> pe_obj p = obj"
  using assms
  by (auto simp: async_update_def pickle_async_update_def Let_def given_def split: option.splits sum.splits)

text \<open>C35: when the expiry of an object changes or goes away, the task of the old one is taken from the expirer's queue:
  a request that reports no error has saved an update that deletes it.\<close>

theorem old_expiry_is_dequeued:
  assumes "conditional_delete_at_update env pl rq t metadata (Some at) new evs = (evs', Inr u)"
    and "at \<noteq> AtInt new" and "ue_normalize env at = Inr s"
    and "\<not> ue_true env (hk_default (rq_headers rq) ''x-backend-replication'' ''f'')"
    and "ue_true env (hk_default (rq_headers rq) ''X-Backend-Clean-Expiring-Object-Queue'' ''t'')"
  shows "\<exists>p. Saved p \<in> set evs' \<and> pe_op p = ''DELETE'' \<and>
    (pe_account p, pe_container p) = ue_expirer env s (pl_account pl) (pl_container pl) (pl_obj pl) \<and>
    pe_obj p = ue_task env s (pl_account pl) (pl_container pl) (pl_obj pl)"
proof -
  obtain account container where e: "ue_expirer env s (pl_account pl) (pl_container pl) (pl_obj pl) = (account, container)"
    by (cases "ue_expirer env s (pl_account pl) (pl_container pl) (pl_obj pl)")
  from assms(1) obtain evs1 where "delete_at_update env ''DELETE'' at pl rq t [] evs1 = (evs', Inr u)"
    using assms(2) by (auto simp: conditional_delete_at_update_def and_then_Inr)
  then obtain h where "async_update env ''DELETE'' account container (ue_task env s (pl_account pl) (pl_container pl) (pl_obj pl))
      None None None h None None evs1 = (evs', Inr u)"
    using assms(3-5) e by (auto simp: delete_at_update_def Let_def)
  from async_update_saves [OF this] show ?thesis using e by auto
qed

section \<open>Concrete updates\<close>

text \<open>Two container servers: the first is down, the second accepts.\<close>

definition sample_updates :: "nat update_env" where
  "sample_updates = \<lparr>ue_lib = de_lib sample_df_env, ue_agent = ''object-server 7'',
     ue_reply = (\<lambda>s. if sn_device s = ''sda'' then NoReply else Status 201),
     ue_save = (\<lambda>p. None), ue_hash_path = (\<lambda>a c ob. a @ c @ ob), ue_valid_path = (\<lambda>p. True), ue_unquote = id,
     ue_true = (\<lambda>v. v = ''t''), ue_normalize = (\<lambda>at. Inr (case at of AtInt i \<Rightarrow> str_int i | AtText s \<Rightarrow> s | AtTime t \<Rightarrow> str_nat t)),
     ue_expirer = (\<lambda>at a c ob. (''.expiring_objects'', at)), ue_task = (\<lambda>at a c ob. at @ ''-'' @ a @ ''/'' @ c @ ''/'' @ ob),
     ue_delete_type = ''text/plain'', ue_bytes_ctype = (\<lambda>m. ''text/plain'')\<rparr>"

definition sample_placement :: placement where
  "sample_placement = \<lparr>pl_device = ''sda'', pl_partition = ''3'', pl_account = ''a'', pl_container = ''c'', pl_obj = ''o'', pl_policy = 0\<rparr>"

definition update_request :: request where
  "update_request = \<lparr>rq_method = ''PUT'', rq_headers = [(''X-Container-Host'', ''10.0.0.1:6201, 10.0.0.2:6201''),
     (''X-Container-Device'', ''sda, sdb''), (''X-Container-Partition'', ''9'')], rq_referer = ''PUT http://o''\<rparr>"

theorem container_updates_settled_witness:
  "\<exists>s p s'. container_update sample_updates ''PUT'' sample_placement update_request [(''X-Timestamp'', ''12'')] [] =
       ([Sent s NoReply, Saved p, Sent s' (Status 201)], Inr ()) \<and>
     sn_path s = ''/a/c/o'' \<and> pe_obj p = ''o'' \<and> sn_device s' = ''sdb'' \<and> sn_path s' = ''/a/c/o''"
proof -
  let ?hosts = "[''10.0.0.1:6201'', ''10.0.0.2:6201'']" and ?devices = "[''sda'', ''sdb'']"
  have h: "hk_default (rq_headers update_request) ''X-Container-Partition'' [] = ''9''" "''9'' \<noteq> []"
    "comma_list (hk_default (rq_headers update_request) ''X-Container-Host'' []) = ?hosts"
    "comma_list (hk_default (rq_headers update_request) ''X-Container-Device'' []) = ?devices" "length ?devices = length ?hosts"
    "\<forall>h \<in> set ?hosts. has_port (Some h)"
    by code_simp+
  have "update_time [(''X-Timestamp'', ''12'')] = Some ''12''" by code_simp
  moreover have "timestamp_of (de_lib sample_df_env) (Some ''12'') = Inr 12" by code_simp
  ultimately have "can_save sample_updates [(''X-Timestamp'', ''12'')]" by (simp add: can_save_def sample_updates_def)
  from container_updates_settled [OF h this, of "''PUT''" sample_placement "[]"]
  obtain news where run: "container_update sample_updates ''PUT'' sample_placement update_request [(''X-Timestamp'', ''12'')] [] =
      ([] @ concat news, Inr ())"
    and all: "list_all2 (\<lambda>(host, device). update_settled (ue_reply sample_updates) ''PUT'' sample_placement
      (container_path_of sample_updates (rq_headers update_request)) [(''X-Timestamp'', ''12'')] ''9''
      (hk_get (rq_headers update_request) ''X-Container-Root-Db-State'') host device) (zip ?hosts ?devices) news" by blast
  have cp: "container_path_of sample_updates (rq_headers update_request) = None" by code_simp
  let ?ok = "\<lambda>host device. update_settled (ue_reply sample_updates) ''PUT'' sample_placement None [(''X-Timestamp'', ''12'')] ''9''
      (hk_get (rq_headers update_request) ''X-Container-Root-Db-State'') host device"
  obtain a b where ab: "news = [a, b]" "?ok ''10.0.0.1:6201'' ''sda'' a" "?ok ''10.0.0.2:6201'' ''sdb'' b"
    using all unfolding cp by (auto simp: list_all2_Cons1)
  have r: "ue_reply sample_updates s = (if sn_device s = ''sda'' then NoReply else Status 201)" for s
    by (simp add: sample_updates_def)
  have d: "update_of_object ''PUT'' sample_placement None hd p h d s \<Longrightarrow> sn_device s = d \<and> sn_path s = ''/a/c/o''" for hd p h d s
    by (simp add: update_of_object_def sample_placement_def)
  obtain s p where a: "a = [Sent s NoReply, Saved p]" "sn_path s = ''/a/c/o''" "pe_obj p = ''o''"
    using ab(2) d by (auto simp: update_settled_def r saved_for_updater_def sample_placement_def)
  obtain s' where b: "b = [Sent s' (Status 201)]" "sn_device s' = ''sdb''" "sn_path s' = ''/a/c/o''"
    using ab(3) d by (auto simp: update_settled_def r)
  show ?thesis using run a b by (intro exI [of _ s] exI [of _ p] exI [of _ s']) (simp add: ab(1))
qed

theorem host_without_port_loses_update_witness:
  "async_update sample_updates ''PUT'' ''a'' ''c'' ''o'' (Some ''localhost'') (Some ''9'') (Some ''sda'') [] None None [] = ([], Inl (Py UnboundLocalError))"
proof -
  have "given (Some ''localhost'') = Some ''localhost''" "given (Some ''9'') \<noteq> None" "given (Some ''sda'') \<noteq> None"
    "host_port ''localhost'' = None" by code_simp+
  from host_without_port_loses_update [OF this] show ?thesis .
qed

theorem old_expiry_is_dequeued_witness:
  "\<exists>evs p. conditional_delete_at_update sample_updates sample_placement update_request 12 [] (Some (AtInt 50)) 0 [] = (evs, Inr ()) \<and>
     Saved p \<in> set evs \<and> pe_op p = ''DELETE'' \<and> pe_obj p = ''50-a/c/o''"
proof -
  have t: "ue_true sample_updates (hk_default (rq_headers update_request) ''X-Backend-Clean-Expiring-Object-Queue'' ''t'')"
    "\<not> ue_true sample_updates (hk_default (rq_headers update_request) ''x-backend-replication'' ''f'')" by code_simp+
  have "snd (conditional_delete_at_update sample_updates sample_placement update_request 12 [] (Some (AtInt 50)) 0 []) = Inr ()"
    by code_simp
  then obtain evs where r: "conditional_delete_at_update sample_updates sample_placement update_request 12 [] (Some (AtInt 50)) 0 [] = (evs, Inr ())"
    by (metis prod.collapse)
  have n: "ue_normalize sample_updates (AtInt 50) = Inr ''50''"
    "ue_task sample_updates ''50'' (pl_account sample_placement) (pl_container sample_placement) (pl_obj sample_placement) = ''50-a/c/o''"
    by code_simp+
  from old_expiry_is_dequeued [OF r _ n(1) t(2,1)] r n(2) show ?thesis by auto
qed

end
