(* ===== verification/ObjectServer.thy ===== *)
theory ObjectServer
  imports Updates
begin

text \<open>
  The object server (\<^verbatim>\<open>ObjectController\<close> of \<^verbatim>\<open>swift_patches/obj/bs_server.py\<close>): the handlers of PUT, POST, GET,
  HEAD and DELETE over the disk file of theory \<open>DiskFile\<close>, and the entry point that turns exceptions into
  responses.  A handler takes the state (the object's directories and the updates sent so far) and returns
  it with a response or an exception.
\<close>

section \<open>Input and surroundings\<close>

text \<open>
  A read of the request's body: a chunk, a chunk after the upload's time limit, a read that fails, one that
  raises \<^verbatim>\<open>ChunkReadError\<close>, or one that takes too long.
\<close>

datatype inread = Chunk string | LateChunk string | ReadFails | ReadError | ReadTimesOut

text \<open>What \<^verbatim>\<open>next\<close> gives of the documents of a MIME body.\<close>

datatype mime = Doc headers "inread list" | DocError raised

record put_request = request +
  rq_reads :: "inread list"
  rq_docs :: "mime list"

record server_state =
  ss_disk :: odisk
  ss_events :: "event list"

text \<open>
  Parameters: the disk file's environment, the policy's operations (with the fragment preferences and the
  fragment index of the request), its \<^verbatim>\<open>put\<close> and \<^verbatim>\<open>commit\<close> of a writer, its \<^verbatim>\<open>durable_timestamp\<close> and
  \<^verbatim>\<open>fragments\<close>, the disk's system calls and the digest; then functions of Swift's library, named after them.
  \<open>sv_other\<close> stands for the handlers that are not modelled (SSYNC, OPTIONS) or modelled apart (REPLICATE).
\<close>

record 't server_env =
  sv_updates :: "'t update_env"
  sv_df :: "'t df_env"
  sv_policy :: "string option \<Rightarrow> string option \<Rightarrow> pyexc + 't policy_ops"
  sv_put :: "'t disk_file \<Rightarrow> writer \<Rightarrow> odisk \<Rightarrow> metadata \<Rightarrow> writer \<times> odisk \<times> (pyexc + unit)"
  sv_commit :: "'t disk_file \<Rightarrow> odisk \<Rightarrow> 't \<Rightarrow> odisk \<times> (pyexc + unit)"
  sv_durable :: "'t disk_file \<Rightarrow> pyexc + 't option"
  sv_fragments :: "'t disk_file \<Rightarrow> ('t \<times> int list) list option"
  sv_os :: os
  sv_bytes_per_sync :: nat
  sv_md5 :: "string \<Rightarrow> string"
  sv_device_ok :: "string \<Rightarrow> bool"
  sv_storage_dir :: "string \<Rightarrow> string \<Rightarrow> string \<Rightarrow> string \<Rightarrow> string \<Rightarrow> string"
  sv_split_path :: "headers \<Rightarrow> raised + placement"
  sv_internal_obj :: "string \<Rightarrow> string \<Rightarrow> string \<Rightarrow> raised + unit"
  sv_valid_timestamp :: "headers \<Rightarrow> raised + 't"
  sv_now :: string
  sv_expired :: "'t \<Rightarrow> int \<Rightarrow> bool"
  sv_before :: "int \<Rightarrow> 't \<Rightarrow> bool"
  sv_open_expired :: "headers \<Rightarrow> bool"
  sv_is_user_meta :: "string \<Rightarrow> bool"
  sv_is_sys_meta :: "string \<Rightarrow> bool"
  sv_is_transient :: "string \<Rightarrow> bool"
  sv_allowed :: "string list"
  sv_check_creation :: "headers \<Rightarrow> string \<Rightarrow> response option"
  sv_message_length :: "headers \<Rightarrow> int option option"
  sv_if_none_match :: "headers \<Rightarrow> string list option"
  sv_swift_bytes :: "string \<Rightarrow> string option"
  sv_normalize_etag :: "string \<Rightarrow> string"
  sv_json :: "string \<Rightarrow> (string, string) dict option"
  sv_json_dumps :: "(string \<times> int list) list \<Rightarrow> string"
  sv_normal :: "'t \<Rightarrow> string"
  sv_last_modified :: "'t \<Rightarrow> string"
  sv_utf8 :: "headers \<Rightarrow> bool"
  sv_other :: "put_request \<Rightarrow> server_state \<Rightarrow> server_state \<times> (raised + response)"

definition lib_of :: "'t server_env \<Rightarrow> 't ts_lib" where
  "lib_of env = de_lib (sv_df env)"

text \<open>\<^verbatim>\<open>config_true_value\<close> of a header, false when it is missing.\<close>

definition true_header :: "'t server_env \<Rightarrow> headers \<Rightarrow> string \<Rightarrow> bool" where
  "true_header env h k = (case hk_get h k of None \<Rightarrow> False | Some v \<Rightarrow> ue_true (sv_updates env) v)"

text \<open>\<^verbatim>\<open>int(x or 0)\<close>\<close>

definition int_or_0 :: "string option \<Rightarrow> raised + int" where
  "int_or_0 v =
     (case given v of
        None \<Rightarrow> Inr 0
      | Some s \<Rightarrow> (case py_int s of None \<Rightarrow> Inl (Py ValueError) | Some i \<Rightarrow> Inr i))"

definition with_events ::
  "(event list \<Rightarrow> event list \<times> (raised + 'a)) \<Rightarrow> server_state \<Rightarrow> server_state \<times> (raised + 'a)" where
  "with_events f s = (let (evs, r) = f (ss_events s) in (s\<lparr>ss_events := evs\<rparr>, r))"

section \<open>Finding the object\<close>

definition placement_of :: "'t server_env \<Rightarrow> headers \<Rightarrow> raised + placement" where
  "placement_of env h =
     (case sv_split_path env h of
        Inl e \<Rightarrow> Inl e
      | Inr pl \<Rightarrow>
          (case sv_internal_obj env (pl_account pl) (pl_container pl) (pl_obj pl) of
             Inl e \<Rightarrow> Inl e
           | Inr u \<Rightarrow> Inr pl))"

text \<open>\<^verbatim>\<open>get_diskfile\<close>: the policy's operations for the request, and the disk file.\<close>

definition get_diskfile ::
  "'t server_env \<Rightarrow> placement \<Rightarrow> string option \<Rightarrow> string option \<Rightarrow> bool \<Rightarrow> pyexc + 't policy_ops \<times> 't disk_file" where
  "get_diskfile env pl prefs frag_index open_expired =
     (if \<not> sv_device_ok env (pl_device pl) then Inl DiskFileDeviceUnavailable
      else try_then (new_disk_file (sv_storage_dir env (pl_device pl) (pl_partition pl)) (pl_account pl) (pl_container pl)
                       (pl_obj pl) None open_expired)
             (\<lambda>df. try_then (sv_policy env prefs frag_index) (\<lambda>ops. Inr (ops, df))))"

definition read_orig ::
  "'t :: {linorder, order_bot} server_env \<Rightarrow> 't policy_ops \<Rightarrow> 't disk_file \<Rightarrow> 't \<Rightarrow> server_state
     \<Rightarrow> 't disk_file \<times> server_state \<times> (pyexc + metadata)" where
  "read_orig env ops df t s =
     (let (df, d, r) = read_object_metadata ops (sv_df env) df (od_dir (ss_disk s)) (sv_expired env t)
      in (df, s\<lparr>ss_disk := (ss_disk s)\<lparr>od_dir := d\<rparr>\<rparr>, r))"

definition missing :: "pyexc \<Rightarrow> bool" where
  "missing e \<longleftrightarrow> is_not_exist e \<or> e = DiskFileQuarantined"

text \<open>The \<^verbatim>\<open>timestamp\<close> of \<^verbatim>\<open>DiskFileDeleted\<close> and \<^verbatim>\<open>DiskFileExpired\<close>; other exceptions have none.\<close>

definition timestamp_of_exc :: "'t :: order_bot ts_lib \<Rightarrow> pyexc \<Rightarrow> pyexc + 't option" where
  "timestamp_of_exc lib e =
     (case e of
        DiskFileDeleted m \<Rightarrow> try_then (exc_timestamp lib m) (\<lambda>t. Inr (Some t))
      | DiskFileExpired m \<Rightarrow> try_then (exc_timestamp lib m) (\<lambda>t. Inr (Some t))
      | _ \<Rightarrow> Inr None)"

definition unavailable :: "pyexc \<Rightarrow> bool" where
  "unavailable e \<longleftrightarrow> e = DiskFileXattrNotSupported \<or> e = DiskFileNoSpace"

section \<open>PUT: checks\<close>

definition object_size :: "'t server_env \<Rightarrow> headers \<Rightarrow> raised + int option" where
  "object_size env h =
     (case sv_message_length env h of
        None \<Rightarrow> Inl (Http (reply 400))
      | Some (Some n) \<Rightarrow> Inr (Some n)
      | Some None \<Rightarrow>
          (case hk_get h ''X-Backend-Obj-Content-Length'' of
             None \<Rightarrow> Inr None
           | Some s \<Rightarrow> (case py_int s of None \<Rightarrow> Inl (Http (reply 400)) | Some n \<Rightarrow> Inr (Some n))))"

text \<open>What is there already: its metadata and the time of its data, or of its deletion.\<close>

definition found_object ::
  "'t :: order_bot ts_lib \<Rightarrow> 't disk_file \<Rightarrow> pyexc + metadata \<Rightarrow> raised + metadata \<times> 't" where
  "found_object lib df r =
     (case (case r of Inl e \<Rightarrow> Inl e | Inr m \<Rightarrow> try_then (data_timestamp lib df) (\<lambda>t. Inr (m, t))) of
        Inr x \<Rightarrow> Inr x
      | Inl e \<Rightarrow>
          if e = DiskFileXattrNotSupported then Inl (Http (reply 507))
          else (case timestamp_of_exc lib e of
                  Inl e \<Rightarrow> Inl (Py e)
                | Inr (Some t) \<Rightarrow> Inr ([], t)
                | Inr None \<Rightarrow> if missing e then Inr ([], bot) else Inl (Py e)))"

definition none_match_fails :: "'t server_env \<Rightarrow> headers \<Rightarrow> metadata \<Rightarrow> bool" where
  "none_match_fails env h orig =
     (case sv_if_none_match env h of
        None \<Rightarrow> False
      | Some etags \<Rightarrow> orig \<noteq> [] \<and>
          (''*'' \<in> set etags \<or> (case map_of orig ''ETag'' of None \<Rightarrow> False | Some e \<Rightarrow> e \<in> set etags)))"

definition pre_create_checks ::
  "'t :: {linorder, order_bot} server_env \<Rightarrow> headers \<Rightarrow> placement \<Rightarrow> server_state
     \<Rightarrow> server_state \<times> (raised + 't \<times> 't disk_file \<times> int option \<times> metadata)" where
  "pre_create_checks env h pl s =
     and_then (s, sv_valid_timestamp env h) (\<lambda>s t.
     and_then (s, case sv_check_creation env h (pl_obj pl) of Some r \<Rightarrow> Inl (Http r) | None \<Rightarrow> Inr ()) (\<lambda>s u.
     and_then (s, object_size env h) (\<lambda>s fsize.
       case get_diskfile env pl None (hk_get h ''X-Backend-Ssync-Frag-Index'') False of
         Inl e \<Rightarrow> (s, if e = DiskFileDeviceUnavailable then Inl (Http (reply 507)) else Inl (Py e))
       | Inr (ops, df) \<Rightarrow>
           (let (df, s, r) = read_orig env ops df t s
            in and_then (s, found_object (lib_of env) df r) (\<lambda>s (orig, orig_timestamp).
                 (s, if none_match_fails env h orig then Inl (Http (reply 412))
                     else if t \<le> orig_timestamp
                     then Inl (Http (reply_with 409 [(''X-Backend-Timestamp'', ts_internal (lib_of env) orig_timestamp)]))
                     else Inr (t, df, fsize, orig)))))))"

section \<open>PUT: the input\<close>

text \<open>\<^verbatim>\<open>drain\<close> reads to the end without the timeout reader's translation of errors.\<close>

fun drain :: "inread list \<Rightarrow> raised + unit" where
  "drain [] = Inr ()"
| "drain (Chunk c # rs) = (if c = [] then Inr () else drain rs)"
| "drain (LateChunk c # rs) = (if c = [] then Inr () else drain rs)"
| "drain (ReadFails # rs) = Inl OtherError"
| "drain (ReadError # rs) = Inl ChunkReadError"
| "drain (ReadTimesOut # rs) = Inl ChunkReadTimeout"

text \<open>The chunks of the timeout reader joined.\<close>

fun read_body :: "inread list \<Rightarrow> raised + string" where
  "read_body [] = Inr []"
| "read_body (Chunk c # rs) = (if c = [] then Inr [] else map_sum id (\<lambda>b. c @ b) (read_body rs))"
| "read_body (LateChunk c # rs) = (if c = [] then Inr [] else map_sum id (\<lambda>b. c @ b) (read_body rs))"
| "read_body (ReadFails # rs) = Inl ChunkReadError"
| "read_body (ReadError # rs) = Inl ChunkReadError"
| "read_body (ReadTimesOut # rs) = Inl ChunkReadTimeout"

text \<open>\<^verbatim>\<open>next\<close> of the MIME documents; the handlers of its errors.\<close>

fun next_doc :: "mime list \<Rightarrow> mime list \<times> (raised + headers \<times> inread list)" where
  "next_doc [] = ([], Inl StopIteration)"
| "next_doc (Doc h b # ds) = (ds, Inr (h, b))"
| "next_doc (DocError e # ds) = (ds, Inl e)"

fun mime_error :: "raised \<Rightarrow> raised" where
  "mime_error ChunkReadError = Http (reply 499)"
| "mime_error ChunkReadTimeout = Http (reply 408)"
| "mime_error StopIteration = Http (reply 400)"
| "mime_error e = e"

definition read_put_commit_message :: "mime list \<Rightarrow> mime list \<times> (raised + bool)" where
  "read_put_commit_message docs =
     (case and_then (next_doc docs) (\<lambda>docs (h, b). (docs, map_sum id (\<lambda>u. hk_get h ''X-Document'' = Some ''put commit'') (drain b))) of
        (docs, r) \<Rightarrow> (docs, map_sum mime_error id r))"

definition parse_footer :: "'t server_env \<Rightarrow> headers \<Rightarrow> inread list \<Rightarrow> raised + headers" where
  "parse_footer env footer_hdrs b =
     (case read_body b of
        Inl e \<Rightarrow> Inl (mime_error e)
      | Inr footer_body \<Rightarrow>
          (case given (hk_get footer_hdrs ''Content-MD5'') of
             None \<Rightarrow> Inl (Http (reply 400))
           | Some footer_md5 \<Rightarrow>
               if footer_md5 \<noteq> sv_md5 env footer_body then Inl (Http (reply 422))
               else (case sv_json env footer_body of
                       None \<Rightarrow> Inl (Http (reply 400)) | Some d \<Rightarrow> Inr (hk_update [] d))))"

definition read_metadata_footer :: "'t server_env \<Rightarrow> mime list \<Rightarrow> mime list \<times> (raised + headers)" where
  "read_metadata_footer env docs =
     (case next_doc docs of
        (docs, Inl e) \<Rightarrow> (docs, Inl (mime_error e))
      | (docs, Inr (h, b)) \<Rightarrow> (docs, parse_footer env h b))"

text \<open>The etag of the footers is stored in lower case, under the same name.\<close>

definition read_mime_footers ::
  "'t server_env \<Rightarrow> bool \<Rightarrow> mime list \<Rightarrow> mime list \<times> (raised + headers)" where
  "read_mime_footers env have_metadata_footer docs =
     (if \<not> have_metadata_footer then (docs, Inr [])
      else and_then (read_metadata_footer env docs) (\<lambda>docs metadata.
        (let footer_etag = lower (hk_default metadata ''etag'' []);
             metadata = AList.delete (title ''etag'') metadata
         in (docs, Inr (if footer_etag = [] then metadata else hk_set metadata ''ETag'' footer_etag)))))"

text \<open>
  The input of the object's bytes and the state of a multi-stage request: whether there are footers,
  whether there is a commit phase, and the documents left.
\<close>

definition mime_input ::
  "'t server_env \<Rightarrow> put_request \<Rightarrow> raised + inread list \<times> (bool \<times> bool \<times> mime list) option" where
  "mime_input env rq =
     (let h = rq_headers rq;
          multiphase = true_header env h ''X-Backend-Obj-Multiphase-Commit'';
          footer = true_header env h ''X-Backend-Obj-Metadata-Footer''
      in if \<not> footer \<and> \<not> multiphase then Inr (rq_reads rq, None)
         else if given (hk_get h ''X-Backend-Obj-Multipart-Mime-Boundary'') = None then Inl (Http (reply 400))
         else (case next_doc (rq_docs rq) of
                 (docs, Inl e) \<Rightarrow> Inl e
               | (docs, Inr (junk, b)) \<Rightarrow> Inr (b, Some (footer, multiphase, docs))))"

text \<open>
  \<^verbatim>\<open>_stage_obj_data\<close>: chunks are written until an empty one; \<open>None\<close> when a write does not end.
\<close>

fun stage_chunks :: "os \<Rightarrow> nat \<Rightarrow> inread list \<Rightarrow> writer \<Rightarrow> (writer \<times> (raised + unit)) option" where
  "stage_chunks os bps [] w = Some (w, Inr ())"
| "stage_chunks os bps (Chunk c # rs) w =
     (if c = [] then Some (w, Inr ())
      else (case writer_write os bps w c of
              None \<Rightarrow> None
            | Some (w, Inl e) \<Rightarrow> Some (w, Inl (Py e))
            | Some (w, Inr u) \<Rightarrow> stage_chunks os bps rs w))"
| "stage_chunks os bps (LateChunk c # rs) w = Some (w, if c = [] then Inr () else Inl (Http (reply 408)))"
| "stage_chunks os bps (ReadFails # rs) w = Some (w, Inl ChunkReadError)"
| "stage_chunks os bps (ReadError # rs) w = Some (w, Inl ChunkReadError)"
| "stage_chunks os bps (ReadTimesOut # rs) w = Some (w, Inl ChunkReadTimeout)"

definition stage_obj_data ::
  "'t server_env \<Rightarrow> inread list \<Rightarrow> int option \<Rightarrow> writer \<Rightarrow> server_state
     \<Rightarrow> (writer \<times> server_state \<times> (raised + nat \<times> string)) option" where
  "stage_obj_data env reads fsize w s =
     (case writer_open (sv_os env) (od_use_linkat (ss_disk s)) w of
        (w, use_linkat, r) \<Rightarrow>
          (let s = s\<lparr>ss_disk := (ss_disk s)\<lparr>od_use_linkat := use_linkat\<rparr>\<rparr>
           in case r of
                Inl e \<Rightarrow> Some (w, s, Inl (Py e))
              | Inr u \<Rightarrow>
                  (case stage_chunks (sv_os env) (sv_bytes_per_sync env) reads w of
                     None \<Rightarrow> None
                   | Some (w, Inl e) \<Rightarrow> Some (w, s, Inl e)
                   | Some (w, Inr u) \<Rightarrow>
                       (let (upload_size, etag) = chunks_finished (sv_md5 env) w
                        in Some (w, s, case fsize of
                             None \<Rightarrow> Inr (upload_size, etag)
                           | Some n \<Rightarrow> if n \<noteq> int upload_size then Inl (Http (reply 499)) else Inr (upload_size, etag))))))"

section \<open>PUT: metadata\<close>

definition copied_headers :: "'t server_env \<Rightarrow> headers \<Rightarrow> string list" where
  "copied_headers env h = words (hk_default h ''X-Backend-Replication-Headers'' []) @ sv_allowed env"

definition copy_headers :: "string list \<Rightarrow> headers \<Rightarrow> metadata \<Rightarrow> metadata" where
  "copy_headers ks h m =
     fold (\<lambda>k m. case hk_get h k of None \<Rightarrow> m | Some v \<Rightarrow> AList.update (title k) v m) ks m"

definition is_object_meta :: "'t server_env \<Rightarrow> string \<Rightarrow> bool" where
  "is_object_meta env k \<longleftrightarrow> sv_is_sys_meta env k \<or> sv_is_user_meta env k \<or> sv_is_transient env k"

definition get_request_metadata ::
  "'t server_env \<Rightarrow> headers \<Rightarrow> 't \<Rightarrow> nat \<Rightarrow> string \<Rightarrow> raised + metadata" where
  "get_request_metadata env h t upload_size etag =
     (case hk_get h ''content-type'' of
        None \<Rightarrow> Inl (Py KeyError)
      | Some c \<Rightarrow>
          Inr (copy_headers (copied_headers env h) h
            (dict_update [(''X-Timestamp'', ts_internal (lib_of env) t), (''Content-Type'', c),
                          (''Content-Length'', str_nat upload_size), (''ETag'', etag)]
               (filter (\<lambda>(k, v). is_object_meta env k) h))))"

definition apply_extra_metadata ::
  "'t server_env \<Rightarrow> headers \<Rightarrow> metadata \<Rightarrow> headers \<Rightarrow> raised + metadata" where
  "apply_extra_metadata env h metadata footers =
     (let metadata = dict_update metadata (filter (\<lambda>(k, v). is_object_meta env k) footers);
          received_etag = sv_normalize_etag env
            (case hk_get footers ''etag'' of Some e \<Rightarrow> e | None \<Rightarrow> hk_default h ''etag'' [])
      in if received_etag \<noteq> [] \<and> Some received_etag \<noteq> map_of metadata ''ETag''
         then Inl (Http (reply 422)) else Inr metadata)"

section \<open>PUT\<close>

fun drain_docs :: "mime list \<Rightarrow> raised + unit" where
  "drain_docs [] = Inr ()"
| "drain_docs (Doc h b # ds) = (case drain b of Inl e \<Rightarrow> Inl (mime_error e) | Inr u \<Rightarrow> drain_docs ds)"
| "drain_docs (DocError e # ds) = (if e = StopIteration then Inr () else Inl (mime_error e))"

text \<open>
  The part of PUT under its \<^verbatim>\<open>try\<close>: the bytes, the metadata, the put, the commit.  The result carries the etag,
  the footers and the metadata.
\<close>

definition put_commit ::
  "'t server_env \<Rightarrow> headers \<Rightarrow> 't \<Rightarrow> 't disk_file \<Rightarrow> (bool \<times> bool \<times> mime list) option \<Rightarrow> odisk \<Rightarrow> odisk \<times> (raised + unit)" where
  "put_commit env h t df multi d =
     (let commit = (\<lambda>d. if true_header env h ''X-Backend-No-Commit'' then (d, Inr ())
                        else (let (d, r) = sv_commit env df d t in (d, py r)))
      in case multi of
           None \<Rightarrow> commit d
         | Some (footer, multiphase, docs) \<Rightarrow>
             (case (if multiphase then read_put_commit_message docs else (docs, Inr True)) of
                (docs, Inl e) \<Rightarrow> (d, Inl e)
              | (docs, Inr committed) \<Rightarrow>
                  if \<not> committed then (d, Inl (Http (reply 500)))
                  else and_then (commit d) (\<lambda>d u. (d, drain_docs docs))))"

definition put_finish ::
  "'t server_env \<Rightarrow> put_request \<Rightarrow> 't \<Rightarrow> 't disk_file \<Rightarrow> (bool \<times> bool \<times> mime list) option \<Rightarrow> nat \<times> string \<Rightarrow> writer
     \<Rightarrow> server_state \<Rightarrow> writer \<times> server_state \<times> (raised + string \<times> headers \<times> metadata)" where
  "put_finish env rq t df multi uploaded w s =
     (let (upload_size, etag) = uploaded;
          h = rq_headers rq;
          checked = (case get_request_metadata env h t upload_size etag of
            Inl e \<Rightarrow> Inl e
          | Inr metadata \<Rightarrow>
              (case (case multi of
                       None \<Rightarrow> (multi, Inr [])
                     | Some (footer, multiphase, docs) \<Rightarrow>
                         (let (docs, r) = read_mime_footers env footer docs in (Some (footer, multiphase, docs), r))) of
                 (multi, Inl e) \<Rightarrow> Inl e
               | (multi, Inr footers) \<Rightarrow>
                   (case apply_extra_metadata env h metadata footers of
                      Inl e \<Rightarrow> Inl e | Inr metadata \<Rightarrow> Inr (multi, footers, metadata))))
      in case checked of
           Inl e \<Rightarrow> (w, s, Inl e)
         | Inr (multi, footers, metadata) \<Rightarrow>
             (case sv_put env df w (ss_disk s) metadata of
                (w, d, Inl e) \<Rightarrow> (w, s\<lparr>ss_disk := d\<rparr>, Inl (Py e))
              | (w, d, Inr u) \<Rightarrow>
                  (let (d, r) = put_commit env h t df multi d
                   in (w, s\<lparr>ss_disk := d\<rparr>, case r of Inl e \<Rightarrow> Inl e | Inr u \<Rightarrow> Inr (etag, footers, metadata)))))"

text \<open>The exceptions of this part that PUT turns into responses.\<close>

fun put_error :: "raised \<Rightarrow> raised + response" where
  "put_error (Py e) = (if unavailable e then Inr (reply 507) else Inl (Py e))"
| "put_error ChunkReadError = Inr (reply 499)"
| "put_error ChunkReadTimeout = Inr (reply 408)"
| "put_error e = Inl e"

definition post_commit_updates ::
  "'t server_env \<Rightarrow> placement \<Rightarrow> put_request \<Rightarrow> 't \<Rightarrow> metadata \<Rightarrow> headers \<Rightarrow> metadata \<Rightarrow> server_state
     \<Rightarrow> server_state \<times> (raised + unit)" where
  "post_commit_updates env pl rq t orig footers metadata s =
     (let h = rq_headers rq; up = sv_updates env; urq = request.truncate rq in
     and_then (s, int_or_0 (map_of orig ''X-Delete-At'')) (\<lambda>s orig_delete_at.
     and_then (s, int_or_0 (hk_get h ''X-Delete-At'')) (\<lambda>s new_delete_at.
     and_then (with_events (conditional_delete_at_update up pl urq t metadata
                 (if orig_delete_at = 0 then None else Some (AtInt orig_delete_at)) new_delete_at) s) (\<lambda>s u.
     case (map_of metadata ''Content-Length'', map_of metadata ''Content-Type'', map_of metadata ''X-Timestamp'',
           map_of metadata ''ETag'') of
       (Some len, Some ctype, Some ts, Some etag) \<Rightarrow>
         with_events (container_update up ''PUT'' pl urq
           (check_container_override
              (hk_update [] [(''x-size'', len), (''x-content-type'', ctype), (''x-timestamp'', ts), (''x-etag'', etag)])
              h footers)) s
     | _ \<Rightarrow> (s, Inl (Py KeyError))))))"

text \<open>\<^verbatim>\<open>finally: writer.close()\<close> changes the writer alone; \<open>None\<close> when a write does not end.\<close>

definition PUT ::
  "'t :: {linorder, order_bot} server_env \<Rightarrow> put_request \<Rightarrow> server_state \<Rightarrow> (server_state \<times> (raised + response)) option" where
  "PUT env rq s =
     (let h = rq_headers rq in
      case and_then (s, placement_of env h) (\<lambda>s pl. and_then (pre_create_checks env h pl s) (\<lambda>s x. (s, Inr (pl, x)))) of
        (s, Inl e) \<Rightarrow> Some (s, Inl e)
      | (s, Inr (pl, t, df, fsize, orig)) \<Rightarrow>
          (let w = new_writer (map_option (\<lambda>n. nat \<bar>n\<bar>) fsize) ''.data''
           in case mime_input env rq of
                Inl e \<Rightarrow> Some (s, put_error e)
              | Inr (reads, multi) \<Rightarrow>
                  (case stage_obj_data env reads fsize w s of
                     None \<Rightarrow> None
                   | Some (w, s, Inl e) \<Rightarrow> Some (s, put_error e)
                   | Some (w, s, Inr uploaded) \<Rightarrow>
                       (case put_finish env rq t df multi uploaded w s of
                          (w, s, Inl e) \<Rightarrow> Some (s, put_error e)
                        | (w, s, Inr (etag, footers, metadata)) \<Rightarrow>
                            Some (and_then (post_commit_updates env pl rq t orig footers metadata s)
                              (\<lambda>s u. (s, Inr (reply_with 201 [(''Etag'', etag)]))))))))"

section \<open>POST\<close>

text \<open>What a read of the object that fails answers in POST: an exception or a response.\<close>

definition post_read_error :: "pyexc \<Rightarrow> raised + response" where
  "post_read_error e =
     (if e = DiskFileXattrNotSupported then Inr (reply 507) else if missing e then Inr (reply 404) else Inl (Py e))"

text \<open>
  The metadata POST starts from: that of the request, with the updates of the expirer's queue, when the
  request is newer than the object; else that of the \<^verbatim>\<open>.meta\<close> file (\<^verbatim>\<open>dict(None)\<close> is a \<^verbatim>\<open>TypeError\<close>).
\<close>

definition post_metadata ::
  "'t :: order_bot server_env \<Rightarrow> placement \<Rightarrow> request \<Rightarrow> 't \<Rightarrow> int \<Rightarrow> 't disk_file \<Rightarrow> metadata \<Rightarrow> bool \<Rightarrow> server_state
     \<Rightarrow> server_state \<times> (raised + metadata)" where
  "post_metadata env pl rq t new_delete_at df orig is_newer s =
     (let h = rq_headers rq
      in if is_newer
         then and_then (s, int_or_0 (map_of orig ''X-Delete-At'')) (\<lambda>s orig_delete_at.
              and_then (s, py (get_datafile_metadata df)) (\<lambda>s dm.
              and_then (with_events (conditional_delete_at_update (sv_updates env) pl rq t dm
                          (if orig_delete_at = 0 then None else Some (AtInt orig_delete_at)) new_delete_at) s) (\<lambda>s u.
              (s, Inr (copy_headers (copied_headers env h) h
                 (dict_update [(''X-Timestamp'', ts_internal (lib_of env) t)]
                    (filter (\<lambda>(k, v). sv_is_user_meta env k \<or> sv_is_transient env k) h)))))))
         else (s, case get_metafile_metadata df of
                    Inl e \<Rightarrow> Inl (Py e) | Inr None \<Rightarrow> Inl (Py TypeError) | Inr (Some m) \<Rightarrow> Inr m))"

text \<open>
  The content type the object has after a POST, with its time, and whether it is stored with the POST's
  metadata.  Metadata values are strings here: an object with a content-type time but no content type is
  not modelled (\<open>OtherError\<close>).
\<close>

definition post_content_type ::
  "'t :: linorder server_env \<Rightarrow> headers \<Rightarrow> 't disk_file \<Rightarrow> 't \<Rightarrow> 't \<Rightarrow> metadata \<Rightarrow> raised + string option \<times> 't \<times> metadata" where
  "post_content_type env h df orig_ctype_timestamp req_ctype_timestamp metadata =
     (if orig_ctype_timestamp < req_ctype_timestamp
      then (case hk_get h ''Content-Type'' of
              None \<Rightarrow> Inl (Py KeyError)
            | Some c \<Rightarrow> Inr (Some c, req_ctype_timestamp,
                dict_update metadata [(''Content-Type'', c), (''Content-Type-Timestamp'', ts_internal (lib_of env) req_ctype_timestamp)]))
      else (case (content_type df, data_timestamp (lib_of env) df) of
              (Inl e, _) \<Rightarrow> Inl (Py e)
            | (_, Inl e) \<Rightarrow> Inl (Py e)
            | (Inr c, Inr dt) \<Rightarrow>
                if orig_ctype_timestamp = dt then Inr (c, orig_ctype_timestamp, metadata)
                else (case c of
                        None \<Rightarrow> Inl OtherError
                      | Some c \<Rightarrow> Inr (Some c, orig_ctype_timestamp,
                          dict_update metadata [(''Content-Type'', c),
                            (''Content-Type-Timestamp'', ts_internal (lib_of env) orig_ctype_timestamp)]))))"

text \<open>A size that SLO noted in the data file's content type is sent on with a newer content type.\<close>

definition with_swift_bytes ::
  "'t server_env \<Rightarrow> 't disk_file \<Rightarrow> string option \<Rightarrow> 't \<Rightarrow> raised + string option" where
  "with_swift_bytes env df ctype ctype_timestamp =
     (case data_timestamp (lib_of env) df of
        Inl e \<Rightarrow> Inl (Py e)
      | Inr dt \<Rightarrow>
          if ctype_timestamp = dt then Inr ctype
          else (case get_datafile_metadata df of
                  Inl e \<Rightarrow> Inl (Py e)
                | Inr dm \<Rightarrow>
                    (case map_of dm ''Content-Type'' of
                       None \<Rightarrow> Inl (Py KeyError)
                     | Some c \<Rightarrow>
                         (case given (sv_swift_bytes env c) of
                            None \<Rightarrow> Inr ctype
                          | Some b \<Rightarrow> (case ctype of
                              None \<Rightarrow> Inl (Py TypeError) | Some ct \<Rightarrow> Inr (Some (ct @ '';swift_bytes='' @ b)))))))"

definition post_update_headers ::
  "'t server_env \<Rightarrow> 't disk_file \<Rightarrow> metadata \<Rightarrow> metadata \<Rightarrow> string option \<Rightarrow> 't \<Rightarrow> raised + headers" where
  "post_update_headers env df orig metadata ctype ctype_timestamp =
     (case (map_of orig ''Content-Length'', data_timestamp (lib_of env) df, map_of metadata ''X-Timestamp'', map_of orig ''ETag'') of
        (Some len, Inr dt, Some mt, Some etag) \<Rightarrow>
          (let u = hk_put (hk_update [] [(''x-size'', len)]) ''x-content-type'' ctype;
               u = hk_update u [(''x-timestamp'', ts_internal (lib_of env) dt),
                     (''x-content-type-timestamp'', ts_internal (lib_of env) ctype_timestamp),
                     (''x-meta-timestamp'', mt), (''x-etag'', etag)];
               u = (case map_of orig ''X-Object-Sysmeta-Ec-Etag'' of None \<Rightarrow> u | Some e \<Rightarrow> hk_set u ''X-Etag'' e);
               u = (case map_of orig ''X-Object-Sysmeta-Ec-Content-Length'' of None \<Rightarrow> u | Some n \<Rightarrow> hk_set u ''X-Size'' n)
           in Inr (check_container_override u orig []))
      | (Some len, Inl e, _, _) \<Rightarrow> Inl (Py e)
      | _ \<Rightarrow> Inl (Py KeyError))"

text \<open>POST after the object was read, and after the check for a conflict.\<close>

definition post_write ::
  "'t :: {linorder, order_bot} server_env \<Rightarrow> placement \<Rightarrow> request \<Rightarrow> 't disk_file \<Rightarrow> metadata
     \<Rightarrow> string option \<times> 't \<times> metadata \<Rightarrow> server_state \<Rightarrow> server_state \<times> (raised + response)" where
  "post_write env pl rq df orig typed s =
     (let (ctype, ctype_timestamp, metadata) = typed;
          (d, r) = write_object_metadata (sv_os env) (sv_put env df) (ss_disk s) metadata;
          s = s\<lparr>ss_disk := d\<rparr>
      in case r of
           Inl e \<Rightarrow> (s, if unavailable e then Inr (reply 507) else Inl (Py e))
         | Inr u \<Rightarrow>
             and_then (s, with_swift_bytes env df ctype ctype_timestamp) (\<lambda>s ctype.
             and_then (s, post_update_headers env df orig metadata ctype ctype_timestamp) (\<lambda>s uh.
             and_then (with_events (container_update (sv_updates env) ''PUT'' pl rq uh) s) (\<lambda>s u.
               (s, Inr (reply_with 202 (hk_update (hk_put [] ''X-Backend-Content-Type'' ctype)
                     (filter (\<lambda>(k, v). sv_is_sys_meta env k) orig))))))))"

definition post_found ::
  "'t :: {linorder, order_bot} server_env \<Rightarrow> placement \<Rightarrow> request \<Rightarrow> 't \<Rightarrow> int \<Rightarrow> 't disk_file \<Rightarrow> metadata \<Rightarrow> server_state
     \<Rightarrow> server_state \<times> (raised + response)" where
  "post_found env pl rq t new_delete_at df orig s =
     (let lib = lib_of env; h = rq_headers rq in
     and_then (s, py (case map_of orig ''X-Timestamp'' of None \<Rightarrow> Inr bot | Some x \<Rightarrow> timestamp_of lib (Some x))) (\<lambda>s orig_timestamp.
     and_then (s, py (content_type_timestamp lib df)) (\<lambda>s orig_ctype_timestamp.
     and_then (s, py (case given (hk_get h ''Content-Type'') of
                 None \<Rightarrow> Inr bot
               | Some c \<Rightarrow> timestamp_of lib (Some (hk_default h ''Content-Type-Timestamp'' (ts_internal lib t))))) (\<lambda>s req_ctype_timestamp.
       if t \<le> orig_timestamp \<and> req_ctype_timestamp \<le> orig_ctype_timestamp
       then (s, Inr (reply_with 409 [(''X-Backend-Timestamp'', ts_internal lib orig_timestamp)]))
       else and_then (post_metadata env pl rq t new_delete_at df orig (orig_timestamp < t) s) (\<lambda>s metadata.
            and_then (s, post_content_type env h df orig_ctype_timestamp req_ctype_timestamp metadata) (\<lambda>s typed.
              post_write env pl rq df orig typed s))))))"

definition POST ::
  "'t :: {linorder, order_bot} server_env \<Rightarrow> request \<Rightarrow> server_state \<Rightarrow> server_state \<times> (raised + response)" where
  "POST env rq s =
     (let h = rq_headers rq in
     and_then (s, placement_of env h) (\<lambda>s pl.
     and_then (s, sv_valid_timestamp env h) (\<lambda>s t.
     and_then (s, int_or_0 (hk_get h ''X-Delete-At'')) (\<lambda>s new_delete_at.
       if new_delete_at \<noteq> 0 \<and> sv_before env new_delete_at t then (s, Inr (reply 400))
       else (case get_diskfile env pl None None (sv_open_expired env h) of
               Inl e \<Rightarrow> (s, if e = DiskFileDeviceUnavailable then Inr (reply 507) else Inl (Py e))
             | Inr (ops, df) \<Rightarrow>
                 (case read_orig env ops df t s of
                    (df, s, Inl e) \<Rightarrow> (s, post_read_error e)
                  | (df, s, Inr orig) \<Rightarrow> post_found env pl rq t new_delete_at df orig s))))))"

section \<open>GET and HEAD\<close>

definition make_backend_fragments_header ::
  "('t \<Rightarrow> string) \<Rightarrow> ((string \<times> int list) list \<Rightarrow> string) \<Rightarrow> ('t \<times> int list) list option \<Rightarrow> string option" where
  "make_backend_fragments_header internal dumps fragments =
     (case fragments of
        None \<Rightarrow> None
      | Some fs \<Rightarrow> if fs = [] then None else Some (dumps (map (\<lambda>(t, l). (internal t, l)) fs)))"

definition shown_meta :: "'t server_env \<Rightarrow> string \<Rightarrow> bool" where
  "shown_meta env k \<longleftrightarrow> is_object_meta env k \<or> lower k \<in> set (sv_allowed env)"

text \<open>\<^verbatim>\<open>response.etag = x\<close> sets the header to the quoted value.\<close>

definition quoted :: "string \<Rightarrow> string" where
  "quoted s = CHR 0x22 # s @ [CHR 0x22]"

definition key_of :: "metadata \<Rightarrow> string \<Rightarrow> pyexc + string" where
  "key_of m k = (case map_of m k of None \<Rightarrow> Inl KeyError | Some v \<Rightarrow> Inr v)"

definition int_of :: "string \<Rightarrow> pyexc + int" where
  "int_of s = (case py_int s of None \<Rightarrow> Inl ValueError | Some i \<Rightarrow> Inr i)"

definition backend_headers ::
  "'t server_env \<Rightarrow> 't disk_file \<Rightarrow> 't \<Rightarrow> headers \<Rightarrow> pyexc + headers" where
  "backend_headers env df ts h =
     (let h = hk_set (hk_set h ''X-Timestamp'' (sv_normal env ts)) ''X-Backend-Timestamp'' (ts_internal (lib_of env) ts) in
      try_then (data_timestamp (lib_of env) df) (\<lambda>dt.
      try_then (sv_durable env df) (\<lambda>durable.
        (let h = hk_set h ''X-Backend-Data-Timestamp'' (ts_internal (lib_of env) dt);
             h = (case durable of
                    None \<Rightarrow> h
                  | Some t \<Rightarrow> if ts_truth (lib_of env) t then hk_set h ''X-Backend-Durable-Timestamp'' (ts_internal (lib_of env) t) else h)
         in Inr (hk_put h ''X-Backend-Fragments''
              (make_backend_fragments_header (ts_internal (lib_of env)) (sv_json_dumps env) (sv_fragments env df)))))))"

definition meta_headers :: "'t server_env \<Rightarrow> metadata \<Rightarrow> headers" where
  "meta_headers env m =
     hk_update (hk_set [] ''Content-Type'' (dict_get m ''Content-Type'' ''application/octet-stream''))
       (filter (\<lambda>(k, v). shown_meta env k) m)"

definition set_encoding :: "metadata \<Rightarrow> headers \<Rightarrow> headers" where
  "set_encoding m h = (case map_of m ''Content-Encoding'' of None \<Rightarrow> h | Some e \<Rightarrow> hk_set h ''Content-Encoding'' e)"

text \<open>The response of GET, in the order of its statements.  Ranges and conditions are applied to it by the library.\<close>

definition get_headers :: "'t server_env \<Rightarrow> 't disk_file \<Rightarrow> metadata \<Rightarrow> pyexc + headers" where
  "get_headers env df m =
     try_then (try_then (key_of m ''Content-Length'') int_of) (\<lambda>obj_size.
     try_then (try_then (key_of m ''X-Timestamp'') (\<lambda>x. timestamp_of (lib_of env) (Some x))) (\<lambda>file_x_ts.
     try_then (key_of m ''ETag'') (\<lambda>etag.
       (let h = hk_set (meta_headers env m) ''Etag'' (quoted etag);
            h = hk_set h ''Last-Modified'' (sv_last_modified env file_x_ts);
            h = hk_set h ''Content-Length'' (str_int obj_size)
        in backend_headers env df file_x_ts (set_encoding m h)))))"

text \<open>The response of HEAD, in the order of its statements.\<close>

definition head_headers :: "'t server_env \<Rightarrow> 't disk_file \<Rightarrow> metadata \<Rightarrow> pyexc + headers" where
  "head_headers env df m =
     try_then (key_of m ''ETag'') (\<lambda>etag.
     try_then (try_then (key_of m ''X-Timestamp'') (\<lambda>x. timestamp_of (lib_of env) (Some x))) (\<lambda>ts.
     try_then (backend_headers env df ts
        (hk_set (hk_set (meta_headers env m) ''Etag'' (quoted etag)) ''Last-Modified'' (sv_last_modified env ts))) (\<lambda>h.
     try_then (try_then (key_of m ''Content-Length'') int_of) (\<lambda>n.
       Inr (set_encoding m (hk_set h ''Content-Length'' (str_int n)))))))"

text \<open>What GET and HEAD answer when the object can not be read.\<close>

definition read_error :: "'t :: order_bot server_env \<Rightarrow> pyexc \<Rightarrow> raised + response" where
  "read_error env e =
     (if e = DiskFileXattrNotSupported then Inr (reply 507)
      else if missing e
      then (case timestamp_of_exc (lib_of env) e of
              Inl e \<Rightarrow> Inl (Py e)
            | Inr None \<Rightarrow> Inr (reply 404)
            | Inr (Some t) \<Rightarrow> Inr (reply_with 404 [(''X-Backend-Timestamp'', ts_internal (lib_of env) t)]))
      else Inl (Py e))"

definition with_timestamp :: "'t server_env \<Rightarrow> headers \<Rightarrow> headers" where
  "with_timestamp env h = (if hk_get h ''X-Timestamp'' = None then hk_set h ''X-Timestamp'' (sv_now env) else h)"

text \<open>
  The bytes GET sends are those of the opened data file; how the reader hands them out is in theory
  \<open>Reader\<close>.
\<close>

definition body_of :: "'t disk_file \<Rightarrow> hash_dir \<Rightarrow> string" where
  "body_of df d =
     (case df_data_file df of
        None \<Rightarrow> []
      | Some p \<Rightarrow> (case file_at d p of None \<Rightarrow> [] | Some f \<Rightarrow> st_body f))"

definition read_request ::
  "'t :: {linorder, order_bot} server_env \<Rightarrow> request \<Rightarrow> server_state
     \<Rightarrow> ('t \<Rightarrow> 't policy_ops \<Rightarrow> 't disk_file \<Rightarrow> server_state \<Rightarrow> server_state \<times> (raised + response))
     \<Rightarrow> server_state \<times> (raised + response)" where
  "read_request env rq s f =
     (let h = rq_headers rq in
     and_then (s, placement_of env h) (\<lambda>s pl.
     (let h = with_timestamp env h in
     and_then (s, sv_valid_timestamp env h) (\<lambda>s t.
       case get_diskfile env pl (hk_get h ''X-Backend-Fragment-Preferences'') None (sv_open_expired env h) of
         Inl e \<Rightarrow> (s, if e = DiskFileDeviceUnavailable then Inr (reply 507) else Inl (Py e))
       | Inr (ops, df) \<Rightarrow> f t ops df s))))"

definition GET ::
  "'t :: {linorder, order_bot} server_env \<Rightarrow> request \<Rightarrow> server_state \<Rightarrow> server_state \<times> (raised + response)" where
  "GET env rq s =
     read_request env rq s (\<lambda>t ops df s.
       case open_disk_file ops (sv_df env) df (od_dir (ss_disk s)) (sv_expired env t) of
         (df, d, r) \<Rightarrow>
           (s\<lparr>ss_disk := (ss_disk s)\<lparr>od_dir := d\<rparr>\<rparr>,
            case try_then r (\<lambda>u. try_then (get_metadata df) (get_headers env df)) of
              Inl e \<Rightarrow> read_error env e
            | Inr h \<Rightarrow> Inr \<lparr>rs_status = 200, rs_headers = h, rs_body = body_of df d\<rparr>))"

definition HEAD ::
  "'t :: {linorder, order_bot} server_env \<Rightarrow> request \<Rightarrow> server_state \<Rightarrow> server_state \<times> (raised + response)" where
  "HEAD env rq s =
     read_request env rq s (\<lambda>t ops df s.
       case read_orig env ops df t s of
         (df, s, Inl e) \<Rightarrow> (s, read_error env e)
       | (df, s, Inr m) \<Rightarrow>
           (s, case head_headers env df m of Inl e \<Rightarrow> Inl (Py e) | Inr h \<Rightarrow> Inr (reply_with 200 h)))"

section \<open>DELETE\<close>

text \<open>
  The time and the metadata of what is there, and the status of the response; an object that is missing
  has time 0.
\<close>

definition delete_found ::
  "'t :: {linorder, order_bot} ts_lib \<Rightarrow> 't disk_file \<Rightarrow> 't \<Rightarrow> pyexc + metadata \<Rightarrow> (raised + response) + 't \<times> metadata \<times> nat" where
  "delete_found lib df t r =
     (case r of
        Inr m \<Rightarrow>
          (case data_timestamp lib df of
             Inl e \<Rightarrow> Inl (Inl (Py e))
           | Inr orig \<Rightarrow> Inr (orig, m, if orig < t then 204 else 409))
      | Inl e \<Rightarrow>
          if e = DiskFileXattrNotSupported then Inl (Inr (reply 507))
          else (case timestamp_of_exc lib e of
                  Inl e \<Rightarrow> Inl (Inl (Py e))
                | Inr (Some orig) \<Rightarrow> Inr (orig, case e of DiskFileExpired m \<Rightarrow> m | _ \<Rightarrow> [], 404)
                | Inr None \<Rightarrow> if missing e then Inr (bot, [], 404) else Inl (Inl (Py e))))"

text \<open>\<^verbatim>\<open>X-If-Delete-At\<close>: the response of a request that may not delete, or the status.\<close>

definition if_delete_at ::
  "'t :: {linorder, order_bot} ts_lib \<Rightarrow> headers \<Rightarrow> 't \<Rightarrow> 't \<Rightarrow> 't \<Rightarrow> nat \<Rightarrow> response + nat" where
  "if_delete_at lib h t orig_timestamp orig_delete_at status =
     (case hk_get h ''x-if-delete-at'' of
        None \<Rightarrow> Inr status
      | Some v \<Rightarrow>
          (case ts_parse lib v of
             None \<Rightarrow> Inl (reply 400)
           | Some at \<Rightarrow>
               if \<not> ts_truth lib orig_timestamp then Inl (reply 404)
               else if t \<le> orig_timestamp then Inl (reply 409)
               else if orig_delete_at \<noteq> at then Inl (reply 412)
               else Inr 204))"

definition delete_commit ::
  "'t :: {linorder, order_bot} server_env \<Rightarrow> placement \<Rightarrow> request \<Rightarrow> 't \<Rightarrow> 't disk_file \<Rightarrow> 't \<Rightarrow> response \<Rightarrow> server_state
     \<Rightarrow> server_state \<times> (raised + response)" where
  "delete_commit env pl rq t df orig_timestamp resp s =
     (let lib = lib_of env in
      if \<not> orig_timestamp < t then (s, Inr resp)
      else (let (d, r) = delete_object lib (sv_os env) (sv_put env df) (ss_disk s) t;
                s = s\<lparr>ss_disk := d\<rparr>
            in case r of
                 Inl e \<Rightarrow> (s, if e = DiskFileNoSpace then Inr (reply 507) else Inl (Py e))
               | Inr u \<Rightarrow>
                   and_then (with_events (container_update (sv_updates env) ''DELETE'' pl rq
                       (hk_update [] [(''x-timestamp'', ts_internal lib t)])) s)
                     (\<lambda>s u. (s, Inr resp))))"

definition DELETE ::
  "'t :: {linorder, order_bot} server_env \<Rightarrow> request \<Rightarrow> server_state \<Rightarrow> server_state \<times> (raised + response)" where
  "DELETE env rq s =
     (let h = rq_headers rq; lib = lib_of env in
     and_then (s, placement_of env h) (\<lambda>s pl.
     and_then (s, sv_valid_timestamp env h) (\<lambda>s t.
       case get_diskfile env pl None None False of
         Inl e \<Rightarrow> (s, if e = DiskFileDeviceUnavailable then Inr (reply 507) else Inl (Py e))
       | Inr (ops, df) \<Rightarrow>
           (let (df, s, r) = read_orig env ops df t s
            in case delete_found lib df t r of
                 Inl x \<Rightarrow> (s, x)
               | Inr (orig_timestamp, orig, status) \<Rightarrow>
                   and_then (s, py (case given (map_of orig ''X-Delete-At'') of
                               None \<Rightarrow> Inr bot | Some x \<Rightarrow> timestamp_of lib (Some x))) (\<lambda>s orig_delete_at.
                     case if_delete_at lib h t orig_timestamp orig_delete_at status of
                       Inl resp \<Rightarrow> (s, Inr resp)
                     | Inr status \<Rightarrow>
                         and_then (with_events (conditional_delete_at_update (sv_updates env) pl rq t []
                             (if ts_truth lib orig_delete_at then Some (AtTime orig_delete_at) else None) 0) s) (\<lambda>s u.
                           delete_commit env pl rq t df orig_timestamp
                             (reply_with status [(''X-Backend-Timestamp'', ts_internal lib (max orig_timestamp t)),
                                (''X-Backend-Content-Type'', dict_get orig ''Content-Type'' [])]) s))))))"

section \<open>The entry point\<close>

text \<open>\<^verbatim>\<open>__call__\<close>: the method's handler, its exceptions as responses; \<open>None\<close> when a write does not end.\<close>

definition response_of :: "raised + response \<Rightarrow> response" where
  "response_of r =
     (case r of
        Inr resp \<Rightarrow> resp
      | Inl (Py DiskFileCollision) \<Rightarrow> reply 403
      | Inl (Http resp) \<Rightarrow> resp
      | Inl e \<Rightarrow> reply 500)"

definition call ::
  "'t :: {linorder, order_bot} server_env \<Rightarrow> put_request \<Rightarrow> server_state \<Rightarrow> (server_state \<times> response) option" where
  "call env rq s =
     (if \<not> sv_utf8 env (rq_headers rq) then Some (s, reply 412)
      else map_option (\<lambda>(s, r). (s, response_of r))
        (if rq_method rq = ''PUT'' then PUT env rq s
         else if rq_method rq = ''POST'' then Some (POST env (request.truncate rq) s)
         else if rq_method rq = ''GET'' then Some (GET env (request.truncate rq) s)
         else if rq_method rq = ''HEAD'' then Some (HEAD env (request.truncate rq) s)
         else if rq_method rq = ''DELETE'' then Some (DELETE env (request.truncate rq) s)
         else if rq_method rq \<in> {''REPLICATE'', ''SSYNC'', ''OPTIONS''} then Some (sv_other env rq s)
         else Some (s, Inr (reply 405))))"

end
