(* ===== verification/Register.thy ===== *)
theory Register
  imports ObjectServer
begin

text \<open>
  The object server of the replicated policy refines a register: per object, the server behaves like one
  atomic variable that holds nothing, an object or the mark of a deletion, each with its time, and takes
  writes that are newer than what it holds.
\<close>

section \<open>The register\<close>

datatype 't reg = Absent | Object 't metadata string | Tombstone 't

fun reg_time :: "'t :: order_bot reg \<Rightarrow> 't" where
  "reg_time Absent = bot"
| "reg_time (Object t m body) = t"
| "reg_time (Tombstone t) = t"

definition name_of :: "placement \<Rightarrow> string" where
  "name_of pl = slash # pl_account pl @ slash # pl_container pl @ slash # pl_obj pl"

definition path_of :: "'t server_env \<Rightarrow> placement \<Rightarrow> string" where
  "path_of env pl = sv_storage_dir env (pl_device pl) (pl_partition pl) (pl_account pl) (pl_container pl) (pl_obj pl)"

definition placed :: "'t server_env \<Rightarrow> placement \<Rightarrow> bool" where
  "placed env pl \<longleftrightarrow> pl_account pl \<noteq> [] \<and> pl_container pl \<noteq> [] \<and> pl_obj pl \<noteq> [] \<and> sv_device_ok env (pl_device pl) \<and>
     path_of env pl \<noteq> []"

text \<open>A server of the replicated policy.\<close>

definition replicated :: "'t :: {linorder, order_bot} server_env \<Rightarrow> bool" where
  "replicated env \<longleftrightarrow>
     sv_policy env = (\<lambda>prefs i. Inr (repl_ops (lib_of env))) \<and>
     sv_put env = (\<lambda>df. repl_put (sv_df env) (sv_os env) (df_datadir df) (case df_name df of None \<Rightarrow> [] | Some n \<Rightarrow> n)) \<and>
     sv_commit env = (\<lambda>df d t. (d, Inr ())) \<and> sv_durable env = durable_timestamp (lib_of env) \<and>
     sv_fragments env = (\<lambda>df. None)"

text \<open>The metadata of an object that was put.\<close>

definition stored_ok :: "'t server_env \<Rightarrow> string \<Rightarrow> 't \<Rightarrow> metadata \<Rightarrow> string \<Rightarrow> bool" where
  "stored_ok env name t m body \<longleftrightarrow>
     internal_ok (lib_of env) t \<and> distinct (map fst m) \<and> map_of m ''name'' = Some name \<and>
     map_of m ''X-Timestamp'' = Some (ts_internal (lib_of env) t) \<and>
     map_of m ''Content-Length'' = Some (str_nat (length body)) \<and> map_of m ''ETag'' = Some (sv_md5 env body) \<and>
     map_of m ''X-Delete-At'' = None"

text \<open>The newest file of a directory, of a given kind.\<close>

definition newest_file :: "'t :: linorder ts_lib \<Rightarrow> hash_dir \<Rightarrow> 't \<Rightarrow> string \<Rightarrow> string \<Rightarrow> stored \<Rightarrow> bool" where
  "newest_file lib d t ext n f \<longleftrightarrow>
     sole_newest (put_info t ext n) (set (infos (base_parse_filename lib) (names_of d))) \<and>
     slash \<notin> set n \<and> map_of (files_in d) n = Some f"

definition holds :: "'t :: {linorder, order_bot} server_env \<Rightarrow> string \<Rightarrow> 't reg \<Rightarrow> odisk \<Rightarrow> bool" where
  "holds env name reg s \<longleftrightarrow> dir_ok (od_dir s) \<and> relink_ok (od_other s) \<and>
     (case reg of
        Absent \<Rightarrow> od_dir s = Missing
      | Object t m body \<Rightarrow> stored_ok env name t m body \<and>
          (\<exists>n f. newest_file (lib_of env) (od_dir s) t ''.data'' n f \<and> st_body f = body \<and> st_md f = Inr m \<and> st_open_error f = None)
      | Tombstone t \<Rightarrow> internal_ok (lib_of env) t \<and>
          (\<exists>n f m. newest_file (lib_of env) (od_dir s) t ''.ts'' n f \<and> st_md f = Inr m \<and>
             map_of m ''X-Timestamp'' = Some (ts_internal (lib_of env) t)))"

lemma newest_file_dir: "newest_file lib d t ext n f \<Longrightarrow> \<exists>fs. d = Files fs"
  by (cases d) (auto simp: newest_file_def files_in_def)

lemma open_missing:
  "\<exists>df'. open_disk_file (repl_ops (de_lib env)) env df Missing expired = (df', Missing, Inl DiskFileNotExist)"
proof -
  obtain r where run: "\<And>verify. get_ondisk_files (repl_ops (de_lib env)) [] (df_datadir df) verify = Inr r"
    and out: "repl_outcome (base_parse_filename (de_lib env)) [] r"
    by (rule repl_run [of "de_lib env" "[]" "df_datadir df"]) (rule that)
  have d: "r_data_info r = None"
    using outcome_choice(1) [OF out refl] by (cases "r_data_info r") (auto simp: newest_def live_data_def with_ext_def)
  have "r_ts_info r = None"
    using outcome_choice(2) [OF out refl d] by (cases "r_ts_info r") (auto simp: newest_def with_ext_def)
  with d have "r_data_file r = None" "r_ts_file r = None"
    using choose_paths [OF run [of True]] by simp_all
  then show ?thesis by (simp add: open_disk_file_def run exception_from_ts_file_def)
qed

lemma check_data_file_name: "df_name df = Some n \<Longrightarrow> df_name (fst (check_data_file env df d expired m body)) = Some n"
  by (simp add: check_data_file_def Let_def split: option.split sum.split)

lemma read_meta_files_name: "df_name (fst (read_meta_files env df d info)) = df_name df"
  by (auto simp: read_meta_files_def Let_def merge_content_type_def split: option.splits sum.splits prod.splits if_splits)

lemma construct_name:
  assumes "df_name df = Some n"
  shows "df_name (fst (construct_from_data_file env df d expired info path)) = Some n"
proof -
  have "df_name df1 = Some n"
    if "read_meta_files env (df\<lparr>df_datafile := dm, df_metadata := m\<rparr>) d info = (df1, d1, r)" for dm m d d1 df1 r
    using read_meta_files_name [of env "df\<lparr>df_datafile := dm, df_metadata := m\<rparr>" d info] that assms by simp
  then show ?thesis
    using assms by (auto simp: construct_from_data_file_def Let_def check_data_file_name split: option.split sum.split prod.split)
qed

lemma open_name:
  assumes "df_name df = Some n"
  shows "df_name (fst (open_disk_file ops env df d expired)) = Some n"
proof -
  have "df_name df1 = Some n"
    if "construct_from_data_file env (df\<lparr>df_ondisk_info := i, df_data_file := p\<rparr>) d expired info path = (df1, d1, r)"
    for i p d info path df1 d1 r
    using construct_name [of "df\<lparr>df_ondisk_info := i, df_data_file := p\<rparr>" n env d expired info path] that assms by simp
  with assms show ?thesis
    by (auto simp: open_disk_file_def Let_def split: option.split sum.split prod.split hash_dir.split pyexc.split)
qed

lemma open_object:
  fixes env :: "'t :: {linorder, order_bot} server_env"
  assumes "holds env name (Object t m body) s" and "df_name df = Some name"
  shows "\<exists>df'. open_disk_file (repl_ops (lib_of env)) (sv_df env) df (od_dir s) expired = (df', od_dir s, Inr ()) \<and>
    df_metadata df' = Some m \<and> df_datafile df' = Some m \<and> body_of df' (od_dir s) = body"
proof -
  obtain n f where st: "stored_ok env name t m body" and n: "newest_file (lib_of env) (od_dir s) t ''.data'' n f"
    and f: "st_body f = body" "st_md f = Inr m" "st_open_error f = None"
    using assms(1) by (auto simp: holds_def)
  obtain fs where fs: "od_dir s = Files fs" using newest_file_dir [OF n] ..
  have i: "sole_newest (put_info t ''.data'' n) (set (infos (base_parse_filename (de_lib (sv_df env))) (map fst fs)))"
    "slash \<notin> set n" "map_of fs n = Some f"
    using n by (simp_all add: newest_file_def fs names_of_def files_in_def lib_of_def)
  have v: "verify_data_file df' expired m (st_body f) = Inr (int (length body))"
    if "df_name df' = df_name df" for df' :: "'t disk_file"
    using that st assms(2) by (simp add: verify_data_file_def stored_ok_def f)
  have "\<exists>df'. open_disk_file (repl_ops (de_lib (sv_df env))) (sv_df env) df (Files fs) expired = (df', Files fs, Inr ()) \<and>
      df_metadata df' = Some m \<and> df_datafile df' = Some m \<and>
      df_data_file df' = Some (join (df_datadir df) (fi_filename (put_info t ''.data'' n))) \<and> df_fp df' \<and>
      df_content_length df' = Some (int (length body))"
    by (rule open_data [OF i(1), where f = f]) (use i f st assms(2) v in \<open>simp_all add: put_info_def stored_ok_def\<close>)
  then obtain df' where df': "open_disk_file (repl_ops (de_lib (sv_df env))) (sv_df env) df (Files fs) expired = (df', Files fs, Inr ())"
    "df_metadata df' = Some m" "df_datafile df' = Some m" "df_data_file df' = Some (join (df_datadir df) n)"
    by (auto simp: put_info_def)
  moreover have "body_of df' (Files fs) = body" using i(2,3) f(1) by (simp add: body_of_def df'(4) file_at_join)
  ultimately show ?thesis by (auto simp: fs lib_of_def)
qed

lemma open_deleted:
  assumes "holds env name (Tombstone t) s"
  shows "\<exists>df' m. open_disk_file (repl_ops (lib_of env)) (sv_df env) df (od_dir s) expired = (df', od_dir s, Inl (DiskFileDeleted m)) \<and>
    exc_timestamp (lib_of env) m = Inr t"
proof -
  obtain n f m where ok: "internal_ok (lib_of env) t" and n: "newest_file (lib_of env) (od_dir s) t ''.ts'' n f"
    and f: "st_md f = Inr m" "map_of m ''X-Timestamp'' = Some (ts_internal (lib_of env) t)"
    using assms by (auto simp: holds_def)
  obtain fs where fs: "od_dir s = Files fs" using newest_file_dir [OF n] ..
  have i: "sole_newest (put_info t ''.ts'' n) (set (infos (base_parse_filename (de_lib (sv_df env))) (map fst fs)))"
    "slash \<notin> set n" "map_of fs n = Some f"
    using n by (simp_all add: newest_file_def fs names_of_def files_in_def lib_of_def)
  have "\<exists>df'. open_disk_file (repl_ops (de_lib (sv_df env))) (sv_df env) df (Files fs) expired = (df', Files fs, Inl (DiskFileDeleted m))"
    by (rule open_tombstone [OF i(1), where f = f]) (use i f in \<open>simp_all add: put_info_def\<close>)
  moreover have "exc_timestamp (lib_of env) m = Inr t"
    using f(2) ok by (simp add: exc_timestamp_def timestamp_of_def internal_ok_def)
  ultimately show ?thesis by (auto simp: fs lib_of_def)
qed

lemma holds_newer:
  assumes "holds env name reg s" and "reg_time reg < t"
  shows "newer_than_all (lib_of env) t (od_dir s)"
proof (cases reg)
  case Absent
  then show ?thesis using assms(1) by (simp add: holds_def newer_than_all_def names_of_def)
next
  case (Object u m body)
  then obtain n where "sole_newest (put_info u ''.data'' n) (set (infos (base_parse_filename (lib_of env)) (names_of (od_dir s))))"
    using assms(1) by (auto simp: holds_def newest_file_def)
  then show ?thesis using assms(2) Object by (fastforce simp: newer_than_all_def sole_newest_def put_info_def)
next
  case (Tombstone u)
  then obtain n where "sole_newest (put_info u ''.ts'' n) (set (infos (base_parse_filename (lib_of env)) (names_of (od_dir s))))"
    using assms(1) by (auto simp: holds_def newest_file_def)
  then show ?thesis using assms(2) Tombstone by (fastforce simp: newer_than_all_def sole_newest_def put_info_def)
qed

lemma get_diskfile_placed:
  assumes "placed env pl" and "replicated env"
  shows "\<exists>df. get_diskfile env pl prefs i oe = Inr (repl_ops (lib_of env), df) \<and> df_name df = Some (name_of pl) \<and>
    df_datadir df = path_of env pl"
  using assms
  by (auto simp: placed_def replicated_def get_diskfile_def new_disk_file_def path_of_def name_of_def Let_def split: list.splits)

text \<open>What reading the object's metadata finds, and the handlers make of it.\<close>

definition read_as :: "'t :: {linorder, order_bot} server_env \<Rightarrow> 't reg \<Rightarrow> 't disk_file \<Rightarrow> pyexc + metadata \<Rightarrow> bool" where
  "read_as env reg df r =
     (case reg of
        Absent \<Rightarrow> r = Inl DiskFileNotExist
      | Object t m body \<Rightarrow> r = Inr m \<and> df_metadata df = Some m \<and> df_datafile df = Some m
      | Tombstone t \<Rightarrow> (\<exists>m. r = Inl (DiskFileDeleted m) \<and> exc_timestamp (lib_of env) m = Inr t))"

lemma read_orig_holds:
  assumes "holds env name reg (ss_disk s)" and "df_name df = Some name"
  shows "\<exists>df' r. read_orig env (repl_ops (lib_of env)) df t s = (df', s, r) \<and> read_as env reg df' r \<and> df_name df' = Some name"
proof -
  have "\<exists>df' r. read_orig env (repl_ops (lib_of env)) df t s = (df', s, r) \<and> read_as env reg df' r"
  proof (cases reg)
    case Absent
    then have d: "od_dir (ss_disk s) = Missing" using assms(1) by (simp add: holds_def)
    from open_missing [of "sv_df env" df "sv_expired env t"] obtain df' where
      "open_disk_file (repl_ops (de_lib (sv_df env))) (sv_df env) df Missing (sv_expired env t) = (df', Missing, Inl DiskFileNotExist)" ..
    then show ?thesis
      using Absent d [symmetric] by (simp add: read_orig_def read_object_metadata_def lib_of_def read_as_def d)
  next
    case (Object u m body)
    from open_object [OF assms(1) [unfolded Object] assms(2)] obtain df' where
      "open_disk_file (repl_ops (lib_of env)) (sv_df env) df (od_dir (ss_disk s)) (sv_expired env t) = (df', od_dir (ss_disk s), Inr ())"
      "df_metadata df' = Some m" "df_datafile df' = Some m" by blast
    then show ?thesis
      using Object by (simp add: read_orig_def read_object_metadata_def read_as_def get_metadata_def close_disk_file_def)
  next
    case (Tombstone u)
    from open_deleted [OF assms(1) [unfolded Tombstone]] obtain df' m where
      "open_disk_file (repl_ops (lib_of env)) (sv_df env) df (od_dir (ss_disk s)) (sv_expired env t) = (df', od_dir (ss_disk s), Inl (DiskFileDeleted m))"
      "exc_timestamp (lib_of env) m = Inr u" by blast
    then show ?thesis
      using Tombstone by (simp add: read_orig_def read_object_metadata_def read_as_def)
  qed
  moreover have "df_name (fst (read_orig env (repl_ops (lib_of env)) df t s)) = Some name"
    using open_name [OF assms(2)] by (auto simp: read_orig_def read_object_metadata_def close_disk_file_def split: prod.split sum.split dest!: arg_cong [where f = fst])
  ultimately show ?thesis by fastforce
qed

text \<open>Updates of the container that raise nothing.\<close>

definition updates_ok :: "'t server_env \<Rightarrow> placement \<Rightarrow> request \<Rightarrow> bool" where
  "updates_ok env pl rq \<longleftrightarrow> (\<forall>op h evs. snd (container_update (sv_updates env) op pl rq h evs) = Inr ())"

lemma with_events_update:
  assumes "updates_ok env pl rq"
  shows "\<exists>evs. with_events (container_update (sv_updates env) op pl rq h) s = (s\<lparr>ss_events := evs\<rparr>, Inr ())"
proof -
  have "snd (container_update (sv_updates env) op pl rq h (ss_events s)) = Inr ()" using assms by (simp add: updates_ok_def)
  then show ?thesis by (cases "container_update (sv_updates env) op pl rq h (ss_events s)") (auto simp: with_events_def)
qed

section \<open>DELETE\<close>

definition delete_check :: "'t :: {linorder, order_bot} server_env \<Rightarrow> placement \<Rightarrow> 't \<Rightarrow> put_request \<Rightarrow> bool" where
  "delete_check env pl t rq \<longleftrightarrow>
     rq_method rq = ''DELETE'' \<and> sv_utf8 env (rq_headers rq) \<and> placement_of env (rq_headers rq) = Inr pl \<and>
     sv_valid_timestamp env (rq_headers rq) = Inr t \<and> hk_get (rq_headers rq) ''x-if-delete-at'' = None \<and>
     \<not> is_reclaimable (de_clean (sv_df env)) t \<and> bot < t"

definition plain_delete :: "'t :: {linorder, order_bot} server_env \<Rightarrow> placement \<Rightarrow> 't \<Rightarrow> put_request \<Rightarrow> bool" where
  "plain_delete env pl t rq \<longleftrightarrow>
     delete_check env pl t rq \<and> internal_ok (lib_of env) t \<and> updates_ok env pl (request.truncate rq)"

fun reg_delete :: "'t :: {linorder, order_bot} \<Rightarrow> 't reg \<Rightarrow> nat \<times> 't reg" where
  "reg_delete t Absent = (404, Tombstone t)"
| "reg_delete t (Object u m body) = (if u < t then (204, Tombstone t) else (409, Object u m body))"
| "reg_delete t (Tombstone u) = (404, if u < t then Tombstone t else Tombstone u)"

lemma delete_object_holds:
  fixes env :: "'t :: {linorder, order_bot} server_env"
  assumes "holds env name reg s" and "reg_time reg < t" and "replicated env" and "os_ok (sv_os env)"
    and "internal_ok (lib_of env) t" and "\<not> is_reclaimable (de_clean (sv_df env)) t" and "df_name df = Some name"
  shows "\<exists>s'. delete_object (lib_of env) (sv_os env) (sv_put env df) s t = (s', Inr ()) \<and> holds env name (Tombstone t) s'"
proof -
  let ?md = "[(''X-Timestamp'', ts_internal (de_lib (sv_df env)) t)]"
  obtain w u where open': "writer_open (sv_os env) (od_use_linkat s) (new_writer None ''.ts'') = (w, u, Inr ())" "wr_ext w = ''.ts''"
    by (rule writer_opens [OF assms(4)]) (rule that)
  let ?s = "s\<lparr>od_use_linkat := u\<rparr>" and ?n = "ts_internal (de_lib (sv_df env)) t @ wr_ext w"
  have d: "dir_ok (od_dir ?s)" "relink_ok (od_other ?s)" "newer_than_all (de_lib (sv_df env)) t (od_dir ?s)"
    using assms(1) holds_newer [OF assms(1,2)] by (simp_all add: holds_def lib_of_def)
  have t: "internal_ok (de_lib (sv_df env)) t" "map_of ?md ''X-Timestamp'' = Some (ts_internal (de_lib (sv_df env)) t)"
    "map_of ?md ''Content-Type-Timestamp'' = None"
    "wr_ext w = ''.data'' \<or> wr_ext w = ''.ts'' \<and> \<not> is_reclaimable (de_clean (sv_df env)) t"
    using assms(5,6) open'(2) by (simp_all add: lib_of_def)
  obtain s' fs where put: "repl_put (sv_df env) (sv_os env) (df_datadir df) name w ?s ?md = (w\<lparr>wr_put_succeeded := True\<rparr>, s', Inr ())"
    and fs: "od_dir s' = Files fs" "distinct (map fst fs)" "relink_ok (od_other s')"
    and i: "sole_newest (put_info t (wr_ext w) ?n) (set (infos (base_parse_filename (de_lib (sv_df env))) (map fst fs)))"
    and f: "map_of fs ?n = Some (new_file w name ?md)" "slash \<notin> set ?n"
    by (rule put_newest [OF d(1,2) assms(4) t d(3), where path = "df_datadir df" and name = name]) (rule that)
  have "newest_file (lib_of env) (od_dir s') t ''.ts'' ?n (new_file w name ?md)"
    using i f by (simp add: newest_file_def fs names_of_def files_in_def lib_of_def open'(2))
  moreover have "st_md (new_file w name ?md) = Inr (AList.update ''name'' name ?md)"
    "map_of (AList.update ''name'' name ?md) ''X-Timestamp'' = Some (ts_internal (lib_of env) t)"
    by (simp_all add: new_file_def lib_of_def)
  ultimately have "\<exists>n f m. newest_file (lib_of env) (od_dir s') t ''.ts'' n f \<and> st_md f = Inr m \<and>
      map_of m ''X-Timestamp'' = Some (ts_internal (lib_of env) t)"
    by (intro exI conjI)
  then have "holds env name (Tombstone t) s'"
    using fs assms(5) by (simp add: holds_def)
  moreover have "delete_object (lib_of env) (sv_os env) (sv_put env df) s t = (s', Inr ())"
    using put open' assms(3,7) by (simp add: delete_object_def create_and_put_def replicated_def lib_of_def)
  ultimately show ?thesis by blast
qed

lemma holds_events [simp]: "ss_disk (s\<lparr>ss_events := evs\<rparr>) = ss_disk s"
  by simp

lemma delete_found_as:
  assumes "holds env name reg d" and "read_as env reg df r"
  shows "\<exists>orig. delete_found (lib_of env) df t r = Inr (reg_time reg, orig, fst (reg_delete t reg)) \<and>
    map_of orig ''X-Delete-At'' = None"
proof (cases reg)
  case Absent
  then have "delete_found (lib_of env) df t r = Inr (bot, [], 404)"
    using assms(2) by (simp add: read_as_def delete_found_def timestamp_of_exc_def missing_def)
  then show ?thesis using Absent by simp
next
  case (Object u m body)
  then have r: "r = Inr m" "df_datafile df = Some m" using assms(2) by (simp_all add: read_as_def)
  moreover have "data_timestamp (lib_of env) df = Inr u" "map_of m ''X-Delete-At'' = None"
    using assms(1) Object r(2) by (simp_all add: holds_def stored_ok_def data_timestamp_def timestamp_of_def internal_ok_def)
  ultimately show ?thesis using Object by (simp add: delete_found_def)
next
  case (Tombstone u)
  then obtain m where "r = Inl (DiskFileDeleted m)" "exc_timestamp (lib_of env) m = Inr u" using assms(2) by (auto simp: read_as_def)
  then have "delete_found (lib_of env) df t r = Inr (u, [], 404)"
    by (simp add: delete_found_def timestamp_of_exc_def)
  then show ?thesis using Tombstone by simp
qed

lemma delete_steps:
  fixes env :: "'t :: {linorder, order_bot} server_env"
  assumes "plain_delete env pl t rq" and "placed env pl" and "replicated env" and "os_ok (sv_os env)"
    and bot: "\<not> ts_truth (lib_of env) bot" and "holds env (name_of pl) reg (ss_disk s)"
  shows "\<exists>s' resp. call env rq s = Some (s', resp) \<and> rs_status resp = fst (reg_delete t reg) \<and>
    holds env (name_of pl) (snd (reg_delete t reg)) (ss_disk s')"
proof -
  let ?rq = "request.truncate rq"
  have h: "rq_headers ?rq = rq_headers rq" by (simp add: request.truncate_def)
  obtain df where df: "get_diskfile env pl None None False = Inr (repl_ops (lib_of env), df)" "df_name df = Some (name_of pl)"
    using get_diskfile_placed [OF assms(2,3)] by blast
  obtain df' r where rd: "read_orig env (repl_ops (lib_of env)) df t s = (df', s, r)" "read_as env reg df' r"
    and nm: "df_name df' = Some (name_of pl)"
    using read_orig_holds [OF assms(6) df(2)] by blast
  obtain orig where fd: "delete_found (lib_of env) df' t r = Inr (reg_time reg, orig, fst (reg_delete t reg))"
    "map_of orig ''X-Delete-At'' = None"
    using delete_found_as [OF assms(6) rd(2)] by blast
  let ?resp = "reply_with (fst (reg_delete t reg)) [(''X-Backend-Timestamp'', ts_internal (lib_of env) (max (reg_time reg) t)),
      (''X-Backend-Content-Type'', dict_get orig ''Content-Type'' [])]"
  have c: "with_events (conditional_delete_at_update (sv_updates env) pl ?rq t [] None 0) s = (s, Inr ())"
    by (simp add: with_events_def conditional_delete_at_update_def)
  have D: "DELETE env ?rq s = delete_commit env pl ?rq t df' (reg_time reg) ?resp s"
    using assms(1) fd(2) bot
    by (simp add: DELETE_def plain_delete_def delete_check_def h Let_def df(1) rd(1) fd(1) if_delete_at_def given_def c)
  have call: "call env rq s = Some (fst (DELETE env ?rq s), response_of (snd (DELETE env ?rq s)))"
    using assms(1) by (simp add: call_def plain_delete_def delete_check_def split_def)
  show ?thesis
  proof (cases "reg_time reg < t")
    case False
    then have "snd (reg_delete t reg) = reg" using assms(1) by (cases reg) (auto simp: plain_delete_def delete_check_def)
    moreover have "DELETE env ?rq s = (s, Inr ?resp)" using False by (simp add: D delete_commit_def)
    ultimately show ?thesis using call assms(6) by (simp add: response_of_def reply_with_def)
  next
    case True
    have p: "internal_ok (lib_of env) t" "\<not> is_reclaimable (de_clean (sv_df env)) t" "updates_ok env pl ?rq"
      using assms(1) by (simp_all add: plain_delete_def delete_check_def)
    obtain d where d: "delete_object (lib_of env) (sv_os env) (sv_put env df') (ss_disk s) t = (d, Inr ())"
      "holds env (name_of pl) (Tombstone t) d"
      using delete_object_holds [OF assms(6) True assms(3,4) p(1,2) nm] by blast
    obtain evs where "with_events (container_update (sv_updates env) ''DELETE'' pl ?rq
        (hk_update [] [(''x-timestamp'', ts_internal (lib_of env) t)])) (s\<lparr>ss_disk := d\<rparr>) = (s\<lparr>ss_disk := d, ss_events := evs\<rparr>, Inr ())"
      using with_events_update [OF p(3), of "''DELETE''" _ "s\<lparr>ss_disk := d\<rparr>"] by fastforce
    then have "DELETE env ?rq s = (s\<lparr>ss_disk := d, ss_events := evs\<rparr>, Inr ?resp)"
      using True by (simp add: D delete_commit_def d(1))
    moreover have "snd (reg_delete t reg) = Tombstone t" using True by (cases reg) auto
    ultimately show ?thesis using call d(2) by (simp add: response_of_def reply_with_def)
  qed
qed

section \<open>PUT\<close>

definition system_keys :: "string list" where
  "system_keys = [''X-Timestamp'', ''Content-Length'', ''ETag'', ''Content-Type-Timestamp'', ''X-Delete-At'', ''name'']"

text \<open>An upload of given bytes without footers, commit phase, expiry or conditions.\<close>

definition upload_check :: "'t :: {linorder, order_bot} server_env \<Rightarrow> placement \<Rightarrow> 't \<Rightarrow> put_request \<Rightarrow> bool" where
  "upload_check env pl t rq \<longleftrightarrow>
     rq_method rq = ''PUT'' \<and> sv_utf8 env (rq_headers rq) \<and> placement_of env (rq_headers rq) = Inr pl \<and>
     sv_valid_timestamp env (rq_headers rq) = Inr t \<and>
     sv_check_creation env (rq_headers rq) (pl_obj pl) = None \<and> sv_if_none_match env (rq_headers rq) = None \<and>
     \<not> true_header env (rq_headers rq) ''X-Backend-Obj-Multiphase-Commit'' \<and>
     \<not> true_header env (rq_headers rq) ''X-Backend-Obj-Metadata-Footer'' \<and>
     hk_get (rq_headers rq) ''content-type'' \<noteq> None \<and> given (hk_get (rq_headers rq) ''X-Delete-At'') = None \<and>
     (\<forall>k \<in> set system_keys. \<not> is_object_meta env k) \<and>
     (\<forall>k \<in> set (copied_headers env (rq_headers rq)). title k \<in> set system_keys \<longrightarrow> hk_get (rq_headers rq) k = None)"

definition upload :: "'t :: {linorder, order_bot} server_env \<Rightarrow> placement \<Rightarrow> 't \<Rightarrow> string \<Rightarrow> put_request \<Rightarrow> bool" where
  "upload env pl t body rq \<longleftrightarrow>
     upload_check env pl t rq \<and> internal_ok (lib_of env) t \<and> updates_ok env pl (request.truncate rq) \<and>
     (\<exists>chunks. rq_reads rq = map Chunk chunks \<and> [] \<notin> set chunks \<and> concat chunks = body)"

text \<open>The size and the etag that the client announces, if any, are those of the bytes.\<close>

definition plain_put :: "'t :: {linorder, order_bot} server_env \<Rightarrow> placement \<Rightarrow> 't \<Rightarrow> string \<Rightarrow> put_request \<Rightarrow> bool" where
  "plain_put env pl t body rq \<longleftrightarrow> upload env pl t body rq \<and>
     object_size env (rq_headers rq) \<in> {Inr None, Inr (Some (int (length body)))} \<and>
     sv_normalize_etag env (hk_default (rq_headers rq) ''etag'' []) \<in> {[], sv_md5 env body}"

fun reg_put :: "'t :: {linorder, order_bot} \<Rightarrow> metadata \<Rightarrow> string \<Rightarrow> 't reg \<Rightarrow> nat \<times> 't reg" where
  "reg_put t m body reg = (if reg_time reg < t then (201, Object t m body) else (409, reg))"

lemma distinct_fold_update:
  "distinct (map fst m) \<Longrightarrow> distinct (map fst (fold (\<lambda>(k, v). AList.update k v) items m))"
  by (induction items arbitrary: m) (auto simp: distinct_update)

lemma distinct_copy_headers: "distinct (map fst m) \<Longrightarrow> distinct (map fst (copy_headers ks h m))"
  unfolding copy_headers_def by (induction ks arbitrary: m) (auto simp: distinct_update split: option.split)

lemma copy_headers_keeps:
  assumes "\<forall>k' \<in> set ks. title k' = k \<longrightarrow> hk_get h k' = None"
  shows "map_of (copy_headers ks h m) k = map_of m k"
  unfolding copy_headers_def using assms
  by (induction ks arbitrary: m) (auto split: option.split)

lemma copy_headers_some: "map_of m k \<noteq> None \<Longrightarrow> map_of (copy_headers ks h m) k \<noteq> None"
  unfolding copy_headers_def by (induction ks arbitrary: m) (auto split: option.split)

lemma request_metadata:
  assumes "upload env pl t body rq"
  obtains m where "get_request_metadata env (rq_headers rq) t (length body) (sv_md5 env body) = Inr m"
    "distinct (map fst m)" "map_of m ''X-Timestamp'' = Some (ts_internal (lib_of env) t)"
    "map_of m ''Content-Length'' = Some (str_nat (length body))" "map_of m ''ETag'' = Some (sv_md5 env body)"
    "map_of m ''X-Delete-At'' = None" "map_of m ''Content-Type-Timestamp'' = None" "map_of m ''Content-Type'' \<noteq> None"
proof -
  let ?h = "rq_headers rq" and ?meta = "filter (\<lambda>(k, v). is_object_meta env k) (rq_headers rq)"
  obtain c where c: "hk_get ?h ''content-type'' = Some c" using assms by (auto simp: upload_def upload_check_def)
  let ?b = "[(''X-Timestamp'', ts_internal (lib_of env) t), (''Content-Type'', c), (''Content-Length'', str_nat (length body)),
      (''ETag'', sv_md5 env body)]"
  let ?m = "copy_headers (copied_headers env ?h) ?h (dict_update ?b ?meta)"
  have no: "map_of (rev ?meta) k = None" if "k \<in> set system_keys" for k
    using that assms by (auto simp: upload_def upload_check_def map_of_eq_None_iff)
  have keep: "map_of ?m k = map_of ?b k" if "k \<in> set system_keys" for k
  proof -
    have "\<forall>k' \<in> set (copied_headers env ?h). title k' = k \<longrightarrow> hk_get ?h k' = None"
      using assms that by (auto simp: upload_def upload_check_def)
    from copy_headers_keeps [OF this] show ?thesis by (simp add: map_of_dict_update no [OF that])
  qed
  have "distinct (map fst ?m)"
    by (intro distinct_copy_headers) (simp add: dict_update_def distinct_fold_update)
  moreover have "get_request_metadata env ?h t (length body) (sv_md5 env body) = Inr ?m"
    by (simp add: get_request_metadata_def c)
  moreover have "map_of ?m ''Content-Type'' \<noteq> None"
    by (rule copy_headers_some) (simp add: map_of_dict_update split: option.split)
  ultimately show thesis using that [of ?m] keep by (simp add: system_keys_def)
qed

lemma stage_chunks_ok:
  assumes "writes_ok os" and "[] \<notin> set chunks" and "wr_fd w"
  shows "\<exists>w'. stage_chunks os bps (map Chunk chunks) w = Some (w', Inr ()) \<and> wr_data w' = wr_data w @ concat chunks \<and>
    wr_hashed w' = wr_hashed w @ concat chunks \<and> wr_upload_size w' = wr_upload_size w + length (concat chunks) \<and>
    wr_ext w' = wr_ext w \<and> wr_put_succeeded w' = wr_put_succeeded w"
  using assms(2,3)
proof (induction chunks arbitrary: w)
  case (Cons c chunks)
  obtain w1 where w1: "writer_write os bps w c = Some (w1, Inr ())" "wr_fd w1" "wr_data w1 = wr_data w @ c"
    "wr_hashed w1 = wr_hashed w @ c" "wr_upload_size w1 = wr_upload_size w + length c" "wr_ext w1 = wr_ext w"
    "wr_put_succeeded w1 = wr_put_succeeded w"
    using Cons.prems write_loop_ok [OF assms(1)] by (simp add: writer_write_def)
  from Cons.IH [OF _ w1(2)] Cons.prems show ?case by (auto simp: w1)
qed simp

text \<open>A temporary file can be made.\<close>

definition os_opens :: "os \<Rightarrow> bool" where
  "os_opens os \<longleftrightarrow> os_tmpfile os = None \<and> os_mkstemp os = None \<and> os_fallocate os = None \<and> os_free_space os"

lemma os_ok_opens: "os_ok os \<Longrightarrow> os_opens os"
  by (simp add: os_ok_def os_opens_def)

lemma stage_ok:
  assumes "os_opens (sv_os env)" and "writes_ok (sv_os env)" and "[] \<notin> set chunks"
  shows "\<exists>w u. stage_obj_data env (map Chunk chunks) fsize (new_writer n ''.data'') s =
      Some (w, s\<lparr>ss_disk := (ss_disk s)\<lparr>od_use_linkat := u\<rparr>\<rparr>,
        if fsize \<in> {None, Some (int (length (concat chunks)))} then Inr (length (concat chunks), sv_md5 env (concat chunks))
        else Inl (Http (reply 499))) \<and>
    wr_data w = concat chunks \<and> wr_ext w = ''.data''"
proof -
  obtain w u where w: "writer_open (sv_os env) (od_use_linkat (ss_disk s)) (new_writer n ''.data'') = (w, u, Inr ())"
    "wr_fd w" "wr_data w = []" "wr_hashed w = []" "wr_upload_size w = 0" "wr_ext w = ''.data''"
    using assms(1) by (cases "od_use_linkat (ss_disk s)") (auto simp: writer_open_def new_writer_def get_tempfile_def os_opens_def Let_def)
  from stage_chunks_ok [OF assms(2,3) w(2), of "sv_bytes_per_sync env"] obtain w' where
    "stage_chunks (sv_os env) (sv_bytes_per_sync env) (map Chunk chunks) w = Some (w', Inr ())"
    "wr_data w' = concat chunks" "wr_hashed w' = concat chunks" "wr_upload_size w' = length (concat chunks)" "wr_ext w' = ''.data''"
    by (auto simp: w)
  then show ?thesis
    by (cases fsize) (auto simp: stage_obj_data_def w(1) chunks_finished_def)
qed

lemma found_object_as:
  assumes "holds env name reg d" and "read_as env reg df r"
  shows "\<exists>orig. found_object (lib_of env) df r = Inr (orig, reg_time reg) \<and> map_of orig ''X-Delete-At'' = None"
proof (cases reg)
  case Absent
  then show ?thesis
    using assms(2) by (simp add: read_as_def found_object_def timestamp_of_exc_def missing_def)
next
  case (Object u m body)
  then have r: "r = Inr m" "df_datafile df = Some m" using assms(2) by (simp_all add: read_as_def)
  moreover have "data_timestamp (lib_of env) df = Inr u" "map_of m ''X-Delete-At'' = None"
    using assms(1) Object r(2) by (simp_all add: holds_def stored_ok_def data_timestamp_def timestamp_of_def internal_ok_def)
  ultimately show ?thesis using Object by (simp add: found_object_def)
next
  case (Tombstone u)
  then obtain m where "r = Inl (DiskFileDeleted m)" "exc_timestamp (lib_of env) m = Inr u" using assms(2) by (auto simp: read_as_def)
  then show ?thesis using Tombstone by (simp add: found_object_def timestamp_of_exc_def)
qed

lemma put_object_holds:
  fixes env :: "'t :: {linorder, order_bot} server_env"
  assumes "holds env name reg s" and "reg_time reg < t" and "replicated env" and "os_ok (sv_os env)"
    and "internal_ok (lib_of env) t" and "df_name df = Some name" and "wr_ext w = ''.data''" and "wr_data w = body"
    and "distinct (map fst m)" and "map_of m ''X-Timestamp'' = Some (ts_internal (lib_of env) t)"
    and "map_of m ''Content-Length'' = Some (str_nat (length body))" and "map_of m ''ETag'' = Some (sv_md5 env body)"
    and "map_of m ''X-Delete-At'' = None" and "map_of m ''Content-Type-Timestamp'' = None"
  shows "\<exists>w' s'. sv_put env df w s m = (w', s', Inr ()) \<and> holds env name (Object t (AList.update ''name'' name m) body) s'"
proof -
  let ?n = "ts_internal (de_lib (sv_df env)) t @ wr_ext w"
  have d: "dir_ok (od_dir s)" "relink_ok (od_other s)" "newer_than_all (de_lib (sv_df env)) t (od_dir s)"
    using assms(1) holds_newer [OF assms(1,2)] by (simp_all add: holds_def lib_of_def)
  have t: "internal_ok (de_lib (sv_df env)) t" "map_of m ''X-Timestamp'' = Some (ts_internal (de_lib (sv_df env)) t)"
    "wr_ext w = ''.data'' \<or> wr_ext w = ''.ts'' \<and> \<not> is_reclaimable (de_clean (sv_df env)) t"
    using assms(5,7,10) by (simp_all add: lib_of_def)
  obtain s' fs where put: "repl_put (sv_df env) (sv_os env) (df_datadir df) name w s m = (w\<lparr>wr_put_succeeded := True\<rparr>, s', Inr ())"
    and fs: "od_dir s' = Files fs" "distinct (map fst fs)" "relink_ok (od_other s')"
    and i: "sole_newest (put_info t (wr_ext w) ?n) (set (infos (base_parse_filename (de_lib (sv_df env))) (map fst fs)))"
    and f: "map_of fs ?n = Some (new_file w name m)" "slash \<notin> set ?n"
    by (rule put_newest [OF d(1,2) assms(4) t(1,2) assms(14) t(3) d(3), where path = "df_datadir df" and name = name]) (rule that)
  have "newest_file (lib_of env) (od_dir s') t ''.data'' ?n (new_file w name m)"
    using i f by (simp add: newest_file_def fs names_of_def files_in_def lib_of_def assms(7))
  then have "\<exists>n f. newest_file (lib_of env) (od_dir s') t ''.data'' n f \<and> st_body f = body \<and>
      st_md f = Inr (AList.update ''name'' name m) \<and> st_open_error f = None"
    using assms(8) by (intro exI [of _ ?n] exI [of _ "new_file w name m"]) (simp add: new_file_def)
  moreover have "stored_ok env name t (AList.update ''name'' name m) body"
    using assms(5,9-13) by (simp add: stored_ok_def distinct_update)
  ultimately have "holds env name (Object t (AList.update ''name'' name m) body) s'"
    using fs by (simp add: holds_def)
  moreover have "sv_put env df w s m = (w\<lparr>wr_put_succeeded := True\<rparr>, s', Inr ())"
    using put assms(3,6) by (simp add: replicated_def)
  ultimately show ?thesis by blast
qed

text \<open>The metadata a PUT stores.\<close>

definition stored_metadata :: "'t server_env \<Rightarrow> string \<Rightarrow> 't \<Rightarrow> string \<Rightarrow> put_request \<Rightarrow> metadata" where
  "stored_metadata env name t body rq =
     (case get_request_metadata env (rq_headers rq) t (length body) (sv_md5 env body) of
        Inl e \<Rightarrow> [] | Inr m \<Rightarrow> AList.update ''name'' name m)"

text \<open>A PUT up to the end of the input: refused when the object is not older, or when bytes are missing.\<close>

lemma put_uploads:
  fixes env :: "'t :: {linorder, order_bot} server_env"
  assumes "upload env pl t body rq" and "placed env pl" and "replicated env" and "os_opens (sv_os env)"
    and "writes_ok (sv_os env)" and "holds env (name_of pl) reg (ss_disk s)" and "object_size env (rq_headers rq) = Inr fsize"
  shows "\<exists>df orig w u. df_name df = Some (name_of pl) \<and> map_of orig ''X-Delete-At'' = None \<and> wr_data w = body \<and> wr_ext w = ''.data'' \<and>
    holds env (name_of pl) reg (ss_disk s\<lparr>od_use_linkat := u\<rparr>) \<and>
    PUT env rq s =
      (if t \<le> reg_time reg
       then Some (s, Inl (Http (reply_with 409 [(''X-Backend-Timestamp'', ts_internal (lib_of env) (reg_time reg))])))
       else if fsize \<notin> {None, Some (int (length body))}
       then Some (s\<lparr>ss_disk := ss_disk s\<lparr>od_use_linkat := u\<rparr>\<rparr>, Inl (Http (reply 499)))
       else case put_finish env rq t df None (length body, sv_md5 env body) w (s\<lparr>ss_disk := ss_disk s\<lparr>od_use_linkat := u\<rparr>\<rparr>) of
              (w, s, Inl e) \<Rightarrow> Some (s, put_error e)
            | (w, s, Inr (etag, footers, metadata)) \<Rightarrow>
                Some (and_then (post_commit_updates env pl rq t orig footers metadata s)
                  (\<lambda>s u. (s, Inr (reply_with 201 [(''Etag'', etag)])))))"
proof -
  let ?h = "rq_headers rq"
  obtain df where df: "get_diskfile env pl None (hk_get ?h ''X-Backend-Ssync-Frag-Index'') False = Inr (repl_ops (lib_of env), df)"
    "df_name df = Some (name_of pl)"
    using get_diskfile_placed [OF assms(2,3)] by blast
  obtain df' r where rd: "read_orig env (repl_ops (lib_of env)) df t s = (df', s, r)" "read_as env reg df' r"
    and nm: "df_name df' = Some (name_of pl)"
    using read_orig_holds [OF assms(6) df(2)] by blast
  obtain orig where fd: "found_object (lib_of env) df' r = Inr (orig, reg_time reg)" "map_of orig ''X-Delete-At'' = None"
    using found_object_as [OF assms(6) rd(2)] by blast
  obtain chunks where ch: "rq_reads rq = map Chunk chunks" "[] \<notin> set chunks" "concat chunks = body"
    using assms(1) by (auto simp: upload_def upload_check_def)
  have pre: "pre_create_checks env ?h pl s =
      (s, if t \<le> reg_time reg then Inl (Http (reply_with 409 [(''X-Backend-Timestamp'', ts_internal (lib_of env) (reg_time reg))]))
          else Inr (t, df', fsize, orig))"
    using assms(1) by (simp add: pre_create_checks_def upload_def upload_check_def assms(7) df(1) rd(1) fd(1) none_match_fails_def)
  have pl: "placement_of env ?h = Inr pl" using assms(1) by (simp add: upload_def upload_check_def)
  obtain w u where st: "stage_obj_data env (rq_reads rq) fsize (new_writer (map_option (\<lambda>n. nat \<bar>n\<bar>) fsize) ''.data'') s =
      Some (w, s\<lparr>ss_disk := (ss_disk s)\<lparr>od_use_linkat := u\<rparr>\<rparr>,
        if fsize \<in> {None, Some (int (length body))} then Inr (length body, sv_md5 env body) else Inl (Http (reply 499)))"
    "wr_data w = body" "wr_ext w = ''.data''"
    using stage_ok [OF assms(4,5) ch(2), unfolded ch(3), of fsize "map_option (\<lambda>n. nat \<bar>n\<bar>) fsize" s]
    unfolding ch(1) by (elim exE conjE)
  have hs: "holds env (name_of pl) reg ((ss_disk s)\<lparr>od_use_linkat := u\<rparr>)" using assms(6) by (cases reg) (simp_all add: holds_def)
  have mi: "mime_input env rq = Inr (rq_reads rq, None)" using assms(1) by (simp add: mime_input_def upload_def upload_check_def Let_def)
  have "PUT env rq s =
      (if t \<le> reg_time reg
       then Some (s, Inl (Http (reply_with 409 [(''X-Backend-Timestamp'', ts_internal (lib_of env) (reg_time reg))])))
       else if fsize \<notin> {None, Some (int (length body))}
       then Some (s\<lparr>ss_disk := ss_disk s\<lparr>od_use_linkat := u\<rparr>\<rparr>, Inl (Http (reply 499)))
       else case put_finish env rq t df' None (length body, sv_md5 env body) w (s\<lparr>ss_disk := ss_disk s\<lparr>od_use_linkat := u\<rparr>\<rparr>) of
              (w, s, Inl e) \<Rightarrow> Some (s, put_error e)
            | (w, s, Inr (etag, footers, metadata)) \<Rightarrow>
                Some (and_then (post_commit_updates env pl rq t orig footers metadata s)
                  (\<lambda>s u. (s, Inr (reply_with 201 [(''Etag'', etag)])))))"
    by (simp add: PUT_def pl pre mi st(1))
  with nm fd(2) st(2,3) hs show ?thesis by blast
qed

text \<open>Storing the bytes and the metadata, and the updates after it.\<close>

lemma put_stores:
  fixes env :: "'t :: {linorder, order_bot} server_env"
  assumes "plain_put env pl t body rq" and "replicated env" and "os_ok (sv_os env)" and "reg_time reg < t"
    and "holds env (name_of pl) reg (ss_disk s)" and "df_name df = Some (name_of pl)" and "wr_data w = body" "wr_ext w = ''.data''"
    and "map_of orig ''X-Delete-At'' = None"
  shows "\<exists>w' d m evs. put_finish env rq t df None (length body, sv_md5 env body) w s = (w', s\<lparr>ss_disk := d\<rparr>, Inr (sv_md5 env body, [], m)) \<and>
    holds env (name_of pl) (Object t (stored_metadata env (name_of pl) t body rq) body) d \<and>
    post_commit_updates env pl rq t orig [] m (s\<lparr>ss_disk := d\<rparr>) = (s\<lparr>ss_disk := d, ss_events := evs\<rparr>, Inr ())"
proof -
  let ?h = "rq_headers rq" and ?etag = "sv_md5 env body"
  have up: "upload env pl t body rq" using assms(1) by (simp add: plain_put_def)
  obtain m where m: "get_request_metadata env ?h t (length body) ?etag = Inr m"
    "distinct (map fst m)" "map_of m ''X-Timestamp'' = Some (ts_internal (lib_of env) t)"
    "map_of m ''Content-Length'' = Some (str_nat (length body))" "map_of m ''ETag'' = Some ?etag"
    "map_of m ''X-Delete-At'' = None" "map_of m ''Content-Type-Timestamp'' = None" "map_of m ''Content-Type'' \<noteq> None"
    by (rule request_metadata [OF up])
  have ex: "apply_extra_metadata env ?h m [] = Inr m"
    using assms(1) m(5) by (auto simp: apply_extra_metadata_def plain_put_def dict_update_def hk_get_def)
  have t: "internal_ok (lib_of env) t" using up by (simp add: upload_def upload_check_def)
  obtain w' d where put: "sv_put env df w (ss_disk s) m = (w', d, Inr ())"
    "holds env (name_of pl) (Object t (AList.update ''name'' (name_of pl) m) body) d"
    using put_object_holds [OF assms(5,4,2,3) t assms(6,8,7) m(2-7)] by blast
  have "put_commit env ?h t df None d = (d, Inr ())"
    using assms(2) by (simp add: put_commit_def replicated_def)
  then have fin: "put_finish env rq t df None (length body, ?etag) w s = (w', s\<lparr>ss_disk := d\<rparr>, Inr (?etag, [], m))"
    by (simp add: put_finish_def m(1) ex put(1))
  have uo: "updates_ok env pl (request.truncate rq)" "int_or_0 (hk_get ?h ''X-Delete-At'') = Inr 0"
    using up by (simp_all add: upload_def upload_check_def int_or_0_def)
  obtain ct where ct: "map_of m ''Content-Type'' = Some ct" using m(8) by blast
  have "\<exists>evs. post_commit_updates env pl rq t orig [] m (s\<lparr>ss_disk := d\<rparr>) = (s\<lparr>ss_disk := d, ss_events := evs\<rparr>, Inr ())"
    using with_events_update [OF uo(1), of "''PUT''" _ "s\<lparr>ss_disk := d\<rparr>"] assms(9) uo(2) m(3-5) ct
    by (simp add: post_commit_updates_def int_or_0_def given_def with_events_def conditional_delete_at_update_def)
  with fin put(2) show ?thesis by (auto simp: stored_metadata_def m(1))
qed

lemma call_put: "rq_method rq = ''PUT'' \<Longrightarrow> sv_utf8 env (rq_headers rq) \<Longrightarrow>
    call env rq s = map_option (\<lambda>(s, r). (s, response_of r)) (PUT env rq s)"
  by (simp add: call_def)

lemma put_steps:
  fixes env :: "'t :: {linorder, order_bot} server_env"
  assumes "plain_put env pl t body rq" and "placed env pl" and "replicated env" and "os_ok (sv_os env)"
    and "writes_ok (sv_os env)" and "holds env (name_of pl) reg (ss_disk s)"
  shows "\<exists>s' resp. call env rq s = Some (s', resp) \<and>
    rs_status resp = fst (reg_put t (stored_metadata env (name_of pl) t body rq) body reg) \<and>
    holds env (name_of pl) (snd (reg_put t (stored_metadata env (name_of pl) t body rq) body reg)) (ss_disk s')"
proof -
  have up: "upload env pl t body rq" using assms(1) by (simp add: plain_put_def)
  obtain fsize where fz: "object_size env (rq_headers rq) = Inr fsize" "fsize \<in> {None, Some (int (length body))}"
    using assms(1) by (auto simp: plain_put_def)
  obtain df orig w u where *: "df_name df = Some (name_of pl)" "map_of orig ''X-Delete-At'' = None" "wr_data w = body"
    "wr_ext w = ''.data''" "holds env (name_of pl) reg (ss_disk s\<lparr>od_use_linkat := u\<rparr>)"
    and P: "PUT env rq s =
      (if t \<le> reg_time reg
       then Some (s, Inl (Http (reply_with 409 [(''X-Backend-Timestamp'', ts_internal (lib_of env) (reg_time reg))])))
       else if fsize \<notin> {None, Some (int (length body))}
       then Some (s\<lparr>ss_disk := ss_disk s\<lparr>od_use_linkat := u\<rparr>\<rparr>, Inl (Http (reply 499)))
       else case put_finish env rq t df None (length body, sv_md5 env body) w (s\<lparr>ss_disk := ss_disk s\<lparr>od_use_linkat := u\<rparr>\<rparr>) of
              (w, s, Inl e) \<Rightarrow> Some (s, put_error e)
            | (w, s, Inr (etag, footers, metadata)) \<Rightarrow>
                Some (and_then (post_commit_updates env pl rq t orig footers metadata s)
                  (\<lambda>s u. (s, Inr (reply_with 201 [(''Etag'', etag)])))))"
    using put_uploads [OF up assms(2,3) os_ok_opens [OF assms(4)] assms(5,6) fz(1)] by (elim exE conjE)
  have call: "call env rq s = map_option (\<lambda>(s, r). (s, response_of r)) (PUT env rq s)"
    by (rule call_put) (use up in \<open>simp_all add: upload_def upload_check_def\<close>)
  show ?thesis
  proof (cases "reg_time reg < t")
    case False
    then show ?thesis using assms(6) by (simp add: call P response_of_def reply_with_def linorder_not_less)
  next
    case True
    let ?s = "s\<lparr>ss_disk := ss_disk s\<lparr>od_use_linkat := u\<rparr>\<rparr>"
    have hs: "holds env (name_of pl) reg (ss_disk ?s)" using *(5) by simp
    from put_stores [OF assms(1,3,4) True hs *(1,3,4,2)] obtain w' d m evs where
      fin: "put_finish env rq t df None (length body, sv_md5 env body) w ?s = (w', ?s\<lparr>ss_disk := d\<rparr>, Inr (sv_md5 env body, [], m))"
      and h: "holds env (name_of pl) (Object t (stored_metadata env (name_of pl) t body rq) body) d"
      and pc: "post_commit_updates env pl rq t orig [] m (?s\<lparr>ss_disk := d\<rparr>) = (?s\<lparr>ss_disk := d, ss_events := evs\<rparr>, Inr ())" by blast
    from fin pc have "PUT env rq s = Some (s\<lparr>ss_disk := d, ss_events := evs\<rparr>, Inr (reply_with 201 [(''Etag'', sv_md5 env body)]))"
      using True fz(2) by (simp add: P not_le [symmetric])
    then show ?thesis using True h by (simp add: call response_of_def reply_with_def)
  qed
qed

section \<open>GET\<close>

lemma hk_get_put: "hk_get (hk_put h k v) k' = (if title k' = title k then v else hk_get h k')"
  by (cases v) (auto simp: hk_put_def hk_get_def hk_set_def delete_conv')

lemma title_simps:
  "title ''X-Timestamp'' = ''X-Timestamp''" "title ''X-Backend-Timestamp'' = ''X-Backend-Timestamp''"
  "title ''X-Backend-Data-Timestamp'' = ''X-Backend-Data-Timestamp''"
  "title ''X-Backend-Durable-Timestamp'' = ''X-Backend-Durable-Timestamp''"
  "title ''X-Backend-Fragments'' = ''X-Backend-Fragments''" "title ''Etag'' = ''Etag''"
  "title ''Last-Modified'' = ''Last-Modified''" "title ''Content-Length'' = ''Content-Length''"
  "title ''Content-Encoding'' = ''Content-Encoding''" "title ''Content-Type'' = ''Content-Type''"
  by code_simp+

lemma hk_get_encoding:
  "hk_get (set_encoding m h) k = (if title k = ''Content-Encoding'' \<and> map_of m ''Content-Encoding'' \<noteq> None
     then map_of m ''Content-Encoding'' else hk_get h k)"
  by (auto simp: set_encoding_def title_simps split: option.split)

lemma construct_info: "df_ondisk_info (fst (construct_from_data_file env df d expired info path)) = df_ondisk_info df"
proof -
  have 1: "df_ondisk_info (fst (check_data_file env df d expired m body)) = df_ondisk_info df" for df d m body
    by (simp add: check_data_file_def Let_def split: option.split sum.split)
  have 2: "df_ondisk_info (fst (read_meta_files env df d info)) = df_ondisk_info df" for df d
    by (auto simp: read_meta_files_def Let_def merge_content_type_def split: option.splits sum.splits prod.splits if_splits)
  have "df_ondisk_info df1 = df_ondisk_info df"
    if "read_meta_files env (df\<lparr>df_datafile := dm, df_metadata := m\<rparr>) d info = (df1, d1, r)" for dm m d d1 df1 r
    using 2 [of "df\<lparr>df_datafile := dm, df_metadata := m\<rparr>" d] that by simp
  then show ?thesis
    by (auto simp: construct_from_data_file_def Let_def 1 split: option.split sum.split prod.split)
qed

lemma open_info:
  assumes "open_disk_file ops env df d expired = (df', d', Inr ())"
  shows "df_ondisk_info df' \<noteq> None"
proof -
  have "df_ondisk_info df1 = i"
    if "construct_from_data_file env (df\<lparr>df_ondisk_info := i, df_data_file := p\<rparr>) d expired info path = (df1, d1, r)"
    for i p d info path df1 d1 r
    using construct_info [of env "df\<lparr>df_ondisk_info := i, df_data_file := p\<rparr>" d expired info path] that by simp
  with assms show ?thesis
    by (auto simp: open_disk_file_def Let_def split: option.splits sum.splits prod.splits hash_dir.splits pyexc.splits if_splits)
qed

lemma get_headers_ok:
  assumes "stored_ok env name t m body" and "df_datafile df = Some m" and "df_ondisk_info df \<noteq> None" and "replicated env"
  shows "\<exists>h. get_headers env df m = Inr h \<and> hk_get h ''X-Backend-Timestamp'' = Some (ts_internal (lib_of env) t) \<and>
    hk_get h ''Etag'' = Some (quoted (sv_md5 env body)) \<and> hk_get h ''Content-Length'' = Some (str_nat (length body))"
proof -
  have ts: "timestamp_of (lib_of env) (map_of m ''X-Timestamp'') = Inr t"
    using assms(1) by (simp add: stored_ok_def timestamp_of_def internal_ok_def)
  have m: "m \<noteq> []" "map_of m ''X-Timestamp'' = Some (ts_internal (lib_of env) t)" using assms(1) by (auto simp: stored_ok_def)
  have k: "key_of m ''Content-Length'' = Inr (str_nat (length body))" "key_of m ''ETag'' = Inr (sv_md5 env body)"
    "key_of m ''X-Timestamp'' = Inr (ts_internal (lib_of env) t)"
    "int_of (str_nat (length body)) = Inr (int (length body))" "str_int (int (length body)) = str_nat (length body)"
    using assms(1) by (simp_all add: stored_ok_def key_of_def int_of_def str_int_def)
  have "durable_timestamp (lib_of env) df = Inr (Some t)" "data_timestamp (lib_of env) df = Inr t"
    using assms(2,3) m(1) ts by (auto simp: durable_timestamp_def data_timestamp_def)
  then have "sv_durable env df = Inr (Some t)" "data_timestamp (lib_of env) df = Inr t" "sv_fragments env df = None"
    using assms(4) by (simp_all add: replicated_def)
  then show ?thesis
    using ts m(2)
    by (simp add: get_headers_def k backend_headers_def Let_def hk_get_put hk_get_encoding title_simps)
qed

definition plain_get :: "'t server_env \<Rightarrow> placement \<Rightarrow> put_request \<Rightarrow> bool" where
  "plain_get env pl rq \<longleftrightarrow>
     rq_method rq = ''GET'' \<and> sv_utf8 env (rq_headers rq) \<and> placement_of env (rq_headers rq) = Inr pl \<and>
     (\<exists>t. sv_valid_timestamp env (with_timestamp env (rq_headers rq)) = Inr t)"

text \<open>What GET shows of a register.\<close>

definition reg_shows :: "'t server_env \<Rightarrow> 't reg \<Rightarrow> response \<Rightarrow> bool" where
  "reg_shows env reg resp \<longleftrightarrow>
     (case reg of
        Absent \<Rightarrow> rs_status resp = 404 \<and> rs_headers resp = []
      | Object t m body \<Rightarrow> rs_status resp = 200 \<and> rs_body resp = body \<and>
          hk_get (rs_headers resp) ''X-Backend-Timestamp'' = Some (ts_internal (lib_of env) t) \<and>
          hk_get (rs_headers resp) ''Etag'' = Some (quoted (sv_md5 env body)) \<and>
          hk_get (rs_headers resp) ''Content-Length'' = Some (str_nat (length body))
      | Tombstone t \<Rightarrow> rs_status resp = 404 \<and> rs_headers resp = [(''X-Backend-Timestamp'', ts_internal (lib_of env) t)])"

lemma get_steps:
  fixes env :: "'t :: {linorder, order_bot} server_env"
  assumes "plain_get env pl rq" and "placed env pl" and "replicated env" and "holds env (name_of pl) reg (ss_disk s)"
  shows "\<exists>resp. call env rq s = Some (s, resp) \<and> reg_shows env reg resp"
proof -
  let ?h = "rq_headers rq" and ?rq = "request.truncate rq"
  have h: "rq_headers ?rq = ?h" by (simp add: request.truncate_def)
  obtain t where t: "sv_valid_timestamp env (with_timestamp env ?h) = Inr t" using assms(1) by (auto simp: plain_get_def)
  obtain df where df: "get_diskfile env pl (hk_get (with_timestamp env ?h) ''X-Backend-Fragment-Preferences'') None
      (sv_open_expired env (with_timestamp env ?h)) = Inr (repl_ops (lib_of env), df)" "df_name df = Some (name_of pl)"
    using get_diskfile_placed [OF assms(2,3)] by blast
  have call: "call env rq s = Some (fst (GET env ?rq s), response_of (snd (GET env ?rq s)))"
    using assms(1) by (simp add: call_def plain_get_def split_def)
  have G: "GET env ?rq s = (case open_disk_file (repl_ops (lib_of env)) (sv_df env) df (od_dir (ss_disk s)) (sv_expired env t) of
         (df, d, r) \<Rightarrow>
           (s\<lparr>ss_disk := (ss_disk s)\<lparr>od_dir := d\<rparr>\<rparr>,
            case try_then r (\<lambda>u. try_then (get_metadata df) (get_headers env df)) of
              Inl e \<Rightarrow> read_error env e
            | Inr h \<Rightarrow> Inr \<lparr>rs_status = 200, rs_headers = h, rs_body = body_of df d\<rparr>))"
    using assms(1) t by (simp add: GET_def read_request_def plain_get_def h Let_def df(1))
  show ?thesis
  proof (cases reg)
    case Absent
    then have d: "od_dir (ss_disk s) = Missing" using assms(4) by (simp add: holds_def)
    from open_missing [of "sv_df env" df "sv_expired env t"] have "GET env ?rq s = (s, Inr (reply 404))"
      using d [symmetric] by (auto simp: G d lib_of_def read_error_def missing_def timestamp_of_exc_def)
    then show ?thesis using Absent by (simp add: call response_of_def reply_def reg_shows_def)
  next
    case (Object u m body)
    from open_object [OF assms(4) [unfolded Object] df(2), of "sv_expired env t"] obtain df' where
      op: "open_disk_file (repl_ops (lib_of env)) (sv_df env) df (od_dir (ss_disk s)) (sv_expired env t) = (df', od_dir (ss_disk s), Inr ())"
      "df_metadata df' = Some m" "df_datafile df' = Some m" "body_of df' (od_dir (ss_disk s)) = body" by blast
    have "stored_ok env (name_of pl) u m body" using assms(4) Object by (simp add: holds_def)
    from get_headers_ok [OF this op(3) open_info [OF op(1)] assms(3)] obtain h where
      h: "get_headers env df' m = Inr h" "hk_get h ''X-Backend-Timestamp'' = Some (ts_internal (lib_of env) u)"
      "hk_get h ''Etag'' = Some (quoted (sv_md5 env body))" "hk_get h ''Content-Length'' = Some (str_nat (length body))" by blast
    then show ?thesis using Object by (simp add: call G op get_metadata_def response_of_def reg_shows_def)
  next
    case (Tombstone u)
    from open_deleted [OF assms(4) [unfolded Tombstone]] obtain df' m where
      "open_disk_file (repl_ops (lib_of env)) (sv_df env) df (od_dir (ss_disk s)) (sv_expired env t) = (df', od_dir (ss_disk s), Inl (DiskFileDeleted m))"
      "exc_timestamp (lib_of env) m = Inr u" by blast
    then show ?thesis
      using Tombstone by (simp add: call G read_error_def missing_def timestamp_of_exc_def response_of_def reply_with_def reg_shows_def)
  qed
qed

section \<open>The server is a register\<close>

text \<open>Requests of clients for one object, and the register that serves them.\<close>

datatype 't client_op = OpPut put_request 't string | OpDelete put_request 't | OpGet put_request

fun op_request :: "'t client_op \<Rightarrow> put_request" where
  "op_request (OpPut rq t body) = rq"
| "op_request (OpDelete rq t) = rq"
| "op_request (OpGet rq) = rq"

fun op_ok :: "'t :: {linorder, order_bot} server_env \<Rightarrow> placement \<Rightarrow> 't client_op \<Rightarrow> bool" where
  "op_ok env pl (OpPut rq t body) = plain_put env pl t body rq"
| "op_ok env pl (OpDelete rq t) = plain_delete env pl t rq"
| "op_ok env pl (OpGet rq) = plain_get env pl rq"

fun reg_step :: "'t :: {linorder, order_bot} server_env \<Rightarrow> placement \<Rightarrow> 't client_op \<Rightarrow> 't reg \<Rightarrow> 't reg" where
  "reg_step env pl (OpPut rq t body) reg = snd (reg_put t (stored_metadata env (name_of pl) t body rq) body reg)"
| "reg_step env pl (OpDelete rq t) reg = snd (reg_delete t reg)"
| "reg_step env pl (OpGet rq) reg = reg"

fun reg_answers :: "'t :: {linorder, order_bot} server_env \<Rightarrow> placement \<Rightarrow> 't client_op \<Rightarrow> 't reg \<Rightarrow> response \<Rightarrow> bool" where
  "reg_answers env pl (OpPut rq t body) reg resp \<longleftrightarrow> rs_status resp = (if reg_time reg < t then 201 else 409)"
| "reg_answers env pl (OpDelete rq t) reg resp \<longleftrightarrow> rs_status resp = fst (reg_delete t reg)"
| "reg_answers env pl (OpGet rq) reg resp \<longleftrightarrow> reg_shows env reg resp"

text \<open>Answers of the server, one after the other; answers of the register.\<close>

fun serve :: "'t :: {linorder, order_bot} server_env \<Rightarrow> put_request list \<Rightarrow> server_state \<Rightarrow> (server_state \<times> response list) option" where
  "serve env [] s = Some (s, [])"
| "serve env (rq # rqs) s =
     (case call env rq s of
        None \<Rightarrow> None
      | Some (s, resp) \<Rightarrow> map_option (\<lambda>(s, resps). (s, resp # resps)) (serve env rqs s))"

fun register_run :: "'t :: {linorder, order_bot} server_env \<Rightarrow> placement \<Rightarrow> 't client_op list \<Rightarrow> 't reg \<Rightarrow> response list \<Rightarrow> bool" where
  "register_run env pl [] reg resps \<longleftrightarrow> resps = []"
| "register_run env pl (op # ops) reg resps \<longleftrightarrow>
     (case resps of [] \<Rightarrow> False
      | resp # resps \<Rightarrow> reg_answers env pl op reg resp \<and> register_run env pl ops (reg_step env pl op reg) resps)"

lemma op_steps:
  fixes env :: "'t :: {linorder, order_bot} server_env"
  assumes "op_ok env pl op" and "placed env pl" and "replicated env" and "os_ok (sv_os env)" and "writes_ok (sv_os env)"
    and "\<not> ts_truth (lib_of env) bot" and "holds env (name_of pl) reg (ss_disk s)"
  shows "\<exists>s' resp. call env (op_request op) s = Some (s', resp) \<and> reg_answers env pl op reg resp \<and>
    holds env (name_of pl) (reg_step env pl op reg) (ss_disk s')"
proof (cases op)
  case (OpPut rq t body)
  then show ?thesis using put_steps [OF _ assms(2-5,7), of t body rq] assms(1) by (auto simp del: holds_events)
next
  case (OpDelete rq t)
  then show ?thesis using delete_steps [OF _ assms(2-4,6,7), of t rq] assms(1) by auto
next
  case (OpGet rq)
  then show ?thesis using get_steps [OF _ assms(2,3,7), of rq] assms(1,7) by auto
qed

text \<open>C1: the object server refines a register: whatever PUTs, DELETEs and GETs of an object it serves, in whatever
  order their times are, it answers every one, and its answers are those of a variable that starts empty and takes a
  write exactly when it is newer than what it holds: 201 and 409 for PUT, 204, 404 and 409 for DELETE, and for
  GET the bytes, the etag and the time of the last write taken.\<close>

theorem server_refines_register:
  fixes env :: "'t :: {linorder, order_bot} server_env"
  assumes "placed env pl" and "replicated env" and "os_ok (sv_os env)" and "writes_ok (sv_os env)"
    and "\<not> ts_truth (lib_of env) bot" and "\<forall>op \<in> set ops. op_ok env pl op"
    and "od_dir (ss_disk s) = Missing" and "relink_ok (od_other (ss_disk s))"
  shows "\<exists>s' resps. serve env (map op_request ops) s = Some (s', resps) \<and> register_run env pl ops Absent resps"
proof -
  have "\<exists>s' resps. serve env (map op_request ops) s = Some (s', resps) \<and> register_run env pl ops reg resps"
    if "holds env (name_of pl) reg (ss_disk s)" for reg s
    using assms(6) that
  proof (induction ops arbitrary: reg s)
    case (Cons op ops)
    then obtain s' resp where 1: "call env (op_request op) s = Some (s', resp)" "reg_answers env pl op reg resp"
      and h: "holds env (name_of pl) (reg_step env pl op reg) (ss_disk s')"
      using op_steps [OF _ assms(1-5), of op reg s] by auto
    from Cons.IH [OF _ h] Cons.prems obtain s'' resps where
      "serve env (map op_request ops) s' = Some (s'', resps)" "register_run env pl ops (reg_step env pl op reg) resps" by auto
    with 1 show ?case by simp
  qed simp
  moreover have "holds env (name_of pl) Absent (ss_disk s)" using assms(7,8) by (simp add: holds_def)
  ultimately show ?thesis by blast
qed

section \<open>A server that runs\<close>

definition sample_server :: "nat server_env" where
  "sample_server = \<lparr>sv_updates = sample_updates, sv_df = sample_df_env,
     sv_policy = (\<lambda>prefs i. Inr (repl_ops sample_lib)),
     sv_put = (\<lambda>df. repl_put sample_df_env sample_os (df_datadir df) (case df_name df of None \<Rightarrow> [] | Some n \<Rightarrow> n)),
     sv_commit = (\<lambda>df d t. (d, Inr ())), sv_durable = durable_timestamp sample_lib, sv_fragments = (\<lambda>df. None),
     sv_os = sample_os, sv_bytes_per_sync = 4, sv_md5 = (\<lambda>b. CHR ''#'' # b), sv_device_ok = (\<lambda>d. d = ''sda''),
     sv_storage_dir = (\<lambda>dev p a c ob. ''/srv/'' @ dev @ ''/objects/'' @ p), sv_split_path = (\<lambda>h. Inr sample_placement),
     sv_internal_obj = (\<lambda>a c ob. Inr ()),
     sv_valid_timestamp = (\<lambda>h. case hk_get h ''X-Timestamp'' of
        None \<Rightarrow> Inl (Http (reply 400)) | Some x \<Rightarrow> (case ts_parse sample_lib x of None \<Rightarrow> Inl (Http (reply 400)) | Some t \<Rightarrow> Inr t)),
     sv_now = ''999'', sv_expired = (\<lambda>t x. x \<le> int t), sv_before = (\<lambda>x t. x < int t), sv_open_expired = (\<lambda>h. False),
     sv_is_user_meta = starts_with ''X-Object-Meta-'', sv_is_sys_meta = starts_with ''X-Object-Sysmeta-'',
     sv_is_transient = starts_with ''X-Object-Transient-Sysmeta-'', sv_allowed = [''content-encoding'', ''x-delete-at''],
     sv_check_creation = (\<lambda>h ob. None),
     sv_message_length = (\<lambda>h. Some (case hk_get h ''Content-Length'' of None \<Rightarrow> None | Some n \<Rightarrow> py_int n)),
     sv_if_none_match = (\<lambda>h. map_option comma_list (hk_get h ''If-None-Match'')), sv_swift_bytes = (\<lambda>c. None),
     sv_normalize_etag = id, sv_json = (\<lambda>s. None), sv_json_dumps = (\<lambda>l. []), sv_normal = str_nat, sv_last_modified = str_nat,
     sv_utf8 = (\<lambda>h. True), sv_other = (\<lambda>rq s. (s, Inr (reply 200)))\<rparr>"

definition put_rq :: "string \<Rightarrow> string list \<Rightarrow> put_request" where
  "put_rq ts chunks = \<lparr>rq_method = ''PUT'', rq_headers = [(''X-Timestamp'', ts), (''Content-Type'', ''text/plain''),
     (''X-Object-Meta-Color'', ''red'')], rq_referer = ''-'', rq_reads = map Chunk chunks, rq_docs = []\<rparr>"

definition other_rq :: "string \<Rightarrow> string \<Rightarrow> put_request" where
  "other_rq m ts = \<lparr>rq_method = m, rq_headers = [(''X-Timestamp'', ts)], rq_referer = ''-'', rq_reads = [], rq_docs = []\<rparr>"

definition sample_state :: server_state where
  "sample_state = \<lparr>ss_disk = sample_disk Missing, ss_events = []\<rparr>"

definition sample_ops :: "nat client_op list" where
  "sample_ops = [OpPut (put_rq ''960'' [''hel'', ''lo'']) 960 ''hello'', OpPut (put_rq ''950'' [''old'']) 950 ''old'',
     OpGet (other_rq ''GET'' ''980''), OpDelete (other_rq ''DELETE'' ''970'') 970, OpGet (other_rq ''GET'' ''980'')]"

lemma sample_server_ok:
  "placed sample_server sample_placement" "replicated sample_server" "os_ok (sv_os sample_server)" "writes_ok (sv_os sample_server)"
  "\<not> ts_truth (lib_of sample_server) bot" "lib_of sample_server = sample_lib" "sv_df sample_server = sample_df_env"
  "od_dir (ss_disk sample_state) = Missing" "relink_ok (od_other (ss_disk sample_state))"
  using sample_os_ok
  by (simp_all add: placed_def sample_placement_def sample_server_def path_of_def replicated_def lib_of_def sample_df_env_def
      sample_state_def sample_disk_def sample_lib_def bot_nat_def)

lemma no_partition_updates_ok:
  assumes "hk_default (rq_headers rq) ''X-Container-Partition'' [] = []"
  shows "updates_ok env pl rq"
  using assms by (simp add: updates_ok_def container_update_def Let_def)

lemma sample_updates_ok:
  "updates_ok sample_server pl (request.truncate (put_rq ts cs))"
  "updates_ok sample_server pl (request.truncate (other_rq m ts))"
proof -
  have t: "title ''X-Container-Partition'' = ''X-Container-Partition''" by code_simp
  show "updates_ok sample_server pl (request.truncate (put_rq ts cs))"
    "updates_ok sample_server pl (request.truncate (other_rq m ts))"
    by (rule no_partition_updates_ok; simp add: put_rq_def other_rq_def request.truncate_def hk_default_def hk_get_def t)+
qed

lemma sample_ops_ok: "\<forall>op \<in> set sample_ops. op_ok sample_server sample_placement op"
proof -
  have i: "internal_ok (lib_of sample_server) t" for t using sample_internal(1) [of t] by (simp add: lib_of_def sample_server_ok(7))
  have ch: "\<exists>chunks. rq_reads (put_rq ''960'' [''hel'', ''lo'']) = map Chunk chunks \<and> [] \<notin> set chunks \<and> concat chunks = ''hello''"
    "\<exists>chunks. rq_reads (put_rq ''950'' [''old'']) = map Chunk chunks \<and> [] \<notin> set chunks \<and> concat chunks = ''old''"
    by (rule exI [of _ "[''hel'', ''lo'']"], simp add: put_rq_def) (rule exI [of _ "[''old'']"], simp add: put_rq_def)
  have "plain_put sample_server sample_placement 960 ''hello'' (put_rq ''960'' [''hel'', ''lo''])"
    unfolding plain_put_def upload_def by (intro conjI; (rule i | rule sample_updates_ok | rule ch | code_simp))
  moreover have "plain_put sample_server sample_placement 950 ''old'' (put_rq ''950'' [''old''])"
    unfolding plain_put_def upload_def by (intro conjI; (rule i | rule sample_updates_ok | rule ch | code_simp))
  moreover have "plain_delete sample_server sample_placement 970 (other_rq ''DELETE'' ''970'')"
    unfolding plain_delete_def by (intro conjI; (rule i | rule sample_updates_ok | code_simp))
  moreover have "plain_get sample_server sample_placement (other_rq ''GET'' ''980'')"
    unfolding plain_get_def by (intro conjI; ((rule exI [of _ 980], code_simp) | code_simp))
  ultimately show ?thesis by (simp add: sample_ops_def)
qed

theorem server_refines_register_witness:
  "\<exists>s' r1 r2 r3 r4 r5. serve sample_server (map op_request sample_ops) sample_state = Some (s', [r1, r2, r3, r4, r5]) \<and>
     map rs_status [r1, r2, r3, r4, r5] = [201, 409, 200, 204, 404] \<and> rs_body r3 = ''hello''"
proof -
  obtain s' rs where s: "serve sample_server (map op_request sample_ops) sample_state = Some (s', rs)"
    and r: "register_run sample_server sample_placement sample_ops Absent rs"
    using server_refines_register [OF sample_server_ok(1-5) sample_ops_ok sample_server_ok(8,9)] by blast
  from r obtain r1 r2 r3 r4 r5 where rs: "rs = [r1, r2, r3, r4, r5]"
    by (auto simp: sample_ops_def split: list.splits)
  with r have "map rs_status [r1, r2, r3, r4, r5] = [201, 409, 200, 204, 404] \<and> rs_body r3 = ''hello''"
    by (simp add: sample_ops_def reg_shows_def bot_nat_def)
  with s [unfolded rs] show ?thesis
    by (intro exI [of _ s'] exI [of _ r1] exI [of _ r2] exI [of _ r3] exI [of _ r4] exI [of _ r5]) simp
qed

end
