(* ===== verification/Xattr.thy ===== *)
theory Xattr
  imports PyStrings
begin

text \<open>
  Object metadata in extended attributes (\<^verbatim>\<open>swift_patches/obj/bs_diskfile.py\<close>): the calls of the
  \<^verbatim>\<open>bs_xattr\<close> utility, the utility itself (\<^verbatim>\<open>ceph_patches/bs_xattr.cc\<close>, its RocksDB databases as maps), the
  attributes of the file system as the other backend, and \<^verbatim>\<open>write_metadata\<close>/\<^verbatim>\<open>read_metadata\<close>, which store a
  pickle in chunks with a checksum.  The locale \<open>xattr_backend\<close> is what they need of a backend; both
  backends interpret it.
\<close>

section \<open>Targets\<close>

text \<open>
  What is passed as \<^verbatim>\<open>fd\<close>: a file object (with a name and a descriptor), a name, or a bare descriptor.
  \<^verbatim>\<open>_get_filename\<close> gives the name, or the descriptor itself where there is no attribute \<^verbatim>\<open>name\<close>.
\<close>

datatype fd_arg = FileObj string int | Filename string | Descriptor int
datatype path_arg = PathStr string | PathInt int

fun get_filename :: "fd_arg \<Rightarrow> path_arg" where
  "get_filename (FileObj n d) = PathStr n"
| "get_filename (Filename n) = PathStr n"
| "get_filename (Descriptor d) = PathInt d"

section \<open>The bs_xattr utility\<close>

text \<open>
  Whether the utility is installed, the database of each path (\<^verbatim>\<open>filepath + ".xattr.db"\<close>; \<open>None\<close>: no
  such directory yet), the status with which \<^verbatim>\<open>DB::Open\<close> fails on a path, and the one when writing fails.
\<close>

record xstate =
  xs_present :: bool
  xs_dbs :: "string \<Rightarrow> (string \<Rightarrow> string option) option"
  xs_open_error :: "string \<Rightarrow> string option"
  xs_put_error :: "string option"

definition db_path :: "string \<Rightarrow> string" where
  "db_path filepath = filepath @ ''.xattr.db''"

text \<open>\<^verbatim>\<open>DB::Open\<close> with \<^verbatim>\<open>create_if_missing\<close>: \<open>None\<close> when it fails.\<close>

definition db_open :: "xstate \<Rightarrow> string \<Rightarrow> (xstate \<times> (string \<Rightarrow> string option)) option" where
  "db_open s p =
     (if xs_open_error s p \<noteq> None then None
      else (case xs_dbs s p of
              Some m \<Rightarrow> Some (s, m)
            | None \<Rightarrow> Some (s\<lparr>xs_dbs := (xs_dbs s)(p := Some (\<lambda>_. None))\<rparr>, \<lambda>_. None)))"

text \<open>\<^verbatim>\<open>bs_xattr get filepath key\<close>: the return code and standard output.\<close>

definition cmd_get :: "xstate \<Rightarrow> string \<Rightarrow> string \<Rightarrow> xstate \<times> int \<times> string" where
  "cmd_get s filepath key =
     (case db_open s (db_path filepath) of
        None \<Rightarrow> (s, 1, [])
      | Some (s, db) \<Rightarrow> (case db key of Some v \<Rightarrow> (s, 0, v) | None \<Rightarrow> (s, ENODATA, [])))"

text \<open>\<^verbatim>\<open>bs_xattr set filepath key\<close> with the value on standard input: the return code and standard error.\<close>

definition cmd_set :: "xstate \<Rightarrow> string \<Rightarrow> string \<Rightarrow> string \<Rightarrow> xstate \<times> int \<times> string" where
  "cmd_set s filepath key value =
     (case db_open s (db_path filepath) of
        None \<Rightarrow> (s, 1, ''Failed to open xattr DB for '' @ filepath @ '': '' @ (case xs_open_error s (db_path filepath) of None \<Rightarrow> [] | Some m \<Rightarrow> m))
      | Some (s, db) \<Rightarrow>
          (case xs_put_error s of
             Some msg \<Rightarrow> (s, EIO, ''Set failed: '' @ msg)
           | None \<Rightarrow> (s\<lparr>xs_dbs := (xs_dbs s)(db_path filepath := Some (db(key \<mapsto> value)))\<rparr>, 0, [])))"

fun contains :: "string \<Rightarrow> string \<Rightarrow> bool" where
  "contains w [] = (w = [])"
| "contains w (c # s) = (take (length w) (c # s) = w \<or> contains w s)"

text \<open>
  \<^verbatim>\<open>_bs_xattr_get\<close> and \<^verbatim>\<open>_bs_xattr_set\<close>.  \<^verbatim>\<open>subprocess.run\<close> raises \<^verbatim>\<open>TypeError\<close> for an argument that is an
  integer, and \<^verbatim>\<open>FileNotFoundError\<close> when the utility is missing.
\<close>

definition bs_xattr_get :: "xstate \<Rightarrow> path_arg \<Rightarrow> string \<Rightarrow> xstate \<times> (pyexc + string)" where
  "bs_xattr_get s filepath key =
     (case filepath of
        PathInt d \<Rightarrow> (s, Inl TypeError)
      | PathStr p \<Rightarrow>
          if \<not> xs_present s then (s, Inl (OSError ENOTSUP))
          else (let (s, returncode, out) = cmd_get s p key
                in (s, if returncode = ENODATA then Inl (OSError ENODATA)
                       else if returncode \<noteq> 0 then Inl (OSError EIO) else Inr out)))"

definition bs_xattr_set :: "xstate \<Rightarrow> path_arg \<Rightarrow> string \<Rightarrow> string \<Rightarrow> xstate \<times> (pyexc + unit)" where
  "bs_xattr_set s filepath key value =
     (case filepath of
        PathInt d \<Rightarrow> (s, Inl TypeError)
      | PathStr p \<Rightarrow>
          if \<not> xs_present s then (s, Inl (OSError ENOTSUP))
          else (let (s, returncode, err) = cmd_set s p key value
                in (s, if returncode \<noteq> 0
                       then (if contains ''No space left'' err \<or> contains ''Disk quota exceeded'' err
                             then Inl (OSError ENOSPC) else Inl (OSError EIO))
                       else Inr ())))"

section \<open>Attributes of the file system\<close>

text \<open>
  The \<^verbatim>\<open>xattr\<close> package over the kernel: names and descriptors resolve to inodes, which have attributes;
  \<open>ks_error\<close> is an errno every call fails with (such as \<open>ENOTSUP\<close>).
\<close>

record kstate =
  ks_names :: "string \<Rightarrow> nat option"
  ks_fds :: "int \<Rightarrow> nat option"
  ks_attrs :: "nat \<Rightarrow> string \<Rightarrow> string option"
  ks_error :: "int option"

fun resolve :: "kstate \<Rightarrow> fd_arg \<Rightarrow> nat option" where
  "resolve s (FileObj n d) = ks_fds s d"
| "resolve s (Filename n) = ks_names s n"
| "resolve s (Descriptor d) = ks_fds s d"

definition resolve_error :: "fd_arg \<Rightarrow> int" where
  "resolve_error t = (case t of Filename n \<Rightarrow> ENOENT | _ \<Rightarrow> 9)"

definition getxattr :: "kstate \<Rightarrow> fd_arg \<Rightarrow> string \<Rightarrow> kstate \<times> (pyexc + string)" where
  "getxattr s t key = (s,
     case ks_error s of
       Some e \<Rightarrow> Inl (OSError e)
     | None \<Rightarrow>
         (case resolve s t of
            None \<Rightarrow> Inl (OSError (resolve_error t))
          | Some i \<Rightarrow> (case ks_attrs s i key of None \<Rightarrow> Inl (OSError ENODATA) | Some v \<Rightarrow> Inr v)))"

definition setxattr :: "kstate \<Rightarrow> fd_arg \<Rightarrow> string \<Rightarrow> string \<Rightarrow> kstate \<times> (pyexc + unit)" where
  "setxattr s t key value =
     (case ks_error s of
        Some e \<Rightarrow> (s, Inl (OSError e))
      | None \<Rightarrow>
          (case resolve s t of
             None \<Rightarrow> (s, Inl (OSError (resolve_error t)))
           | Some i \<Rightarrow> (s\<lparr>ks_attrs := (ks_attrs s)(i := (ks_attrs s i)(key \<mapsto> value))\<rparr>, Inr ())))"

section \<open>Backends\<close>

text \<open>
  The two branches of \<^verbatim>\<open>read_metadata\<close> and \<^verbatim>\<open>write_metadata\<close> (\<^verbatim>\<open>USE_BS_XATTR\<close> or not): the calls, what an
  errno in the loop over the chunks becomes (\<open>None\<close>: the loop just ends), whether no bytes at all mean
  that there is no file, and which errno reading the checksum lets through.
\<close>

record 's backend =
  be_get :: "'s \<Rightarrow> fd_arg \<Rightarrow> string \<Rightarrow> 's \<times> (pyexc + string)"
  be_set :: "'s \<Rightarrow> fd_arg \<Rightarrow> string \<Rightarrow> string \<Rightarrow> 's \<times> (pyexc + unit)"
  be_chunk_error :: "int \<Rightarrow> pyexc option"
  be_empty_is_missing :: bool
  be_checksum_error :: "int \<Rightarrow> bool"

definition bs_chunk_error :: "int \<Rightarrow> pyexc option" where
  "bs_chunk_error e =
     (if e = ENODATA then None
      else if e = ENOTSUP then Some DiskFileXattrNotSupported
      else if e = ENOENT then Some DiskFileNotExist
      else Some (OSError e))"

definition bs_backend :: "xstate backend" where
  "bs_backend = \<lparr>be_get = (\<lambda>s t. bs_xattr_get s (get_filename t)), be_set = (\<lambda>s t. bs_xattr_set s (get_filename t)),
     be_chunk_error = bs_chunk_error, be_empty_is_missing = True, be_checksum_error = (\<lambda>e. e \<noteq> ENODATA)\<rparr>"

definition kernel_chunk_error :: "int \<Rightarrow> pyexc option" where
  "kernel_chunk_error e =
     (if e = ENOTSUP then Some DiskFileXattrNotSupported
      else if e = ENOENT then Some DiskFileNotExist
      else None)"

definition kernel_backend :: "kstate backend" where
  "kernel_backend = \<lparr>be_get = getxattr, be_set = setxattr,
     be_chunk_error = kernel_chunk_error, be_empty_is_missing = False, be_checksum_error = (\<lambda>e. False)\<rparr>"

section \<open>Chunks\<close>

definition chunk_key :: "nat \<Rightarrow> string" where
  "chunk_key key = ''user.swift.metadata'' @ (if key = 0 then [] else str_nat key)"

definition checksum_key :: string where
  "checksum_key = ''user.swift.metadata_checksum''"

text \<open>Both loops run until a condition of the store or the data, so they are partial; the theorems show they end.\<close>

partial_function (option) write_chunks ::
  "'s backend \<Rightarrow> 's \<Rightarrow> fd_arg \<Rightarrow> nat \<Rightarrow> nat \<Rightarrow> string \<Rightarrow> ('s \<times> (pyexc + unit)) option" where
  "write_chunks be s fd xattr_size key metastr =
     (if metastr = [] then Some (s, Inr ())
      else (case be_set be s fd (chunk_key key) (take xattr_size metastr) of
              (s, Inl e) \<Rightarrow> Some (s, Inl e)
            | (s, Inr u) \<Rightarrow> write_chunks be s fd xattr_size (key + 1) (drop xattr_size metastr)))"

partial_function (option) read_chunks ::
  "'s backend \<Rightarrow> 's \<Rightarrow> fd_arg \<Rightarrow> nat \<Rightarrow> string \<Rightarrow> ('s \<times> (pyexc + string)) option" where
  "read_chunks be s fd key metadata =
     (case be_get be s fd (chunk_key key) of
        (s, Inr chunk) \<Rightarrow> read_chunks be s fd (key + 1) (metadata @ chunk)
      | (s, Inl (OSError e)) \<Rightarrow>
          (case be_chunk_error be e of
             None \<Rightarrow> Some (s, Inr metadata)
           | Some exc \<Rightarrow> Some (s, Inl exc))
      | (s, Inl exc) \<Rightarrow> Some (s, Inl exc))"

section \<open>Encoding\<close>

text \<open>
  Native and byte strings; the codecs, \<^verbatim>\<open>md5(...).hexdigest()\<close> and \<^verbatim>\<open>pickle\<close> are library functions.
\<close>

datatype pystr = Str string | Bytes string

type_synonym py_metadata = "(pystr, pystr) dict"

record md_lib =
  ml_utf8_encode :: "string \<Rightarrow> string"
  ml_utf8_decode :: "string \<Rightarrow> string"
  ml_latin1_decode :: "string \<Rightarrow> string"
  ml_md5 :: "string \<Rightarrow> string"
  ml_dumps :: "py_metadata \<Rightarrow> string"
  ml_loads :: "string \<Rightarrow> pyexc + py_metadata"

text \<open>\<^verbatim>\<open>dict(pairs)\<close>: a later pair replaces the value of an earlier one with the same key.\<close>

definition dict_of :: "('k \<times> 'v) list \<Rightarrow> ('k, 'v) dict" where
  "dict_of kvs = fold (\<lambda>(k, v). AList.update k v) kvs []"

fun encode_str :: "md_lib \<Rightarrow> pystr \<Rightarrow> pystr" where
  "encode_str lib (Str s) = Bytes (ml_utf8_encode lib s)"
| "encode_str lib (Bytes b) = Bytes b"

definition encode_metadata :: "md_lib \<Rightarrow> py_metadata \<Rightarrow> py_metadata" where
  "encode_metadata lib md = dict_of (map (\<lambda>(k, v). (encode_str lib k, encode_str lib v)) md)"

fun to_str :: "md_lib \<Rightarrow> bool \<Rightarrow> bool \<Rightarrow> pystr \<Rightarrow> pystr" where
  "to_str lib py3 is_name (Bytes b) =
     (if \<not> py3 \<and> \<not> is_name then Str (ml_latin1_decode lib b) else Str (ml_utf8_decode lib b))"
| "to_str lib py3 is_name (Str s) = Str s"

definition decode_metadata :: "md_lib \<Rightarrow> py_metadata \<Rightarrow> bool \<Rightarrow> py_metadata" where
  "decode_metadata lib md py3 =
     dict_of (map (\<lambda>(k, v). (to_str lib py3 False k, to_str lib py3 (k = Bytes ''name'') v)) md)"

section \<open>write_metadata and read_metadata\<close>

definition write_error :: "pyexc \<Rightarrow> pyexc" where
  "write_error exc =
     (case exc of
        OSError e \<Rightarrow>
          if e = ENOTSUP then DiskFileXattrNotSupported
          else if e = ENOSPC \<or> e = EDQUOT then DiskFileNoSpace
          else exc
      | _ \<Rightarrow> exc)"

definition write_metadata ::
  "md_lib \<Rightarrow> 's backend \<Rightarrow> 's \<Rightarrow> fd_arg \<Rightarrow> py_metadata \<Rightarrow> nat \<Rightarrow> ('s \<times> (pyexc + unit)) option" where
  "write_metadata lib be s fd md xattr_size =
     (let metastr = ml_dumps lib (encode_metadata lib md);
          metastr_md5 = ml_md5 lib metastr
      in case write_chunks be s fd xattr_size 0 metastr of
           None \<Rightarrow> None
         | Some (s, r) \<Rightarrow>
             (case r of
                Inl e \<Rightarrow> Some (s, Inl (write_error e))
              | Inr u \<Rightarrow>
                  (let (s, r) = be_set be s fd checksum_key metastr_md5
                   in Some (s, map_sum write_error id r))))"

text \<open>
  Reading the checksum: \<open>None\<close> when it is missing; then it may be added, and errors of that are only
  logged.
\<close>

definition read_checksum ::
  "md_lib \<Rightarrow> 's backend \<Rightarrow> 's \<Rightarrow> fd_arg \<Rightarrow> bool \<Rightarrow> string \<Rightarrow> 's \<times> (pyexc + string option)" where
  "read_checksum lib be s fd add_missing_checksum metadata =
     (case be_get be s fd checksum_key of
        (s, Inr c) \<Rightarrow> (s, Inr (Some c))
      | (s, Inl (OSError e)) \<Rightarrow>
          if be_checksum_error be e then (s, Inl (OSError e))
          else if add_missing_checksum
          then (case be_set be s fd checksum_key (ml_md5 lib metadata) of
                  (s, Inr u) \<Rightarrow> (s, Inr None)
                | (s, Inl (OSError e)) \<Rightarrow> (s, Inr None)
                | (s, Inl exc) \<Rightarrow> (s, Inl exc))
          else (s, Inr None)
      | (s, Inl exc) \<Rightarrow> (s, Inl exc))"

definition read_metadata ::
  "md_lib \<Rightarrow> 's backend \<Rightarrow> 's \<Rightarrow> fd_arg \<Rightarrow> bool \<Rightarrow> ('s \<times> (pyexc + py_metadata)) option" where
  "read_metadata lib be s fd add_missing_checksum =
     (case read_chunks be s fd 0 [] of
        None \<Rightarrow> None
      | Some (s, Inl e) \<Rightarrow> Some (s, Inl e)
      | Some (s, Inr metadata) \<Rightarrow>
          if be_empty_is_missing be \<and> metadata = [] then Some (s, Inl DiskFileNotExist)
          else (case read_checksum lib be s fd add_missing_checksum metadata of
                  (s, Inl e) \<Rightarrow> Some (s, Inl e)
                | (s, Inr checksum) \<Rightarrow>
                    if (case checksum of None \<Rightarrow> False | Some c \<Rightarrow> c \<noteq> [] \<and> c \<noteq> ml_md5 lib metadata)
                    then Some (s, Inl DiskFileBadMetadataChecksum)
                    else (let py3 = contains ''_codecs\<newline>encode'' (take 32 metadata)
                          in Some (s, map_sum id (\<lambda>md. decode_metadata lib md py3) (ml_loads lib metadata)))))"

section \<open>The interface\<close>

declare write_chunks.simps [simp del, code del] read_chunks.simps [simp del, code del]

lemma str_nat_inj: "str_nat m = str_nat n \<Longrightarrow> m = n"
  using str_nat_value by metis

lemma chunk_key_inj [simp]: "chunk_key m = chunk_key n \<longleftrightarrow> m = n"
  using str_nat_inj [of m n] str_nat_nonempty [of m] str_nat_nonempty [of n]
  by (auto simp: chunk_key_def dest: sym)

lemma chunk_key_checksum [simp]: "chunk_key n \<noteq> checksum_key"
proof
  assume "chunk_key n = checksum_key"
  then have "''_checksum'' = (if n = 0 then [] else str_nat n)" by (simp add: chunk_key_def checksum_key_def)
  then have "CHR ''_'' \<in> set (str_nat n)" by (cases "n = 0") (simp, metis list.set_intros(1))
  then show False by (simp add: str_nat_avoids)
qed

lemma checksum_chunk_key [simp]: "checksum_key \<noteq> chunk_key n"
  using chunk_key_checksum by metis

text \<open>The number of chunks, and the chunks put together.\<close>

definition nchunks :: "nat \<Rightarrow> string \<Rightarrow> nat" where
  "nchunks n s = (length s + n - 1) div n"

definition chunk :: "nat \<Rightarrow> string \<Rightarrow> nat \<Rightarrow> string" where
  "chunk n s i = take n (drop (i * n) s)"

lemma nchunks_less: "0 < n \<Longrightarrow> i < nchunks n s \<longleftrightarrow> i * n < length s"
proof -
  assume n: "0 < n"
  have "i < nchunks n s \<longleftrightarrow> Suc i \<le> (length s + n - 1) div n" by (auto simp: nchunks_def)
  also have "\<dots> \<longleftrightarrow> Suc i * n \<le> length s + n - 1" using n by (simp add: less_eq_div_iff_mult_less_eq)
  also have "\<dots> \<longleftrightarrow> i * n < length s" using n by auto
  finally show ?thesis .
qed

lemma concat_chunks: "concat (map (chunk n s) [0..<m]) = take (m * n) s"
  by (induction m) (simp_all add: chunk_def add.commute [of n] take_add)

lemma concat_all_chunks: "0 < n \<Longrightarrow> concat (map (chunk n s) [0..<nchunks n s]) = s"
  using nchunks_less [of n "nchunks n s" s] by (simp add: concat_chunks)

lemma chunk_Suc: "chunk n s (Suc i) = chunk n (drop n s) i"
  by (simp add: chunk_def add.commute)

lemma chunk_nonempty: "0 < n \<Longrightarrow> i < nchunks n s \<Longrightarrow> chunk n s i \<noteq> []"
  by (simp add: chunk_def nchunks_less)

lemma nchunks_drop: "0 < n \<Longrightarrow> s \<noteq> [] \<Longrightarrow> nchunks n s = Suc (nchunks n (drop n s))"
proof -
  assume n: "0 < n" "s \<noteq> []"
  have "i < nchunks n s \<longleftrightarrow> i < Suc (nchunks n (drop n s))" for i
    using n nchunks_less [of n "i - 1" "drop n s"] nchunks_less [of n i s]
    by (cases i) (auto simp: less_diff_conv)
  then show ?thesis by (metis nat_neq_iff)
qed

locale xattr_backend =
  fixes be :: "'s backend"
    and attr :: "'s \<Rightarrow> fd_arg \<Rightarrow> string \<Rightarrow> string option"
    and ready :: "'s \<Rightarrow> fd_arg \<Rightarrow> bool"
  assumes get_some: "ready s t \<Longrightarrow> attr s t k = Some v \<Longrightarrow>
      \<exists>s'. be_get be s t k = (s', Inr v) \<and> attr s' = attr s \<and> ready s' = ready s"
    and get_none: "ready s t \<Longrightarrow> attr s t k = None \<Longrightarrow>
      \<exists>s'. be_get be s t k = (s', Inl (OSError ENODATA)) \<and> attr s' = attr s \<and> ready s' = ready s"
    and set_ok: "ready s t \<Longrightarrow>
      \<exists>s'. be_set be s t k v = (s', Inr ()) \<and> attr s' t = (attr s t)(k \<mapsto> v) \<and> ready s' = ready s"
    and chunk_end: "be_chunk_error be ENODATA = None"
    and checksum_end: "\<not> be_checksum_error be ENODATA"
begin

lemma write_chunks_ok:
  assumes "ready s t" and "0 < n"
  shows "\<exists>s'. write_chunks be s t n key str = Some (s', Inr ()) \<and> ready s' = ready s \<and>
    (\<forall>i < nchunks n str. attr s' t (chunk_key (key + i)) = Some (chunk n str i)) \<and>
    (\<forall>k. (\<forall>i < nchunks n str. k \<noteq> chunk_key (key + i)) \<longrightarrow> attr s' t k = attr s t k)"
  using assms(1)
proof (induction str arbitrary: s key rule: length_induct)
  case (1 str)
  show ?case
  proof (cases "str = []")
    case True
    then show ?thesis using assms(2)
      by (subst write_chunks.simps) (simp add: nchunks_def)
  next
    case False
    obtain s1 where s1: "be_set be s t (chunk_key key) (take n str) = (s1, Inr ())"
      "attr s1 t = (attr s t)(chunk_key key \<mapsto> take n str)" "ready s1 = ready s"
      using set_ok [OF 1(2)] by blast
    have "length (drop n str) < length str" using False assms(2) by (cases str) auto
    moreover have "ready s1 t" using 1(2) s1(3) by simp
    ultimately obtain s' where w: "write_chunks be s1 t n (key + 1) (drop n str) = Some (s', Inr ())"
      and r: "ready s' = ready s1"
      and a: "\<And>i. i < nchunks n (drop n str) \<Longrightarrow> attr s' t (chunk_key (key + 1 + i)) = Some (chunk n (drop n str) i)"
      and b: "\<And>k. (\<forall>i < nchunks n (drop n str). k \<noteq> chunk_key (key + 1 + i)) \<Longrightarrow> attr s' t k = attr s1 t k"
      using 1(1) by blast
    note N = nchunks_drop [OF assms(2) False]
    have "attr s' t (chunk_key (key + i)) = Some (chunk n str i)" if "i < nchunks n str" for i
    proof (cases i)
      case 0
      have "attr s' t (chunk_key key) = attr s1 t (chunk_key key)" by (rule b) simp
      with 0 show ?thesis by (simp add: s1(2) chunk_def)
    next
      case (Suc j)
      with that a [of j] show ?thesis by (simp add: N chunk_Suc)
    qed
    moreover have "attr s' t k = attr s t k" if "\<forall>i < nchunks n str. k \<noteq> chunk_key (key + i)" for k
    proof -
      have "k \<noteq> chunk_key key" using that N by (metis add_0_right zero_less_Suc)
      moreover have "k \<noteq> chunk_key (key + 1 + i)" if "i < nchunks n (drop n str)" for i
        using \<open>\<forall>i < nchunks n str. k \<noteq> chunk_key (key + i)\<close> that N by (metis add.assoc plus_1_eq_Suc Suc_less_eq)
      ultimately show ?thesis using b [of k] by (simp add: s1(2))
    qed
    moreover have "write_chunks be s t n key str = Some (s', Inr ())"
      using w by (subst write_chunks.simps) (simp add: False s1(1))
    ultimately show ?thesis using r s1(3) by auto
  qed
qed

lemma read_chunks_ok:
  assumes "ready s t" and "\<forall>i < m. attr s t (chunk_key (key + i)) = Some (c i)"
    and "attr s t (chunk_key (key + m)) = None"
  shows "\<exists>s'. read_chunks be s t key acc = Some (s', Inr (acc @ concat (map c [0..<m]))) \<and>
    attr s' = attr s \<and> ready s' = ready s"
  using assms
proof (induction m arbitrary: s key c acc)
  case 0
  then obtain s' where "be_get be s t (chunk_key key) = (s', Inl (OSError ENODATA))"
    "attr s' = attr s" "ready s' = ready s"
    using get_none [of s t "chunk_key key"] by auto
  then show ?case by (subst read_chunks.simps) (simp add: chunk_end)
next
  case (Suc m)
  from Suc.prems(2) have "attr s t (chunk_key key) = Some (c 0)" by force
  then obtain s1 where s1: "be_get be s t (chunk_key key) = (s1, Inr (c 0))" "attr s1 = attr s" "ready s1 = ready s"
    using get_some [OF Suc.prems(1)] by blast
  have "\<exists>s'. read_chunks be s1 t (key + 1) (acc @ c 0) =
      Some (s', Inr ((acc @ c 0) @ concat (map (\<lambda>i. c (Suc i)) [0..<m]))) \<and> attr s' = attr s1 \<and> ready s' = ready s1"
    using Suc.prems by (intro Suc.IH) (auto simp: s1(2,3))
  then obtain s' where "read_chunks be s1 t (key + 1) (acc @ c 0) =
      Some (s', Inr ((acc @ c 0) @ concat (map (\<lambda>i. c (Suc i)) [0..<m])))" "attr s' = attr s1" "ready s' = ready s1"
    by blast
  moreover have "map c [0..<Suc m] = c 0 # map (\<lambda>i. c (Suc i)) [0..<m]"
    by (simp add: upt_conv_Cons map_Suc_upt [symmetric] comp_def del: upt_Suc)
  ultimately show ?case
    by (subst read_chunks.simps) (simp add: s1 del: upt_Suc)
qed

lemma write_metadata_ok:
  fixes lib md
  assumes "ready s t" and "0 < n"
  defines "str \<equiv> ml_dumps lib (encode_metadata lib md)"
  shows "\<exists>s'. write_metadata lib be s t md n = Some (s', Inr ()) \<and> ready s' = ready s \<and>
    (\<forall>i < nchunks n str. attr s' t (chunk_key i) = Some (chunk n str i)) \<and>
    attr s' t checksum_key = Some (ml_md5 lib str) \<and>
    (\<forall>i. nchunks n str \<le> i \<longrightarrow> attr s' t (chunk_key i) = attr s t (chunk_key i))"
proof -
  obtain s1 where w: "write_chunks be s t n 0 str = Some (s1, Inr ())" "ready s1 = ready s"
    and a: "\<And>i. i < nchunks n str \<Longrightarrow> attr s1 t (chunk_key i) = Some (chunk n str i)"
    and b: "\<And>k. (\<forall>i < nchunks n str. k \<noteq> chunk_key i) \<Longrightarrow> attr s1 t k = attr s t k"
    using write_chunks_ok [OF assms(1,2), of 0 str] by auto
  obtain s2 where s2: "be_set be s1 t checksum_key (ml_md5 lib str) = (s2, Inr ())"
      "attr s2 t = (attr s1 t)(checksum_key \<mapsto> ml_md5 lib str)" "ready s2 = ready s1"
    using set_ok [of s1 t] assms(1) w(2) by metis
  have "attr s2 t (chunk_key i) = attr s t (chunk_key i)" if "nchunks n str \<le> i" for i
    using that b [of "chunk_key i"] by (simp add: s2(2))
  then show ?thesis
    using w(1) s2(1) a w(2) s2(3) unfolding write_metadata_def str_def [symmetric]
    by (intro exI [of _ s2]) (simp add: Let_def s2(2))
qed

lemma read_metadata_found:
  assumes "ready s t" and "\<forall>i < m. attr s t (chunk_key i) = Some (c i)" and "attr s t (chunk_key m) = None"
    and "attr s t checksum_key = Some cs" and "concat (map c [0..<m]) \<noteq> []" and "cs \<noteq> []"
  defines "str \<equiv> concat (map c [0..<m])"
  shows "\<exists>s'. read_metadata lib be s t add = Some (s',
    if cs \<noteq> ml_md5 lib str then Inl DiskFileBadMetadataChecksum
    else map_sum id (\<lambda>md. decode_metadata lib md (contains ''_codecs\<newline>encode'' (take 32 str))) (ml_loads lib str))"
proof -
  obtain s1 where r: "read_chunks be s t 0 [] = Some (s1, Inr str)" "attr s1 = attr s" "ready s1 = ready s"
    using read_chunks_ok [of s t m 0 c "[]"] assms by auto
  obtain s2 where s2: "be_get be s1 t checksum_key = (s2, Inr cs)"
    using get_some [of s1 t checksum_key cs] assms(1,4) r by auto
  show ?thesis
    using assms(5,6) unfolding str_def [symmetric]
    by (simp add: read_metadata_def r(1) read_checksum_def s2 Let_def)
qed

text \<open>A file without metadata chunks, written once, reads back.\<close>

lemma write_then_read:
  fixes lib md
  defines "str \<equiv> ml_dumps lib (encode_metadata lib md)"
  assumes "ready s t" and "0 < n" and "\<forall>i. attr s t (chunk_key i) = None"
    and "str \<noteq> []" and "ml_md5 lib str \<noteq> []"
  shows "\<exists>s1 s2. write_metadata lib be s t md n = Some (s1, Inr ()) \<and>
    read_metadata lib be s1 t add = Some (s2,
      map_sum id (\<lambda>md. decode_metadata lib md (contains ''_codecs\<newline>encode'' (take 32 str))) (ml_loads lib str))"
proof -
  obtain s1 where w: "write_metadata lib be s t md n = Some (s1, Inr ())" "ready s1 = ready s"
    and a: "\<forall>i < nchunks n str. attr s1 t (chunk_key i) = Some (chunk n str i)"
    and c: "attr s1 t checksum_key = Some (ml_md5 lib str)"
    and z: "attr s1 t (chunk_key (nchunks n str)) = None"
    using write_metadata_ok [OF assms(2,3), of lib md] assms(4) unfolding str_def by auto
  have r: "ready s1 t" using assms(2) w(2) by simp
  note cc = concat_all_chunks [OF assms(3), of str]
  have "concat (map (chunk n str) [0..<nchunks n str]) \<noteq> []" unfolding cc by (rule assms(5))
  note found = read_metadata_found [OF r a z c this assms(6), where lib = lib and add = add]
  show ?thesis using w(1) found unfolding cc by auto
qed

text \<open>
  A file whose metadata is rewritten with fewer chunks keeps the old chunks at the end, and the checksum
  no longer fits.
\<close>

lemma write_write_read:
  fixes lib md1 md2
  defines "str1 \<equiv> ml_dumps lib (encode_metadata lib md1)" and "str2 \<equiv> ml_dumps lib (encode_metadata lib md2)"
  assumes "ready s t" and n: "0 < n" and "\<forall>i. attr s t (chunk_key i) = None"
    and fewer: "nchunks n str2 < nchunks n str1" and "ml_md5 lib str2 \<noteq> []"
    and md5: "\<forall>x. x \<noteq> str2 \<longrightarrow> ml_md5 lib x \<noteq> ml_md5 lib str2"
  shows "\<exists>s1 s2 s3. write_metadata lib be s t md1 n = Some (s1, Inr ()) \<and>
    write_metadata lib be s1 t md2 n = Some (s2, Inr ()) \<and>
    read_metadata lib be s2 t add = Some (s3, Inl DiskFileBadMetadataChecksum)"
proof -
  obtain s1 where w1: "write_metadata lib be s t md1 n = Some (s1, Inr ())" "ready s1 = ready s"
    and a1: "\<forall>i < nchunks n str1. attr s1 t (chunk_key i) = Some (chunk n str1 i)"
    and z1: "attr s1 t (chunk_key (nchunks n str1)) = None"
    using write_metadata_ok [OF assms(3) n, of lib md1] assms(5) unfolding str1_def by auto
  have r1: "ready s1 t" using assms(3) w1(2) by simp
  obtain s2 where w2: "write_metadata lib be s1 t md2 n = Some (s2, Inr ())" "ready s2 = ready s1"
    and a2: "\<forall>i < nchunks n str2. attr s2 t (chunk_key i) = Some (chunk n str2 i)"
    and c2: "attr s2 t checksum_key = Some (ml_md5 lib str2)"
    and b2: "\<forall>i. nchunks n str2 \<le> i \<longrightarrow> attr s2 t (chunk_key i) = attr s1 t (chunk_key i)"
    using write_metadata_ok [OF r1 n, of lib md2] unfolding str2_def by auto
  have r2: "ready s2 t" using r1 w2(2) by simp
  let ?c = "\<lambda>i. if i < nchunks n str2 then chunk n str2 i else chunk n str1 i"
  let ?m = "nchunks n str1"
  have a: "\<forall>i < ?m. attr s2 t (chunk_key i) = Some (?c i)" using a1 a2 b2 by simp
  have z: "attr s2 t (chunk_key ?m) = None" using b2 z1 fewer by simp
  have "[0..<?m] = [0..<nchunks n str2] @ [nchunks n str2..<?m]"
    using fewer by (metis le_add_diff_inverse less_imp_le upt_add_eq_append zero_le)
  then have "concat (map ?c [0..<?m]) = concat (map ?c [0..<nchunks n str2]) @ concat (map ?c [nchunks n str2..<?m])"
    by simp
  also have "map ?c [0..<nchunks n str2] = map (chunk n str2) [0..<nchunks n str2]" by simp
  finally have cc: "concat (map ?c [0..<?m]) = str2 @ concat (map ?c [nchunks n str2..<?m])"
    by (simp only: concat_all_chunks [OF n])
  have "concat (map ?c [nchunks n str2..<?m]) \<noteq> []"
    using fewer chunk_nonempty [OF n fewer] by (simp add: upt_conv_Cons)
  then have ne: "concat (map ?c [0..<?m]) \<noteq> str2" "concat (map ?c [0..<?m]) \<noteq> []" unfolding cc by simp_all
  then have "ml_md5 lib str2 \<noteq> ml_md5 lib (concat (map ?c [0..<?m]))" using md5 by metis
  with read_metadata_found [OF r2 a z c2 ne(2) assms(7), where lib = lib and add = add]
  show ?thesis using w1(1) w2(1) by auto
qed

end

section \<open>The backends\<close>

definition bs_attr :: "xstate \<Rightarrow> fd_arg \<Rightarrow> string \<Rightarrow> string option" where
  "bs_attr s t k =
     (case get_filename t of
        PathInt d \<Rightarrow> None
      | PathStr p \<Rightarrow> (case xs_dbs s (db_path p) of None \<Rightarrow> None | Some m \<Rightarrow> m k))"

definition bs_ready :: "xstate \<Rightarrow> fd_arg \<Rightarrow> bool" where
  "bs_ready s t \<longleftrightarrow> xs_present s \<and> xs_put_error s = None \<and>
     (case get_filename t of PathInt d \<Rightarrow> False | PathStr p \<Rightarrow> xs_open_error s (db_path p) = None)"

definition kernel_attr :: "kstate \<Rightarrow> fd_arg \<Rightarrow> string \<Rightarrow> string option" where
  "kernel_attr s t k = (case resolve s t of None \<Rightarrow> None | Some i \<Rightarrow> ks_attrs s i k)"

definition kernel_ready :: "kstate \<Rightarrow> fd_arg \<Rightarrow> bool" where
  "kernel_ready s t \<longleftrightarrow> ks_error s = None \<and> resolve s t \<noteq> None"

lemma ENODATA_not [simp]: "ENODATA \<noteq> 0" "ENODATA \<noteq> ENOTSUP" "ENODATA \<noteq> ENOENT"
  by (simp_all add: errno_simps)

lemma db_open_keeps:
  "db_open s p = Some (s', db) \<Longrightarrow>
     bs_attr s' = bs_attr s \<and> bs_ready s' = bs_ready s \<and> db = (case xs_dbs s p of None \<Rightarrow> (\<lambda>_. None) | Some m \<Rightarrow> m)"
  by (auto simp: db_open_def bs_attr_def bs_ready_def fun_eq_iff split: if_splits option.splits path_arg.split)

interpretation bs: xattr_backend bs_backend bs_attr bs_ready
proof
  fix s t k and v :: string
  assume ready: "bs_ready s t"
  then obtain p where p: "get_filename t = PathStr p" and o: "xs_open_error s (db_path p) = None"
    and ok: "xs_present s" "xs_put_error s = None"
    by (auto simp: bs_ready_def split: path_arg.splits)
  obtain s1 db where op: "db_open s (db_path p) = Some (s1, db)"
    using o that by (cases "xs_dbs s (db_path p)") (simp_all add: db_open_def)
  note keeps = db_open_keeps [OF op]
  have db: "db k = bs_attr s t k" for k using keeps by (simp add: bs_attr_def p split: option.split)
  have get: "be_get bs_backend s t k =
      (s1, case bs_attr s t k of None \<Rightarrow> Inl (OSError ENODATA) | Some v \<Rightarrow> Inr v)"
    by (simp add: bs_backend_def bs_xattr_get_def p ok cmd_get_def op db split: option.split)
  show "bs_attr s t k = Some v \<Longrightarrow>
      \<exists>s'. be_get bs_backend s t k = (s', Inr v) \<and> bs_attr s' = bs_attr s \<and> bs_ready s' = bs_ready s"
    using keeps by (simp add: get)
  show "bs_attr s t k = None \<Longrightarrow>
      \<exists>s'. be_get bs_backend s t k = (s', Inl (OSError ENODATA)) \<and> bs_attr s' = bs_attr s \<and> bs_ready s' = bs_ready s"
    using keeps by (simp add: get)
  have "xs_put_error s1 = None" using op ok by (auto simp: db_open_def split: if_splits option.splits)
  then have "be_set bs_backend s t k v =
      (s1\<lparr>xs_dbs := (xs_dbs s1)(db_path p := Some (db(k \<mapsto> v)))\<rparr>, Inr ())"
    by (simp add: bs_backend_def bs_xattr_set_def p ok cmd_set_def op)
  moreover have "bs_attr (s1\<lparr>xs_dbs := (xs_dbs s1)(db_path p := Some (db(k \<mapsto> v)))\<rparr>) t = (bs_attr s t)(k \<mapsto> v)"
    using db by (auto simp: bs_attr_def p fun_eq_iff)
  moreover have "bs_ready (s1\<lparr>xs_dbs := (xs_dbs s1)(db_path p := Some (db(k \<mapsto> v)))\<rparr>) = bs_ready s1"
    by (simp add: bs_ready_def fun_eq_iff split: path_arg.split)
  ultimately show "\<exists>s'. be_set bs_backend s t k v = (s', Inr ()) \<and> bs_attr s' t = (bs_attr s t)(k \<mapsto> v) \<and> bs_ready s' = bs_ready s"
    using keeps by auto
qed (simp_all add: bs_backend_def bs_chunk_error_def)

interpretation kernel: xattr_backend kernel_backend kernel_attr kernel_ready
proof
  fix s t k and v :: string
  assume "kernel_ready s t"
  then obtain i where i: "resolve s t = Some i" and ok: "ks_error s = None" by (auto simp: kernel_ready_def)
  show "kernel_attr s t k = Some v \<Longrightarrow>
      \<exists>s'. be_get kernel_backend s t k = (s', Inr v) \<and> kernel_attr s' = kernel_attr s \<and> kernel_ready s' = kernel_ready s"
    by (simp add: kernel_backend_def getxattr_def ok i kernel_attr_def)
  show "kernel_attr s t k = None \<Longrightarrow>
      \<exists>s'. be_get kernel_backend s t k = (s', Inl (OSError ENODATA)) \<and> kernel_attr s' = kernel_attr s \<and> kernel_ready s' = kernel_ready s"
    by (simp add: kernel_backend_def getxattr_def ok i kernel_attr_def)
  let ?s = "s\<lparr>ks_attrs := (ks_attrs s)(i := (ks_attrs s i)(k \<mapsto> v))\<rparr>"
  have res: "resolve ?s = resolve s"
  proof
    fix t show "resolve ?s t = resolve s t" by (cases t) simp_all
  qed
  have "be_set kernel_backend s t k v = (?s, Inr ())"
    by (simp add: kernel_backend_def setxattr_def ok i)
  moreover have "kernel_attr ?s t = (kernel_attr s t)(k \<mapsto> v)"
    by (auto simp: kernel_attr_def res i fun_eq_iff)
  moreover have "kernel_ready ?s = kernel_ready s" by (simp add: kernel_ready_def res fun_eq_iff)
  ultimately show "\<exists>s'. be_set kernel_backend s t k v = (s', Inr ()) \<and> kernel_attr s' t = (kernel_attr s t)(k \<mapsto> v) \<and>
      kernel_ready s' = kernel_ready s"
    by blast
qed (simp_all add: kernel_backend_def kernel_chunk_error_def)

section \<open>Metadata survives\<close>

text \<open>Native metadata: a dictionary of native strings.\<close>

fun is_native :: "pystr \<Rightarrow> bool" where
  "is_native (Str s) = True"
| "is_native (Bytes b) = False"

definition native :: "py_metadata \<Rightarrow> bool" where
  "native md \<longleftrightarrow> distinct (map fst md) \<and> list_all (\<lambda>(k, v). is_native k \<and> is_native v) md"

text \<open>
  What is relied on from the library for one dictionary: UTF-8 decoding undoes encoding, \<^verbatim>\<open>pickle.loads\<close>
  undoes \<^verbatim>\<open>pickle.dumps\<close>, a pickle is not empty and, if it has strings, begins with the marker of
  byte strings written by Python 3.
\<close>

definition pickles :: "md_lib \<Rightarrow> py_metadata \<Rightarrow> bool" where
  "pickles lib md \<longleftrightarrow>
     (let e = encode_metadata lib md; p = ml_dumps lib e in
        ml_loads lib p = Inr e \<and> p \<noteq> [] \<and> ml_md5 lib p \<noteq> [] \<and>
        (md = [] \<or> contains ''_codecs\<newline>encode'' (take 32 p)))"

definition utf8_ok :: "md_lib \<Rightarrow> bool" where
  "utf8_ok lib \<longleftrightarrow> (\<forall>s. ml_utf8_decode lib (ml_utf8_encode lib s) = s)"

lemma dict_of_distinct: "distinct (map fst kvs) \<Longrightarrow> dict_of kvs = kvs"
proof -
  have "distinct (map fst (acc @ kvs)) \<Longrightarrow> fold (\<lambda>(k, v). AList.update k v) kvs acc = acc @ kvs" for acc
  proof (induction kvs arbitrary: acc)
    case (Cons x kvs)
    obtain k v where x: "x = (k, v)" by (cases x)
    have "AList.update k v acc = acc @ [(k, v)]"
      using Cons.prems by (induction acc) (auto simp: x)
    with Cons.IH [of "acc @ [x]"] Cons.prems show ?case by (simp add: x)
  qed simp
  from this [of "[]"] show "distinct (map fst kvs) \<Longrightarrow> dict_of kvs = kvs" by (simp add: dict_of_def)
qed

lemma decode_encode:
  assumes "utf8_ok lib" and "native md"
  shows "decode_metadata lib (encode_metadata lib md) True = md"
proof -
  have undo: "to_str lib True b (encode_str lib x) = x" if "is_native x" for b x
    using that assms(1) by (cases x) (simp_all add: utf8_ok_def)
  have inj: "inj_on (encode_str lib) {x. is_native x}"
    using undo by (metis (no_types, lifting) inj_on_inverseI mem_Collect_eq)
  have keys: "set (map fst md) \<subseteq> {x. is_native x}" using assms(2) by (auto simp: native_def list_all_iff)
  have "distinct (map (encode_str lib) (map fst md))"
    using assms(2) inj_on_subset [OF inj keys] by (simp add: distinct_map native_def comp_inj_on)
  then have e: "encode_metadata lib md = map (\<lambda>(k, v). (encode_str lib k, encode_str lib v)) md"
    unfolding encode_metadata_def by (intro dict_of_distinct) (simp add: comp_def split_def)
  have "map (\<lambda>(k, v). (to_str lib True False k, to_str lib True (k = Bytes ''name'') v)) (encode_metadata lib md) = md"
    unfolding e map_map using assms(2) undo
    by (intro map_idI) (auto simp: native_def list_all_iff)
  then show ?thesis
    using assms(2) by (simp add: decode_metadata_def dict_of_distinct native_def)
qed

text \<open>C36: metadata written through the \<^verbatim>\<open>bs_xattr\<close> utility to a file that had none is read back unchanged,
  whatever the chunk size.\<close>

theorem bs_metadata_roundtrip:
  assumes "bs_ready s fd" and "\<forall>i. bs_attr s fd (chunk_key i) = None" and "0 < xattr_size"
    and "utf8_ok lib" and "pickles lib md" and "native md"
  shows "\<exists>s1 s2. write_metadata lib bs_backend s fd md xattr_size = Some (s1, Inr ()) \<and>
    read_metadata lib bs_backend s1 fd add_missing_checksum = Some (s2, Inr md)"
proof (cases "md = []")
  case False
  then show ?thesis
    using bs.write_then_read [OF assms(1,3,2), of lib md add_missing_checksum] assms(5) decode_encode [OF assms(4,6)]
    by (auto simp: pickles_def Let_def)
next
  case True
  have "decode_metadata lib [] b = []" "encode_metadata lib [] = []" for b
    by (simp_all add: decode_metadata_def encode_metadata_def dict_of_def)
  then show ?thesis
    using bs.write_then_read [OF assms(1,3,2), of lib md add_missing_checksum] assms(5)
    by (auto simp: pickles_def Let_def True)
qed

text \<open>a file whose metadata is rewritten and takes fewer chunks than before can no longer be read: the old
  chunks at the end stay and the checksum does not fit.\<close>

theorem bs_rewrite_shorter_unreadable:
  assumes "bs_ready s fd" and "\<forall>i. bs_attr s fd (chunk_key i) = None" and "0 < xattr_size"
    and "nchunks xattr_size (ml_dumps lib (encode_metadata lib md2)) < nchunks xattr_size (ml_dumps lib (encode_metadata lib md1))"
    and "ml_md5 lib (ml_dumps lib (encode_metadata lib md2)) \<noteq> []"
    and "\<forall>x. x \<noteq> ml_dumps lib (encode_metadata lib md2) \<longrightarrow> ml_md5 lib x \<noteq> ml_md5 lib (ml_dumps lib (encode_metadata lib md2))"
  shows "\<exists>s1 s2 s3. write_metadata lib bs_backend s fd md1 xattr_size = Some (s1, Inr ()) \<and>
    write_metadata lib bs_backend s1 fd md2 xattr_size = Some (s2, Inr ()) \<and>
    read_metadata lib bs_backend s2 fd add_missing_checksum = Some (s3, Inl DiskFileBadMetadataChecksum)"
  by (rule bs.write_write_read [OF assms(1,3,2,4,5,6)])

lemma bs_descriptor_type_error:
  assumes "ml_dumps lib (encode_metadata lib md) \<noteq> []"
  shows "write_metadata lib bs_backend s (Descriptor d) md xattr_size = Some (s, Inl TypeError)"
proof -
  have "write_chunks bs_backend s (Descriptor d) xattr_size 0 (ml_dumps lib (encode_metadata lib md)) = Some (s, Inl TypeError)"
    using assms by (subst write_chunks.simps) (simp add: bs_backend_def bs_xattr_set_def)
  then show ?thesis by (simp add: write_metadata_def write_error_def)
qed

text \<open>through the utility, metadata can not be written to a bare descriptor, as the disk file writer does:
  the call raises \<^verbatim>\<open>TypeError\<close> and stores nothing, where the other backend stores the metadata.\<close>

theorem descriptor_write_fails:
  assumes "ml_dumps lib (encode_metadata lib md) \<noteq> []" and "0 < xattr_size"
    and "kernel_ready k (Descriptor d)"
  shows "write_metadata lib bs_backend s (Descriptor d) md xattr_size = Some (s, Inl TypeError) \<and>
    (\<exists>k'. write_metadata lib kernel_backend k (Descriptor d) md xattr_size = Some (k', Inr ()))"
  using bs_descriptor_type_error [OF assms(1)] kernel.write_metadata_ok [OF assms(3,2)] by blast

section \<open>Concrete runs\<close>

text \<open>A codec for the witnesses: one entry, written with its marker; strings are their own bytes.\<close>

definition sample_md_lib :: md_lib where
  "sample_md_lib = \<lparr>ml_utf8_encode = id, ml_utf8_decode = id, ml_latin1_decode = id, ml_md5 = (\<lambda>s. ''m'' @ s),
     ml_dumps = (\<lambda>md. case md of [(Bytes k, Bytes v)] \<Rightarrow> ''_codecs\<newline>encode'' @ k @ CHR ''='' # v | _ \<Rightarrow> ''.''),
     ml_loads = (\<lambda>s. if s = ''.'' then Inr []
       else (case split_on (CHR ''='') (drop 14 s) of
               [k, v] \<Rightarrow> Inr [(Bytes k, Bytes v)] | _ \<Rightarrow> Inl ValueError))\<rparr>"

definition sample_xstate :: xstate where
  "sample_xstate = \<lparr>xs_present = True, xs_dbs = (\<lambda>_. None), xs_open_error = (\<lambda>_. None), xs_put_error = None\<rparr>"

definition sample_kstate :: kstate where
  "sample_kstate = \<lparr>ks_names = (\<lambda>_. Some 1), ks_fds = (\<lambda>_. Some 1), ks_attrs = (\<lambda>_ _. None), ks_error = None\<rparr>"

lemma sample_fresh: "bs_ready sample_xstate (Filename f)" "\<forall>i. bs_attr sample_xstate (Filename f) (chunk_key i) = None"
  by (simp_all add: bs_ready_def bs_attr_def sample_xstate_def)

theorem bs_metadata_roundtrip_witness:
  "\<exists>s1 s2. write_metadata sample_md_lib bs_backend sample_xstate (Filename ''/o/1.data'') [(Str ''name'', Str ''/a/c/o'')] 5 = Some (s1, Inr ()) \<and>
    read_metadata sample_md_lib bs_backend s1 (Filename ''/o/1.data'') False = Some (s2, Inr [(Str ''name'', Str ''/a/c/o'')])"
proof (rule bs_metadata_roundtrip [OF sample_fresh])
  show "pickles sample_md_lib [(Str ''name'', Str ''/a/c/o'')]" "native [(Str ''name'', Str ''/a/c/o'')]" by code_simp+
qed (simp_all add: utf8_ok_def sample_md_lib_def)

theorem bs_rewrite_shorter_unreadable_witness:
  "\<exists>s1 s2 s3. write_metadata sample_md_lib bs_backend sample_xstate (Filename ''/o/1.data'') [(Str ''name'', Str ''/a/c/o'')] 5 = Some (s1, Inr ()) \<and>
    write_metadata sample_md_lib bs_backend s1 (Filename ''/o/1.data'') [] 5 = Some (s2, Inr ()) \<and>
    read_metadata sample_md_lib bs_backend s2 (Filename ''/o/1.data'') False = Some (s3, Inl DiskFileBadMetadataChecksum)"
proof (rule bs_rewrite_shorter_unreadable [OF sample_fresh])
  show "nchunks 5 (ml_dumps sample_md_lib (encode_metadata sample_md_lib []))
      < nchunks 5 (ml_dumps sample_md_lib (encode_metadata sample_md_lib [(Str ''name'', Str ''/a/c/o'')]))"
    by code_simp
qed (simp_all add: sample_md_lib_def)

theorem descriptor_write_fails_witness:
  "write_metadata sample_md_lib bs_backend sample_xstate (Descriptor 7) [(Str ''name'', Str ''/a/c/o'')] 65536 =
     Some (sample_xstate, Inl TypeError)"
proof -
  have "ml_dumps sample_md_lib (encode_metadata sample_md_lib [(Str ''name'', Str ''/a/c/o'')]) \<noteq> []" by code_simp
  moreover have "kernel_ready sample_kstate (Descriptor 7)" by (simp add: kernel_ready_def sample_kstate_def)
  ultimately show ?thesis using descriptor_write_fails [of sample_md_lib _ 65536 sample_kstate 7 sample_xstate] by simp
qed

end
