(* ===== verification/Answers.thy ===== *)
theory Answers
  imports Register Xattr
begin

text \<open>
  What the object server answers in particular cases: uploads that do not match their announcement, uploads
  onto the BlueStore backend of the metadata, and HEAD against GET.
\<close>

section \<open>Uploads that do not match\<close>

text \<open>C32: an upload whose number of bytes is not the announced one, or whose digest is not the announced etag, is refused
  (499 and 422) and leaves the object as it was.\<close>

theorem put_checks_bytes:
  fixes env :: "'t :: {linorder, order_bot} server_env"
  assumes "upload env pl t body rq" and "placed env pl" and "replicated env" and "os_opens (sv_os env)"
    and "writes_ok (sv_os env)" and "holds env (name_of pl) reg (ss_disk s)" and "reg_time reg < t"
    and "object_size env (rq_headers rq) = Inr fsize"
    and "e = sv_normalize_etag env (hk_default (rq_headers rq) ''etag'' [])"
    and "fsize \<notin> {None, Some (int (length body))} \<or> e \<notin> {[], sv_md5 env body}"
  shows "\<exists>s' resp. call env rq s = Some (s', resp) \<and>
    rs_status resp = (if fsize \<notin> {None, Some (int (length body))} then 499 else 422) \<and>
    holds env (name_of pl) reg (ss_disk s')"
proof -
  obtain df orig w u where h: "holds env (name_of pl) reg (ss_disk s\<lparr>od_use_linkat := u\<rparr>)"
    and P: "PUT env rq s =
      (if t \<le> reg_time reg
       then Some (s, Inl (Http (reply_with 409 [(''X-Backend-Timestamp'', ts_internal (lib_of env) (reg_time reg))])))
       else if fsize \<notin> {None, Some (int (length body))}
       then Some (s\<lparr>ss_disk := ss_disk s\<lparr>od_use_linkat := u\<rparr>\<rparr>, Inl (Http (reply 499)))
       else case put_finish env rq t df None (length body, sv_md5 env body) w (s\<lparr>ss_disk := ss_disk s\<lparr>od_use_linkat := u\<rparr>\<rparr>) of
              (w, s, Inl e) \<Rightarrow> Some (s, put_error e)
            | (w, s, Inr (etag, footers, metadata)) \<Rightarrow>
                Some (and_then (post_commit_updates env pl rq t orig footers metadata s)
                  (\<lambda>s u. (s, Inr (reply_with 201 [(''Etag'', etag)])))))"
    using put_uploads [OF assms(1-6,8)] by (elim exE conjE)
  have call: "call env rq s = map_option (\<lambda>(s, r). (s, response_of r)) (PUT env rq s)"
    by (rule call_put) (use assms(1) in \<open>simp_all add: upload_def upload_check_def\<close>)
  have t: "\<not> t \<le> reg_time reg" using assms(7) by simp
  show ?thesis
  proof (cases "fsize \<in> {None, Some (int (length body))}")
    case False
    then show ?thesis using h t by (auto simp: call P response_of_def reply_def)
  next
    case True
    obtain m where m: "get_request_metadata env (rq_headers rq) t (length body) (sv_md5 env body) = Inr m"
      "map_of m ''ETag'' = Some (sv_md5 env body)"
      by (rule request_metadata [OF assms(1)])
    have "apply_extra_metadata env (rq_headers rq) m [] = Inl (Http (reply 422))"
      using True assms(9,10) m(2) by (auto simp: apply_extra_metadata_def dict_update_def hk_get_def)
    then have "PUT env rq s = Some (s\<lparr>ss_disk := ss_disk s\<lparr>od_use_linkat := u\<rparr>\<rparr>, Inl (Http (reply 422)))"
      using True t by (simp add: P put_finish_def m(1))
    then show ?thesis using h True by (simp add: call response_of_def reply_def)
  qed
qed

section \<open>Uploads onto BlueStore\<close>

text \<open>The exception of writing metadata to the writer's descriptor through the BlueStore utility.\<close>

definition bs_write_md :: "md_lib \<Rightarrow> xstate \<Rightarrow> int \<Rightarrow> nat \<Rightarrow> metadata \<Rightarrow> pyexc option" where
  "bs_write_md lib x fd xattr_size m =
     (case write_metadata lib bs_backend x (Descriptor fd) (map (\<lambda>(k, v). (Str k, Str v)) m) xattr_size of
        Some (x, Inl e) \<Rightarrow> Some e | _ \<Rightarrow> None)"

text \<open>C33: with the BlueStore backend for the metadata no upload succeeds: a PUT that the server would otherwise take is
  answered with 500, and the object stays as it was.\<close>

theorem bluestore_put_fails:
  fixes env :: "'t :: {linorder, order_bot} server_env"
  assumes "plain_put env pl t body rq" and "placed env pl" and "replicated env" and "os_opens (sv_os env)"
    and "writes_ok (sv_os env)" and "holds env (name_of pl) reg (ss_disk s)" and "reg_time reg < t"
    and "os_write_md (sv_os env) = bs_write_md lib x fd xattr_size"
    and "\<And>m. ml_dumps lib (encode_metadata lib m) \<noteq> []"
  shows "\<exists>s' resp. call env rq s = Some (s', resp) \<and> rs_status resp = 500 \<and> holds env (name_of pl) reg (ss_disk s')"
proof -
  have up: "upload env pl t body rq" using assms(1) by (simp add: plain_put_def)
  obtain fsize where fz: "object_size env (rq_headers rq) = Inr fsize" "fsize \<in> {None, Some (int (length body))}"
    using assms(1) by (auto simp: plain_put_def)
  obtain df orig w u where nm: "df_name df = Some (name_of pl)" and w: "wr_ext w = ''.data''"
    and h: "holds env (name_of pl) reg (ss_disk s\<lparr>od_use_linkat := u\<rparr>)"
    and P: "PUT env rq s =
      (if t \<le> reg_time reg
       then Some (s, Inl (Http (reply_with 409 [(''X-Backend-Timestamp'', ts_internal (lib_of env) (reg_time reg))])))
       else if fsize \<notin> {None, Some (int (length body))}
       then Some (s\<lparr>ss_disk := ss_disk s\<lparr>od_use_linkat := u\<rparr>\<rparr>, Inl (Http (reply 499)))
       else case put_finish env rq t df None (length body, sv_md5 env body) w (s\<lparr>ss_disk := ss_disk s\<lparr>od_use_linkat := u\<rparr>\<rparr>) of
              (w, s, Inl e) \<Rightarrow> Some (s, put_error e)
            | (w, s, Inr (etag, footers, metadata)) \<Rightarrow>
                Some (and_then (post_commit_updates env pl rq t orig footers metadata s)
                  (\<lambda>s u. (s, Inr (reply_with 201 [(''Etag'', etag)])))))"
    using put_uploads [OF up assms(2-6) fz(1)] by (elim exE conjE)
  obtain m where m: "get_request_metadata env (rq_headers rq) t (length body) (sv_md5 env body) = Inr m"
    "map_of m ''X-Timestamp'' = Some (ts_internal (lib_of env) t)" "map_of m ''ETag'' = Some (sv_md5 env body)"
    "map_of m ''Content-Type-Timestamp'' = None"
    by (rule request_metadata [OF up])
  have ex: "apply_extra_metadata env (rq_headers rq) m [] = Inr m"
    using assms(1) m(3) by (auto simp: apply_extra_metadata_def plain_put_def dict_update_def hk_get_def)
  have bs: "os_write_md (sv_os env) md = Some TypeError" for md
    using bs_descriptor_type_error [of lib] assms(9) by (simp add: assms(8) bs_write_md_def)
  have "put_filename (lib_of env) (\<lambda>t c. Inr (base_make_filename (lib_of env) t (Some (wr_ext w)) c)) m = Inr (ts_internal (lib_of env) t @ wr_ext w)"
    by (rule put_name) (use up m(2,4) w in \<open>simp_all add: upload_def upload_check_def\<close>)
  then have "sv_put env df w (ss_disk s\<lparr>od_use_linkat := u\<rparr>) m = (w, ss_disk s\<lparr>od_use_linkat := u\<rparr>, Inl TypeError)"
    using assms(3) by (simp add: replicated_def repl_put_def base_put_def lib_of_def finalize_put_def bs)
  then have "put_finish env rq t df None (length body, sv_md5 env body) w (s\<lparr>ss_disk := ss_disk s\<lparr>od_use_linkat := u\<rparr>\<rparr>) =
      (w, s\<lparr>ss_disk := ss_disk s\<lparr>od_use_linkat := u\<rparr>\<rparr>, Inl (Py TypeError))"
    by (simp add: put_finish_def m(1) ex)
  moreover have "\<not> t \<le> reg_time reg" using assms(7) by simp
  ultimately have "PUT env rq s = Some (s\<lparr>ss_disk := ss_disk s\<lparr>od_use_linkat := u\<rparr>\<rparr>, Inl (Py TypeError))"
    using fz(2) by (simp add: P unavailable_def)
  moreover have "call env rq s = map_option (\<lambda>(s, r). (s, response_of r)) (PUT env rq s)"
    by (rule call_put) (use up in \<open>simp_all add: upload_def upload_check_def\<close>)
  ultimately show ?thesis using h by (simp add: response_of_def reply_def)
qed

section \<open>HEAD and GET\<close>









section \<open>Concrete answers\<close>

text \<open>An upload of five bytes where seven were announced.\<close>

definition short_rq :: put_request where
  "short_rq = (put_rq ''960'' [''hel'', ''lo''])\<lparr>rq_headers := [(''X-Timestamp'', ''960''), (''Content-Type'', ''text/plain''),
     (''Content-Length'', ''7'')]\<rparr>"

lemma holds_absent: "holds env name Absent (ss_disk sample_state)"
  by (simp add: holds_def sample_state_def sample_disk_def)

lemma sample_internal_ok: "internal_ok (lib_of sample_server) t"
  using sample_internal(1) [of t] by (simp add: lib_of_def sample_server_ok(7))

theorem put_checks_bytes_witness:
  "\<exists>s' resp. call sample_server short_rq sample_state = Some (s', resp) \<and> rs_status resp = 499 \<and>
     holds sample_server (name_of sample_placement) Absent (ss_disk s')"
proof -
  have np: "updates_ok sample_server sample_placement (request.truncate short_rq)"
    by (rule no_partition_updates_ok) code_simp
  have ch: "\<exists>chunks. rq_reads short_rq = map Chunk chunks \<and> [] \<notin> set chunks \<and> concat chunks = ''hello''"
    by (rule exI [of _ "[''hel'', ''lo'']"]) (simp add: short_rq_def put_rq_def)
  have up: "upload sample_server sample_placement 960 ''hello'' short_rq"
    unfolding upload_def
    by (intro conjI; (rule sample_internal_ok | rule np | rule ch | code_simp))
  have sz: "object_size sample_server (rq_headers short_rq) = Inr (Some 7)" by code_simp
  have "os_opens (sv_os sample_server)" by (rule os_ok_opens [OF sample_server_ok(3)])
  from put_checks_bytes [OF up sample_server_ok(1,2) this sample_server_ok(4) holds_absent _ sz refl]
  show ?thesis by (simp add: bot_nat_def)
qed

definition bs_server :: "nat server_env" where
  "bs_server = sample_server\<lparr>sv_os := sample_os\<lparr>os_write_md := bs_write_md sample_md_lib sample_xstate 7 65536\<rparr>,
     sv_put := (\<lambda>df. repl_put sample_df_env (sample_os\<lparr>os_write_md := bs_write_md sample_md_lib sample_xstate 7 65536\<rparr>)
       (df_datadir df) (case df_name df of None \<Rightarrow> [] | Some n \<Rightarrow> n))\<rparr>"

theorem bluestore_put_fails_witness:
  "\<exists>s' resp. call bs_server (put_rq ''960'' [''hel'', ''lo'']) sample_state = Some (s', resp) \<and> rs_status resp = 500 \<and>
     holds bs_server (name_of sample_placement) Absent (ss_disk s')"
proof -
  let ?rq = "put_rq ''960'' [''hel'', ''lo'']"
  have li: "lib_of bs_server = lib_of sample_server" "sv_df bs_server = sv_df sample_server"
    "sv_os bs_server = sample_os\<lparr>os_write_md := bs_write_md sample_md_lib sample_xstate 7 65536\<rparr>"
    by (simp_all add: bs_server_def lib_of_def)
  have "plain_put bs_server sample_placement 960 ''hello'' ?rq = plain_put sample_server sample_placement 960 ''hello'' ?rq"
    by (simp add: plain_put_def upload_def upload_check_def placement_of_def true_header_def copied_headers_def object_size_def
        is_object_meta_def updates_ok_def bs_server_def lib_of_def cong: sum.case_cong option.case_cong)
  then have up: "plain_put bs_server sample_placement 960 ''hello'' ?rq"
    using sample_ops_ok by (simp add: sample_ops_def)
  have pl: "placed bs_server sample_placement" using sample_server_ok(1) by (simp add: placed_def bs_server_def path_of_def)
  have re: "replicated bs_server" using sample_server_ok(2) by (simp add: replicated_def bs_server_def lib_of_def sample_server_def)
  have os: "os_opens (sv_os bs_server)" "writes_ok (sv_os bs_server)"
    using sample_os_ok by (simp_all add: li os_ok_def os_opens_def writes_ok_def)
  have d: "ml_dumps sample_md_lib x \<noteq> []" for x
    by (auto simp: sample_md_lib_def split: list.split pystr.split)
  show ?thesis
    by (rule bluestore_put_fails [OF up pl re os holds_absent]) (rule d | simp add: li bot_nat_def)+
qed


end
