(* ===== verification/Reader.thy ===== *)
theory Reader
  imports DiskFile
begin

text \<open>
  \<^verbatim>\<open>BaseDiskFileReader\<close> and \<^verbatim>\<open>ECDiskFileReader\<close> of \<^verbatim>\<open>swift_patches/obj/bs_diskfile.py\<close>: the iterator over the
  bytes of an opened object, reads of one range and of several, the checks of the etag and of the fragments,
  and quarantining at the end.  An iterator is run to its end, the chunks it yields are collected; dropping
  the buffer cache, yielding to other green threads and logging have no effect on what is modelled.
  \<^verbatim>\<open>zero_copy_send\<close> is not modelled (splicing between file descriptors).
\<close>

section \<open>Readers\<close>

text \<open>
  What PyECLib's \<^verbatim>\<open>get_metadata\<close> finds in a fragment: nothing, one of the three exceptions of a corrupted
  fragment, or another error of the driver.  The size of a fragment, which is positive, is one more than
  \<open>fr_more\<close>.
\<close>

datatype frag_check = FragOk | FragBad | FragUnknown

record frag_env =
  fr_more :: nat
  fr_check :: "string \<Rightarrow> frag_check"

definition frag_size :: "frag_env \<Rightarrow> nat" where
  "frag_size f = Suc (fr_more f)"

text \<open>
  The surroundings of a reader: the bytes of the open file and the errno of reading at a position, the
  chunk size, md5, whether the draw against \<^verbatim>\<open>etag_validate_frac\<close> asks for validation, the exceptions of
  the quarantine's rename (after so many quarantines) and of the quarantine hook, and, for the
  erasure-coded policy, its fragments.
\<close>

record read_env =
  re_body :: string
  re_error :: "nat \<Rightarrow> int option"
  re_chunk :: nat
  re_md5 :: "string \<Rightarrow> string"
  re_validate :: bool
  re_rename :: "nat \<Rightarrow> pyexc option"
  re_hook :: "pyexc option"
  re_frag :: "frag_env option"

text \<open>
  A reader: the position of the file unless it is closed, the object's size and etag, what the etag's hash
  has seen (\<^verbatim>\<open>_iter_etag\<close>), the bytes read, the three flags, the digest of the bytes sent, how often it has
  quarantined, and \<^verbatim>\<open>frag_buf\<close>.
\<close>

record reader =
  rd_fp :: "nat option"
  rd_size :: int
  rd_etag :: string
  rd_iter :: "string option"
  rd_read :: nat
  rd_at_0 :: bool
  rd_eof :: bool
  rd_sent :: "string option"
  rd_suppress :: bool
  rd_quarantines :: nat
  rd_frag :: "string option"

definition new_reader :: "nat option \<Rightarrow> int \<Rightarrow> string \<Rightarrow> reader" where
  "new_reader fp n etag = \<lparr>rd_fp = fp, rd_size = n, rd_etag = etag, rd_iter = None, rd_read = 0, rd_at_0 = False,
     rd_eof = False, rd_sent = None, rd_suppress = False, rd_quarantines = 0, rd_frag = None\<rparr>"

text \<open>\<^verbatim>\<open>BaseDiskFile.reader\<close>: the reader takes over the file.\<close>

definition disk_file_reader :: "'t disk_file \<Rightarrow> 't disk_file \<times> (pyexc + reader)" where
  "disk_file_reader df =
     (case df_metadata df of
        None \<Rightarrow> (df, Inl TypeError)
      | Some m \<Rightarrow>
          (case map_of m ''Content-Length'' of
             None \<Rightarrow> (df, Inl KeyError)
           | Some x \<Rightarrow>
               (case py_int x of
                  None \<Rightarrow> (df, Inl ValueError)
                | Some n \<Rightarrow>
                    (case map_of m ''ETag'' of
                       None \<Rightarrow> (df, Inl KeyError)
                     | Some etag \<Rightarrow>
                         (df\<lparr>df_fp := False\<rparr>, Inr (new_reader (if df_fp df then Some 0 else None) n etag))))))"

definition reader_quarantine :: "read_env \<Rightarrow> reader \<Rightarrow> reader \<times> (pyexc + unit)" where
  "reader_quarantine env r =
     (case re_rename env (rd_quarantines r) of
        Some e \<Rightarrow> (r, Inl e)
      | None \<Rightarrow> (r\<lparr>rd_quarantines := rd_quarantines r + 1\<rparr>,
          case re_hook env of Some e \<Rightarrow> Inl e | None \<Rightarrow> Inr ()))"

section \<open>Checks\<close>

definition check_frag :: "read_env \<Rightarrow> frag_env \<Rightarrow> reader \<Rightarrow> string \<Rightarrow> reader \<times> (pyexc + unit)" where
  "check_frag env f r frag =
     (if frag = [] then (r, Inr ())
      else case fr_check f frag of
             FragBad \<Rightarrow>
               (case reader_quarantine env r of
                  (r, Inl e) \<Rightarrow> (r, Inl e)
                | (r, Inr u) \<Rightarrow> (r, Inl DiskFileQuarantined))
           | _ \<Rightarrow> (r, Inr ()))"

text \<open>The loop of \<^verbatim>\<open>ECDiskFileReader._update_checks\<close>; \<open>buf\<close> is \<^verbatim>\<open>frag_buf[cursor:]\<close>.\<close>

function check_frags :: "read_env \<Rightarrow> frag_env \<Rightarrow> reader \<Rightarrow> string \<Rightarrow> reader \<times> (pyexc + string)" where
  "check_frags env f r buf =
     (if length buf < frag_size f then (r, Inr buf)
      else case check_frag env f r (take (frag_size f) buf) of
             (r, Inl e) \<Rightarrow> (r, Inl e)
           | (r, Inr u) \<Rightarrow> check_frags env f r (drop (frag_size f) buf))"
  by pat_completeness auto
termination by (relation "measure (\<lambda>(env, f, r, buf). length buf)") (auto simp: frag_size_def)

declare check_frags.simps [simp del]

definition base_init_checks :: "read_env \<Rightarrow> reader \<Rightarrow> reader \<times> (pyexc + unit)" where
  "base_init_checks env r =
     (case rd_fp r of
        None \<Rightarrow> (r, Inl AttributeError)
      | Some p \<Rightarrow>
          (if p = 0 then r\<lparr>rd_at_0 := True, rd_iter := (if re_validate env then Some [] else rd_iter r)\<rparr> else r, Inr ()))"

definition init_checks :: "read_env \<Rightarrow> reader \<Rightarrow> reader \<times> (pyexc + unit)" where
  "init_checks env r =
     (case base_init_checks env r of
        (r, Inl e) \<Rightarrow> (r, Inl e)
      | (r, Inr u) \<Rightarrow>
          (case re_frag env of
             None \<Rightarrow> (r, Inr ())
           | Some f \<Rightarrow> (r\<lparr>rd_frag := (if rd_at_0 r then Some [] else None)\<rparr>, Inr ())))"

definition base_update_checks :: "reader \<Rightarrow> string \<Rightarrow> reader" where
  "base_update_checks r chunk = r\<lparr>rd_iter := map_option (\<lambda>seen. seen @ chunk) (rd_iter r)\<rparr>"

definition update_checks :: "read_env \<Rightarrow> reader \<Rightarrow> string \<Rightarrow> reader \<times> (pyexc + unit)" where
  "update_checks env r chunk =
     (let r = base_update_checks r chunk
      in case re_frag env of
           None \<Rightarrow> (r, Inr ())
         | Some f \<Rightarrow>
             (case rd_frag r of
                None \<Rightarrow> (r, Inr ())
              | Some buf \<Rightarrow>
                  (let buf = buf @ chunk; r = r\<lparr>rd_frag := Some buf\<rparr>
                   in case check_frags env f r buf of
                        (r, Inl e) \<Rightarrow> (r, Inl e)
                      | (r, Inr rest) \<Rightarrow> (r\<lparr>rd_frag := Some rest\<rparr>, Inr ()))))"

definition base_close_quarantine :: "read_env \<Rightarrow> reader \<Rightarrow> reader \<times> (pyexc + unit)" where
  "base_close_quarantine env r =
     (let r = r\<lparr>rd_sent := (case rd_iter r of
                 Some seen \<Rightarrow> (if rd_sent r \<in> {None, Some []} then Some (re_md5 env seen) else rd_sent r)
               | None \<Rightarrow> rd_sent r)\<rparr>
      in if int (rd_read r) \<noteq> rd_size r then reader_quarantine env r
         else if rd_sent r \<notin> {None, Some []} \<and> rd_sent r \<noteq> Some (rd_etag r) then reader_quarantine env r
         else (r, Inr ()))"

definition handle_close_quarantine :: "read_env \<Rightarrow> reader \<Rightarrow> reader \<times> (pyexc + unit)" where
  "handle_close_quarantine env r =
     (case base_close_quarantine env r of
        (r, Inl e) \<Rightarrow> (r, Inl e)
      | (r, Inr u) \<Rightarrow>
          (case (re_frag env, rd_frag r) of
             (Some f, Some buf) \<Rightarrow> check_frag env f r buf
           | _ \<Rightarrow> (r, Inr ())))"

text \<open>\<^verbatim>\<open>close\<close>: an exception other than \<^verbatim>\<open>DiskFileQuarantined\<close> is logged.\<close>

definition close_reader :: "read_env \<Rightarrow> reader \<Rightarrow> reader \<times> (pyexc + unit)" where
  "close_reader env r =
     (if rd_fp r = None then (r, Inr ())
      else let (r, res) = (if rd_at_0 r \<and> rd_eof r then handle_close_quarantine env r else (r, Inr ()))
           in (r\<lparr>rd_fp := None\<rparr>, if res = Inl DiskFileQuarantined then Inl DiskFileQuarantined else Inr ()))"

text \<open>\<^verbatim>\<open>finally: if not self._suppress_file_closing: self.close()\<close> after an outcome.\<close>

definition finally_close :: "read_env \<Rightarrow> reader \<Rightarrow> pyexc + 'a \<Rightarrow> reader \<times> (pyexc + 'a)" where
  "finally_close env r res =
     (if rd_suppress r then (r, res)
      else case close_reader env r of
             (r, Inl e) \<Rightarrow> (r, Inl e)
           | (r, Inr u) \<Rightarrow> (r, res))"

section \<open>Iterating\<close>

text \<open>The start of \<^verbatim>\<open>_inner_iter\<close>, and its resumption: a chunk, the end, or an exception.\<close>

definition inner_start :: "read_env \<Rightarrow> reader \<Rightarrow> reader \<times> (pyexc + unit)" where
  "inner_start env r =
     (case init_checks env (r\<lparr>rd_read := 0, rd_at_0 := False, rd_eof := False\<rparr>) of
        (r, Inl e) \<Rightarrow> finally_close env r (Inl e)
      | (r, Inr u) \<Rightarrow> (r, Inr ()))"

definition inner_next :: "read_env \<Rightarrow> reader \<Rightarrow> reader \<times> (pyexc + string option)" where
  "inner_next env r =
     (case rd_fp r of
        None \<Rightarrow> finally_close env r (Inl AttributeError)
      | Some p \<Rightarrow>
          (case re_error env p of
             Some e \<Rightarrow>
               (if e = EIO
                then (case reader_quarantine env r of
                        (r, Inl x) \<Rightarrow> finally_close env r (Inl x)
                      | (r, Inr u) \<Rightarrow> finally_close env r (Inl (OSError e)))
                else finally_close env r (Inl (OSError e)))
           | None \<Rightarrow>
               (let chunk = take (re_chunk env) (drop p (re_body env))
                in if chunk = [] then finally_close env (r\<lparr>rd_eof := True\<rparr>) (Inr None)
                   else (case update_checks env (r\<lparr>rd_fp := Some (p + length chunk)\<rparr>) chunk of
                           (r, Inl e) \<Rightarrow> finally_close env r (Inl e)
                         | (r, Inr u) \<Rightarrow> (r\<lparr>rd_read := rd_read r + length chunk\<rparr>, Inr (Some chunk))))))"

lemma quarantine_fp [simp]: "rd_fp (fst (reader_quarantine env r)) = rd_fp r"
  by (simp add: reader_quarantine_def split: option.split)

lemma check_frag_fp [simp]: "rd_fp (fst (check_frag env f r frag)) = rd_fp r"
  using quarantine_fp [of env r]
  by (cases "reader_quarantine env r") (auto simp: check_frag_def split: frag_check.split sum.split simp del: quarantine_fp)

lemma check_frags_fp: "rd_fp (fst (check_frags env f r buf)) = rd_fp r"
proof (induction env f r buf rule: check_frags.induct)
  case (1 env f r buf)
  show ?case
    using 1 check_frag_fp [of env f r "take (frag_size f) buf"]
    by (subst check_frags.simps)
      (auto simp del: check_frag_fp split: prod.split sum.split)
qed

lemma update_checks_fp: "rd_fp (fst (update_checks env r chunk)) = rd_fp r"
  by (auto simp: update_checks_def base_update_checks_def Let_def split: option.split prod.split sum.split)
    (metis check_frags_fp fst_conv reader.select_convs(1) reader.surjective reader.update_convs(11) reader.update_convs(4))+

lemma inner_next_chunk:
  assumes "inner_next env r = (r', Inr (Some chunk))"
  obtains p where "rd_fp r = Some p" "rd_fp r' = Some (p + length chunk)" "chunk \<noteq> []"
    "chunk = take (re_chunk env) (drop p (re_body env))"
proof -
  have fin: "\<And>s x. finally_close env s x = (r', Inr (Some chunk)) \<Longrightarrow> x = Inr (Some chunk)"
    by (auto simp: finally_close_def split: if_splits prod.splits sum.splits)
  obtain p where p: "rd_fp r = Some p"
    using assms by (cases "rd_fp r") (auto simp: inner_next_def dest: fin)
  have e: "re_error env p = None"
    using assms by (cases "re_error env p") (auto simp: inner_next_def p dest: fin split: if_splits prod.splits sum.splits)
  let ?c = "take (re_chunk env) (drop p (re_body env))" and ?r = "r\<lparr>rd_fp := Some (p + length (take (re_chunk env) (drop p (re_body env))))\<rparr>"
  have c: "?c \<noteq> []" using assms by (auto simp: inner_next_def p e Let_def dest: fin split: if_splits)
  obtain s x where u: "update_checks env ?r ?c = (s, x)" by (cases "update_checks env ?r ?c")
  with update_checks_fp [of env ?r ?c] have s: "rd_fp s = Some (p + length ?c)" by simp
  have "inner_next env r = (case x of Inl e \<Rightarrow> finally_close env s (Inl e)
      | Inr v \<Rightarrow> (s\<lparr>rd_read := rd_read s + length ?c\<rparr>, Inr (Some ?c)))"
    using c by (simp add: inner_next_def p e u Let_def del: length_take take_eq_Nil split: sum.split)
  with assms have "r' = s\<lparr>rd_read := rd_read s + length ?c\<rparr> \<and> chunk = ?c"
    by (cases x) (auto dest: fin)
  with s c p show thesis by (intro that [of p]) simp_all
qed

lemma inner_next_decreases:
  assumes "inner_next env r = (r', Inr (Some chunk))"
  shows "length (re_body env) - (case rd_fp r' of None \<Rightarrow> 0 | Some p \<Rightarrow> p) <
    length (re_body env) - (case rd_fp r of None \<Rightarrow> 0 | Some p \<Rightarrow> p)"
proof -
  obtain p where p: "rd_fp r = Some p" "rd_fp r' = Some (p + length chunk)" "chunk \<noteq> []"
    "chunk = take (re_chunk env) (drop p (re_body env))"
    using assms by (rule inner_next_chunk)
  then have "p < length (re_body env)" by (cases "p < length (re_body env)") auto
  with p(1-3) show ?thesis by (cases chunk) simp_all
qed

text \<open>
  A \<^verbatim>\<open>for\<close> loop over the iterator that stops after \<open>len\<close> bytes, or takes everything; leaving the loop closes
  the iterator.
\<close>

function range_loop :: "read_env \<Rightarrow> reader \<Rightarrow> int option \<Rightarrow> string list \<times> reader \<times> (pyexc + unit)" where
  "range_loop env r len =
     (case inner_next env r of
        (r', Inl e) \<Rightarrow> ([], r', Inl e)
      | (r', Inr None) \<Rightarrow> ([], r', Inr ())
      | (r', Inr (Some chunk)) \<Rightarrow>
          (case len of
             None \<Rightarrow> (let (cs, r'', res) = range_loop env r' None in (chunk # cs, r'', res))
           | Some l \<Rightarrow>
               (if l - int (length chunk) < 0
                then (let (r'', res) = finally_close env r' (Inr ())
                      in ([take (nat (int (length chunk) + (l - int (length chunk)))) chunk], r'', res))
                else (let (cs, r'', res) = range_loop env r' (Some (l - int (length chunk))) in (chunk # cs, r'', res)))))"
  by pat_completeness auto
termination
  by (relation "measure (\<lambda>(env, r, len). length (re_body env) - (case rd_fp r of None \<Rightarrow> 0 | Some p \<Rightarrow> p))")
    (auto dest!: inner_next_decreases [OF sym])
declare range_loop.simps [simp del]

text \<open>\<^verbatim>\<open>__iter__\<close>, run to its end: \<open>for chunk in reader\<close>.\<close>

definition run_iter :: "read_env \<Rightarrow> reader \<Rightarrow> int option \<Rightarrow> string list \<times> reader \<times> (pyexc + unit)" where
  "run_iter env r len =
     (case inner_start env r of
        (r, Inl e) \<Rightarrow> ([], r, Inl e)
      | (r, Inr u) \<Rightarrow> range_loop env r len)"

definition iter_reader :: "read_env \<Rightarrow> reader \<Rightarrow> string list \<times> reader \<times> (pyexc + unit)" where
  "iter_reader env r = run_iter env r None"

definition app_iter_range ::
  "read_env \<Rightarrow> reader \<Rightarrow> nat option \<Rightarrow> nat option \<Rightarrow> string list \<times> reader \<times> (pyexc + unit)" where
  "app_iter_range env r start stop =
     (if start \<noteq> None \<and> rd_fp r = None then ([], r, Inl AttributeError)
      else let r = (case start of None \<Rightarrow> r | Some n \<Rightarrow> r\<lparr>rd_fp := Some n\<rparr>)
           in case (stop, start) of
                (Some m, None) \<Rightarrow> ([], r, Inl TypeError)
              | _ \<Rightarrow>
                  (let (cs, r, res) = run_iter env r (case (stop, start) of (Some m, Some n) \<Rightarrow> Some (int m - int n) | _ \<Rightarrow> None);
                       (r, res) = finally_close env r res
                   in (cs, r, res)))"

text \<open>
  Several ranges.  \<^verbatim>\<open>multi_range_iterator\<close> of Swift yields texts around each range (boundaries and headers)
  and the chunks of the range; it is given by the sequence of these.
\<close>

datatype range_part = PartText string | PartRange nat nat

primrec run_parts :: "read_env \<Rightarrow> reader \<Rightarrow> range_part list \<Rightarrow> string list \<times> reader \<times> (pyexc + unit)" where
  "run_parts env r [] = ([], r, Inr ())"
| "run_parts env r (p # ps) =
     (case p of
        PartText t \<Rightarrow> (let (cs, r, res) = run_parts env r ps in (t # cs, r, res))
      | PartRange start stop \<Rightarrow>
          (case app_iter_range env r (Some start) (Some stop) of
             (cs, r, Inl e) \<Rightarrow> (cs, r, Inl e)
           | (cs, r, Inr u) \<Rightarrow> (let (cs', r, res) = run_parts env r ps in (cs @ cs', r, res))))"

definition app_iter_ranges ::
  "((nat \<times> nat) list \<Rightarrow> range_part list) \<Rightarrow> read_env \<Rightarrow> reader \<Rightarrow> (nat \<times> nat) list \<Rightarrow> string list \<times> reader \<times> (pyexc + unit)" where
  "app_iter_ranges multi_range_iterator env r ranges =
     (if ranges = [] then ([[]], r, Inr ())
      else let (cs, r, res) = run_parts env (r\<lparr>rd_suppress := True\<rparr>) (multi_range_iterator ranges);
               (r, res) = finally_close env (r\<lparr>rd_suppress := False\<rparr>) res
           in (cs, r, res))"

section \<open>Fragments\<close>

function frags :: "frag_env \<Rightarrow> string \<Rightarrow> string list" where
  "frags f buf = (if length buf < frag_size f then [] else take (frag_size f) buf # frags f (drop (frag_size f) buf))"
  by pat_completeness auto
termination by (relation "measure (\<lambda>(f, buf). length buf)") (auto simp: frag_size_def)

function frag_rest :: "frag_env \<Rightarrow> string \<Rightarrow> string" where
  "frag_rest f buf = (if length buf < frag_size f then buf else frag_rest f (drop (frag_size f) buf))"
  by pat_completeness auto
termination by (relation "measure (\<lambda>(f, buf). length buf)") (auto simp: frag_size_def)

declare frags.simps [simp del] frag_rest.simps [simp del]

lemma frags_append: "frags f (xs @ ys) = frags f xs @ frags f (frag_rest f xs @ ys)"
proof (induction f xs rule: frags.induct)
  case (1 f xs)
  show ?case
  proof (cases "length xs < frag_size f")
    case True
    then show ?thesis by (simp add: frags.simps [of f xs] frag_rest.simps [of f xs])
  next
    case False
    then show ?thesis
      using 1 by (simp add: frags.simps [of f "xs @ ys"] frags.simps [of f xs] frag_rest.simps [of f xs])
  qed
qed

lemma frag_rest_append: "frag_rest f (xs @ ys) = frag_rest f (frag_rest f xs @ ys)"
proof (induction f xs rule: frag_rest.induct)
  case (1 f xs)
  show ?case
  proof (cases "length xs < frag_size f")
    case True
    then show ?thesis by (simp add: frag_rest.simps [of f xs])
  next
    case False
    then show ?thesis
      using 1 by (simp add: frag_rest.simps [of f "xs @ ys"] frag_rest.simps [of f xs])
  qed
qed

lemma frags_Nil [simp]: "frags f [] = []" "frag_rest f [] = []"
  by (simp_all add: frags.simps frag_rest.simps frag_size_def)

definition good_frags :: "frag_env \<Rightarrow> string \<Rightarrow> bool" where
  "good_frags f bytes \<longleftrightarrow> (\<forall>x \<in> set (frags f bytes). fr_check f x \<noteq> FragBad)"

lemma good_frags_append:
  "good_frags f (xs @ ys) \<longleftrightarrow> good_frags f xs \<and> good_frags f (frag_rest f xs @ ys)"
  by (auto simp: good_frags_def frags_append [of f xs ys])

text \<open>Fragments are not empty, so each one is checked; the first bad one ends the loop.\<close>

lemma check_frags_good: "good_frags f buf \<Longrightarrow> check_frags env f r buf = (r, Inr (frag_rest f buf))"
proof (induction env f r buf rule: check_frags.induct)
  case (1 env f r buf)
  show ?case
  proof (cases "length buf < frag_size f")
    case True
    then show ?thesis by (simp add: check_frags.simps frag_rest.simps)
  next
    case False
    with 1(2) have good: "fr_check f (take (frag_size f) buf) \<noteq> FragBad" "good_frags f (drop (frag_size f) buf)"
      by (simp_all add: good_frags_def frags.simps [of f buf])
    then have "check_frag env f r (take (frag_size f) buf) = (r, Inr ())"
      by (auto simp: check_frag_def split: frag_check.split)
    with False good 1 show ?thesis by (simp add: check_frags.simps [of env f r buf] frag_rest.simps [of f buf])
  qed
qed

lemma check_frag_bad:
  assumes "fr_check f x = FragBad" and "x \<noteq> []" and "re_rename env (rd_quarantines r) = None" and "re_hook env = None"
  shows "check_frag env f r x = (r\<lparr>rd_quarantines := rd_quarantines r + 1\<rparr>, Inl DiskFileQuarantined)"
  using assms by (simp add: check_frag_def reader_quarantine_def)

lemma check_frags_bad:
  assumes "re_rename env (rd_quarantines r) = None" and "re_hook env = None" and "\<not> good_frags f buf"
  shows "check_frags env f r buf = (r\<lparr>rd_quarantines := rd_quarantines r + 1\<rparr>, Inl DiskFileQuarantined)"
  using assms
proof (induction env f r buf rule: check_frags.induct)
  case (1 env f r buf)
  have len: "\<not> length buf < frag_size f" using 1(4) by (auto simp: good_frags_def frags.simps [of f buf])
  then have ne: "take (frag_size f) buf \<noteq> []" by (auto simp: frag_size_def)
  show ?case
  proof (cases "fr_check f (take (frag_size f) buf) = FragBad")
    case True
    with len check_frag_bad [OF True ne 1(2,3)] show ?thesis by (simp add: check_frags.simps [of env f r buf])
  next
    case False
    then have "check_frag env f r (take (frag_size f) buf) = (r, Inr ())"
      by (auto simp: check_frag_def split: frag_check.split)
    moreover have "\<not> good_frags f (drop (frag_size f) buf)"
      using 1(4) len False by (simp add: good_frags_def frags.simps [of f buf])
    ultimately show ?thesis using len 1 by (simp add: check_frags.simps [of env f r buf])
  qed
qed

section \<open>Reading on\<close>

definition readable :: "read_env \<Rightarrow> bool" where
  "readable env \<longleftrightarrow> (\<forall>p. re_error env p = None) \<and> 0 < re_chunk env"

text \<open>A reader that began at position \<open>b\<close> and has reached \<open>p\<close>.\<close>

definition reading :: "read_env \<Rightarrow> reader \<Rightarrow> nat \<Rightarrow> nat \<Rightarrow> reader" where
  "reading env r b p = r\<lparr>rd_fp := Some p, rd_read := p - b, rd_at_0 := (b = 0), rd_eof := False,
     rd_iter := (if b = 0 \<and> re_validate env then Some (take p (re_body env)) else None),
     rd_frag := (if b = 0 then map_option (\<lambda>f. frag_rest f (take p (re_body env))) (re_frag env) else None)\<rparr>"

definition good_upto :: "read_env \<Rightarrow> nat \<Rightarrow> nat \<Rightarrow> bool" where
  "good_upto env b p \<longleftrightarrow> (b = 0 \<longrightarrow> (\<forall>f. re_frag env = Some f \<longrightarrow> good_frags f (take p (re_body env))))"

lemma take_more: "take (p + length (take n (drop p xs))) xs = take p xs @ take n (drop p xs)"
  by (simp add: take_add min_def)

lemma drop_more: "take n (drop p xs) @ drop (p + length (take n (drop p xs))) xs = drop p xs"
proof -
  have d: "drop (p + k) xs = drop k (drop p xs)" for k by (simp add: add.commute)
  have t: "take n ys @ drop (length (take n ys)) ys = ys" for ys :: "'a list" by (cases "n \<le> length ys") simp_all
  show ?thesis by (simp only: d t)
qed

lemma good_upto_mono: "good_upto env b q \<Longrightarrow> p \<le> q \<Longrightarrow> good_upto env b p"
proof -
  assume g: "good_upto env b q" and "p \<le> q"
  then have "take q (re_body env) = take p (re_body env) @ take (q - p) (drop p (re_body env))"
    by (metis le_add_diff_inverse take_add)
  with g show ?thesis by (auto simp: good_upto_def good_frags_append [of _ "take p (re_body env)"])
qed

lemma reading_fp [simp]: "rd_fp (reading env r b p) = Some p" "rd_read (reading env r b p) = p - b"
  "rd_suppress (reading env r b p) = rd_suppress r"
  by (simp_all add: reading_def)

lemma inner_start_reading:
  assumes "rd_fp r = Some b" and "rd_iter r = None" and "rd_frag r = None"
  shows "inner_start env r = (reading env r b b, Inr ())"
  using assms by (auto simp: inner_start_def init_checks_def base_init_checks_def reading_def Let_def split: option.split)

lemma inner_next_reading:
  assumes "readable env" and "b \<le> p" and "p < length (re_body env)"
    and "good_upto env b (p + length (take (re_chunk env) (drop p (re_body env))))"
  shows "inner_next env (reading env r b p) =
    (reading env r b (p + length (take (re_chunk env) (drop p (re_body env)))), Inr (Some (take (re_chunk env) (drop p (re_body env)))))"
proof -
  define c where "c = take (re_chunk env) (drop p (re_body env))"
  have c: "c \<noteq> []" and t: "take (p + length c) (re_body env) = take p (re_body env) @ c"
    using assms(1,3) take_more [of p "re_chunk env" "re_body env"] by (auto simp: c_def readable_def simp del: length_take)
  have e: "re_error env p = None" using assms(1) by (simp add: readable_def)
  have u: "update_checks env ((reading env r b p)\<lparr>rd_fp := Some (p + length c)\<rparr>) c =
      ((reading env r b (p + length c))\<lparr>rd_read := p - b\<rparr>, Inr ())"
  proof (cases "b = 0")
    case False
    then show ?thesis by (auto simp: update_checks_def base_update_checks_def reading_def Let_def split: option.split)
  next
    case True
    show ?thesis
    proof (cases "re_frag env")
      case None
      with True show ?thesis by (simp add: update_checks_def base_update_checks_def reading_def Let_def t)
    next
      case (Some f)
      have "good_frags f (frag_rest f (take p (re_body env)) @ c)"
        using assms(4) True Some by (simp add: good_upto_def good_frags_append [of _ "take p (re_body env)"] t flip: c_def)
      from check_frags_good [OF this] show ?thesis
        by (simp add: update_checks_def base_update_checks_def reading_def Let_def t True Some frag_rest_append [of f "take p (re_body env)" c])
    qed
  qed
  have "inner_next env (reading env r b p) =
      (case update_checks env ((reading env r b p)\<lparr>rd_fp := Some (p + length c)\<rparr>) c of
         (r, Inl e) \<Rightarrow> finally_close env r (Inl e)
       | (r, Inr u) \<Rightarrow> (r\<lparr>rd_read := rd_read r + length c\<rparr>, Inr (Some c)))"
    unfolding inner_next_def by (simp only: reading_fp option.case e Let_def c if_False flip: c_def)
  also have "\<dots> = (reading env r b (p + length c), Inr (Some c))"
    using assms(2) by (simp add: u)
  finally show ?thesis by (simp only: c_def)
qed

lemma finally_close_Inr:
  "\<not> rd_suppress r \<Longrightarrow> finally_close env r (Inr x) = (fst (close_reader env r), map_sum id (\<lambda>u. x) (snd (close_reader env r)))"
  by (simp add: finally_close_def split: prod.split sum.split)

text \<open>Reading on to the end, or for \<open>l\<close> bytes.\<close>

lemma close_early: "rd_eof r = False \<Longrightarrow> close_reader env r = (r\<lparr>rd_fp := None\<rparr>, Inr ())"
  by (cases r) (auto simp: close_reader_def)

lemma range_loop_eof:
  assumes "readable env" and "length (re_body env) \<le> p" and "\<not> rd_suppress r"
  shows "range_loop env (reading env r b p) len = ([], close_reader env ((reading env r b p)\<lparr>rd_eof := True\<rparr>))"
proof -
  have e: "re_error env p = None" using assms(1) by (simp add: readable_def)
  have "inner_next env (reading env r b p) = finally_close env ((reading env r b p)\<lparr>rd_eof := True\<rparr>) (Inr None)"
    using assms(2) by (simp add: inner_next_def reading_def e)
  also have "\<dots> = (fst (close_reader env ((reading env r b p)\<lparr>rd_eof := True\<rparr>)),
      map_sum id (\<lambda>u. None) (snd (close_reader env ((reading env r b p)\<lparr>rd_eof := True\<rparr>))))"
    using assms(3) by (intro finally_close_Inr) (simp add: reading_def)
  finally have n: "inner_next env (reading env r b p) = (fst (close_reader env ((reading env r b p)\<lparr>rd_eof := True\<rparr>)),
      map_sum id (\<lambda>u. None) (snd (close_reader env ((reading env r b p)\<lparr>rd_eof := True\<rparr>))))" .
  show ?thesis
    by (cases "close_reader env ((reading env r b p)\<lparr>rd_eof := True\<rparr>)"; cases "snd (close_reader env ((reading env r b p)\<lparr>rd_eof := True\<rparr>))";
        subst range_loop.simps) (simp_all add: n)
qed

lemma range_loop_all:
  assumes "readable env" and "b \<le> p" and "\<not> rd_suppress r" and "good_upto env b (length (re_body env))"
  shows "\<exists>cs. range_loop env (reading env r b p) None =
       (cs, close_reader env ((reading env r b (max p (length (re_body env))))\<lparr>rd_eof := True\<rparr>)) \<and>
     concat cs = drop p (re_body env) \<and> (\<forall>c \<in> set cs. length c \<le> re_chunk env)"
  using assms(2)
proof (induction "length (re_body env) - p" arbitrary: p rule: less_induct)
  case (less p)
  show ?case
  proof (cases "p < length (re_body env)")
    case False
    then show ?thesis using range_loop_eof [OF assms(1) _ assms(3), of p b None] by (simp add: max_def)
  next
    case True
    define c where "c = take (re_chunk env) (drop p (re_body env))"
    have c: "0 < length c" "p + length c \<le> length (re_body env)" "length c \<le> re_chunk env"
      using True assms(1) by (auto simp: c_def readable_def)
    have "good_upto env b (p + length c)" using assms(4) c(2) by (rule good_upto_mono)
    from inner_next_reading [OF assms(1) less.prems True this [unfolded c_def]]
    have n: "inner_next env (reading env r b p) = (reading env r b (p + length c), Inr (Some c))"
      by (simp add: c_def)
    have "length (re_body env) - (p + length c) < length (re_body env) - p" "b \<le> p + length c" using c True less.prems by arith+
    from less.hyps [OF this] obtain cs where cs: "range_loop env (reading env r b (p + length c)) None =
        (cs, close_reader env ((reading env r b (max (p + length c) (length (re_body env))))\<lparr>rd_eof := True\<rparr>))"
      "concat cs = drop (p + length c) (re_body env)" "\<forall>c \<in> set cs. length c \<le> re_chunk env" by blast
    have "concat (c # cs) = drop p (re_body env)"
      using cs(2) drop_more [of "re_chunk env" p "re_body env"] by (simp add: c_def del: length_take)
    moreover have "range_loop env (reading env r b p) None =
        (c # cs, close_reader env ((reading env r b (max p (length (re_body env))))\<lparr>rd_eof := True\<rparr>))"
      using c(2) True by (subst range_loop.simps) (simp add: n cs(1) max_def)
    ultimately show ?thesis using cs(3) c(3) by fastforce
  qed
qed

lemma range_loop_some:
  assumes "readable env" and "b \<le> p" and "\<not> rd_suppress r" and "good_upto env b (p + l + re_chunk env)"
  shows "\<exists>cs q. range_loop env (reading env r b p) (Some (int l)) =
       (cs, if p + l < length (re_body env) then (reading env r b q\<lparr>rd_fp := None\<rparr>, Inr ())
            else close_reader env ((reading env r b (max p (length (re_body env))))\<lparr>rd_eof := True\<rparr>)) \<and>
     concat cs = take l (drop p (re_body env)) \<and> (\<forall>c \<in> set cs. length c \<le> re_chunk env)"
  using assms(2,4)
proof (induction "length (re_body env) - p" arbitrary: p l rule: less_induct)
  case (less p)
  show ?case
  proof (cases "p < length (re_body env)")
    case False
    then show ?thesis using range_loop_eof [OF assms(1) _ assms(3), of p b "Some (int l)"] by (simp add: max_def)
  next
    case True
    define c where "c = take (re_chunk env) (drop p (re_body env))"
    have c: "0 < length c" "p + length c \<le> length (re_body env)" "length c \<le> re_chunk env"
      using True assms(1) by (auto simp: c_def readable_def)
    have "good_upto env b (p + length c)" by (rule good_upto_mono [OF less.prems(2)]) (use c(3) in simp)
    from inner_next_reading [OF assms(1) less.prems(1) True this [unfolded c_def]]
    have n: "inner_next env (reading env r b p) = (reading env r b (p + length c), Inr (Some c))"
      by (simp add: c_def)
    have dc: "drop p (re_body env) = c @ drop (p + length c) (re_body env)"
      using drop_more [of "re_chunk env" p "re_body env"] by (simp add: c_def del: length_take)
    show ?thesis
    proof (cases "l < length c")
      case True
      have "rd_eof (reading env r b (p + length c)) = False" by (simp add: reading_def)
      from close_early [OF this] have "range_loop env (reading env r b p) (Some (int l)) =
          ([take l c], (reading env r b (p + length c))\<lparr>rd_fp := None\<rparr>, Inr ())"
        using True assms(3) by (subst range_loop.simps) (simp add: n finally_close_Inr)
      then show ?thesis
        using True c(2,3) by (intro exI [of _ "[take l c]"] exI [of _ "p + length c"]) (simp add: dc)
    next
      case False
      have "length (re_body env) - (p + length c) < length (re_body env) - p" "b \<le> p + length c"
        using c True less.prems(1) by arith+
      moreover have "good_upto env b (p + length c + (l - length c) + re_chunk env)" using less.prems(2) False by simp
      ultimately obtain cs q where
        cs: "range_loop env (reading env r b (p + length c)) (Some (int (l - length c))) =
          (cs, if p + l < length (re_body env) then (reading env r b q\<lparr>rd_fp := None\<rparr>, Inr ())
            else close_reader env ((reading env r b (max (p + length c) (length (re_body env))))\<lparr>rd_eof := True\<rparr>))"
        "concat cs = take (l - length c) (drop (p + length c) (re_body env))" "\<forall>c \<in> set cs. length c \<le> re_chunk env"
        using less.hyps [of "p + length c" "l - length c"] False c(1) by auto
      have "int (l - length c) = int l - int (length c)" using False by simp
      note cs1 = cs(1) [unfolded this]
      have "range_loop env (reading env r b p) (Some (int l)) =
          (c # cs, if p + l < length (re_body env) then (reading env r b q\<lparr>rd_fp := None\<rparr>, Inr ())
            else close_reader env ((reading env r b (max p (length (re_body env))))\<lparr>rd_eof := True\<rparr>))"
        using c(2) True False
        by (subst range_loop.simps) (simp add: n cs1 max_def split_def)
      then show ?thesis
        using cs(2,3) c(3) False
        by (intro exI [of _ "c # cs"] exI [of _ q]) (simp add: dc)
    qed
  qed
qed

text \<open>Closing at the end of the file: the checks, for a reader that began at 0.\<close>

definition etag_ok :: "read_env \<Rightarrow> reader \<Rightarrow> bool" where
  "etag_ok env r \<longleftrightarrow> int (length (re_body env)) = rd_size r \<and>
     (re_validate env \<longrightarrow> re_md5 env (re_body env) = rd_etag r)"

definition at_eof :: "read_env \<Rightarrow> reader \<Rightarrow> nat \<Rightarrow> reader" where
  "at_eof env r b = (reading env r b (max b (length (re_body env))))\<lparr>rd_eof := True\<rparr>"

lemma close_not_at_0: "0 < b \<Longrightarrow> close_reader env (at_eof env r b) = ((at_eof env r b)\<lparr>rd_fp := None\<rparr>, Inr ())"
  by (simp add: close_reader_def at_eof_def reading_def)

lemma base_close_at_0:
  assumes "rd_sent r = None" and "\<And>x. re_md5 env x \<noteq> []"
  shows "base_close_quarantine env (at_eof env r 0) =
    (let r = (at_eof env r 0)\<lparr>rd_sent := (if re_validate env then Some (re_md5 env (re_body env)) else None)\<rparr>
     in if etag_ok env r then (r, Inr ()) else reader_quarantine env r)"
  using assms by (auto simp: base_close_quarantine_def at_eof_def reading_def etag_ok_def Let_def)

lemma etag_ok_simps [simp]:
  "etag_ok env (at_eof env r b) = etag_ok env r" "etag_ok env (r\<lparr>rd_sent := x\<rparr>) = etag_ok env r"
  by (simp_all add: etag_ok_def at_eof_def reading_def)

text \<open>An open, fresh reader at a position.\<close>

definition fresh_at :: "nat \<Rightarrow> reader \<Rightarrow> bool" where
  "fresh_at b r \<longleftrightarrow> rd_fp r = Some b \<and> rd_iter r = None \<and> rd_frag r = None \<and> rd_sent r = None \<and> \<not> rd_suppress r"

lemma run_all:
  assumes "readable env" and "fresh_at b r" and "good_upto env b (length (re_body env))"
  shows "\<exists>cs. run_iter env r None = (cs, close_reader env (at_eof env r b)) \<and>
     concat cs = drop b (re_body env) \<and> (\<forall>c \<in> set cs. length c \<le> re_chunk env)"
  using range_loop_all [OF assms(1) order_refl [of b] _ assms(3), of r] inner_start_reading [of r b env] assms(2)
  by (simp add: run_iter_def fresh_at_def at_eof_def)

lemma run_some:
  assumes "readable env" and "fresh_at b r" and "good_upto env b (b + l + re_chunk env)"
  shows "\<exists>cs q. run_iter env r (Some (int l)) =
       (cs, if b + l < length (re_body env) then (reading env r b q\<lparr>rd_fp := None\<rparr>, Inr ())
            else close_reader env (at_eof env r b)) \<and>
     concat cs = take l (drop b (re_body env)) \<and> (\<forall>c \<in> set cs. length c \<le> re_chunk env)"
proof -
  have i: "inner_start env r = (reading env r b b, Inr ())" and "\<not> rd_suppress r"
    using assms(2) inner_start_reading [of r b env] by (simp_all add: fresh_at_def)
  from range_loop_some [OF assms(1) order_refl this(2) assms(3)] show ?thesis
    by (simp only: run_iter_def i prod.case sum.case at_eof_def)
qed

lemma close_closes: "rd_fp (fst (close_reader env r)) = None"
  by (simp add: close_reader_def split: prod.split)

lemma closed_again: "rd_fp r = None \<Longrightarrow> finally_close env r res = (r, res)"
  by (simp add: finally_close_def close_reader_def)

section \<open>What readers guarantee\<close>

definition last_frag_ok :: "frag_env \<Rightarrow> string \<Rightarrow> bool" where
  "last_frag_ok f bytes \<longleftrightarrow> frag_rest f bytes = [] \<or> fr_check f (frag_rest f bytes) \<noteq> FragBad"

definition frags_ok :: "read_env \<Rightarrow> bool" where
  "frags_ok env \<longleftrightarrow> (\<forall>f. re_frag env = Some f \<longrightarrow> good_frags f (re_body env) \<and> last_frag_ok f (re_body env))"

lemma frags_ok_upto: "frags_ok env \<Longrightarrow> good_upto env b (length (re_body env))"
  by (simp add: frags_ok_def good_upto_def)

lemma at_eof_simps [simp]:
  "rd_quarantines (at_eof env r b) = rd_quarantines r" "rd_fp (at_eof env r b) = Some (max b (length (re_body env)))"
  "rd_eof (at_eof env r b)" "rd_at_0 (at_eof env r b) = (b = 0)"
  "rd_frag (at_eof env r 0) = map_option (\<lambda>f. frag_rest f (re_body env)) (re_frag env)"
  by (simp_all add: at_eof_def reading_def)

lemma close_good:
  assumes "fresh_at 0 r" and "\<And>x. re_md5 env x \<noteq> []" and "etag_ok env r" and "frags_ok env"
  shows "snd (close_reader env (at_eof env r 0)) = Inr ()"
    and "rd_quarantines (fst (close_reader env (at_eof env r 0))) = rd_quarantines r"
proof -
  have "handle_close_quarantine env (at_eof env r 0) =
      ((at_eof env r 0)\<lparr>rd_sent := (if re_validate env then Some (re_md5 env (re_body env)) else None)\<rparr>, Inr ())"
    using assms base_close_at_0 [of r env]
    by (auto simp: handle_close_quarantine_def fresh_at_def Let_def check_frag_def frags_ok_def last_frag_ok_def
        split: option.split frag_check.split)
  then show "snd (close_reader env (at_eof env r 0)) = Inr ()"
    "rd_quarantines (fst (close_reader env (at_eof env r 0))) = rd_quarantines r"
    by (simp_all add: close_reader_def split_def)
qed

text \<open>C13: A full read of an object hands out exactly its bytes, in chunks of at most the chunk size, and closes
  the file; nothing is quarantined and no error is raised when the size and the etag of the metadata are
  those of the bytes and, for a fragment archive, no fragment is corrupted.
\<close>

theorem full_read_yields_body:
  assumes "readable env" and "fresh_at 0 r" and "\<And>x. re_md5 env x \<noteq> []" and "etag_ok env r" and "frags_ok env"
  shows "\<exists>cs r'. iter_reader env r = (cs, r', Inr ()) \<and> concat cs = re_body env \<and>
    (\<forall>c \<in> set cs. length c \<le> re_chunk env) \<and> rd_fp r' = None \<and> rd_quarantines r' = rd_quarantines r"
proof -
  obtain cs where cs: "run_iter env r None = (cs, close_reader env (at_eof env r 0))"
    "concat cs = drop 0 (re_body env)" "\<forall>c \<in> set cs. length c \<le> re_chunk env"
    using run_all [OF assms(1,2) frags_ok_upto [OF assms(5)]] by blast
  have "close_reader env (at_eof env r 0) = (fst (close_reader env (at_eof env r 0)), Inr ())"
    using close_good(1) [OF assms(2-5)] by (simp add: prod_eq_iff)
  with cs show ?thesis
    using close_good(2) [OF assms(2-5)] close_closes [of env "at_eof env r 0"] by (auto simp: iter_reader_def)
qed

text \<open>C14: A range request for the bytes from \<open>start\<close> to before \<open>stop\<close> hands out exactly these bytes, fewer only at
  the end of the file, in chunks of at most the chunk size, and closes the file.  A range that does not
  begin at 0, or ends before the last byte, is never judged as a whole: no error and no quarantine, whatever the size
  and the etag.  A range that does not begin at 0 is not checked at all; one that does begin at 0 has the fragments
  checked that it gets to, at most a chunk past its end, and these are assumed good.
\<close>

theorem range_read_bytes:
  assumes "readable env" and "fresh_at b r" and "start \<le> stop"
    and "\<And>f. start = 0 \<Longrightarrow> re_frag env = Some f \<Longrightarrow> good_frags f (take (stop + re_chunk env) (re_body env))"
  shows "\<exists>cs r' res. app_iter_range env r (Some start) (Some stop) = (cs, r', res) \<and>
    concat cs = take (stop - start) (drop start (re_body env)) \<and> length (concat cs) \<le> stop - start \<and>
    (\<forall>c \<in> set cs. length c \<le> re_chunk env) \<and> rd_fp r' = None \<and>
    (0 < start \<or> stop < length (re_body env) \<longrightarrow> res = Inr () \<and> rd_quarantines r' = rd_quarantines r)"
proof -
  let ?r = "r\<lparr>rd_fp := Some start\<rparr>"
  have fresh: "fresh_at start ?r" using assms(2) by (simp add: fresh_at_def)
  have good: "good_upto env start (start + (stop - start) + re_chunk env)" using assms(3,4) by (simp add: good_upto_def)
  obtain cs q where cs: "run_iter env ?r (Some (int (stop - start))) =
       (cs, if start + (stop - start) < length (re_body env) then (reading env ?r start q\<lparr>rd_fp := None\<rparr>, Inr ())
            else close_reader env (at_eof env ?r start))"
    "concat cs = take (stop - start) (drop start (re_body env))" "\<forall>c \<in> set cs. length c \<le> re_chunk env"
    using run_some [OF assms(1) fresh good] by blast
  obtain r' res where e: "(if start + (stop - start) < length (re_body env) then (reading env ?r start q\<lparr>rd_fp := None\<rparr>, Inr ())
            else close_reader env (at_eof env ?r start)) = (r', res)" by (metis surj_pair)
  have fp: "rd_fp r' = None"
    using e close_closes [of env "at_eof env ?r start"] by (auto split: if_splits)
  have q: "res = Inr () \<and> rd_quarantines r' = rd_quarantines r" if "0 < start \<or> stop < length (re_body env)"
    using that e assms(3) close_not_at_0 [of start env ?r] by (auto simp: reading_def at_eof_def split: if_splits)
  have "int (stop - start) = int stop - int start" using assms(3) by simp
  from cs(1) [unfolded e this] have "app_iter_range env r (Some start) (Some stop) = (cs, r', res)"
    using assms(2) by (simp add: app_iter_range_def fresh_at_def closed_again [OF fp])
  with cs(2,3) fp q show ?thesis by auto
qed

text \<open>C23: A full read of a replicated object sends every byte, then quarantines the object exactly when the
  metadata's size is not the number of bytes or, with validation, its etag is not their md5; the client sees
  an error only if the quarantine hook raises \<^verbatim>\<open>DiskFileQuarantined\<close>.
\<close>

theorem mismatch_quarantines:
  assumes "readable env" and "fresh_at 0 r" and "\<And>x. re_md5 env x \<noteq> []" and "re_frag env = None"
    and "re_rename env (rd_quarantines r) = None"
  shows "\<exists>cs r'. iter_reader env r =
       (cs, r', if \<not> etag_ok env r \<and> re_hook env = Some DiskFileQuarantined then Inl DiskFileQuarantined else Inr ()) \<and>
     concat cs = re_body env \<and> rd_fp r' = None \<and>
     rd_quarantines r' = (if etag_ok env r then rd_quarantines r else rd_quarantines r + 1)"
proof -
  have g: "good_upto env 0 (length (re_body env))" using assms(4) by (simp add: good_upto_def)
  obtain cs where cs: "run_iter env r None = (cs, close_reader env (at_eof env r 0))"
    "concat cs = drop 0 (re_body env)" using run_all [OF assms(1,2) g] by blast
  have h: "handle_close_quarantine env (at_eof env r 0) = base_close_quarantine env (at_eof env r 0)"
    using assms(4) by (simp add: handle_close_quarantine_def split: prod.split sum.split)
  obtain r' res where cl: "close_reader env (at_eof env r 0) = (r', res)" by (metis surj_pair)
  then have "res = (if \<not> etag_ok env r \<and> re_hook env = Some DiskFileQuarantined then Inl DiskFileQuarantined else Inr ())"
    "rd_quarantines r' = (if etag_ok env r then rd_quarantines r else rd_quarantines r + 1)"
    using base_close_at_0 [of r env] assms(2,3,5)
    by (auto simp: close_reader_def h Let_def fresh_at_def reader_quarantine_def split: option.splits if_splits)
  with cs cl show ?thesis
    using close_closes [of env "at_eof env r 0"] by (intro exI [of _ cs] exI [of _ r']) (simp add: iter_reader_def)
qed

text \<open>Reading a fragment archive up to its first bad fragment.\<close>

lemma inner_next_bad:
  assumes "readable env" and "re_frag env = Some f" and "good_frags f (take p (re_body env))" and "p < length (re_body env)"
    and "\<not> good_frags f (take (p + length (take (re_chunk env) (drop p (re_body env)))) (re_body env))"
    and "re_rename env (rd_quarantines r) = None" and "re_hook env = None" and "\<not> rd_suppress r"
  shows "\<exists>r'. inner_next env (reading env r 0 p) = (r', Inl DiskFileQuarantined) \<and> rd_quarantines r' = rd_quarantines r + 1"
proof -
  define c where "c = take (re_chunk env) (drop p (re_body env))"
  have c: "c \<noteq> []" and t: "take (p + length c) (re_body env) = take p (re_body env) @ c"
    using assms(1,4) take_more [of p "re_chunk env" "re_body env"] by (auto simp: c_def readable_def simp del: length_take)
  have e: "re_error env p = None" using assms(1) by (simp add: readable_def)
  have bad: "\<not> good_frags f (frag_rest f (take p (re_body env)) @ c)"
    using assms(3,5) by (simp add: good_frags_append [of _ "take p (re_body env)"] t flip: c_def)
  let ?r = "(reading env r 0 p)\<lparr>rd_fp := Some (p + length c)\<rparr>"
  have "\<exists>r'. update_checks env ?r c = (r', Inl DiskFileQuarantined) \<and> rd_quarantines r' = rd_quarantines r + 1 \<and>
      \<not> rd_suppress r' \<and> \<not> rd_eof r'"
    using assms(2,6-8) bad check_frags_bad [of env _ f "frag_rest f (take p (re_body env)) @ c"]
    by (simp add: update_checks_def base_update_checks_def reading_def Let_def)
  then obtain r' where u: "update_checks env ?r c = (r', Inl DiskFileQuarantined)" "rd_quarantines r' = rd_quarantines r + 1"
    "\<not> rd_suppress r'" "rd_eof r' = False" by blast
  have "inner_next env (reading env r 0 p) =
      (case update_checks env ?r c of
         (r, Inl e) \<Rightarrow> finally_close env r (Inl e)
       | (r, Inr u) \<Rightarrow> (r\<lparr>rd_read := rd_read r + length c\<rparr>, Inr (Some c)))"
    unfolding inner_next_def by (simp only: reading_fp option.case e Let_def c if_False flip: c_def)
  then show ?thesis
    using u close_early [OF u(4), of env] by (simp add: finally_close_def)
qed

lemma range_loop_bad:
  assumes "readable env" and "re_frag env = Some f" and "\<not> good_frags f (re_body env)"
    and "re_rename env (rd_quarantines r) = None" and "re_hook env = None" and "\<not> rd_suppress r"
    and "good_frags f (take p (re_body env))"
  shows "\<exists>cs r' q. range_loop env (reading env r 0 p) None = (cs, r', Inl DiskFileQuarantined) \<and>
     rd_quarantines r' = rd_quarantines r + 1 \<and> take p (re_body env) @ concat cs = take q (re_body env) \<and>
     q < length (re_body env) \<and> good_frags f (take q (re_body env))"
  using assms(7)
proof (induction "length (re_body env) - p" arbitrary: p rule: less_induct)
  case (less p)
  define c where "c = take (re_chunk env) (drop p (re_body env))"
  have p: "p < length (re_body env)" using less.prems assms(3) by (cases "p < length (re_body env)") simp_all
  have c: "0 < length c" "take (p + length c) (re_body env) = take p (re_body env) @ c"
    using p assms(1) take_more [of p "re_chunk env" "re_body env"] by (auto simp: c_def readable_def simp del: length_take)
  show ?case
  proof (cases "good_frags f (take (p + length c) (re_body env))")
    case False
    obtain r' where "inner_next env (reading env r 0 p) = (r', Inl DiskFileQuarantined)" "rd_quarantines r' = rd_quarantines r + 1"
      using inner_next_bad [OF assms(1,2) less.prems p False [unfolded c_def] assms(4-6)] by blast
    then show ?thesis
      using p less.prems by (intro exI [of _ "[]"] exI [of _ r'] exI [of _ p]) (subst range_loop.simps, simp)
  next
    case True
    then have "good_upto env 0 (p + length c)" using assms(2) by (simp add: good_upto_def)
    from inner_next_reading [OF assms(1) le0 p this [unfolded c_def]]
    have n: "inner_next env (reading env r 0 p) = (reading env r 0 (p + length c), Inr (Some c))" by (simp add: c_def)
    have "length (re_body env) - (p + length c) < length (re_body env) - p" using c(1) p by arith
    from less.hyps [OF this True] obtain cs r' q where
      cs: "range_loop env (reading env r 0 (p + length c)) None = (cs, r', Inl DiskFileQuarantined)"
      "rd_quarantines r' = rd_quarantines r + 1" "take (p + length c) (re_body env) @ concat cs = take q (re_body env)"
      "q < length (re_body env)" "good_frags f (take q (re_body env))" by blast
    then show ?thesis
      using c(2) by (intro exI [of _ "c # cs"] exI [of _ r'] exI [of _ q]) (subst range_loop.simps, simp add: n)
  qed
qed

text \<open>C24: A full read of a fragment archive with a corrupted fragment is cut off by \<^verbatim>\<open>DiskFileQuarantined\<close> before
  the chunk that completes that fragment: the archive is quarantined, and what was sent is a proper prefix
  of the file in which every complete fragment is good.
\<close>

theorem bad_fragment_stops_read:
  assumes "readable env" and "fresh_at 0 r" and "re_frag env = Some f" and "\<not> good_frags f (re_body env)"
    and "re_rename env (rd_quarantines r) = None" and "re_hook env = None"
  shows "\<exists>cs r' q. iter_reader env r = (cs, r', Inl DiskFileQuarantined) \<and> rd_quarantines r' = rd_quarantines r + 1 \<and>
     concat cs = take q (re_body env) \<and> q < length (re_body env) \<and> good_frags f (concat cs)"
proof -
  have i: "inner_start env r = (reading env r 0 0, Inr ())" and s: "\<not> rd_suppress r"
    using assms(2) inner_start_reading [of r 0 env] by (simp_all add: fresh_at_def)
  have "good_frags f (take 0 (re_body env))" by (simp add: good_frags_def)
  from range_loop_bad [OF assms(1,3,4,5,6) s this] obtain cs r' q where
    "range_loop env (reading env r 0 0) None = (cs, r', Inl DiskFileQuarantined)"
    "rd_quarantines r' = rd_quarantines r + 1" "concat cs = take q (re_body env)"
    "q < length (re_body env)" "good_frags f (take q (re_body env))" by auto
  then show ?thesis
    by (intro exI [of _ cs] exI [of _ r'] exI [of _ q]) (simp add: iter_reader_def run_iter_def i)
qed

section \<open>Reading, on an example\<close>

definition sample_frag :: frag_env where
  "sample_frag = \<lparr>fr_more = 2, fr_check = (\<lambda>x. if CHR ''!'' \<in> set x then FragBad else FragOk)\<rparr>"

definition sample_read :: "string \<Rightarrow> bool \<Rightarrow> frag_env option \<Rightarrow> read_env" where
  "sample_read body validate f = \<lparr>re_body = body, re_error = (\<lambda>p. None), re_chunk = 4, re_md5 = (\<lambda>b. CHR ''#'' # b),
     re_validate = validate, re_rename = (\<lambda>n. None), re_hook = None, re_frag = f\<rparr>"

lemma sample_read_ok:
  "readable (sample_read body v f)" "fresh_at b (new_reader (Some b) n etag)" "re_md5 (sample_read body v f) x \<noteq> []"
  "re_rename (sample_read body v f) k = None" "re_hook (sample_read body v f) = None" "re_frag (sample_read body v f) = f"
  "re_body (sample_read body v f) = body" "rd_quarantines (new_reader fp n etag) = 0"
  by (simp_all add: readable_def sample_read_def fresh_at_def new_reader_def)

theorem full_read_yields_body_witness:
  "\<exists>cs r'. iter_reader (sample_read ''hello world'' True (Some sample_frag)) (new_reader (Some 0) 11 ''#hello world'') = (cs, r', Inr ()) \<and>
     concat cs = ''hello world'' \<and> rd_fp r' = None \<and> rd_quarantines r' = 0"
proof -
  let ?env = "sample_read ''hello world'' True (Some sample_frag)" and ?r = "new_reader (Some 0) 11 ''#hello world''"
  have "etag_ok ?env ?r" by (simp add: etag_ok_def sample_read_def new_reader_def)
  moreover have "frags_ok ?env"
    by (simp add: frags_ok_def sample_read_ok good_frags_def last_frag_ok_def sample_frag_def frag_size_def frags.simps frag_rest.simps)
  ultimately obtain cs r' where "iter_reader ?env ?r = (cs, r', Inr ())" "concat cs = re_body ?env" "rd_fp r' = None"
    "rd_quarantines r' = rd_quarantines ?r"
    using full_read_yields_body [OF sample_read_ok(1,2,3)] by blast
  then show ?thesis by (auto simp: sample_read_ok)
qed

theorem range_read_bytes_witness:
  "(\<exists>cs r'. app_iter_range (sample_read ''he!!o world'' True (Some sample_frag)) (new_reader (Some 0) 11 ''wrong'') (Some 3) (Some 9) =
       (cs, r', Inr ()) \<and> concat cs = ''!o wor'' \<and> rd_quarantines r' = 0) \<and>
   (\<exists>cs r'. app_iter_range (sample_read ''hello worl!'' True (Some sample_frag)) (new_reader (Some 0) 11 ''wrong'') (Some 0) (Some 3) =
       (cs, r', Inr ()) \<and> concat cs = ''hel'' \<and> rd_quarantines r' = 0)"
proof (intro conjI)
  let ?env = "sample_read ''he!!o world'' True (Some sample_frag)" and ?r = "new_reader (Some 0) 11 ''wrong''"
  obtain cs r' where "app_iter_range ?env ?r (Some 3) (Some 9) = (cs, r', Inr ())" "concat cs = take 6 (drop 3 (re_body ?env))"
    "rd_quarantines r' = rd_quarantines ?r"
    using range_read_bytes [where env = ?env and r = ?r and b = 0 and start = 3 and stop = 9] sample_read_ok(1,2) by (auto simp: sample_read_ok(7))
  then show "\<exists>cs r'. app_iter_range ?env ?r (Some 3) (Some 9) = (cs, r', Inr ()) \<and> concat cs = ''!o wor'' \<and> rd_quarantines r' = 0"
    by (auto simp: sample_read_ok)
next
  let ?env = "sample_read ''hello worl!'' True (Some sample_frag)" and ?r = "new_reader (Some 0) 11 ''wrong''"
  have "good_frags f (take (3 + re_chunk ?env) (re_body ?env))" if "re_frag ?env = Some f" for f
  proof -
    have f: "f = sample_frag" using that by (simp add: sample_read_ok)
    show ?thesis unfolding f by (simp add: sample_read_def good_frags_def sample_frag_def frag_size_def frags.simps)
  qed
  then obtain cs r' where "app_iter_range ?env ?r (Some 0) (Some 3) = (cs, r', Inr ())" "concat cs = take 3 (drop 0 (re_body ?env))"
    "rd_quarantines r' = rd_quarantines ?r"
    using range_read_bytes [where env = ?env and r = ?r and b = 0 and start = 0 and stop = 3] sample_read_ok(1,2) by (auto simp: sample_read_ok(7))
  then show "\<exists>cs r'. app_iter_range ?env ?r (Some 0) (Some 3) = (cs, r', Inr ()) \<and> concat cs = ''hel'' \<and> rd_quarantines r' = 0"
    by (auto simp: sample_read_ok)
qed

theorem mismatch_quarantines_witness:
  "\<exists>cs r'. iter_reader (sample_read ''hello'' True None) (new_reader (Some 0) 5 ''wrong'') = (cs, r', Inr ()) \<and>
     concat cs = ''hello'' \<and> rd_quarantines r' = 1"
proof -
  let ?env = "sample_read ''hello'' True None" and ?r = "new_reader (Some 0) 5 ''wrong''"
  have "\<not> etag_ok ?env ?r" by (simp add: etag_ok_def sample_read_def new_reader_def)
  moreover obtain cs r' where "iter_reader ?env ?r =
      (cs, r', if \<not> etag_ok ?env ?r \<and> re_hook ?env = Some DiskFileQuarantined then Inl DiskFileQuarantined else Inr ())"
    "concat cs = re_body ?env" "rd_quarantines r' = (if etag_ok ?env ?r then rd_quarantines ?r else rd_quarantines ?r + 1)"
    using mismatch_quarantines [OF sample_read_ok(1,2,3,6,4)] by blast
  ultimately show ?thesis by (auto simp: sample_read_ok)
qed

theorem bad_fragment_stops_read_witness:
  "\<exists>cs r' q. iter_reader (sample_read ''abcdefghij!klm'' True (Some sample_frag)) (new_reader (Some 0) 14 ''#'') =
       (cs, r', Inl DiskFileQuarantined) \<and> concat cs = take q ''abcdefghij!klm'' \<and> q < 14 \<and> rd_quarantines r' = 1"
proof -
  let ?env = "sample_read ''abcdefghij!klm'' True (Some sample_frag)" and ?r = "new_reader (Some 0) 14 ''#''"
  have "\<not> good_frags sample_frag (re_body ?env)"
    by (simp add: sample_read_ok good_frags_def sample_frag_def frag_size_def frags.simps)
  from bad_fragment_stops_read [OF sample_read_ok(1,2,6) this sample_read_ok(4,5), of 14 "''#''"]
  obtain cs r' q where "iter_reader ?env ?r = (cs, r', Inl DiskFileQuarantined)" "rd_quarantines r' = rd_quarantines ?r + 1"
    "concat cs = take q (re_body ?env)" "q < length (re_body ?env)" by blast
  then show ?thesis by (intro exI [of _ cs] exI [of _ r'] exI [of _ q]) (simp add: sample_read_ok)
qed

end
