(* ===== verification/ErasureCoded.thy ===== *)
theory ErasureCoded
  imports Replicated
begin

text \<open>
  \<^verbatim>\<open>ECDiskFileManager\<close> of \<^verbatim>\<open>swift_patches/obj/bs_diskfile.py\<close>: fragment indexes in file names, the choice of
  a fragment among the sets of fragments of an object (durable or preferred ones), and what the
  clean-up leaves of them.
\<close>

section \<open>Fragment indexes and file names\<close>

text \<open>
  The argument is \<^verbatim>\<open>str(frag_index)\<close> (\<^verbatim>\<open>'None'\<close> when there is none), the policy given by
  \<^verbatim>\<open>ec_ndata + ec_nparity\<close>.
\<close>

definition validate_fragment_index :: "int option \<Rightarrow> string \<Rightarrow> pyexc + int" where
  "validate_fragment_index policy frag_index =
     (case py_int frag_index of
        None \<Rightarrow> Inl DiskFileError
      | Some i \<Rightarrow>
          if i < 0 then Inl DiskFileError
          else (case policy of
                  None \<Rightarrow> Inr i
                | Some n \<Rightarrow> if i \<ge> n then Inl DiskFileError else Inr i))"

definition ec_make_filename ::
  "'t ts_lib \<Rightarrow> 't \<Rightarrow> string option \<Rightarrow> string \<Rightarrow> 't option \<Rightarrow> bool \<Rightarrow> pyexc + string" where
  "ec_make_filename lib timestamp ext frag_index ctype_timestamp durable =
     (if ext = Some ''.data''
      then try_then (validate_fragment_index None frag_index) (\<lambda>fi.
             Inr (ts_internal lib timestamp @ ''#'' @ str_int fi @ (if durable then ''#d'' else []) @ ''.data''))
      else Inr (base_make_filename lib timestamp ext ctype_timestamp))"

definition ec_parse_filename :: "'t ts_lib \<Rightarrow> int option \<Rightarrow> string \<Rightarrow> pyexc + 't finfo" where
  "ec_parse_filename lib policy filename =
     (let (float_frag, ext) = splitext filename
      in if ext = ''.data''
         then (let parts = split_on (CHR ''#'') float_frag
               in case ts_parse lib (parts ! 0) of
                    None \<Rightarrow> Inl DiskFileError
                  | Some timestamp \<Rightarrow>
                      try_then (validate_fragment_index policy (if length parts > 1 then parts ! 1 else ''None''))
                        (\<lambda>fi. Inr \<lparr>fi_timestamp = timestamp, fi_ext = ext, fi_ctype = None, fi_frag = Some fi,
                                   fi_durable = Some (length parts > 2 \<and> parts ! 2 = ''d''), fi_filename = []\<rparr>))
         else base_parse_filename lib filename)"

section \<open>_process_ondisk_files\<close>

text \<open>
  The keyword arguments of the call, the policy, and \<open>ea_order\<close>: the iteration order of a Python set
  of integers, of which nothing is assumed here.
\<close>

record 't ec_args =
  ea_policy :: "int option"
  ea_frag_index :: "int option"
  ea_frag_prefs :: "('t \<times> int list) list option"
  ea_order :: "int list \<Rightarrow> int list"

definition mark_durable :: "'t finfo \<Rightarrow> 't finfo" where
  "mark_durable i = i\<lparr>fi_durable := Some True\<rparr>"

definition is_durable :: "'t finfo \<Rightarrow> bool" where
  "is_durable i \<longleftrightarrow> fi_durable i = Some True"

definition frag_no :: "'t finfo \<Rightarrow> int" where
  "frag_no i = (case fi_frag i of None \<Rightarrow> 0 | Some n \<Rightarrow> n)"

text \<open>
  The loop over the \<^verbatim>\<open>.data\<close> files, newest first; \<open>durable_info\<close> is the newest legacy \<^verbatim>\<open>.durable\<close> file
  at first.  The infos of the durable set are marked in place.
\<close>

function frag_loop ::
  "'t :: linorder finfo list \<Rightarrow> 't frag_sets \<Rightarrow> 't finfo option
     \<Rightarrow> 't frag_sets \<times> 't finfo option \<times> 't finfo list option" where
  "frag_loop [] frag_sets durable_info = (frag_sets, durable_info, None)"
| "frag_loop (f # fs) frag_sets durable_info =
     (let (frag_set, all_frags) = split_gte_timestamp (f # fs) (fi_timestamp f);
          frag_set = sort_key frag_no frag_set;
          timestamp = fi_timestamp (hd frag_set);
          durable_info =
            (case find is_durable frag_set of
               None \<Rightarrow> durable_info
             | Some frag \<Rightarrow>
                 (case durable_info of
                    None \<Rightarrow> Some frag
                  | Some d \<Rightarrow> if fi_timestamp d < timestamp then Some frag else Some d));
          here = (case durable_info of None \<Rightarrow> False | Some d \<Rightarrow> fi_timestamp d = timestamp);
          frag_set = (if here then map mark_durable frag_set else frag_set);
          frag_sets = AList.update timestamp frag_set frag_sets
      in if here then (frag_sets, durable_info, Some frag_set)
         else frag_loop all_frags frag_sets durable_info)"
  by pat_completeness auto

lemma length_split_gte_hd: "length (snd (split_gte_timestamp (f # fs) (fi_timestamp f))) < length (f # fs)"
  by (simp add: split_gte_timestamp_def split_list_eq length_dropWhile_le le_imp_less_Suc)

lemma split_gte_hd_shorter:
  "(x, y) = split_gte_timestamp (f # fs) (fi_timestamp f) \<Longrightarrow> length y < Suc (length fs)"
  using length_split_gte_hd [of f fs] by (metis length_Cons snd_conv)

termination frag_loop
  by (relation "measure (\<lambda>(l, _, _). length l)") (simp_all add: split_gte_hd_shorter)

text \<open>
  The loop over the fragment preferences, with its \<open>else\<close> clause; the second component of the result
  is the fragment index that overrides the one passed in.
\<close>

definition newest_set :: "'t :: linorder frag_sets \<Rightarrow> 't finfo list option" where
  "newest_set cands =
     (if cands = [] then None else map_of cands (last (sort (map fst cands))))"

fun pref_loop ::
  "(int list \<Rightarrow> int list) \<Rightarrow> ('t :: linorder \<times> int list) list \<Rightarrow> 't frag_sets
     \<Rightarrow> pyexc + ('t finfo list option \<times> int option)" where
  "pref_loop order [] cands = Inr (newest_set cands, None)"
| "pref_loop order ((ts, exclude) # prefs) cands =
     (case map_of cands ts of
        None \<Rightarrow> Inl KeyError
      | Some frag_set \<Rightarrow>
          (let acceptable = order (filter (\<lambda>n. n \<notin> set exclude) (remdups (map frag_no frag_set)))
           in if acceptable \<noteq> [] then Inr (Some frag_set, Some (last acceptable))
              else pref_loop order prefs (AList.delete ts cands)))"

definition choose_frag_set ::
  "'t :: linorder ec_args \<Rightarrow> 't frag_sets \<Rightarrow> 't finfo list option \<Rightarrow> pyexc + ('t finfo list option \<times> int option)" where
  "choose_frag_set args frag_sets durable_frag_set =
     (case ea_frag_prefs args of
        None \<Rightarrow> Inr (durable_frag_set, ea_frag_index args)
      | Some prefs \<Rightarrow>
          map_sum id (\<lambda>(chosen, fi). (chosen, case fi of None \<Rightarrow> ea_frag_index args | Some n \<Rightarrow> Some n))
            (pref_loop (ea_order args) (filter (\<lambda>(ts, _). ts \<in> fst ` set frag_sets) prefs) frag_sets))"

definition choose_frag :: "'t finfo list option \<Rightarrow> int option \<Rightarrow> 't finfo option" where
  "choose_frag chosen frag_index =
     (case chosen of
        None \<Rightarrow> None
      | Some fs \<Rightarrow>
          if fs = [] then None
          else (case frag_index of
                  Some n \<Rightarrow> find (\<lambda>i. fi_frag i = Some n) fs
                | None \<Rightarrow> Some (last fs)))"

text \<open>\<^verbatim>\<open>exts['.data']\<close> shares its infos with the fragment sets.\<close>

definition mark_exts :: "'t finfo list option \<Rightarrow> 't finfo option \<Rightarrow> 't exts \<Rightarrow> 't exts" where
  "mark_exts durable_frag_set durable_info exts =
     (case (durable_frag_set, durable_info) of
        (Some _, Some d) \<Rightarrow>
          set_files ''.data'' (map (\<lambda>i. if fi_timestamp i = fi_timestamp d then mark_durable i else i)
            (files_of exts ''.data'')) exts
      | _ \<Rightarrow> exts)"

text \<open>The results for the chosen fragment; metadata files between it and the durable data are hidden.\<close>

definition ec_results ::
  "'t finfo list option \<Rightarrow> 't finfo list option \<Rightarrow> 't finfo option \<Rightarrow> 't :: linorder exts \<times> 't results
     \<Rightarrow> 't exts \<times> 't results" where
  "ec_results durable_frag_set chosen_frag_set chosen_frag = (\<lambda>(exts, res).
     (case chosen_frag of
        None \<Rightarrow> (exts, res)
      | Some frag \<Rightarrow>
          (if chosen_frag_set \<noteq> durable_frag_set
           then set_files ''.meta'' (fst (split_gt_timestamp (files_of exts ''.meta'') (fi_timestamp frag))) exts
           else exts,
           res\<lparr>r_data_info := Some frag, r_durable_frag_set := Some durable_frag_set,
               r_chosen_frag_set := chosen_frag_set\<rparr>)))"

definition drop_before_durable ::
  "'t finfo option \<Rightarrow> 't :: linorder exts \<times> 't results \<Rightarrow> 't exts \<times> 't results" where
  "drop_before_durable durable_info = (\<lambda>(exts, res).
     (case durable_info of
        None \<Rightarrow> (exts, res)
      | Some d \<Rightarrow>
          (let (exts, older) = split_exts (\<lambda>e l. split_gte_timestamp l (fi_timestamp d)) exts
           in (exts, add_obsolete older res))))"

definition drop_isolated ::
  "'t finfo list option \<Rightarrow> 't exts \<times> 't results \<Rightarrow> 't exts \<times> 't results" where
  "drop_isolated durable_frag_set = (\<lambda>(exts, res).
     (if files_of exts ''.durable'' \<noteq> [] \<and> durable_frag_set = None
      then (AList.delete ''.durable'' exts, add_obsolete (files_of exts ''.durable'') res)
      else (exts, res)))"

definition ec_reclaim ::
  "'t finfo list option \<Rightarrow> 't finfo list option \<Rightarrow> 't frag_sets \<Rightarrow> 't exts \<times> 't results \<Rightarrow> 't exts \<times> 't results" where
  "ec_reclaim durable_frag_set chosen_frag_set frag_sets = (\<lambda>(exts, res).
     (let res = add_reclaim (concat (filter (\<lambda>fs. Some fs \<noteq> durable_frag_set \<and> Some fs \<noteq> chosen_frag_set)
                                       (map snd frag_sets))) res
      in (exts, if files_of exts ''.meta'' \<noteq> [] \<and> durable_frag_set = None
                then add_reclaim (files_of exts ''.meta'') res else res)))"

definition ec_process ::
  "'t :: linorder ec_args \<Rightarrow> 't exts \<Rightarrow> 't results \<Rightarrow> pyexc + ('t exts \<times> 't results)" where
  "ec_process args exts res =
     (let (frag_sets, durable_info, durable_frag_set) =
            frag_loop (files_of exts ''.data'') []
              (case files_of exts ''.durable'' of [] \<Rightarrow> None | d # ds \<Rightarrow> Some d);
          exts = mark_exts durable_frag_set durable_info exts
      in try_then (choose_frag_set args frag_sets durable_frag_set) (\<lambda>(chosen_frag_set, frag_index).
         let (exts, res) = ec_results durable_frag_set chosen_frag_set
                             (choose_frag chosen_frag_set frag_index) (exts, res);
             res = res\<lparr>r_frag_sets := Some frag_sets\<rparr>
         in Inr (ec_reclaim durable_frag_set chosen_frag_set frag_sets
                  (drop_isolated durable_frag_set
                    (drop_before_durable durable_info (exts, res))))))"

definition ec_verify :: "'t ec_args \<Rightarrow> 't results \<Rightarrow> bool" where
  "ec_verify args res \<longleftrightarrow>
     base_verify res \<and>
     (let have_data_file = (r_data_file res \<noteq> None);
          durable = (case r_durable_frag_set res of Some (Some _) \<Rightarrow> True | _ \<Rightarrow> False);
          have_durable = (durable \<or> (have_data_file \<and> ea_frag_prefs args \<noteq> None))
      in have_data_file = have_durable)"

definition ec_ops :: "'t :: linorder ts_lib \<Rightarrow> 't ec_args \<Rightarrow> 't policy_ops" where
  "ec_ops lib args =
     \<lparr>op_parse = ec_parse_filename lib (ea_policy args), op_process = ec_process args, op_verify = ec_verify args\<rparr>"

lemma ec_ops_simps [simp]:
  "op_parse (ec_ops lib args) = ec_parse_filename lib (ea_policy args)"
  "op_process (ec_ops lib args) = ec_process args" "op_verify (ec_ops lib args) = ec_verify args"
  by (simp_all add: ec_ops_def)

declare frag_loop.simps [simp del]

section \<open>The loop in closed form\<close>

definition frag_set_at :: "'t finfo list \<Rightarrow> 't \<Rightarrow> 't finfo list" where
  "frag_set_at l t = sort_key frag_no (filter (\<lambda>i. fi_timestamp i = t) l)"

definition times :: "'t finfo list \<Rightarrow> 't list" where
  "times l = remdups_adj (map fi_timestamp l)"

definition durable_ts :: "'t :: linorder finfo option \<Rightarrow> 't finfo list \<Rightarrow> 't option" where
  "durable_ts dur l =
     (case filter is_durable l of
        [] \<Rightarrow> map_option fi_timestamp dur
      | i # _ \<Rightarrow> Some (case dur of None \<Rightarrow> fi_timestamp i | Some d \<Rightarrow> max (fi_timestamp d) (fi_timestamp i)))"

text \<open>The durable timestamp when there is a fragment at it.\<close>

definition durable_at :: "'t :: linorder finfo option \<Rightarrow> 't finfo list \<Rightarrow> 't option" where
  "durable_at dur l =
     (case durable_ts dur l of None \<Rightarrow> None
      | Some t \<Rightarrow> if t \<in> fi_timestamp ` set l then Some t else None)"

definition set_for :: "'t :: linorder finfo option \<Rightarrow> 't finfo list \<Rightarrow> 't \<Rightarrow> 't finfo list" where
  "set_for dur l t =
     (if durable_at dur l = Some t then map mark_durable (frag_set_at l t) else frag_set_at l t)"

definition seen_times :: "'t :: linorder finfo option \<Rightarrow> 't finfo list \<Rightarrow> 't list" where
  "seen_times dur l =
     filter (\<lambda>t. case durable_at dur l of None \<Rightarrow> True | Some d \<Rightarrow> d \<le> t) (times l)"

lemma set_times [simp]: "set (times l) = fi_timestamp ` set l"
  by (simp add: times_def)

lemma update_fresh: "k \<notin> fst ` set al \<Longrightarrow> AList.update k v al = al @ [(k, v)]"
  by (induction al) auto

lemma set_frag_set_at [simp]: "set (frag_set_at l t) = {i \<in> set l. fi_timestamp i = t}"
  by (simp add: frag_set_at_def)

lemma older_part:
  assumes "descending fi_timestamp (f # fs)"
  shows "frag_set_at (filter (\<lambda>i. fi_timestamp i < fi_timestamp f) fs) t =
      (if t < fi_timestamp f then frag_set_at (f # fs) t else [])"
    and "times (f # fs) = fi_timestamp f # times (filter (\<lambda>i. fi_timestamp i < fi_timestamp f) fs)"
proof -
  show "frag_set_at (filter (\<lambda>i. fi_timestamp i < fi_timestamp f) fs) t =
      (if t < fi_timestamp f then frag_set_at (f # fs) t else [])"
  proof (cases "t < fi_timestamp f")
    case True
    then show ?thesis
      by (auto simp: frag_set_at_def intro!: arg_cong [of _ _ "sort_key frag_no"] filter_cong)
  next
    case False
    then have "filter (\<lambda>i. fi_timestamp i = t) (filter (\<lambda>i. fi_timestamp i < fi_timestamp f) fs) = []"
      by (auto simp: filter_empty_conv)
    with False show ?thesis unfolding frag_set_at_def by simp
  qed
  show "times (f # fs) = fi_timestamp f # times (filter (\<lambda>i. fi_timestamp i < fi_timestamp f) fs)"
    using assms
  proof (induction fs)
    case (Cons g gs)
    show ?case
    proof (cases "fi_timestamp g = fi_timestamp f")
      case True
      then have "descending fi_timestamp (f # gs)" using Cons.prems by (simp add: descending_Cons)
      with Cons.IH True show ?thesis by (simp add: times_def)
    next
      case False
      then have g: "fi_timestamp g < fi_timestamp f" using Cons.prems by (auto simp: descending_Cons)
      then have "filter (\<lambda>i. fi_timestamp i < fi_timestamp f) gs = gs"
        using Cons.prems by (auto simp: descending_Cons filter_id_conv)
      then show ?thesis using g by (simp add: times_def)
    qed
  qed (simp add: times_def)
qed

text \<open>The durable info after one round, and whether the loop stops there.\<close>

definition durable_next :: "'t :: linorder \<Rightarrow> 't finfo list \<Rightarrow> 't finfo option \<Rightarrow> 't finfo option" where
  "durable_next t frag_set dur =
     (case find is_durable frag_set of
        None \<Rightarrow> dur
      | Some frag \<Rightarrow> (case dur of None \<Rightarrow> Some frag
          | Some d \<Rightarrow> if fi_timestamp d < t then Some frag else Some d))"

lemma frag_loop_step:
  assumes "descending fi_timestamp (f # fs)"
  shows "frag_loop (f # fs) sets dur =
    (let t = fi_timestamp f;
         dur = durable_next t (frag_set_at (f # fs) t) dur;
         here = (map_option fi_timestamp dur = Some t);
         frag_set = (if here then map mark_durable (frag_set_at (f # fs) t) else frag_set_at (f # fs) t);
         sets = AList.update t frag_set sets
     in if here then (sets, dur, Some frag_set)
        else frag_loop (filter (\<lambda>i. fi_timestamp i < t) fs) sets dur)"
proof -
  let ?t = "fi_timestamp f" and ?s = "frag_set_at (f # fs) (fi_timestamp f)"
  have sp: "split_gte_timestamp (f # fs) ?t = (filter (\<lambda>i. fi_timestamp i = ?t) (f # fs), filter (\<lambda>i. fi_timestamp i < ?t) fs)"
    using assms by (auto simp: split_gte_filter descending_Cons intro!: filter_cong)
  have ne: "?s \<noteq> []" using set_frag_set_at [of "f # fs" ?t] by fastforce
  then have hd: "fi_timestamp (hd ?s) = ?t" using set_frag_set_at [of "f # fs" ?t] list.set_sel(1) by blast
  have here: "(case d of None \<Rightarrow> False | Some d \<Rightarrow> fi_timestamp d = t) \<longleftrightarrow> map_option fi_timestamp d = Some t"
    for d :: "'a finfo option" and t by (cases d) auto
  show ?thesis
    unfolding frag_loop.simps sp Let_def prod.case frag_set_at_def [symmetric] hd here durable_next_def ..
qed

lemma newest_part:
  assumes "descending fi_timestamp (f # fs)"
  shows "f # fs = filter (\<lambda>i. fi_timestamp i = fi_timestamp f) (f # fs) @
    filter (\<lambda>i. fi_timestamp i < fi_timestamp f) fs"
  using assms
proof (induction fs)
  case (Cons g gs)
  show ?case
  proof (cases "fi_timestamp g = fi_timestamp f")
    case True
    then have "descending fi_timestamp (f # gs)" using Cons.prems by (simp add: descending_Cons)
    with Cons.IH True show ?thesis by simp
  next
    case False
    then have g: "fi_timestamp g < fi_timestamp f" using Cons.prems by (auto simp: descending_Cons)
    then have "\<forall>i \<in> set gs. fi_timestamp i < fi_timestamp f" using Cons.prems by (auto simp: descending_Cons)
    then have "filter (\<lambda>i. fi_timestamp i < fi_timestamp f) gs = gs"
      "filter (\<lambda>i. fi_timestamp i = fi_timestamp f) gs = []"
      by (auto simp: filter_id_conv filter_empty_conv)
    then show ?thesis using g by simp
  qed
qed simp

lemma durable_step:
  fixes dur :: "'t :: linorder finfo option"
  assumes "descending fi_timestamp (f # fs)"
  defines "t \<equiv> fi_timestamp f" and "R \<equiv> filter (\<lambda>i. fi_timestamp i < fi_timestamp f) fs"
    and "dur' \<equiv> durable_next (fi_timestamp f) (frag_set_at (f # fs) (fi_timestamp f)) dur"
  shows "if map_option fi_timestamp dur' = Some t then durable_ts dur (f # fs) = Some t
    else dur' = dur \<and> durable_ts dur (f # fs) = durable_ts dur R \<and> durable_ts dur R \<noteq> Some t"
proof -
  define E where "E = filter (\<lambda>i. fi_timestamp i = fi_timestamp f) (f # fs)"
  have inE: "i \<in> set E \<longleftrightarrow> i \<in> set (frag_set_at (f # fs) (fi_timestamp f))" for i by (auto simp: E_def)
  let ?find = "find is_durable (frag_set_at (f # fs) (fi_timestamp f))"
  have F: "filter is_durable (f # fs) = filter is_durable E @ filter is_durable R"
    unfolding R_def E_def filter_append [symmetric] newest_part [OF assms(1), symmetric] ..
  have R: "fi_timestamp i < t" if "filter is_durable R = i # is" for i "is"
  proof -
    have "i \<in> set (filter is_durable R)" by (simp add: that)
    then show ?thesis by (simp add: R_def t_def)
  qed
  show ?thesis
  proof (cases "filter is_durable E")
    case Nil
    then have "\<forall>i \<in> set E. \<not> is_durable i" unfolding filter_empty_conv .
    then have "?find = None" unfolding find_None_iff using inE by blast
    then have d: "dur' = dur" by (simp add: dur'_def durable_next_def)
    have "durable_ts dur (f # fs) = durable_ts dur R" unfolding durable_ts_def F Nil append_Nil ..
    moreover have "durable_ts dur R = Some t \<longleftrightarrow> map_option fi_timestamp dur = Some t"
      using R by (auto simp: durable_ts_def max_def split: option.splits list.splits)
    ultimately show ?thesis by (simp add: d)
  next
    case (Cons i "is")
    then have "i \<in> set (filter is_durable E)" by simp
    then have i: "fi_timestamp i = t" by (simp add: t_def inE)
    have "?find \<noteq> None"
    proof -
      have "i \<in> set (frag_set_at (f # fs) (fi_timestamp f))" "is_durable i"
        using \<open>i \<in> set (filter is_durable E)\<close> unfolding set_filter inE by blast+
      then show ?thesis unfolding find_None_iff by blast
    qed
    then obtain j where j: "?find = Some j" by blast
    then have "j \<in> set (frag_set_at (f # fs) (fi_timestamp f))"
      by (metis find_Some_iff nth_mem)
    then have jt: "fi_timestamp j = t" by (simp add: t_def)
    have F': "durable_ts dur (f # fs) = Some (case dur of None \<Rightarrow> t | Some d \<Rightarrow> max (fi_timestamp d) t)"
      unfolding durable_ts_def F Cons append_Cons list.case i ..
    show ?thesis
    proof (cases dur)
      case None
      then show ?thesis using F' by (simp add: dur'_def durable_next_def j jt)
    next
      case (Some d)
      have d': "dur' = (if fi_timestamp d < t then Some j else Some d)"
        by (simp add: dur'_def durable_next_def j Some t_def)
      have F'': "durable_ts dur (f # fs) = Some (max (fi_timestamp d) t)" using F' by (simp add: Some)
      consider "fi_timestamp d < t" | "fi_timestamp d = t" | "t < fi_timestamp d" by force
      then show ?thesis
      proof cases
        case 3
        have "durable_ts dur R = Some (fi_timestamp d)"
          using R 3 by (auto simp: durable_ts_def Some max_def split: list.split)
        moreover have "\<not> fi_timestamp d < t" using 3 by (rule order_less_not_sym)
        ultimately show ?thesis using 3 F'' d' by (simp add: Some max_absorb1 less_imp_le)
      qed (use F'' d' jt Some in \<open>simp_all add: max_absorb2 less_imp_le\<close>)
    qed
  qed
qed

lemma frag_loop_closed:
  assumes "descending fi_timestamp l" and "fst ` set sets \<inter> fi_timestamp ` set l = {}"
  shows "\<exists>dur'. map_option fi_timestamp dur' = durable_ts dur l \<and>
    frag_loop l sets dur =
      (sets @ map (\<lambda>t. (t, set_for dur l t)) (seen_times dur l), dur',
       map_option (set_for dur l) (durable_at dur l))"
  using assms
proof (induction l arbitrary: sets dur rule: length_induct)
  case (1 l)
  show ?case
  proof (cases l)
    case Nil
    then show ?thesis
      by (intro exI [of _ dur]) (auto simp: frag_loop.simps seen_times_def times_def durable_at_def durable_ts_def
          split: option.split)
  next
    case (Cons f fs)
    define t where "t = fi_timestamp f"
    define R where "R = filter (\<lambda>i. fi_timestamp i < t) fs"
    define dur' where "dur' = durable_next t (frag_set_at l t) dur"
    define here where "here \<longleftrightarrow> map_option fi_timestamp dur' = Some t"
    define fset where "fset = (if here then map mark_durable (frag_set_at l t) else frag_set_at l t)"
    have desc: "descending fi_timestamp (f # fs)" using 1(2) Cons by simp
    have t_fresh: "t \<notin> fst ` set sets" using 1(3) by (auto simp: Cons t_def)
    have step: "frag_loop l sets dur =
        (if here then (sets @ [(t, fset)], dur', Some fset) else frag_loop R (sets @ [(t, fset)]) dur')"
      unfolding Cons frag_loop_step [OF desc] Let_def t_def [symmetric]
      unfolding Cons [symmetric] dur'_def [symmetric] here_def [symmetric] R_def [symmetric] fset_def [symmetric]
        update_fresh [OF t_fresh] ..
    have times: "times l = t # times R" unfolding Cons R_def t_def by (rule older_part(2) [OF desc])
    have R_lt: "\<And>i. i \<in> set R \<Longrightarrow> fi_timestamp i < t" by (simp add: R_def)
    have l_le: "\<And>i. i \<in> set l \<Longrightarrow> fi_timestamp i \<le> t" using desc by (auto simp: Cons t_def descending_Cons)
    note dstep = durable_step [OF desc, of dur, folded t_def, folded R_def, folded Cons, folded dur'_def, folded here_def]
    show ?thesis
    proof (cases here)
      case True
      then have "durable_ts dur l = Some t" using dstep by (simp only: if_True)
      moreover then have "durable_at dur l = Some t" by (simp add: durable_at_def Cons t_def)
      moreover have "seen_times dur l = [t]"
      proof -
        have "filter (\<lambda>u. t \<le> u) (times R) = []" using R_lt by (fastforce simp: filter_empty_conv)
        then show ?thesis by (simp add: seen_times_def \<open>durable_at dur l = Some t\<close> times)
      qed
      ultimately show ?thesis using True
        by (intro exI [of _ dur']) (simp add: step here_def set_for_def fset_def)
    next
      case False
      then have d: "dur' = dur" "durable_ts dur l = durable_ts dur R" "durable_ts dur R \<noteq> Some t"
        using dstep by (simp_all only: if_False not_False_eq_True)
      have occ: "u \<in> fi_timestamp ` set l \<longleftrightarrow> u = t \<or> u \<in> fi_timestamp ` set R" for u
        using times set_times by (metis list.set(2) insert_iff)
      then have at: "durable_at dur l = durable_at dur R"
        using d by (auto simp: durable_at_def split: option.split)
      have "length R < length l" by (simp add: R_def Cons le_imp_less_Suc)
      moreover have "descending fi_timestamp R" using desc by (auto simp: R_def descending_Cons descending_filter)
      moreover have "fst ` set (sets @ [(t, fset)]) \<inter> fi_timestamp ` set R = {}"
      proof -
        have "fst ` set sets \<inter> fi_timestamp ` set R = {}" using 1(3) occ by blast
        moreover have "t \<notin> fi_timestamp ` set R" using R_lt by blast
        ultimately show ?thesis by simp
      qed
      ultimately obtain dur'' where "map_option fi_timestamp dur'' = durable_ts dur R"
        "frag_loop R (sets @ [(t, fset)]) dur =
          ((sets @ [(t, fset)]) @ map (\<lambda>t. (t, set_for dur R t)) (seen_times dur R), dur'',
           map_option (set_for dur R) (durable_at dur R))"
        using 1(1) by blast
      note loop = this
      have same: "set_for dur R u = set_for dur l u" if "u \<in> set (times R)" for u
        using that R_lt older_part(1) [OF desc, folded t_def, folded R_def, folded Cons, of u]
        by (auto simp: set_for_def at)
      have "u \<le> t" if "durable_at dur R = Some u" for u
        using that R_lt by (fastforce simp: durable_at_def split: option.splits if_splits)
      then have seen: "seen_times dur l = t # seen_times dur R"
        by (auto simp: seen_times_def at times split: option.split)
      have "durable_at dur R \<noteq> Some t" using d(3) by (auto simp: durable_at_def split: option.splits)
      then have fset: "set_for dur l t = fset"
        using False by (simp add: set_for_def fset_def at)
      have "set (seen_times dur R) \<subseteq> set (times R)" by (auto simp: seen_times_def)
      then have "map (\<lambda>t. (t, set_for dur R t)) (seen_times dur R) = map (\<lambda>t. (t, set_for dur l t)) (seen_times dur R)"
        using same by (intro map_cong) auto
      moreover have "map_option (set_for dur R) (durable_at dur R) = map_option (set_for dur l) (durable_at dur R)"
        by (rule option.map_cong [OF refl]) (auto simp: durable_at_def split: option.splits if_splits intro!: same)
      ultimately show ?thesis
        using loop False d by (intro exI [of _ dur'']) (simp add: step at seen fset)
    qed
  qed
qed

section \<open>The stages of the EC processing\<close>

definition ec_finish ::
  "'t :: linorder frag_sets \<Rightarrow> 't finfo option \<Rightarrow> 't finfo list option \<Rightarrow> 't finfo list option
     \<Rightarrow> int option \<Rightarrow> 't exts \<times> 't results \<Rightarrow> 't exts \<times> 't results" where
  "ec_finish sets dinfo dset chosen fi s =
     ec_reclaim dset chosen sets (drop_isolated dset (drop_before_durable dinfo
       (map_prod id (r_frag_sets_update (\<lambda>_. Some sets)) (ec_results dset chosen (choose_frag chosen fi) s))))"

lemma ec_process_cases:
  assumes "ec_process args exts res = Inr out"
  obtains sets dinfo dset chosen fi where
    "frag_loop (files_of exts ''.data'') [] (first (files_of exts ''.durable'')) = (sets, dinfo, dset)"
    "choose_frag_set args sets dset = Inr (chosen, fi)"
    "out = ec_finish sets dinfo dset chosen fi (mark_exts dset dinfo exts, res)"
proof -
  obtain sets dinfo dset where fl:
    "frag_loop (files_of exts ''.data'') [] (first (files_of exts ''.durable'')) = (sets, dinfo, dset)"
    by (metis prod_cases3)
  then show thesis using assms that [OF fl]
    by (auto simp: ec_process_def ec_finish_def first_def Let_def split_def map_prod_def)
qed

text \<open>What every stage keeps: it only takes infos out of the dictionary, into the obsolete list or away.\<close>

definition pruned :: "'t exts \<times> 't results \<Rightarrow> 't exts \<times> 't results \<Rightarrow> bool" where
  "pruned s s' \<longleftrightarrow> untouched (snd s) (snd s') \<and>
     (\<forall>e. set (files_of (fst s') e) \<subseteq> set (files_of (fst s) e)) \<and>
     (keys_ok (fst s) \<longrightarrow> keys_ok (fst s') \<and>
        set (r_obsolete (snd s')) \<subseteq> set (r_obsolete (snd s)) \<union> (\<Union>e. set (files_of (fst s) e)))"

lemma pruned_trans: "pruned a b \<Longrightarrow> pruned b c \<Longrightarrow> pruned a c"
  unfolding pruned_def untouched_def by (intro conjI allI impI) (blast | metis)+

lemma files_of_delete [simp]: "files_of (AList.delete k exts) e = (if e = k then [] else files_of exts e)"
  by (simp add: files_of_def dict_get_def delete_conv)

lemma keys_ok_delete [simp]: "keys_ok exts \<Longrightarrow> keys_ok (AList.delete k exts)"
  by (simp add: keys_ok_def distinct_delete)

lemma set_split_gt_fst: "set (fst (split_gt_timestamp l t)) \<subseteq> set l"
  using set_split_gt [of l t] by blast

lemma pruned_results: "pruned s (ec_results dset chosen frag s)"
  using set_split_gt_fst
  by (cases s) (auto simp: pruned_def ec_results_def untouched_def split: option.split)

lemma pruned_frag_sets: "pruned s (map_prod id (r_frag_sets_update f) s)"
  by (cases s) (auto simp: pruned_def untouched_def)

lemma pruned_isolated: "pruned s (drop_isolated dset s)"
  by (cases s) (auto simp: pruned_def untouched_def drop_isolated_def add_obsolete_def)

lemma pruned_reclaim: "pruned s (ec_reclaim dset chosen sets s)"
  by (cases s) (auto simp: pruned_def untouched_def ec_reclaim_def add_reclaim_def Let_def)

lemma pruned_before: "pruned s (drop_before_durable dinfo s)"
proof (cases dinfo)
  case None
  then show ?thesis by (cases s) (auto simp: pruned_def untouched_def drop_before_durable_def)
next
  case (Some d)
  obtain exts res where s: "s = (exts, res)" by (cases s)
  let ?sp = "\<lambda>e l. split_gte_timestamp l (fi_timestamp d)"
  have "keys_ok exts \<Longrightarrow> set (snd (split_exts ?sp exts)) \<subseteq> (\<Union>e. set (files_of exts e))"
    using set_split_gte by (subst set_older_split_exts) fastforce+
  moreover have "set (files_of (fst (split_exts ?sp exts)) e) \<subseteq> set (files_of exts e)" for e
    using set_split_gte [of "files_of exts e" "fi_timestamp d"] by (simp add: files_of_split_exts)
  ultimately show ?thesis
    by (auto simp: s Some pruned_def untouched_def drop_before_durable_def add_obsolete_def split_def Let_def)
qed

lemma pruned_finish: "pruned s (ec_finish sets dinfo dset chosen fi s)"
  unfolding ec_finish_def
  by (rule pruned_trans [OF pruned_trans [OF pruned_trans [OF pruned_trans
        [OF pruned_results pruned_frag_sets] pruned_before] pruned_isolated] pruned_reclaim])

lemma stage_fields [simp]:
  "r_data_info (snd (drop_before_durable dinfo s)) = r_data_info (snd s)"
  "r_durable_frag_set (snd (drop_before_durable dinfo s)) = r_durable_frag_set (snd s)"
  "r_frag_sets (snd (drop_before_durable dinfo s)) = r_frag_sets (snd s)"
  "r_possible_reclaim (snd (drop_before_durable dinfo s)) = r_possible_reclaim (snd s)"
  "r_data_info (snd (drop_isolated dset s)) = r_data_info (snd s)"
  "r_durable_frag_set (snd (drop_isolated dset s)) = r_durable_frag_set (snd s)"
  "r_frag_sets (snd (drop_isolated dset s)) = r_frag_sets (snd s)"
  "r_possible_reclaim (snd (drop_isolated dset s)) = r_possible_reclaim (snd s)"
  by (cases s; simp add: drop_before_durable_def drop_isolated_def add_obsolete_def split_def Let_def
      split: option.split)+

lemma reclaim_fields:
  "fst (ec_reclaim dset chosen sets s) = fst s"
  "r_data_info (snd (ec_reclaim dset chosen sets s)) = r_data_info (snd s)"
  "r_durable_frag_set (snd (ec_reclaim dset chosen sets s)) = r_durable_frag_set (snd s)"
  "r_frag_sets (snd (ec_reclaim dset chosen sets s)) = r_frag_sets (snd s)"
  "r_obsolete (snd (ec_reclaim dset chosen sets s)) = r_obsolete (snd s)"
  "r_possible_reclaim (snd (ec_reclaim dset chosen sets s)) = r_possible_reclaim (snd s) @
      concat (filter (\<lambda>fs. Some fs \<noteq> dset \<and> Some fs \<noteq> chosen) (map snd sets)) @
      (if dset = None then files_of (fst s) ''.meta'' else [])"
  by (cases s; simp add: ec_reclaim_def add_reclaim_def Let_def)+

lemma results_fields:
  "r_data_info (snd (ec_results dset chosen f s)) = (case f of None \<Rightarrow> r_data_info (snd s) | Some i \<Rightarrow> Some i)"
  "r_durable_frag_set (snd (ec_results dset chosen f s)) =
     (case f of None \<Rightarrow> r_durable_frag_set (snd s) | Some i \<Rightarrow> Some dset)"
  "r_possible_reclaim (snd (ec_results dset chosen f s)) = r_possible_reclaim (snd s)"
  "r_obsolete (snd (ec_results dset chosen f s)) = r_obsolete (snd s)"
  by (cases s; simp add: ec_results_def split: option.split)+

lemma finish_results:
  assumes "ec_finish sets dinfo dset chosen fi (exts, res) = (exts', res')"
  shows "r_data_info res' = (case choose_frag chosen fi of None \<Rightarrow> r_data_info res | Some f \<Rightarrow> Some f)"
    and "r_durable_frag_set res' = (case choose_frag chosen fi of None \<Rightarrow> r_durable_frag_set res | Some f \<Rightarrow> Some dset)"
    and "r_frag_sets res' = Some sets"
    and "r_possible_reclaim res' = r_possible_reclaim res @
      concat (filter (\<lambda>fs. Some fs \<noteq> dset \<and> Some fs \<noteq> chosen) (map snd sets)) @
      (if dset = None then files_of exts' ''.meta'' else [])"
proof -
  have "exts' = fst (ec_finish sets dinfo dset chosen fi (exts, res))"
    "res' = snd (ec_finish sets dinfo dset chosen fi (exts, res))" using assms by simp_all
  then show "r_data_info res' = (case choose_frag chosen fi of None \<Rightarrow> r_data_info res | Some f \<Rightarrow> Some f)"
    and "r_durable_frag_set res' = (case choose_frag chosen fi of None \<Rightarrow> r_durable_frag_set res | Some f \<Rightarrow> Some dset)"
    and "r_frag_sets res' = Some sets"
    and "r_possible_reclaim res' = r_possible_reclaim res @
      concat (filter (\<lambda>fs. Some fs \<noteq> dset \<and> Some fs \<noteq> chosen) (map snd sets)) @
      (if dset = None then files_of exts' ''.meta'' else [])"
    by (simp_all add: ec_finish_def reclaim_fields results_fields split: option.split)
qed

lemma files_of_mark:
  "files_of (mark_exts dset dinfo exts) e =
    (case (dset, dinfo) of
       (Some _, Some d) \<Rightarrow> if e = ''.data'' then map (\<lambda>i. if fi_timestamp i = fi_timestamp d then mark_durable i else i) (files_of exts e)
         else files_of exts e
     | _ \<Rightarrow> files_of exts e)"
  by (simp add: mark_exts_def split: option.split)

lemma files_of_mark_other [simp]: "e \<noteq> ''.data'' \<Longrightarrow> files_of (mark_exts dset dinfo exts) e = files_of exts e"
  by (simp add: files_of_mark split: option.split)

lemma keys_ok_mark [simp]: "keys_ok exts \<Longrightarrow> keys_ok (mark_exts dset dinfo exts)"
  by (simp add: mark_exts_def split: option.split)

lemma same_file_mark [simp]: "same_file (mark_durable i) j = same_file i j" "same_file i (mark_durable j) = same_file i j"
  by (simp_all add: mark_durable_def same_file_def)

lemma mark_fields [simp]:
  "fi_timestamp (mark_durable i) = fi_timestamp i" "fi_ext (mark_durable i) = fi_ext i"
  "fi_filename (mark_durable i) = fi_filename i" "fi_frag (mark_durable i) = fi_frag i"
  "fi_ctype (mark_durable i) = fi_ctype i" "fi_durable (mark_durable i) = Some True"
  by (simp_all add: mark_durable_def)

text \<open>Every fragment of every set is a listed \<^verbatim>\<open>.data\<close> file, and the chosen sets are among the sets.\<close>

lemma frag_sets_facts:
  assumes "frag_loop l [] dur = (sets, dinfo, dset)" and "descending fi_timestamp l"
  shows "sets = map (\<lambda>t. (t, set_for dur l t)) (seen_times dur l)"
    and "map_option fi_timestamp dinfo = durable_ts dur l"
    and "dset = map_option (set_for dur l) (durable_at dur l)"
  using frag_loop_closed [OF assms(2), of "[]" dur] assms(1) by auto

lemma set_for_listed:
  assumes "i \<in> set (set_for dur l t)"
  shows "fi_timestamp i = t \<and> (\<exists>j \<in> set l. same_file i j)"
proof -
  from assms obtain j where "j \<in> set l" "fi_timestamp j = t" "i = j \<or> i = mark_durable j"
    by (auto simp: set_for_def split: if_splits)
  then show ?thesis by (auto intro: bexI [of _ j])
qed

lemma durable_at_seen: "durable_at dur l = Some t \<Longrightarrow> t \<in> set (seen_times dur l)"
  by (auto simp: seen_times_def durable_at_def split: option.splits if_splits)

lemma in_sets_listed:
  assumes "frag_loop l [] dur = (sets, dinfo, dset)" and "descending fi_timestamp l"
    and "(t, s) \<in> set sets" and "i \<in> set s"
  shows "fi_timestamp i = t \<and> (\<exists>j \<in> set l. same_file i j)"
  using assms(3,4) unfolding frag_sets_facts(1) [OF assms(1,2)] by (auto dest: set_for_listed)

lemma durable_in_sets:
  assumes "frag_loop l [] dur = (sets, dinfo, dset)" and "descending fi_timestamp l" and "dset = Some s"
  shows "\<exists>t. (t, s) \<in> set sets"
  using assms(3) durable_at_seen unfolding frag_sets_facts [OF assms(1,2)] by fastforce

lemma newest_set_in: "newest_set cands = Some s \<Longrightarrow> \<exists>t. (t, s) \<in> set cands"
  by (auto simp: newest_set_def split: if_splits dest: map_of_SomeD)

lemma pref_loop_in: "pref_loop order prefs cands = Inr (Some s, fi) \<Longrightarrow> \<exists>t. (t, s) \<in> set cands"
proof (induction order prefs cands rule: pref_loop.induct)
  case (2 order ts exclude prefs cands)
  then show ?case
    by (auto simp: Let_def AList.delete_eq split: option.splits if_splits dest: map_of_SomeD)
qed (auto dest: newest_set_in)

lemma chosen_in_sets:
  assumes "frag_loop l [] dur = (sets, dinfo, dset)" and "descending fi_timestamp l"
    and "choose_frag_set args sets dset = Inr (Some s, fi)"
  shows "\<exists>t. (t, s) \<in> set sets"
proof (cases "ea_frag_prefs args")
  case None
  then show ?thesis using assms(3) durable_in_sets [OF assms(1,2)] by (simp add: choose_frag_set_def)
next
  case (Some prefs)
  let ?r = "pref_loop (ea_order args) (filter (\<lambda>(ts, _). ts \<in> fst ` set sets) prefs) sets"
  show ?thesis using assms(3) Some pref_loop_in [of "ea_order args" _ sets s]
    by (cases ?r) (auto simp: choose_frag_set_def)
qed

lemma choose_frag_in: "choose_frag chosen fi = Some f \<Longrightarrow> \<exists>s. chosen = Some s \<and> f \<in> set s"
  by (auto simp: choose_frag_def find_Some_iff split: option.splits if_splits)

section \<open>The EC policy keeps the laws of the interface\<close>

lemma ec_parse_error: "ec_parse_filename lib policy f = Inl e \<Longrightarrow> is_disk_file_error e"
  by (auto simp: ec_parse_filename_def validate_fragment_index_def Let_def split_def try_then_Inl
      split: option.splits if_splits dest: base_parse_error)

lemma ec_data:
  assumes "ec_process args exts res = Inr (exts', res')" and "sorted_exts exts"
    and "r_data_info res = None" and "r_data_info res' = Some d"
  shows "\<exists>i \<in> set (files_of exts ''.data''). same_file d i"
proof -
  from assms(1) obtain sets dinfo dset chosen fi where
    fl: "frag_loop (files_of exts ''.data'') [] (first (files_of exts ''.durable'')) = (sets, dinfo, dset)"
    and ch: "choose_frag_set args sets dset = Inr (chosen, fi)"
    and fin: "(exts', res') = ec_finish sets dinfo dset chosen fi (mark_exts dset dinfo exts, res)"
    by (rule ec_process_cases)
  have desc: "descending fi_timestamp (files_of exts ''.data'')" using assms(2) by blast
  have "choose_frag chosen fi = Some d"
    using finish_results(1) [OF fin [symmetric]] assms(3,4) by (simp split: option.splits)
  then obtain s where s: "chosen = Some s" "d \<in> set s" using choose_frag_in by blast
  then obtain t where "(t, s) \<in> set sets" using chosen_in_sets [OF fl desc] ch by blast
  then show ?thesis using in_sets_listed [OF fl desc] s(2) by blast
qed

lemma marked_same:
  assumes "i \<in> set (files_of (mark_exts dset dinfo exts) e)"
  shows "\<exists>j \<in> set (files_of exts e). same_file i j"
proof -
  from assms obtain j where "j \<in> set (files_of exts e)" "i = j \<or> i = mark_durable j"
    by (auto simp: files_of_mark split: option.splits if_splits)
  then show ?thesis by (auto intro: bexI [of _ j])
qed

lemma ec_dropped:
  assumes "ec_process args exts res = Inr (exts', res')" and "sorted_exts exts" and "keys_ok exts"
    and "i \<in> dropped res'"
  shows "i \<in> dropped res \<or> (\<exists>x. \<exists>j \<in> set (files_of exts x). same_file i j)"
proof -
  from assms(1) obtain sets dinfo dset chosen fi where
    fl: "frag_loop (files_of exts ''.data'') [] (first (files_of exts ''.durable'')) = (sets, dinfo, dset)"
    and fin: "(exts', res') = ec_finish sets dinfo dset chosen fi (mark_exts dset dinfo exts, res)"
    by (rule ec_process_cases)
  have desc: "descending fi_timestamp (files_of exts ''.data'')" using assms(2) by blast
  have pr: "pruned (mark_exts dset dinfo exts, res) (exts', res')" unfolding fin by (rule pruned_finish)
  from assms(4) consider "i \<in> set (r_obsolete res')" | "i \<in> set (r_possible_reclaim res')"
    by (auto simp: dropped_def)
  then show ?thesis
  proof cases
    case 1
    then have "i \<in> set (r_obsolete res) \<or> (\<exists>e. i \<in> set (files_of (mark_exts dset dinfo exts) e))"
      using pr assms(3) unfolding pruned_def by auto
    then show ?thesis using marked_same by (auto simp: dropped_def) blast
  next
    case 2
    then consider "i \<in> set (r_possible_reclaim res)" | s where "s \<in> snd ` set sets" "i \<in> set s"
      | "i \<in> set (files_of exts' ''.meta'')"
      unfolding finish_results(4) [OF fin [symmetric]] by (auto split: if_splits)
    then show ?thesis
    proof cases
      case 1
      then show ?thesis by (simp add: dropped_def)
    next
      case 2
      then show ?thesis using in_sets_listed [OF fl desc] by fastforce
    next
      case 3
      then have "i \<in> set (files_of (mark_exts dset dinfo exts) ''.meta'')"
        using pr unfolding pruned_def by (metis fst_conv subsetD)
      then show ?thesis using marked_same by blast
    qed
  qed
qed

lemma ec_verify_choose:
  assumes "ec_process args exts res = Inr (exts', res')" and "fresh res"
  shows "ec_verify args (choose_files datadir exts' res')"
proof -
  from assms(1) obtain sets dinfo dset chosen fi where
    ch: "choose_frag_set args sets dset = Inr (chosen, fi)"
    and fin: "(exts', res') = ec_finish sets dinfo dset chosen fi (mark_exts dset dinfo exts, res)"
    by (rule ec_process_cases)
  have un: "untouched res res'" using pruned_finish unfolding fin pruned_def by (metis fin snd_conv)
  have none: "r_data_info res = None" "r_durable_frag_set res = None"
    using assms(2) by (cases res; simp add: fresh_def same_but_dropped_def empty_results_def)+
  let ?r = "choose_files datadir exts' res'"
  have r: "r_durable_frag_set ?r = r_durable_frag_set res'" "r_data_file ?r = None \<longleftrightarrow> r_data_info res' = None"
    by (auto simp: choose_files_def Let_def split: option.split list.split)
  have "dset = chosen" if "ea_frag_prefs args = None" using ch that by (simp add: choose_frag_set_def)
  then show ?thesis
    using base_verify_choose [OF assms(2) un] finish_results(1,2) [OF fin [symmetric]] choose_frag_in [of chosen fi]
    by (auto simp: ec_verify_def r none Let_def split: option.splits)
qed

interpretation ec: ondisk_policy "ec_ops lib args"
proof
  fix exts exts' :: "'a exts" and res res' :: "'a results" and datadir e f exc d i
  show "op_parse (ec_ops lib args) f = Inl exc \<Longrightarrow> is_disk_file_error exc"
    by (simp add: ec_parse_error)
  assume "op_process (ec_ops lib args) exts res = Inr (exts', res')"
  then have p: "ec_process args exts res = Inr (exts', res')" by simp
  then obtain sets dinfo dset chosen fi where
    fin: "(exts', res') = ec_finish sets dinfo dset chosen fi (mark_exts dset dinfo exts, res)"
    by (rule ec_process_cases)
  have pr: "pruned (mark_exts dset dinfo exts, res) (exts', res')" unfolding fin by (rule pruned_finish)
  then show "untouched res res'" by (simp add: pruned_def)
  show "e \<noteq> ''.data'' \<Longrightarrow> set (files_of exts' e) \<subseteq> set (files_of exts e)"
    using pr files_of_mark_other unfolding pruned_def by (metis fst_conv)
  show "fresh res \<Longrightarrow> op_verify (ec_ops lib args) (choose_files datadir exts' res')"
    using ec_verify_choose [OF p] by simp
  assume so: "sorted_exts exts"
  show "r_data_info res = None \<Longrightarrow> r_data_info res' = Some d \<Longrightarrow>
      \<exists>i \<in> set (files_of exts ''.data''). same_file d i"
    using ec_data [OF p so] .
  assume k: "keys_ok exts"
  show "i \<in> dropped res' \<Longrightarrow> i \<in> dropped res \<or> (\<exists>x. \<exists>j \<in> set (files_of exts x). same_file i j)"
    using ec_dropped [OF p so k] .
qed

section \<open>Without legacy .durable files\<close>

lemma times_Cons_older: "descending fi_timestamp (f # fs) \<Longrightarrow>
   times (f # fs) = fi_timestamp f # times (filter (\<lambda>i. fi_timestamp i < fi_timestamp f) fs)"
  by (rule older_part(2))

lemma distinct_times: "descending fi_timestamp l \<Longrightarrow> distinct (times l)"
proof (induction l rule: length_induct)
  case (1 l)
  show ?case
  proof (cases l)
    case (Cons f fs)
    let ?R = "filter (\<lambda>i. fi_timestamp i < fi_timestamp f) fs"
    have "descending fi_timestamp ?R" using 1(2) by (simp add: Cons descending_Cons descending_filter)
    moreover have "length ?R < length l" by (simp add: Cons le_imp_less_Suc)
    ultimately have "distinct (times ?R)" using 1(1) by blast
    moreover have "fi_timestamp f \<notin> set (times ?R)" by auto
    ultimately show ?thesis using times_Cons_older [of f fs] 1(2) by (simp add: Cons)
  qed (simp add: times_def)
qed

lemma mset_filter_or:
  "(\<And>x. x \<in> set l \<Longrightarrow> \<not> (P x \<and> Q x)) \<Longrightarrow>
     mset (filter (\<lambda>x. P x \<or> Q x) l) = mset (filter P l) + mset (filter Q l)"
  by (induction l) auto

lemma mset_frag_sets:
  "distinct ks \<Longrightarrow> mset (concat (map (frag_set_at l) ks)) = mset (filter (\<lambda>i. fi_timestamp i \<in> set ks) l)"
proof (induction ks)
  case (Cons k ks)
  have "mset (filter (\<lambda>i. fi_timestamp i = k \<or> fi_timestamp i \<in> set ks) l) =
      mset (filter (\<lambda>i. fi_timestamp i = k) l) + mset (filter (\<lambda>i. fi_timestamp i \<in> set ks) l)"
    using Cons.prems by (intro mset_filter_or) auto
  with Cons show ?case by (simp add: frag_set_at_def)
qed simp

lemma durable_at_None: "durable_ts None l = durable_at None l"
proof (cases "filter is_durable l")
  case (Cons i "is")
  then have "i \<in> set (filter is_durable l)" by simp
  then have "fi_timestamp i \<in> fi_timestamp ` set l" by simp
  then show ?thesis by (simp add: durable_ts_def durable_at_def Cons)
qed (simp add: durable_ts_def durable_at_def)

lemma set_for_names [simp]: "map fi_filename (set_for dur l t) = map fi_filename (frag_set_at l t)"
  by (simp add: set_for_def)

text \<open>The names in the fragment sets are those of the \<^verbatim>\<open>.data\<close> files not older than the durable time.\<close>

lemma mset_sets_names:
  assumes "descending fi_timestamp l"
  shows "mset (map fi_filename (concat (map (set_for dur l) (seen_times dur l)))) =
    mset (map fi_filename (filter (\<lambda>i. case durable_at dur l of None \<Rightarrow> True | Some t \<Rightarrow> t \<le> fi_timestamp i) l))"
proof -
  have d: "distinct (seen_times dur l)" using distinct_times [OF assms] by (simp add: seen_times_def)
  have "map fi_filename (concat (map (set_for dur l) (seen_times dur l))) =
      map fi_filename (concat (map (frag_set_at l) (seen_times dur l)))"
    by (simp add: map_concat comp_def)
  then have "mset (map fi_filename (concat (map (set_for dur l) (seen_times dur l)))) =
      image_mset fi_filename (mset (concat (map (frag_set_at l) (seen_times dur l))))" by simp
  also have "\<dots> = image_mset fi_filename (mset (filter (\<lambda>i. fi_timestamp i \<in> set (seen_times dur l)) l))"
    by (simp only: mset_frag_sets [OF d])
  also have "filter (\<lambda>i. fi_timestamp i \<in> set (seen_times dur l)) l =
      filter (\<lambda>i. case durable_at dur l of None \<Rightarrow> True | Some t \<Rightarrow> t \<le> fi_timestamp i) l"
    by (rule filter_cong) (auto simp: seen_times_def)
  finally show ?thesis by simp
qed

lemma files_of_submset3:
  assumes "keys_ok exts" and "distinct [e1, e2, e3]"
  shows "mset (files_of exts e1 @ files_of exts e2 @ files_of exts e3) \<subseteq># mset (all_files exts)"
proof -
  have "mset (files_of exts e2 @ files_of exts e3) \<subseteq># mset (all_files (set_files e1 [] exts))"
    using files_of_submset2 [of "set_files e1 [] exts" e2 e3] assms by auto
  moreover have "mset (all_files (set_files e1 [] exts)) + mset (files_of exts e1) = mset (all_files exts)"
    using mset_all_files_set_files [OF assms(1), of e1 "[]"] by simp
  ultimately show ?thesis
    unfolding mset_append [of "files_of exts e1"] by (metis subset_mset.add_right_mono union_commute)
qed

text \<open>The names counted in the dictionary and in the obsolete list, through the stages.\<close>

definition name_count :: "'t exts \<times> 't results \<Rightarrow> string multiset" where
  "name_count s = image_mset fi_filename (counted (fst s) (snd s))"

lemma names_mark: "keys_ok exts \<Longrightarrow> name_count (mark_exts dset dinfo exts, res) = name_count (exts, res)"
proof (cases "dset = None \<or> dinfo = None")
  case True
  then show ?thesis by (auto simp: mark_exts_def split: option.split)
next
  case False
  assume k: "keys_ok exts"
  from False obtain d where d: "dinfo = Some d" "dset \<noteq> None" by auto
  let ?l = "map (\<lambda>i. if fi_timestamp i = fi_timestamp d then mark_durable i else i) (files_of exts ''.data'')"
  have "image_mset fi_filename (mset (all_files (set_files ''.data'' ?l exts)) + mset (files_of exts ''.data'')) =
    image_mset fi_filename (mset (all_files exts) + mset ?l)"
    by (simp only: mset_all_files_set_files [OF k])
  moreover have "image_mset fi_filename (mset ?l) = image_mset fi_filename (mset (files_of exts ''.data''))"
    by (simp add: multiset.map_comp comp_def if_distrib cong: if_cong) 
  ultimately show ?thesis using d by (auto simp: name_count_def counted_def mark_exts_def)
qed


lemma names_mono_results: "keys_ok (fst s) \<Longrightarrow> name_count (ec_results dset chosen frag s) \<subseteq># name_count s"
proof -
  assume k: "keys_ok (fst s)"
  obtain exts res where s: "s = (exts, res)" by (cases s)
  have "mset (all_files (set_files ''.meta'' (fst (split_gt_timestamp (files_of exts ''.meta'') t)) exts)) \<subseteq>#
      mset (all_files exts)" for t :: 'a
  proof -
    let ?l = "fst (split_gt_timestamp (files_of exts ''.meta'') t)"
    have "mset ?l \<subseteq># mset (files_of exts ''.meta'')"
      using split_gt_append [of "files_of exts ''.meta''" t] by (metis mset_append mset_subset_eq_add_left)
    then have "mset (all_files (set_files ''.meta'' ?l exts)) + mset (files_of exts ''.meta'') \<subseteq>#
        mset (all_files exts) + mset (files_of exts ''.meta'')"
      using mset_all_files_set_files [of exts "''.meta''" ?l] k s
      by (metis fst_conv subset_mset.add_left_mono)
    then show ?thesis by simp
  qed
  then show ?thesis
    by (auto simp: name_count_def counted_def ec_results_def s split: option.split intro!: image_mset_subseteq_mono)
qed

lemma names_before: "name_count (drop_before_durable dinfo s) = name_count s"
proof (cases dinfo)
  case (Some d)
  obtain exts res where s: "s = (exts, res)" by (cases s)
  let ?sp = "\<lambda>e l. split_gte_timestamp l (fi_timestamp d)"
  have "mset (all_files (fst (split_exts ?sp exts))) + mset (snd (split_exts ?sp exts)) = mset (all_files exts)"
    by (rule mset_split_exts) (simp add: split_append)
  then have "mset (all_files exts) + mset (r_obsolete res) =
      mset (all_files (fst (split_exts ?sp exts))) + mset (r_obsolete res @ snd (split_exts ?sp exts))"
    by (simp add: ac_simps)
  then show ?thesis
    by (simp add: name_count_def counted_def drop_before_durable_def s Some split_def Let_def add_obsolete_def)
qed (simp add: drop_before_durable_def split_def)

lemma files_of_before:
  "files_of (fst (drop_before_durable dinfo s)) e =
    (case dinfo of None \<Rightarrow> files_of (fst s) e | Some d \<Rightarrow> fst (split_gte_timestamp (files_of (fst s) e) (fi_timestamp d)))"
  by (cases s) (simp add: drop_before_durable_def split_def Let_def files_of_split_exts split: option.split)

lemma marked_data:
  "\<exists>g. files_of (mark_exts dset dinfo exts) ''.data'' = map g (files_of exts ''.data'') \<and>
     (\<forall>i. fi_timestamp (g i) = fi_timestamp i \<and> fi_filename (g i) = fi_filename i)"
proof (cases "dset = None \<or> dinfo = None")
  case True
  then show ?thesis by (intro exI [of _ id]) (auto simp: mark_exts_def split: option.split)
next
  case False
  then obtain d where "dinfo = Some d" "dset \<noteq> None" by auto
  then show ?thesis
    by (intro exI [of _ "\<lambda>i. if fi_timestamp i = fi_timestamp d then mark_durable i else i"])
      (auto simp: mark_exts_def)
qed

lemma mset_concat_filter: "mset (concat (filter Q ls)) \<subseteq># mset (concat ls)"
proof (induction ls)
  case (Cons a ls)
  show ?case
  proof (cases "Q a")
    case False
    have "mset (concat ls) \<subseteq># mset a + mset (concat ls)" by simp
    with False Cons.IH show ?thesis by (simp add: subset_mset.order_trans)
  qed (use Cons.IH in simp)
qed simp

lemma names_filter_map:
  assumes "\<And>i. fi_timestamp (g i) = fi_timestamp i \<and> fi_filename (g i) = fi_filename i"
  shows "map fi_filename (filter (\<lambda>i. P (fi_timestamp i)) (map g l)) = map fi_filename (filter (\<lambda>i. P (fi_timestamp i)) l)"
  using assms by (induction l) auto

lemma ec_process_once:
  assumes p: "ec_process args exts res = Inr (exts', res')" and so: "sorted_exts exts" and k: "keys_ok exts"
    and pr: "r_possible_reclaim res = []" and leg: "files_of exts ''.durable'' = []"
  shows "mset (map fi_filename (files_of exts' ''.ts'' @ r_obsolete res' @ r_possible_reclaim res')) \<subseteq>#
    mset (map fi_filename (all_files exts @ r_obsolete res))"
proof -
  let ?l = "files_of exts ''.data''"
  from p obtain sets dinfo dset chosen fi where
    fl: "frag_loop ?l [] (first (files_of exts ''.durable'')) = (sets, dinfo, dset)"
    and fin: "(exts', res') = ec_finish sets dinfo dset chosen fi (mark_exts dset dinfo exts, res)"
    by (rule ec_process_cases)
  have desc: "descending fi_timestamp ?l" using so by blast
  have fl': "frag_loop ?l [] None = (sets, dinfo, dset)" using fl by (simp add: leg first_def)
  note facts = frag_sets_facts [OF fl' desc, unfolded durable_at_None]
  let ?m = "mark_exts dset dinfo exts"
  define s1 where "s1 = map_prod id (r_frag_sets_update (\<lambda>_. Some sets)) (ec_results dset chosen (choose_frag chosen fi) (?m, res))"
  define s2 where "s2 = drop_before_durable dinfo s1"
  have p1: "pruned (?m, res) s1" unfolding s1_def by (rule pruned_trans [OF pruned_results pruned_frag_sets])
  have p2: "pruned s1 s2" unfolding s2_def by (rule pruned_before)
  have k2: "keys_ok (fst s2)" using p1 p2 keys_ok_mark [OF k] by (simp add: pruned_def)
  have "set (files_of (fst s2) ''.durable'') \<subseteq> set (files_of ?m ''.durable'')"
    using pruned_trans [OF p1 p2] unfolding pruned_def fst_conv by blast
  then have "files_of (fst s2) ''.durable'' = []" by (simp add: leg)
  then have iso: "drop_isolated dset s2 = s2" by (cases s2) (simp add: drop_isolated_def)
  have exts': "exts' = fst s2" and obs: "r_obsolete res' = r_obsolete (snd s2)"
    using fin iso by (simp_all add: ec_finish_def s2_def s1_def reclaim_fields prod_eq_iff)
  have "name_count s2 = name_count s1" by (simp add: s2_def names_before)
  also have "\<dots> = name_count (ec_results dset chosen (choose_frag chosen fi) (?m, res))"
    by (simp add: s1_def name_count_def counted_def)
  also have "\<dots> \<subseteq># name_count (?m, res)" by (rule names_mono_results) (simp add: k)
  also have "\<dots> = name_count (exts, res)" by (rule names_mark [OF k])
  finally have conserve: "name_count s2 \<subseteq># name_count (exts, res)" .
  have data: "mset (map fi_filename (concat (map snd sets))) = mset (map fi_filename (files_of exts' ''.data''))"
  proof -
    obtain g where g: "files_of ?m ''.data'' = map g ?l"
      "\<And>i. fi_timestamp (g i) = fi_timestamp i \<and> fi_filename (g i) = fi_filename i"
      using marked_data [of dset dinfo exts] by blast
    have "files_of (fst s1) ''.data'' = map g ?l"
      by (simp add: s1_def ec_results_def g split: option.split)
    moreover have "descending fi_timestamp (map g ?l)"
      using desc g(2) by (simp add: descending_def sorted_wrt_map)
    ultimately have "map fi_filename (files_of exts' ''.data'') =
        map fi_filename (filter (\<lambda>i. case durable_at None ?l of None \<Rightarrow> True | Some t \<Rightarrow> t \<le> fi_timestamp i) (map g ?l))"
      using facts(2) [symmetric] by (cases dinfo) (auto simp: exts' s2_def files_of_before split_gte_filter)
    also have "\<dots> = map fi_filename (filter (\<lambda>i. case durable_at None ?l of None \<Rightarrow> True | Some t \<Rightarrow> t \<le> fi_timestamp i) ?l)"
      by (rule names_filter_map [OF g(2)])
    finally have n: "map fi_filename (files_of exts' ''.data'') =
        map fi_filename (filter (\<lambda>i. case durable_at None ?l of None \<Rightarrow> True | Some t \<Rightarrow> t \<le> fi_timestamp i) ?l)" .
    have "concat (map snd sets) = concat (map (set_for None ?l) (seen_times None ?l))"
      by (simp add: facts(1) comp_def)
    then show ?thesis unfolding n using mset_sets_names [OF desc, of None] by (simp only:)
  qed
  have "mset (map fi_filename (r_possible_reclaim res')) \<subseteq>#
      mset (map fi_filename (files_of exts' ''.data'' @ files_of exts' ''.meta''))"
    unfolding finish_results(4) [OF fin [symmetric]] pr append_Nil map_append mset_append data [symmetric]
    unfolding mset_map
    by (intro subset_mset.add_mono image_mset_subseteq_mono mset_concat_filter) simp
  then have "mset (map fi_filename (files_of exts' ''.ts'' @ r_obsolete res' @ r_possible_reclaim res')) \<subseteq># name_count s2"
  proof -
    assume r: "mset (map fi_filename (r_possible_reclaim res')) \<subseteq>#
        mset (map fi_filename (files_of exts' ''.data'' @ files_of exts' ''.meta''))"
    let ?n = "\<lambda>l. mset (map fi_filename l)"
    have "mset (files_of exts' ''.ts'' @ files_of exts' ''.data'' @ files_of exts' ''.meta'') \<subseteq># mset (all_files exts')"
      using k2 by (intro files_of_submset3) (simp_all add: exts')
    then have all: "?n (files_of exts' ''.ts'' @ files_of exts' ''.data'' @ files_of exts' ''.meta'') \<subseteq># ?n (all_files exts')"
      unfolding mset_map by (rule image_mset_subseteq_mono)
    have "?n (files_of exts' ''.ts'') + ?n (r_possible_reclaim res') \<subseteq>#
        ?n (files_of exts' ''.ts'') + ?n (files_of exts' ''.data'' @ files_of exts' ''.meta'')"
      using r by (rule subset_mset.add_left_mono)
    also have "\<dots> \<subseteq># ?n (all_files exts')" using all by simp
    finally have "?n (files_of exts' ''.ts'') + ?n (r_possible_reclaim res') + ?n (r_obsolete res') \<subseteq>#
        ?n (all_files exts') + ?n (r_obsolete res')"
      by (rule subset_mset.add_right_mono)
    then show ?thesis by (simp add: name_count_def counted_def obs exts' ac_simps)
  qed
  then show ?thesis using conserve by (simp add: name_count_def counted_def)
qed

interpretation ec_once: conserving_policy "ec_ops lib args" "{''.durable''}"
  by unfold_locales (use ec_process_once in simp)

section \<open>The choice of a durable fragment\<close>

definition since :: "'t :: linorder \<Rightarrow> 't finfo list \<Rightarrow> 't finfo list" where
  "since t l = filter (\<lambda>i. t \<le> fi_timestamp i) l"

text \<open>The results without preferences and legacy files, from the staged lists.\<close>

definition ec_outcome ::
  "int option \<Rightarrow> (string \<Rightarrow> pyexc + 't :: {linorder, order_bot} finfo) \<Rightarrow> string list \<Rightarrow> 't results \<Rightarrow> bool" where
  "ec_outcome frag_index p fs r \<longleftrightarrow>
     (case durable_at None (staged p fs ''.data'') of
        None \<Rightarrow> r_data_info r = None \<and> r_meta_info r = None \<and> r_ctype_info r = None \<and>
          r_ts_info r = first (staged p fs ''.ts'') \<and>
          set (r_possible_reclaim r) = set (staged p fs ''.data'') \<union> set (staged p fs ''.meta'') \<and>
          set (r_obsolete r) = superseded p fs
      | Some t \<Rightarrow>
          r_data_info r = choose_frag (Some (set_for None (staged p fs ''.data'') t)) frag_index \<and>
          (r_meta_info r, r_ctype_info r) =
            (case r_data_info r of None \<Rightarrow> (None, None)
             | Some d \<Rightarrow> meta_choice d (since t (staged p fs ''.meta''))) \<and>
          r_ts_info r = None \<and>
          set (r_possible_reclaim r) = {i \<in> set (staged p fs ''.data''). t < fi_timestamp i} \<and>
          set (r_obsolete r) = superseded p fs \<union> (\<Union>e. {i \<in> set (staged p fs e). fi_timestamp i < t}))"

definition no_legacy :: "string list \<Rightarrow> bool" where
  "no_legacy fs \<longleftrightarrow> list_all (\<lambda>f. snd (splitext f) \<noteq> ''.durable'') fs"

lemma base_parse_ext: "base_parse_filename lib f = Inr i \<Longrightarrow> fi_ext i = snd (splitext f)"
  by (auto simp: base_parse_filename_def Let_def split_def split: option.splits if_splits)

lemma ec_parse_ext: "ec_parse_filename lib policy f = Inr i \<Longrightarrow> fi_ext i = snd (splitext f)"
  by (auto simp: ec_parse_filename_def Let_def split_def dest: base_parse_ext split: option.splits if_splits)

lemma no_legacy_infos:
  "no_legacy fs \<Longrightarrow> i \<in> set (infos (ec_parse_filename lib policy) fs) \<Longrightarrow> fi_ext i \<noteq> ''.durable''"
  by (auto simp: no_legacy_def in_infos list_all_iff dest!: ec_parse_ext)

text \<open>The fragments' durable marks are known for \<^verbatim>\<open>.data\<close> files, and sets at different times differ.\<close>

lemma set_for_ts: "i \<in> set (set_for dur l t) \<Longrightarrow> fi_timestamp i = t"
  using set_for_listed by blast

lemma set_for_nonempty: "t \<in> fi_timestamp ` set l \<Longrightarrow> set_for dur l t \<noteq> []"
proof -
  assume "t \<in> fi_timestamp ` set l"
  then have "set (frag_set_at l t) \<noteq> {}" by auto
  then have "frag_set_at l t \<noteq> []" by force
  then show ?thesis by (simp add: set_for_def)
qed

lemma set_for_inj:
  "t \<in> fi_timestamp ` set l \<Longrightarrow> set_for dur l t = set_for dur l u \<Longrightarrow> t = u"
  using set_for_nonempty set_for_ts by (metis list.set_sel(1))

lemma obsolete_stages:
  assumes "keys_ok (fst s)" and "files_of (fst s) ''.durable'' = []" and "sorted_exts (fst s)"
  shows "set (r_obsolete (snd (drop_before_durable dinfo s))) = set (r_obsolete (snd s)) \<union>
      (case dinfo of None \<Rightarrow> {} | Some d \<Rightarrow> (\<Union>e. {i \<in> set (files_of (fst s) e). fi_timestamp i < fi_timestamp d}))"
  using assms
  by (cases s) (auto simp: drop_before_durable_def split_def Let_def add_obsolete_def
      set_older_split_exts split_gte_filter split: option.split)

lemma drop_isolated_none: "files_of (fst s) ''.durable'' = [] \<Longrightarrow> drop_isolated dset s = s"
  by (cases s) (simp add: drop_isolated_def)

lemma no_durable_before:
  "files_of (fst s) ''.durable'' = [] \<Longrightarrow> files_of (fst (drop_before_durable dinfo s)) ''.durable'' = []"
  by (simp add: files_of_before split: option.split)

lemma marked_other:
  assumes "map_option fi_timestamp dinfo = Some t" and "fi_timestamp i \<noteq> t"
  shows "i \<in> set (files_of (mark_exts dset dinfo exts) e) \<longleftrightarrow> i \<in> set (files_of exts e)"
proof (cases "dset = None \<or> e \<noteq> ''.data''")
  case True
  then show ?thesis by (auto simp: files_of_mark split: option.split)
next
  case False
  then obtain d s where "dinfo = Some d" "fi_timestamp d = t" "dset = Some s" "e = ''.data''" using assms(1) by auto
  then show ?thesis using assms(2) by (auto simp: files_of_mark image_iff)
qed

lemma sorted_mark: "sorted_exts exts \<Longrightarrow> sorted_exts (mark_exts dset dinfo exts)"
proof
  fix e assume so: "sorted_exts exts"
  show "descending fi_timestamp (files_of (mark_exts dset dinfo exts) e)"
  proof (cases "e = ''.data''")
    case True
    obtain g where "files_of (mark_exts dset dinfo exts) ''.data'' = map g (files_of exts ''.data'')"
      "\<forall>i. fi_timestamp (g i) = fi_timestamp i \<and> fi_filename (g i) = fi_filename i"
      using marked_data by blast
    then show ?thesis using so True by (simp add: descending_def sorted_wrt_map)
  qed (simp add: so)
qed

text \<open>The sets that may be reclaimed: those at other times than the durable one.\<close>

lemma other_sets:
  assumes "durable_at None l = at"
  shows "set (concat (filter (\<lambda>fs. Some fs \<noteq> map_option (set_for None l) at) (map (set_for None l) (seen_times None l)))) =
    (case at of None \<Rightarrow> set l | Some t \<Rightarrow> {i \<in> set l. t < fi_timestamp i})"
proof (cases at)
  case None
  then show ?thesis using assms by (auto simp: seen_times_def set_for_def)
next
  case (Some t)
  have t: "t \<in> fi_timestamp ` set l"
    using assms Some by (auto simp: durable_at_def split: option.splits if_splits)
  have "set (concat (filter (\<lambda>fs. fs \<noteq> set_for None l t) (map (set_for None l) (seen_times None l)))) =
      (\<Union>u \<in> {u \<in> set (seen_times None l). set_for None l u \<noteq> set_for None l t}. set (set_for None l u))"
    by auto
  also have "{u \<in> set (seen_times None l). set_for None l u \<noteq> set_for None l t} = {u \<in> fi_timestamp ` set l. t < u}"
  proof -
    have "set_for None l u = set_for None l t \<longleftrightarrow> u = t" for u using set_for_inj [OF t] by metis
    then show ?thesis using assms Some by (auto simp: seen_times_def order_le_less)
  qed
  also have "(\<Union>u \<in> {u \<in> fi_timestamp ` set l. t < u}. set (set_for None l u)) = {i \<in> set l. t < fi_timestamp i}"
  proof -
    have "set_for None l u = frag_set_at l u" if "t < u" for u
      using that assms Some by (auto simp: set_for_def)
    then show ?thesis by auto
  qed
  finally show ?thesis by (simp add: Some)
qed

text \<open>One run of \<^verbatim>\<open>_process_ondisk_files\<close> in this case.\<close>

lemma ec_process_plain:
  assumes so: "sorted_exts exts" and k: "keys_ok exts" and leg: "files_of exts ''.durable'' = []"
    and np: "ea_frag_prefs args = None" and pr: "r_possible_reclaim res = []" 
    and at: "durable_at None (files_of exts ''.data'') = at"
  obtains exts' res' where
    "ec_process args exts res = Inr (exts', res')"
    "\<And>e. e \<noteq> ''.data'' \<Longrightarrow> files_of exts' e = (case at of None \<Rightarrow> files_of exts e | Some t \<Rightarrow> since t (files_of exts e))"
    "set (r_obsolete res') = set (r_obsolete res) \<union>
      (case at of None \<Rightarrow> {} | Some t \<Rightarrow> (\<Union>e. {i \<in> set (files_of exts e). fi_timestamp i < t}))"
    "set (r_possible_reclaim res') = (case at of
        None \<Rightarrow> set (files_of exts ''.data'') \<union> set (files_of exts ''.meta'')
      | Some t \<Rightarrow> {i \<in> set (files_of exts ''.data''). t < fi_timestamp i})"
    "r_data_info res' = (case choose_frag (map_option (set_for None (files_of exts ''.data'')) at) (ea_frag_index args)
      of None \<Rightarrow> r_data_info res | Some f \<Rightarrow> Some f)"
proof -
  let ?l = "files_of exts ''.data''"
  have desc: "descending fi_timestamp ?l" using so by blast
  obtain sets dinfo dset where fl: "frag_loop ?l [] None = (sets, dinfo, dset)" by (metis prod_cases3)
  note facts = frag_sets_facts [OF fl desc, unfolded durable_at_None at]
  let ?m = "mark_exts dset dinfo exts"
  define s1 where "s1 = map_prod id (r_frag_sets_update (\<lambda>_. Some sets))
    (ec_results dset dset (choose_frag dset (ea_frag_index args)) (?m, res))"
  define s2 where "s2 = drop_before_durable dinfo s1"
  have f1: "fst s1 = ?m" by (simp add: s1_def ec_results_def split: option.split)
  have leg1: "files_of (fst s1) ''.durable'' = []" by (simp add: f1 leg)
  have fin: "ec_finish sets dinfo dset dset (ea_frag_index args) (?m, res) = ec_reclaim dset dset sets s2"
    using drop_isolated_none [OF no_durable_before [OF leg1, of dinfo]]
    by (simp add: ec_finish_def s2_def s1_def)
  have run: "ec_process args exts res = Inr (ec_reclaim dset dset sets s2)"
    unfolding fin [symmetric]
    by (simp add: ec_process_def leg fl choose_frag_set_def np ec_finish_def split_def Let_def map_prod_def)
  have so1: "sorted_exts (fst s1)" unfolding f1 by (rule sorted_mark [OF so])
  have k1: "keys_ok (fst s1)" by (simp add: f1 k)
  have o1: "r_obsolete (snd s1) = r_obsolete res" "r_possible_reclaim (snd s1) = []"
    by (simp_all add: s1_def results_fields pr)
  have dset: "dset = None \<longleftrightarrow> at = None" using facts(3) by simp
  show thesis
  proof (rule that)
    show "ec_process args exts res = Inr (fst s2, snd (ec_reclaim dset dset sets s2))"
      using run by (simp add: reclaim_fields prod_eq_iff)
  next
    fix e :: string assume "e \<noteq> ''.data''"
    then show other: "files_of (fst s2) e = (case at of None \<Rightarrow> files_of exts e | Some t \<Rightarrow> since t (files_of exts e))"
      using facts(2) [symmetric] so by (cases dinfo) (simp_all add: s2_def files_of_before f1 split_gte_filter since_def)
  next
    have "set (r_obsolete (snd (ec_reclaim dset dset sets s2))) = set (r_obsolete res) \<union>
        (case dinfo of None \<Rightarrow> {} | Some d \<Rightarrow> (\<Union>e. {i \<in> set (files_of ?m e). fi_timestamp i < fi_timestamp d}))"
      unfolding reclaim_fields s2_def obsolete_stages [OF k1 leg1 so1] f1 o1 ..
    then show "set (r_obsolete (snd (ec_reclaim dset dset sets s2))) = set (r_obsolete res) \<union>
      (case at of None \<Rightarrow> {} | Some t \<Rightarrow> (\<Union>e. {i \<in> set (files_of exts e). fi_timestamp i < t}))"
      using facts(2) [symmetric] marked_other [of dinfo]
      by (cases dinfo) (auto split: option.splits)
  next
    have "r_possible_reclaim (snd (ec_reclaim dset dset sets s2)) =
        concat (filter (\<lambda>fs. Some fs \<noteq> map_option (set_for None ?l) at) (map (set_for None ?l) (seen_times None ?l))) @
        (if at = None then files_of (fst s2) ''.meta'' else [])"
      by (simp add: reclaim_fields s2_def o1 facts(1) facts(3) comp_def)
    moreover have "at = None \<Longrightarrow> files_of (fst s2) ''.meta'' = files_of exts ''.meta''"
      using facts(2) [symmetric] by (cases dinfo) (simp_all add: s2_def files_of_before f1)
    ultimately show "set (r_possible_reclaim (snd (ec_reclaim dset dset sets s2))) = (case at of
        None \<Rightarrow> set (files_of exts ''.data'') \<union> set (files_of exts ''.meta'')
      | Some t \<Rightarrow> {i \<in> set (files_of exts ''.data''). t < fi_timestamp i})"
      using other_sets [OF at] by (cases at) simp_all
  next
    show "r_data_info (snd (ec_reclaim dset dset sets s2)) =
      (case choose_frag (map_option (set_for None ?l) at) (ea_frag_index args) of None \<Rightarrow> r_data_info res | Some f \<Rightarrow> Some f)"
      by (simp add: reclaim_fields s2_def s1_def results_fields facts(3) split: option.split)
  qed
qed

lemma ec_run:
  assumes np: "ea_frag_prefs args = None" and leg: "no_legacy fs"
  obtains r where
    "\<And>verify. get_ondisk_files (ec_ops lib args) fs datadir verify = Inr r"
    "ec_outcome (ea_frag_index args) (ec_parse_filename lib (ea_policy args)) fs r"
proof -
  let ?p = "ec_parse_filename lib (ea_policy args)"
  let ?D = "staged ?p fs ''.data''"
  obtain exts res where run: "\<And>verify. get_ondisk_files (ec_ops lib args) fs datadir verify =
      try_then (ec_process args exts res) (\<lambda>(exts, res).
        let res = choose_files datadir exts res
        in if verify \<and> \<not> ec_verify args res then Inl RuntimeError else Inr res)"
    and k: "keys_ok exts" and f: "\<And>e. files_of exts e = staged ?p fs e" and fr: "fresh res"
    and pr: "r_possible_reclaim res = []" and ob: "set (r_obsolete res) = superseded ?p fs"
    by (rule get_ondisk_files_staged [where ops = "ec_ops lib args" and fs = fs and datadir = datadir])
      (simp_all add: ec_parse_error)
  have "i \<notin> set (files_of exts ''.durable'')" for i
    using staged_ext [of i ?p fs "''.durable''"] no_legacy_infos [OF leg] by (auto simp: f)
  then have leg': "files_of exts ''.durable'' = []" by (meson list.set_sel(1))
  have so: "sorted_exts exts" by (simp add: f)
  have F: "files_of exts = staged ?p fs" by (rule ext) (rule f)
  obtain exts' res' where p: "ec_process args exts res = Inr (exts', res')"
    and fe: "\<And>e. e \<noteq> ''.data'' \<Longrightarrow> files_of exts' e =
      (case durable_at None ?D of None \<Rightarrow> staged ?p fs e | Some t \<Rightarrow> since t (staged ?p fs e))"
    and o': "set (r_obsolete res') = superseded ?p fs \<union>
      (case durable_at None ?D of None \<Rightarrow> {} | Some t \<Rightarrow> (\<Union>e. {i \<in> set (staged ?p fs e). fi_timestamp i < t}))"
    and r': "set (r_possible_reclaim res') = (case durable_at None ?D of
        None \<Rightarrow> set ?D \<union> set (staged ?p fs ''.meta'')
      | Some t \<Rightarrow> {i \<in> set ?D. t < fi_timestamp i})"
    and d': "r_data_info res' = (case choose_frag (map_option (set_for None ?D) (durable_at None ?D)) (ea_frag_index args)
      of None \<Rightarrow> r_data_info res | Some f \<Rightarrow> Some f)"
    by (rule ec_process_plain [OF so k leg' np pr refl, unfolded F ob]) (rule that)
  have none: "r_data_info res = None" "r_meta_info res = None" "r_ts_info res = None" "r_ctype_info res = None"
    using fr by (cases res; simp add: fresh_def same_but_dropped_def empty_results_def)+
  have un: "r_meta_info res' = None" "r_ts_info res' = None" "r_ctype_info res' = None"
    using ec.process_frame [of lib args exts res exts' res'] p none by (simp_all add: untouched_def)
  let ?r = "choose_files datadir exts' res'"
  have same: "r_data_info ?r = r_data_info res'" "r_obsolete ?r = r_obsolete res'"
      "r_possible_reclaim ?r = r_possible_reclaim res'"
    by (auto simp: choose_files_def Let_def split: option.split list.split)
  have ts: "since t (staged ?p fs ''.ts'') = []" if at: "durable_at None ?D = Some t" for t
  proof -
    obtain j where "j \<in> set ?D" "fi_timestamp j = t"
      using at by (auto simp: durable_at_def split: option.splits if_splits)
    then have "fi_timestamp i < t" if "i \<in> set (staged ?p fs ''.ts'')" for i
      using staged_data [of ?p fs] staged_ext [OF that] by (auto simp: live_data_def with_ext_def)
    then show ?thesis by (auto simp: since_def filter_empty_conv not_le)
  qed
  have frag_ts: "fi_timestamp d = t" if "choose_frag (Some (set_for None ?D t)) fi = Some d" for d t fi
    using choose_frag_in [OF that] set_for_ts by auto
  show thesis
  proof (rule that)
    show "get_ondisk_files (ec_ops lib args) fs datadir verify = Inr ?r" for verify
      using ec_verify_choose [OF p fr] by (simp add: run p Let_def)
    show "ec_outcome (ea_frag_index args) ?p fs ?r"
    proof (cases "durable_at None ?D")
      case None
      then show ?thesis unfolding ec_outcome_def same
        using d' r' o' by (simp add: choose_files_def Let_def fe un none choose_frag_def first_def split: list.split)
    next
      case (Some t)
      then show ?thesis unfolding ec_outcome_def same
        using d' r' o' ts [OF Some] frag_ts
        by (auto simp: choose_files_def Let_def fe un none meta_choice_def split: list.split option.split)
    qed
  qed
qed

lemma durable_at_listed: "durable_at None l = Some t \<Longrightarrow> \<exists>i \<in> set l. is_durable i \<and> fi_timestamp i = t"
proof -
  assume a: "durable_at None l = Some t"
  then have ts: "durable_ts None l = Some t" by (simp add: durable_at_None)
  then obtain i "is" where f: "filter is_durable l = i # is" "fi_timestamp i = t"
    by (auto simp: durable_ts_def split: list.splits)
  then have "i \<in> set (filter is_durable l)" by simp
  with f(2) show ?thesis by auto
qed

lemma durable_at_newest:
  assumes "descending fi_timestamp l" and "durable_at None l = Some t" and "i \<in> set l" and "is_durable i"
  shows "fi_timestamp i \<le> t"
proof -
  from assms(2) obtain j "is" where f: "filter is_durable l = j # is" "fi_timestamp j = t"
    unfolding durable_at_None [symmetric] by (auto simp: durable_ts_def split: list.splits)
  have "descending fi_timestamp (j # is)" using descending_filter [OF assms(1), of is_durable] f(1) by simp
  moreover have "i \<in> set (j # is)" unfolding f(1) [symmetric] using assms(3,4) by simp
  ultimately show ?thesis using f(2) by (auto simp: descending_Cons)
qed

lemma durable_at_none: "durable_at None l = None \<longleftrightarrow> (\<forall>i \<in> set l. \<not> is_durable i)"
  unfolding durable_at_None [symmetric] by (auto simp: durable_ts_def filter_empty_conv split: list.splits) (metis filter_empty_conv list.distinct(1))

text \<open>Removing files that are not at the durable time leaves the durable set as it is.\<close>

lemma durable_at_filter:
  assumes "descending fi_timestamp l" and "durable_at None l = Some t"
    and "\<And>i. i \<in> set l \<Longrightarrow> fi_timestamp i = t \<Longrightarrow> P i"
  shows "durable_at None (filter P l) = Some t" and "set_for None (filter P l) t = set_for None l t"
proof -
  obtain i where i: "i \<in> set l" "is_durable i" "fi_timestamp i = t" using durable_at_listed [OF assms(2)] by blast
  then have i': "i \<in> set (filter P l)" using assms(3) by simp
  then obtain u where u: "durable_at None (filter P l) = Some u"
    using durable_at_none [of "filter P l"] i(2) by (cases "durable_at None (filter P l)") blast+
  have "u \<le> t"
    using durable_at_listed [OF u] durable_at_newest [OF assms(1,2)] by auto
  moreover have "t \<le> u"
    using durable_at_newest [OF descending_filter [OF assms(1)] u i' i(2)] i(3) by simp
  ultimately show at: "durable_at None (filter P l) = Some t" using u by simp
  have "filter (\<lambda>i. fi_timestamp i = t) (filter P l) = filter (\<lambda>i. fi_timestamp i = t) l"
    using assms(3) by (auto intro: filter_cong)
  then show "set_for None (filter P l) t = set_for None l t"
    by (simp add: set_for_def at assms(2) frag_set_at_def)
qed

lemma kept_meta_since:
  "descending fi_timestamp ms \<Longrightarrow> kept_meta (since t (kept_meta ms)) = since t (kept_meta ms)"
proof (cases "ms = []")
  case False
  assume "descending fi_timestamp ms"
  with False show ?thesis
    by (cases rule: kept_meta_cases) (auto simp: since_def kept_meta_def retain_meta_def sorted_rev_def)
qed (simp add: kept_meta_def retain_meta_def since_def)

text \<open>What the choice is to be: a fragment at the newest time that has a durable fragment.\<close>

definition durable_frags :: "'t :: linorder finfo set \<Rightarrow> 't finfo set" where
  "durable_frags S = {i \<in> live_data S. is_durable i}"

definition frags_at :: "'t :: linorder finfo set \<Rightarrow> 't \<Rightarrow> 't finfo set" where
  "frags_at S t = {i \<in> live_data S. fi_timestamp i = t}"

definition frag_choice :: "int option \<Rightarrow> 't :: linorder finfo set \<Rightarrow> 't \<Rightarrow> 't finfo option \<Rightarrow> bool" where
  "frag_choice frag_index S t d \<longleftrightarrow>
     (case d of
        None \<Rightarrow> (\<exists>n. frag_index = Some n \<and> (\<forall>i \<in> frags_at S t. fi_frag i \<noteq> Some n))
      | Some d \<Rightarrow> is_durable d \<and> (\<exists>i \<in> frags_at S t. same_file d i) \<and>
          (case frag_index of
             Some n \<Rightarrow> fi_frag d = Some n
           | None \<Rightarrow> (\<forall>i \<in> frags_at S t. frag_no i \<le> frag_no d)))"

lemma same_file_frag_no: "same_file i j \<Longrightarrow> frag_no i = frag_no j"
  by (simp add: frag_no_def same_file_fields(4))

lemma frag_no_mark [simp]: "frag_no (mark_durable i) = frag_no i"
  by (simp add: frag_no_def)

lemma sorted_key_last: "sorted (map f xs) \<Longrightarrow> x \<in> set xs \<Longrightarrow> f x \<le> f (last xs)"
  by (induction xs) (auto simp: Ball_def)

lemma choose_frag_spec:
  assumes "durable_at None l = Some t" and "set l = live_data S"
  shows "frag_choice k S t (choose_frag (Some (set_for None l t)) k)"
proof -
  let ?s = "set_for None l t"
  have ne: "?s \<noteq> []"
    using assms(1) by (intro set_for_nonempty) (auto simp: durable_at_def split: option.splits if_splits)
  have s: "?s = map mark_durable (frag_set_at l t)" by (simp add: set_for_def assms(1))
  have mem: "is_durable d \<and> (\<exists>i \<in> frags_at S t. same_file d i)" if "d \<in> set ?s" for d
  proof -
    from that obtain i where "d = mark_durable i" "i \<in> frags_at S t"
      using assms(2) by (auto simp: s frags_at_def)
    then show ?thesis by (auto simp: is_durable_def intro: bexI [of _ i])
  qed
  have marked: "mark_durable i \<in> set ?s" if "i \<in> frags_at S t" for i
    using that assms(2) by (auto simp: s frags_at_def)
  show ?thesis
  proof (cases k)
    case None
    have "sorted (map frag_no ?s)" by (simp add: s comp_def) (simp add: frag_set_at_def)
    then have "frag_no i \<le> frag_no (last ?s)" if "i \<in> frags_at S t" for i
      using sorted_key_last [of frag_no ?s "mark_durable i"] marked [OF that] by simp
    then show ?thesis using None ne mem [OF last_in_set [OF ne]]
      by (simp add: choose_frag_def frag_choice_def)
  next
    case (Some n)
    show ?thesis
    proof (cases "find (\<lambda>i. fi_frag i = Some n) ?s")
      case None
      then have "fi_frag i \<noteq> Some n" if "i \<in> frags_at S t" for i
        using marked [OF that] by (auto simp: find_None_iff)
      with None Some ne show ?thesis by (simp add: choose_frag_def frag_choice_def)
    next
      case (Some d)
      then have "d \<in> set ?s" "fi_frag d = Some n" by (auto simp: find_Some_iff)
      then show ?thesis using mem \<open>k = Some n\<close> ne Some by (simp add: choose_frag_def frag_choice_def)
    qed
  qed
qed

text \<open>C26: the EC policy, asked for no particular fragment preference and with no legacy \<^verbatim>\<open>.durable\<close> files, always
  returns; it picks, at the newest time with a durable fragment newer than every tombstone, the
  fragment asked for, or the one with the highest index.\<close>

theorem ec_choice:
  assumes "ea_frag_prefs args = None" and "no_legacy fs"
  shows "\<exists>r. (\<forall>verify. get_ondisk_files (ec_ops lib args) fs datadir verify = Inr r) \<and>
     (let S = set (infos (ec_parse_filename lib (ea_policy args)) fs) in
        \<exists>w. newest (durable_frags S) w \<and>
        (case w of
           None \<Rightarrow> r_data_info r = None \<and> r_meta_info r = None \<and> newest (with_ext ''.ts'' S) (r_ts_info r)
         | Some i \<Rightarrow> r_ts_info r = None \<and> frag_choice (ea_frag_index args) S (fi_timestamp i) (r_data_info r)))"
proof -
  let ?p = "ec_parse_filename lib (ea_policy args)" and ?S = "set (infos (ec_parse_filename lib (ea_policy args)) fs)"
  let ?D = "staged ?p fs ''.data''"
  obtain r where run: "\<And>verify. get_ondisk_files (ec_ops lib args) fs datadir verify = Inr r"
    and out: "ec_outcome (ea_frag_index args) ?p fs r"
    by (rule ec_run [OF assms, of lib datadir]) (rule that)
  have D: "set ?D = live_data ?S" by (rule staged_data)
  show ?thesis
  proof (cases "durable_at None ?D")
    case None
    then have "newest (durable_frags ?S) None"
      using D by (auto simp: durable_at_none newest_def durable_frags_def)
    with run out None first_staged_ts [of ?p fs] show ?thesis
      by (intro exI [of _ r] conjI) (auto simp: ec_outcome_def Let_def intro!: exI [of _ None])
  next
    case (Some t)
    obtain i where i: "i \<in> set ?D" "is_durable i" "fi_timestamp i = t" using durable_at_listed [OF Some] by blast
    have "newest (durable_frags ?S) (Some i)"
      using i D durable_at_newest [OF descending_staged Some] by (auto simp: newest_def durable_frags_def)
    moreover have "frag_choice (ea_frag_index args) ?S t (r_data_info r)"
      using choose_frag_spec [OF Some D] out Some by (simp add: ec_outcome_def)
    ultimately show ?thesis using run out Some i(3)
      by (intro exI [of _ r] conjI) (auto simp: ec_outcome_def Let_def intro!: exI [of _ "Some i"])
  qed
qed

lemma ec_doomed_listed:
  assumes "ec_outcome k p fs r"
  shows "set (doomed env hsh_path r) \<subseteq> set (infos p fs)"
proof -
  have st: "set (staged p fs e) \<subseteq> set (infos p fs)" for e using staged_ext by blast
  show ?thesis
  proof (cases "durable_at None (staged p fs ''.data'')")
    case None
    have "t \<in> set (infos p fs)" if "r_ts_info r = Some t" for t
      using assms None that st [of "''.ts''"]
      by (cases "staged p fs ''.ts''") (auto simp: ec_outcome_def first_def)
    then have "set (case r_ts_info r of None \<Rightarrow> [] | Some t \<Rightarrow> if is_reclaimable env (fi_timestamp t) then [t] else [])
        \<subseteq> set (infos p fs)"
      by (auto split: option.split dest: sym)
    then show ?thesis using assms None superseded_infos [of p fs] st [of "''.meta''"] st [of "''.data''"]
      by (auto simp: ec_outcome_def doomed_def)
  next
    case (Some t)
    have "set (doomed env hsh_path r) \<subseteq> set (r_obsolete r) \<union> set (r_possible_reclaim r)"
      using assms Some by (auto simp: ec_outcome_def doomed_def)
    also have "\<dots> \<subseteq> superseded p fs \<union> (\<Union>e. set (staged p fs e))"
      using assms Some by (auto simp: ec_outcome_def)
    finally show ?thesis using superseded_infos [of p fs] st by blast
  qed
qed

lemma ec_outcome_again:
  assumes r: "ec_outcome k p fs r" and r': "ec_outcome k p (kept_names env hsh_path r fs) r'"
    and dist: "distinct fs"
  shows "r_data_info r' = r_data_info r \<and> r_meta_info r' = r_meta_info r \<and>
     r_ctype_info r' = r_ctype_info r \<and> r_ts_info r' = r_ts_info (cleaned env hsh_path r)"
proof -
  let ?fs' = "kept_names env hsh_path r fs" and ?G = "doomed env hsh_path r"
  let ?D = "staged p fs ''.data''" and ?M = "staged p fs ''.meta''"
  note l = listed_kept_names [OF ec_doomed_listed [OF r]]
  show ?thesis
  proof (cases "durable_at None ?D")
    case None
    let ?X = "set (filter (\<lambda>t. is_reclaimable env (fi_timestamp t)) (staged p fs ''.ts'')) \<union>
      {i \<in> set ?D \<union> set ?M. reclaimable_now env hsh_path i}"
    have len: "length (staged p fs ''.ts'') \<le> 1"
      by (simp add: staged_def live_def split: list.split)
    have "set ?G = superseded p fs \<union> ?X"
      using r None len
      by (cases "staged p fs ''.ts''") (auto simp: ec_outcome_def doomed_def first_def)
    note again = staged_again_subset [OF dist this l, of "''.data''"] staged_again_ts [OF dist this l]
    have "durable_at None (staged p ?fs' ''.data'') = None"
      using None again(1) by (auto simp: durable_at_none)
    moreover have "t \<in> ?X \<longleftrightarrow> is_reclaimable env (fi_timestamp t)" if "t \<in> set (staged p fs ''.ts'')" for t
      using that by (auto simp: reclaimable_now_def)
    ultimately show ?thesis
      using r r' again(2) None
      by (cases "staged p fs ''.ts''")
        (simp_all add: ec_outcome_def cleaned_def add_obsolete_def first_def split del: if_split split: if_split_asm)
  next
    case (Some t)
    let ?X = "(\<Union>e. {i \<in> set (staged p fs e). fi_timestamp i < t}) \<union>
      {i \<in> set ?D. t < fi_timestamp i \<and> reclaimable_now env hsh_path i}"
    have G: "set ?G = superseded p fs \<union> ?X"
      using r Some by (auto simp: ec_outcome_def doomed_def)
    have again: "listed p ?fs' e = filter (\<lambda>i. i \<notin> ?X) (staged p fs e)" for e
      by (rule listed_again [OF dist G l])
    have inX: "i \<notin> ?X \<longleftrightarrow> t \<le> fi_timestamp i \<and> (e = ''.data'' \<longrightarrow> \<not> (t < fi_timestamp i \<and> reclaimable_now env hsh_path i))"
      if "i \<in> set (staged p fs e)" for i e
    proof -
      have "i \<in> (\<Union>e. {i \<in> set (staged p fs e). fi_timestamp i < t}) \<longleftrightarrow> fi_timestamp i < t"
        using that by blast
      moreover have "i \<in> set ?D \<longleftrightarrow> e = ''.data''"
        using that staged_ext [of i p fs "''.data''"] staged_ext [of i p fs e] by metis
      ultimately show ?thesis by (simp add: not_less)
    qed
    have no_ts: "since t (staged p fs ''.ts'') = []"
    proof -
      obtain j where "j \<in> set ?D" "fi_timestamp j = t" using durable_at_listed [OF Some] by blast
      then have "fi_timestamp i < t" if "i \<in> set (staged p fs ''.ts'')" for i
        using staged_data [of p fs] staged_ext [OF that] by (auto simp: live_data_def with_ext_def)
      then show ?thesis by (auto simp: since_def filter_empty_conv not_le)
    qed
    have other: "listed p ?fs' e = since t (staged p fs e)" if "e \<noteq> ''.data''" for e
      unfolding again since_def using that inX by (intro filter_cong) auto
    have ts: "listed p ?fs' ''.ts'' = []" by (simp add: other no_ts)
    have D': "staged p ?fs' ''.data'' = filter (\<lambda>i. i \<notin> ?X) ?D"
      by (simp add: staged_def live_no_ts [OF ts] again)
    have keep: "i \<notin> ?X" if "i \<in> set ?D" "fi_timestamp i = t" for i using inX [OF that(1)] that(2) by simp
    have at: "durable_at None (staged p ?fs' ''.data'') = Some t"
        "set_for None (staged p ?fs' ''.data'') t = set_for None ?D t"
      unfolding D' by (rule durable_at_filter [OF descending_staged Some], erule (1) keep)+
    have M': "staged p ?fs' ''.meta'' = since t ?M"
      by (simp add: staged_def live_no_ts [OF ts] other kept_meta_since)
    have idem: "since t (since t m) = since t m" for m by (simp add: since_def)
    note rs = r [unfolded ec_outcome_def Some option.case] r' [unfolded ec_outcome_def at M' option.case idem]
    then have d: "r_data_info r' = r_data_info r" by simp
    have "(r_meta_info r', r_ctype_info r') = (r_meta_info r, r_ctype_info r)"
    proof -
      let ?c = "\<lambda>x. case x of None \<Rightarrow> (None, None) | Some d \<Rightarrow> meta_choice d (since t ?M)"
      have "(r_meta_info r, r_ctype_info r) = ?c (r_data_info r)" using rs(1) by blast
      moreover have "(r_meta_info r', r_ctype_info r') = ?c (r_data_info r')" using rs(2) by blast
      ultimately show ?thesis unfolding d by (rule trans [OF _ sym, rotated])
    qed
    moreover have "r_ts_info r = None" "r_ts_info r' = None" using rs by blast+
    ultimately show ?thesis using d by (simp add: cleaned_def add_obsolete_def)
  qed
qed

text \<open>
  The fragments that a clean-up is to keep: those newer than every tombstone and not older than the newest durable
  one, if they are at its time, or too young to be reclaimed, or not durable and in the commit window.
\<close>

definition frag_kept :: "'t :: linorder clean_env \<Rightarrow> string \<Rightarrow> 't finfo set \<Rightarrow> 't finfo \<Rightarrow> bool" where
  "frag_kept env hsh_path S i \<longleftrightarrow>
     i \<in> live_data S \<and> (\<forall>w \<in> durable_frags S. fi_timestamp w \<le> fi_timestamp i) \<and>
     ((\<exists>w \<in> durable_frags S. fi_timestamp w = fi_timestamp i) \<or>
      ce_now env - ce_float env (fi_timestamp i) \<le> ce_reclaim_age env \<or>
      fi_durable i = Some False \<and> 0 < ce_commit_window env \<and> \<not> ce_older env (join hsh_path (fi_filename i)))"

lemma doomed_frag:
  assumes out: "ec_outcome k p fs r" and dist: "distinct fs"
    and i: "i \<in> set (infos p fs)" "fi_ext i = ''.data''"
  shows "i \<notin> set (doomed env hsh_path r) \<longleftrightarrow> frag_kept env hsh_path (set (infos p fs)) i"
proof -
  let ?D = "staged p fs ''.data''" and ?S = "set (infos p fs)"
  have D: "set ?D = live_data ?S" by (rule staged_data)
  have sup: "i \<in> superseded p fs \<longleftrightarrow> i \<notin> live_data ?S"
    using staged_or_superseded [OF i(1)] staged_not_superseded [OF dist, of i p "''.data''"] i(2) D by auto
  have rec: "\<not> reclaimable_now env hsh_path i \<longleftrightarrow>
      ce_now env - ce_float env (fi_timestamp i) \<le> ce_reclaim_age env \<or>
      fi_durable i = Some False \<and> 0 < ce_commit_window env \<and> \<not> ce_older env (join hsh_path (fi_filename i))"
    by (auto simp: reclaimable_now_def is_reclaimable_def split: option.splits)
  have ext: "i \<in> set (staged p fs e) \<longleftrightarrow> e = ''.data'' \<and> i \<in> live_data ?S" for e
    using staged_ext [of i p fs e] i(2) D by auto
  show ?thesis
  proof (cases "durable_at None ?D")
    case None
    then have n: "durable_frags ?S = {}" using D by (auto simp: durable_at_none durable_frags_def)
    have "r_ts_info r = first (staged p fs ''.ts'')" using out None by (simp add: ec_outcome_def)
    then have "r_ts_info r = Some t \<Longrightarrow> t \<in> set (staged p fs ''.ts'')" for t
      by (cases "staged p fs ''.ts''") (simp_all add: first_def)
    from this [of i] have t: "r_ts_info r \<noteq> Some i" unfolding ext by blast
    have "i \<in> set (doomed env hsh_path r) \<longleftrightarrow> i \<in> superseded p fs \<or> i \<in> live_data ?S \<and> reclaimable_now env hsh_path i"
      using out None t D ext [of "''.meta''"] by (auto simp: doomed_def ec_outcome_def split: option.split)
    then show ?thesis using n sup rec by (auto simp: frag_kept_def)
  next
    case (Some t)
    obtain w where w: "w \<in> durable_frags ?S" "fi_timestamp w = t"
      using durable_at_listed [OF Some] D by (auto simp: durable_frags_def)
    have le: "fi_timestamp v \<le> t" if "v \<in> durable_frags ?S" for v
      using that durable_at_newest [OF descending_staged Some] D by (auto simp: durable_frags_def)
    have n: "r_ts_info r = None" "set (r_possible_reclaim r) = {i \<in> set ?D. t < fi_timestamp i}"
      "set (r_obsolete r) = superseded p fs \<union> (\<Union>e. {i \<in> set (staged p fs e). fi_timestamp i < t})"
      using out Some by (simp_all add: ec_outcome_def)
    have "i \<in> (\<Union>e. {i \<in> set (staged p fs e). fi_timestamp i < t}) \<longleftrightarrow> i \<in> live_data ?S \<and> fi_timestamp i < t"
      using ext by auto
    then have d: "i \<in> set (doomed env hsh_path r) \<longleftrightarrow> i \<in> superseded p fs \<or> i \<in> live_data ?S \<and>
        (fi_timestamp i < t \<or> t < fi_timestamp i \<and> reclaimable_now env hsh_path i)"
      unfolding doomed_def by (auto simp: n D)
    have "(\<forall>v \<in> durable_frags ?S. fi_timestamp v \<le> fi_timestamp i) \<longleftrightarrow> t \<le> fi_timestamp i"
      using w le order_trans by blast
    moreover have "(\<exists>v \<in> durable_frags ?S. fi_timestamp v = fi_timestamp i) \<and> t \<le> fi_timestamp i \<longleftrightarrow> fi_timestamp i = t"
      using w le by force
    ultimately show ?thesis
      unfolding frag_kept_def d sup rec [symmetric] by (metis less_le not_less)
  qed
qed

text \<open>Cleaning up without legacy files.\<close>

lemma ec_cleanup_run:
  assumes "distinct disk" and "ea_frag_prefs args = None" and "no_legacy disk"
  obtains r where "\<And>verify. get_ondisk_files (ec_ops lib args) (rev (sort disk)) hsh_path verify = Inr r"
    "ec_outcome (ea_frag_index args) (ec_parse_filename lib (ea_policy args)) (rev (sort disk)) r"
    "cleanup_ondisk_files (ec_ops lib args) env hsh_path (Some disk) =
       (if kept_names env hsh_path r disk = [] then None else Some (kept_names env hsh_path r disk),
        Inr (cleaned env hsh_path r, kept_names env hsh_path r (rev (sort disk))))"
proof -
  have leg: "no_legacy (rev (sort disk))" using assms(3) by (simp add: no_legacy_def list_all_iff)
  obtain r where run: "\<And>verify. get_ondisk_files (ec_ops lib args) (rev (sort disk)) hsh_path verify = Inr r"
    and out: "ec_outcome (ea_frag_index args) (ec_parse_filename lib (ea_policy args)) (rev (sort disk)) r"
    by (rule ec_run [OF assms(2) leg, of lib hsh_path]) (rule that)
  from run out show thesis
    by (rule that) (rule ec_once.cleanup_ok, use run assms no_legacy_infos [OF assms(3)] in auto)
qed

lemma ec_clean_again:
  assumes "distinct disk" and "ea_frag_prefs args = None" and "no_legacy disk"
  obtains r disk' r' where "get_ondisk_files (ec_ops lib args) (rev (sort disk)) hsh_path False = Inr r"
    "cleanup_ondisk_files (ec_ops lib args) env hsh_path (Some disk) =
       (if disk' = [] then None else Some disk', Inr (cleaned env hsh_path r, rev (sort disk')))"
    "set disk' \<subseteq> set disk" "get_ondisk_files (ec_ops lib args) (rev (sort disk')) hsh_path True = Inr r'"
    "r_data_info r' = r_data_info r" "r_meta_info r' = r_meta_info r"
    "r_ctype_info r' = r_ctype_info r" "r_unexpected r' = r_unexpected r"
    "r_ts_info r' = r_ts_info (cleaned env hsh_path r)"
    "\<forall>i \<in> with_ext ''.data'' (set (infos (ec_parse_filename lib (ea_policy args)) disk)).
       fi_filename i \<in> set disk' \<longleftrightarrow> frag_kept env hsh_path (set (infos (ec_parse_filename lib (ea_policy args)) disk)) i"
proof -
  let ?p = "ec_parse_filename lib (ea_policy args)" and ?fs = "rev (sort disk)"
  obtain r where run: "\<And>verify. get_ondisk_files (ec_ops lib args) ?fs hsh_path verify = Inr r"
    and out: "ec_outcome (ea_frag_index args) ?p ?fs r"
    and cl: "cleanup_ondisk_files (ec_ops lib args) env hsh_path (Some disk) =
       (if kept_names env hsh_path r disk = [] then None else Some (kept_names env hsh_path r disk),
        Inr (cleaned env hsh_path r, kept_names env hsh_path r ?fs))"
    by (rule ec_cleanup_run [OF assms, of lib hsh_path env]) (rule that)
  define disk' where "disk' = kept_names env hsh_path r disk"
  have sub: "set disk' \<subseteq> set disk" by (auto simp: disk'_def kept_names_def)
  have fs': "rev (sort disk') = kept_names env hsh_path r ?fs" by (simp add: disk'_def sort_kept_names)
  have "cleanup_ondisk_files (ec_ops lib args) env hsh_path (Some disk) =
       (if disk' = [] then None else Some disk', Inr (cleaned env hsh_path r, rev (sort disk')))"
    unfolding disk'_def sort_kept_names by (rule cl)
  moreover have leg': "no_legacy (rev (sort disk'))" using assms(3) sub by (auto simp: no_legacy_def list_all_iff)
  obtain r' where run': "\<And>verify. get_ondisk_files (ec_ops lib args) (rev (sort disk')) hsh_path verify = Inr r'"
    and out': "ec_outcome (ea_frag_index args) ?p (rev (sort disk')) r'"
    by (rule ec_run [OF assms(2) leg', of lib hsh_path]) (rule that)
  have "r_unexpected r' = r_unexpected r"
    using ec.chosen_files(5) [OF run [of False]] ec.chosen_files(5) [OF run' [of False]]
      unexpected_kept [OF ec_doomed_listed [OF out]] by (simp add: fs')
  moreover have "distinct ?fs" using assms by simp
  note ec_outcome_again [OF out out' [unfolded fs'] this]
  moreover have "\<forall>i \<in> with_ext ''.data'' (set (infos ?p disk)). fi_filename i \<in> set disk' \<longleftrightarrow>
      frag_kept env hsh_path (set (infos ?p disk)) i"
  proof
    fix i assume "i \<in> with_ext ''.data'' (set (infos ?p disk))"
    then have i: "i \<in> set (infos ?p ?fs)" "fi_ext i = ''.data''" "fi_filename i \<in> set disk"
      using infos_filename [of i ?p disk] by (auto simp: with_ext_def in_infos)
    have S: "set (infos ?p ?fs) = set (infos ?p disk)" by (auto simp: in_infos)
    have "fi_filename i \<in> fi_filename ` set (doomed env hsh_path r) \<longleftrightarrow> i \<in> set (doomed env hsh_path r)"
      using ec_doomed_listed [OF out, of env hsh_path] i(1) infos_inj [of i ?p ?fs] by auto
    then have "fi_filename i \<in> set disk' \<longleftrightarrow> i \<notin> set (doomed env hsh_path r)"
      using i(3) by (simp add: disk'_def kept_names_def)
    also have "\<dots> \<longleftrightarrow> frag_kept env hsh_path (set (infos ?p disk)) i"
      unfolding S [symmetric] by (rule doomed_frag [OF out \<open>distinct ?fs\<close> i(1,2)])
    finally show "fi_filename i \<in> set disk' \<longleftrightarrow> frag_kept env hsh_path (set (infos ?p disk)) i" .
  qed
  ultimately show thesis using that [of r disk' r'] run run' sub by blast
qed

text \<open>C28: cleaning up an erasure-coded object's directory without legacy \<^verbatim>\<open>.durable\<close> files raises nothing and
  keeps a data file exactly when it is a fragment to keep: every fragment at the newest durable time that is newer
  than all tombstones, and of the fragments after it (or of all live ones, when none is durable) those that are too
  young to be reclaimed or may still be committed.  Choosing again gives the same fragment, metadata and content type
  files; of tombstones only a reclaimable one is gone.\<close>

theorem ec_cleanup_preserves:
  assumes "distinct disk" and "ea_frag_prefs args = None" and "no_legacy disk"
  shows "\<exists>r disk' r'. get_ondisk_files (ec_ops lib args) (rev (sort disk)) hsh_path False = Inr r \<and>
     cleanup_ondisk_files (ec_ops lib args) env hsh_path (Some disk) =
       (if disk' = [] then None else Some disk', Inr (cleaned env hsh_path r, rev (sort disk'))) \<and>
     set disk' \<subseteq> set disk \<and>
     get_ondisk_files (ec_ops lib args) (rev (sort disk')) hsh_path True = Inr r' \<and>
     r_data_info r' = r_data_info r \<and> r_meta_info r' = r_meta_info r \<and>
     r_ctype_info r' = r_ctype_info r \<and> r_unexpected r' = r_unexpected r \<and>
     r_ts_info r' = r_ts_info (cleaned env hsh_path r) \<and>
     (let S = set (infos (ec_parse_filename lib (ea_policy args)) disk) in
        \<forall>i \<in> with_ext ''.data'' S. fi_filename i \<in> set disk' \<longleftrightarrow> frag_kept env hsh_path S i)"
  unfolding Let_def by (rule ec_clean_again [OF assms, of lib hsh_path env]) blast

text \<open>A legacy \<^verbatim>\<open>.durable\<close> file without fragments, over older fragments that may be reclaimed: the fragments
  are both obsolete and possible to reclaim, and the second removal raises.\<close>

definition sample_args :: "nat ec_args" where
  "sample_args = \<lparr>ea_policy = Some 6, ea_frag_index = None, ea_frag_prefs = None, ea_order = rev\<rparr>"

definition old_env :: "nat clean_env" where
  "old_env = sample_env\<lparr>ce_older := (\<lambda>_. True)\<rparr>"

text \<open>the clean-up of an erasure-coded object's directory that holds a legacy \<^verbatim>\<open>.durable\<close> file newer than
  all fragments raises \<^verbatim>\<open>ValueError\<close> once the fragments may be reclaimed.\<close>

theorem ec_isolated_durable_raises:
  "cleanup_ondisk_files (ec_ops sample_lib sample_args) old_env ''/o''
     (Some [''3.durable'', ''2#0.data'']) = (Some [], Inl ValueError)"
  by code_simp

lemma pref_loop_total:
  assumes "distinct (map fst prefs)" and "fst ` set prefs \<subseteq> fst ` set cands"
  shows "\<exists>x. pref_loop order prefs cands = Inr x"
  using assms
proof (induction order prefs cands rule: pref_loop.induct)
  case (2 order ts exclude prefs cands)
  obtain fs where fs: "map_of cands ts = Some fs"
    using 2(3) by (metis (no_types, lifting) fst_conv image_insert insert_subset list.simps(15) map_of_eq_None_iff not_None_eq)
  have "fst ` set (AList.delete ts cands) = fst ` set cands - {ts}"
    by (auto simp: AList.delete_eq)
  then have "fst ` set prefs \<subseteq> fst ` set (AList.delete ts cands)" using 2(2,3) by simp blast
  then show ?case using 2(1) [OF fs refl] 2(2) fs by (auto simp: Let_def)
qed simp

lemma pref_loop_error: "pref_loop order prefs cands = Inl e \<Longrightarrow> e = KeyError"
  by (induction order prefs cands rule: pref_loop.induct) (auto simp: Let_def split: option.splits if_splits)

text \<open>C31: the only exception \<^verbatim>\<open>get_ondisk_files\<close> of the EC policy can raise is \<^verbatim>\<open>KeyError\<close>, and only when two
  fragment preferences name the same timestamp.\<close>

theorem ec_only_key_error:
  assumes "get_ondisk_files (ec_ops lib args) fs datadir verify = Inl e"
  shows "e = KeyError \<and> (\<exists>prefs. ea_frag_prefs args = Some prefs \<and> \<not> distinct (map fst prefs))"
proof -
  obtain exts res where run: "\<And>verify. get_ondisk_files (ec_ops lib args) fs datadir verify =
      try_then (ec_process args exts res) (\<lambda>(exts, res).
        let res = choose_files datadir exts res
        in if verify \<and> \<not> ec_verify args res then Inl RuntimeError else Inr res)"
    and fr: "fresh res"
    by (rule get_ondisk_files_staged [where ops = "ec_ops lib args" and fs = fs and datadir = datadir])
      (simp_all add: ec_parse_error)
  have "ec_process args exts res = Inl e"
    using assms ec_verify_choose [OF _ fr, of args exts] unfolding run
    by (auto simp: try_then_Inl Let_def split: if_splits)
  then obtain sets dset where ch: "choose_frag_set args sets dset = Inl e"
    by (auto simp: ec_process_def try_then_Inl split_def Let_def)
  then obtain prefs where prefs: "ea_frag_prefs args = Some prefs"
    and e: "pref_loop (ea_order args) (filter (\<lambda>(ts, _). ts \<in> fst ` set sets) prefs) sets = Inl e"
    by (cases "ea_frag_prefs args") (auto simp: choose_frag_set_def map_sum_def split: sum.splits)
  have "\<not> distinct (map fst (filter (\<lambda>(ts, _). ts \<in> fst ` set sets) prefs))"
  proof
    assume "distinct (map fst (filter (\<lambda>(ts, _). ts \<in> fst ` set sets) prefs))"
    moreover have "fst ` set (filter (\<lambda>(ts, _). ts \<in> fst ` set sets) prefs) \<subseteq> fst ` set sets"
      by (rule image_subsetI) (simp add: split_beta)
    ultimately obtain x where "pref_loop (ea_order args) (filter (\<lambda>(ts, _). ts \<in> fst ` set sets) prefs) sets = Inr x"
      using pref_loop_total by blast
    with e show False by simp
  qed
  then have "\<not> distinct (map fst prefs)" using distinct_map_filter by blast
  with prefs pref_loop_error [OF e] show ?thesis by blast
qed

lemma ec_filename_made:
  assumes "internal_ok lib t" and "CHR ''#'' \<notin> set (ts_internal lib t)"
  shows "if fi < 0 then ec_make_filename lib t (Some ''.data'') (str_int fi) c durable = Inl DiskFileError
    else \<exists>f. ec_make_filename lib t (Some ''.data'') (str_int fi) c durable = Inr f \<and>
      ec_parse_filename lib policy f =
        (if (case policy of None \<Rightarrow> True | Some n \<Rightarrow> fi < n)
         then Inr \<lparr>fi_timestamp = t, fi_ext = ''.data'', fi_ctype = None, fi_frag = Some fi,
                   fi_durable = Some durable, fi_filename = []\<rparr>
         else Inl DiskFileError)"
proof (cases "fi < 0")
  case True
  then show ?thesis by (simp add: ec_make_filename_def validate_fragment_index_def)
next
  case False
  define s where "s = ts_internal lib t @ CHR ''#'' # str_int fi @ (if durable then ''#d'' else [])"
  have fi: "str_int fi = str_nat (nat fi)" using False by (simp add: str_int_def)
  have "name_safe s"
    using assms(1) str_nat_chars(2) by (auto simp: s_def name_safe_def internal_ok_def fi)
  then have sp: "splitext (s @ dot # ''data'') = (s, ''.data'')" by (rule splitext_made) simp_all
  have "split_on (CHR ''#'') s = ts_internal lib t # split_on (CHR ''#'') (str_int fi @ (if durable then ''#d'' else []))"
    using assms(2) by (simp add: s_def split_on_append)
  also have "\<dots> = [ts_internal lib t, str_int fi] @ (if durable then [''d''] else [])"
    using str_nat_chars(4) [of "nat fi"] by (simp add: fi split_on_append split_on_none)
  finally have parts: "split_on (CHR ''#'') s = [ts_internal lib t, str_int fi] @ (if durable then [''d''] else [])" .
  have mk: "ec_make_filename lib t (Some ''.data'') (str_int fi) c durable = Inr (s @ dot # ''data'')"
    using False by (simp add: ec_make_filename_def validate_fragment_index_def s_def)
  have "ec_parse_filename lib policy (s @ dot # ''data'') =
      try_then (validate_fragment_index policy (str_int fi)) (\<lambda>n. Inr \<lparr>fi_timestamp = t, fi_ext = ''.data'',
        fi_ctype = None, fi_frag = Some n, fi_durable = Some durable, fi_filename = []\<rparr>)"
    using assms(1) by (simp add: ec_parse_filename_def sp parts internal_ok_def)
  then show ?thesis using False mk
    by (auto simp: validate_fragment_index_def split: option.split)
qed

text \<open>C30: a name made for a fragment parses back to its timestamp, fragment index and durable mark; a negative
  index can not be named, and one the policy has no fragment for is refused when parsing.\<close>

theorem ec_filename_roundtrip:
  assumes "internal_ok lib t" and "CHR ''#'' \<notin> set (ts_internal lib t)"
  shows "if fi < 0 then ec_make_filename lib t (Some ''.data'') (str_int fi) c durable = Inl DiskFileError
    else \<exists>f. ec_make_filename lib t (Some ''.data'') (str_int fi) c durable = Inr f \<and>
      ec_parse_filename lib policy f =
        (if (case policy of None \<Rightarrow> True | Some n \<Rightarrow> fi < n)
         then Inr \<lparr>fi_timestamp = t, fi_ext = ''.data'', fi_ctype = None, fi_frag = Some fi,
                   fi_durable = Some durable, fi_filename = []\<rparr>
         else Inl DiskFileError)"
  by (rule ec_filename_made [OF assms])

theorem ec_filename_roundtrip_witness:
  "\<exists>f. ec_make_filename sample_lib 5 (Some ''.data'') (str_int 3) None True = Inr f \<and>
     ec_parse_filename sample_lib (Some 6) f =
       Inr \<lparr>fi_timestamp = 5, fi_ext = ''.data'', fi_ctype = None, fi_frag = Some 3,
            fi_durable = Some True, fi_filename = []\<rparr>"
  using ec_filename_roundtrip [OF sample_lib_ok(1), of 5 3 None True "Some 6"] str_nat_chars(4)
  by (simp add: sample_lib_def)

theorem ec_choice_witness:
  "\<exists>r. get_ondisk_files (ec_ops sample_lib sample_args) [''5#1.data'', ''2#3#d.data''] ''/o'' True = Inr r"
proof -
  have "ea_frag_prefs sample_args = None" "no_legacy [''5#1.data'', ''2#3#d.data'']" by code_simp+
  from ec_choice [OF this, of sample_lib "''/o''"] show ?thesis by blast
qed

theorem ec_cleanup_preserves_witness:
  "\<exists>l. set l \<subseteq> {''2#4.data'', ''2#3#d.data'', ''1#0.data'', ''0.ts''} \<and> {''2#4.data'', ''2#3#d.data''} \<subseteq> set l \<and> ''1#0.data'' \<notin> set l \<and>
     fst (cleanup_ondisk_files (ec_ops sample_lib sample_args) old_env ''/o''
       (Some [''2#4.data'', ''2#3#d.data'', ''1#0.data'', ''0.ts''])) = (if l = [] then None else Some l)"
proof -
  let ?disk = "[''2#4.data'', ''2#3#d.data'', ''1#0.data'', ''0.ts'']"
  let ?S = "set (infos (ec_parse_filename sample_lib (ea_policy sample_args)) ?disk)"
  have d: "distinct ?disk" by simp
  have a: "ea_frag_prefs sample_args = None" "no_legacy ?disk" by code_simp+
  have kept: "\<forall>i \<in> with_ext ''.data'' ?S. frag_kept old_env ''/o'' ?S i \<longleftrightarrow> fi_filename i \<noteq> ''1#0.data''"
    and names: "fi_filename ` with_ext ''.data'' ?S = {''2#4.data'', ''2#3#d.data'', ''1#0.data''}" by code_simp+
  obtain r l where l: "cleanup_ondisk_files (ec_ops sample_lib sample_args) old_env ''/o'' (Some ?disk) =
       (if l = [] then None else Some l, Inr (cleaned old_env ''/o'' r, rev (sort l)))" "set l \<subseteq> set ?disk"
    and k: "\<forall>i \<in> with_ext ''.data'' ?S. fi_filename i \<in> set l \<longleftrightarrow> frag_kept old_env ''/o'' ?S i"
    using ec_cleanup_preserves [OF d a, of sample_lib "''/o''" old_env, unfolded Let_def] by blast
  have "f \<in> set l \<longleftrightarrow> f \<noteq> ''1#0.data''" if mem: "f \<in> fi_filename ` with_ext ''.data'' ?S" for f
  proof -
    obtain i where f: "f = fi_filename i" and i: "i \<in> with_ext ''.data'' ?S" using mem by (rule imageE)
    show ?thesis unfolding f using bspec [OF k i] bspec [OF kept i] by (rule trans)
  qed
  then have "''2#4.data'' \<in> set l" "''2#3#d.data'' \<in> set l" "''1#0.data'' \<notin> set l" unfolding names by auto
  with l show ?thesis by (intro exI [of _ l]) (simp only: fst_conv list.set insert_subset empty_subsetI simp_thms)
qed

theorem ec_only_key_error_witness:
  "\<exists>prefs. ea_frag_prefs (sample_args\<lparr>ea_frag_prefs := Some [(5, [1]), (5, [])]\<rparr>) = Some prefs \<and>
     \<not> distinct (map fst prefs)"
proof -
  have "get_ondisk_files (ec_ops sample_lib (sample_args\<lparr>ea_frag_prefs := Some [(5, [1]), (5, [])]\<rparr>))
      [''5#1.data'', ''2#3#d.data''] ''/o'' True = Inl KeyError"
    by code_simp
  from ec_only_key_error [OF this] show ?thesis by blast
qed

end
