(* ===== verification/ECDiskFile.thy ===== *)
theory ECDiskFile
  imports DiskFile ErasureCoded
begin

text \<open>
  \<^verbatim>\<open>ECDiskFile\<close> and \<^verbatim>\<open>ECDiskFileWriter\<close> of \<^verbatim>\<open>swift_patches/obj/bs_diskfile.py\<close>: instances with a fragment
  index and fragment preferences, putting a fragment, making it durable in the second phase of the commit,
  and purging fragments.
\<close>

section \<open>Instances\<close>

text \<open>
  The preferences as they come from the JSON of a request header: a list of dictionaries, which may lack a
  key, or something that is no list of dictionaries.
\<close>

record raw_pref =
  rp_timestamp :: "string option"
  rp_exclude :: "string list option"

datatype raw_prefs = NoPrefList | PrefList "raw_pref list"

text \<open>\<^verbatim>\<open>_validate_frag_prefs\<close>: every way to fail is a \<^verbatim>\<open>DiskFileError\<close>.\<close>

definition validate_pref :: "'t ts_lib \<Rightarrow> raw_pref \<Rightarrow> pyexc + 't \<times> int list" where
  "validate_pref lib pref =
     (case rp_timestamp pref of
        None \<Rightarrow> Inl KeyError
      | Some s \<Rightarrow>
          (case ts_parse lib s of
             None \<Rightarrow> Inl ValueError
           | Some t \<Rightarrow>
               (case rp_exclude pref of
                  None \<Rightarrow> Inl KeyError
                | Some fis \<Rightarrow> try_then (map_result (validate_fragment_index None) fis) (\<lambda>ns. Inr (t, ns)))))"

definition validate_frag_prefs :: "'t ts_lib \<Rightarrow> raw_prefs option \<Rightarrow> pyexc + ('t \<times> int list) list option" where
  "validate_frag_prefs lib prefs =
     (case prefs of
        None \<Rightarrow> Inr None
      | Some NoPrefList \<Rightarrow> Inl DiskFileError
      | Some (PrefList ps) \<Rightarrow>
          (case map_result (validate_pref lib) ps of Inl e \<Rightarrow> Inl DiskFileError | Inr l \<Rightarrow> Inr (Some l)))"

text \<open>
  \<^verbatim>\<open>ECDiskFile.__init__\<close>: the keyword arguments that \<^verbatim>\<open>get_ondisk_files\<close> gets, or the exception.  \<open>policy\<close> is
  \<^verbatim>\<open>ec_ndata + ec_nparity\<close>, \<open>order\<close> the iteration order of sets.
\<close>

definition new_ec_args ::
  "'t ts_lib \<Rightarrow> int \<Rightarrow> (int list \<Rightarrow> int list) \<Rightarrow> string option \<Rightarrow> raw_prefs option \<Rightarrow> pyexc + 't ec_args" where
  "new_ec_args lib policy order frag_index prefs =
     try_then (case frag_index of
                 None \<Rightarrow> Inr None
               | Some s \<Rightarrow> try_then (validate_fragment_index (Some policy) s) (\<lambda>n. Inr (Some n)))
       (\<lambda>fi. try_then (validate_frag_prefs lib prefs) (\<lambda>ps.
         Inr \<lparr>ea_policy = Some policy, ea_frag_index = fi, ea_frag_prefs = ps, ea_order = order\<rparr>))"

text \<open>\<^verbatim>\<open>_get_ondisk_files\<close>: the choice for an instance; \<open>open_disk_file\<close> of it opens a fragment archive.\<close>

definition ec_open_disk_file ::
  "'t :: {linorder, order_bot} ec_args \<Rightarrow> 't df_env \<Rightarrow> 't disk_file \<Rightarrow> hash_dir \<Rightarrow> (int \<Rightarrow> bool)
     \<Rightarrow> 't disk_file \<times> hash_dir \<times> (pyexc + unit)" where
  "ec_open_disk_file args env = open_disk_file (ec_ops (de_lib env) args) env"

definition ec_validate_metadata :: "'t disk_file \<Rightarrow> pyexc + bool" where
  "ec_validate_metadata df =
     (case df_datafile df of
        None \<Rightarrow> Inl AttributeError
      | Some m \<Rightarrow> Inr (list_all (\<lambda>header. case map_of m header of None \<Rightarrow> False | Some v \<Rightarrow> v \<noteq> [])
          [''Content-Length'', ''X-Object-Sysmeta-Ec-Frag-Index'', ''X-Object-Sysmeta-Ec-Etag'']))"

definition ec_durable_timestamp :: "'t disk_file \<Rightarrow> pyexc + 't option" where
  "ec_durable_timestamp df =
     (case df_ondisk_info df of
        None \<Rightarrow> Inl DiskFileNotOpen
      | Some r \<Rightarrow> Inr (case r_durable_frag_set r of Some (Some (i # is)) \<Rightarrow> Some (fi_timestamp i) | _ \<Rightarrow> None))"

definition ec_fragments :: "'t disk_file \<Rightarrow> pyexc + ('t \<times> int option list) list option" where
  "ec_fragments df =
     (case df_ondisk_info df of
        None \<Rightarrow> Inr None
      | Some r \<Rightarrow>
          (case r_frag_sets r of
             None \<Rightarrow> Inl KeyError
           | Some sets \<Rightarrow> Inr (Some (map (\<lambda>(t, is). (t, map fi_frag is)) sets))))"

section \<open>Putting a fragment\<close>

text \<open>The manager cleans up without keyword arguments.\<close>

definition default_args :: "(int list \<Rightarrow> int list) \<Rightarrow> 't ec_args" where
  "default_args order = \<lparr>ea_policy = None, ea_frag_index = None, ea_frag_prefs = None, ea_order = order\<rparr>"

text \<open>
  \<^verbatim>\<open>ECDiskFileWriter.put\<close>: also the instance's fragment index afterwards.  A fragment index that comes from
  the instance stands in the metadata as its decimal.
\<close>

definition ec_put ::
  "(int list \<Rightarrow> int list) \<Rightarrow> 't :: {linorder, order_bot} df_env \<Rightarrow> os \<Rightarrow> int \<Rightarrow> string \<Rightarrow> string \<Rightarrow> int option \<Rightarrow> writer \<Rightarrow> odisk
     \<Rightarrow> metadata \<Rightarrow> int option \<times> writer \<times> odisk \<times> (pyexc + unit)" where
  "ec_put order env os policy datadir name frag_index w s metadata =
     (let ops = ec_ops (de_lib env) (default_args order) in
      if wr_ext w = ''.data''
      then (let fi = (case map_of metadata ''X-Object-Sysmeta-Ec-Frag-Index'' of
                        Some v \<Rightarrow> v | None \<Rightarrow> (case frag_index of None \<Rightarrow> ''None'' | Some n \<Rightarrow> str_int n));
                metadata = dict_setdefault ''X-Object-Sysmeta-Ec-Frag-Index'' fi metadata
            in case validate_fragment_index (Some policy) fi of
                 Inl e \<Rightarrow> (frag_index, w, s, Inl e)
               | Inr n \<Rightarrow> (Some n, base_put ops env os
                   (\<lambda>t c. ec_make_filename (de_lib env) t (Some (wr_ext w)) (str_int n) c False) datadir name w s metadata False))
      else (frag_index, base_put ops env os
              (\<lambda>t c. ec_make_filename (de_lib env) t (Some (wr_ext w)) ''None'' c False) datadir name w s metadata True))"

section \<open>Making a fragment durable\<close>

text \<open>The errnos of the rename, of syncing the directory and of the rename of the link at the next power.\<close>

record commit_os =
  co_rename :: "int option"
  co_fsync :: "int option"
  co_rename_next :: "int option"

definition rename_in :: "string \<Rightarrow> string \<Rightarrow> int option \<Rightarrow> hash_dir \<Rightarrow> int + hash_dir" where
  "rename_in old new err d =
     (case err of
        Some e \<Rightarrow> Inl e
      | None \<Rightarrow>
          (case d of
             Missing \<Rightarrow> Inl ENOENT
           | Unlistable e \<Rightarrow> Inl e
           | Files fs \<Rightarrow>
               (case map_of fs old of
                  None \<Rightarrow> Inl ENOENT
                | Some f \<Rightarrow> Inr (Files (AList.update new f (AList.delete old fs))))))"

text \<open>The rename that marks the fragment; the result is its errno, or whether renaming the link failed.\<close>

definition durable_rename :: "commit_os \<Rightarrow> string \<Rightarrow> string \<Rightarrow> odisk \<Rightarrow> odisk \<times> (int + bool)" where
  "durable_rename co data_file durable_file s =
     (case rename_in data_file durable_file (co_rename co) (od_dir s) of
        Inl e \<Rightarrow> (s, Inl e)
      | Inr d \<Rightarrow>
          (let s = s\<lparr>od_dir := d\<rparr>
           in case co_fsync co of
                Some e \<Rightarrow> (s, Inl e)
              | None \<Rightarrow>
                  (case od_other s of
                     NextPower d2 \<Rightarrow>
                       (case rename_in data_file durable_file (co_rename_next co) d2 of
                          Inl e \<Rightarrow> (s, Inr True)
                        | Inr d2 \<Rightarrow> (s\<lparr>od_other := NextPower d2\<rparr>, Inr False))
                   | _ \<Rightarrow> (s, Inr False))))"

text \<open>
  The handler of a failed rename: our data may be gone because a newer object cleaned it up.  An exception in
  the handler ends in the outer handler, which makes a \<^verbatim>\<open>DiskFileError\<close> of everything.
\<close>

definition commit_failed ::
  "'t :: {linorder, order_bot} policy_ops \<Rightarrow> string \<Rightarrow> 't \<Rightarrow> hash_dir \<Rightarrow> int \<Rightarrow> pyexc + unit" where
  "commit_failed ops datadir timestamp d e =
     (if e = ENOENT
      then (case d of
              Files fs \<Rightarrow>
                (case get_ondisk_files ops (map fst fs) datadir True of
                   Inl x \<Rightarrow> Inl DiskFileError
                 | Inr r \<Rightarrow>
                     (if (case r_ts_info r of None \<Rightarrow> False | Some i \<Rightarrow> fi_timestamp i > timestamp) then Inr ()
                      else if (case r_durable_frag_set r of
                                 Some (Some frags) \<Rightarrow> list_ex (\<lambda>i. fi_timestamp i \<ge> timestamp) frags
                               | _ \<Rightarrow> False)
                      then Inr () else Inl DiskFileError))
            | _ \<Rightarrow> Inl DiskFileError)
      else if e = ENOSPC \<or> e = EDQUOT then Inl DiskFileNoSpace else Inl DiskFileError)"

text \<open>
  \<^verbatim>\<open>_finalize_durable\<close>.  When renaming the link failed, the variable \<^verbatim>\<open>exc\<close> is unbound at the end, unless
  another exception bound it again.
\<close>

definition finalize_durable ::
  "(int list \<Rightarrow> int list) \<Rightarrow> 't :: {linorder, order_bot} df_env \<Rightarrow> commit_os \<Rightarrow> int \<Rightarrow> string \<Rightarrow> int option
     \<Rightarrow> string \<Rightarrow> string \<Rightarrow> 't \<Rightarrow> odisk \<Rightarrow> odisk \<times> (pyexc + unit)" where
  "finalize_durable order env co policy datadir frag_index data_file durable_file timestamp s =
     (case durable_rename co data_file durable_file s of
        (s, Inl e) \<Rightarrow>
          (s, commit_failed (ec_ops (de_lib env)
                \<lparr>ea_policy = Some policy, ea_frag_index = frag_index, ea_frag_prefs = None, ea_order = order\<rparr>)
                datadir timestamp (od_dir s) e)
      | (s, Inr unbound) \<Rightarrow>
          (let ops = ec_ops (de_lib env) (default_args order);
               (d, r) = clean_dir ops (de_clean env) datadir (od_dir s);
               s = s\<lparr>od_dir := d\<rparr>
           in case ignore_os_error r of
                Inl e \<Rightarrow> (s, Inl DiskFileError)
              | Inr u \<Rightarrow>
                  (let (x, r) = clean_other ops (de_clean env) datadir (od_other s);
                       s = s\<lparr>od_other := x\<rparr>
                   in case r of
                        Inl e \<Rightarrow> (s, Inl DiskFileError)
                      | Inr u \<Rightarrow> (s, if unbound then Inl UnboundLocalError else Inr ()))))"

definition frag_str :: "int option \<Rightarrow> string" where
  "frag_str fi = (case fi of None \<Rightarrow> ''None'' | Some n \<Rightarrow> str_int n)"

definition ec_commit ::
  "(int list \<Rightarrow> int list) \<Rightarrow> 't :: {linorder, order_bot} df_env \<Rightarrow> commit_os \<Rightarrow> int \<Rightarrow> string \<Rightarrow> int option \<Rightarrow> 't \<Rightarrow> odisk
     \<Rightarrow> odisk \<times> (pyexc + unit)" where
  "ec_commit order env co policy datadir frag_index timestamp s =
     (case ec_make_filename (de_lib env) timestamp (Some ''.data'') (frag_str frag_index) None False of
        Inl e \<Rightarrow> (s, Inl e)
      | Inr data_file \<Rightarrow>
          (case ec_make_filename (de_lib env) timestamp (Some ''.data'') (frag_str frag_index) None True of
             Inl e \<Rightarrow> (s, Inl e)
           | Inr durable_file \<Rightarrow>
               finalize_durable order env co policy datadir frag_index data_file durable_file timestamp s))"

section \<open>Purging\<close>

text \<open>
  \<^verbatim>\<open>remove_file\<close> and \<^verbatim>\<open>remove_directory\<close> ignore that there is nothing to remove.  \<open>older\<close> is
  \<^verbatim>\<open>is_file_older(path, nondurable_purge_delay)\<close>.
\<close>

definition remove_name :: "string \<Rightarrow> hash_dir \<Rightarrow> hash_dir" where
  "remove_name n d = (case d of Files fs \<Rightarrow> Files (AList.delete n fs) | _ \<Rightarrow> d)"

definition remove_empty :: "hash_dir \<Rightarrow> hash_dir" where
  "remove_empty d = (case d of Files [] \<Rightarrow> Missing | _ \<Rightarrow> d)"

definition ec_purge ::
  "'t ts_lib \<Rightarrow> string \<Rightarrow> (string \<Rightarrow> bool) \<Rightarrow> 't \<Rightarrow> int option \<Rightarrow> 't option \<Rightarrow> odisk \<Rightarrow> odisk \<times> (pyexc + unit)" where
  "ec_purge lib datadir older timestamp frag_index meta_timestamp s =
     (let s = s\<lparr>od_dir := remove_name (base_make_filename lib timestamp (Some ''.ts'') None) (od_dir s)\<rparr>;
          s = (case meta_timestamp of
                 None \<Rightarrow> s
               | Some t \<Rightarrow> s\<lparr>od_dir := remove_name (base_make_filename lib t (Some ''.meta'') None) (od_dir s)\<rparr>);
          (s, r) =
            (case frag_index of
               None \<Rightarrow> (s, Inr ())
             | Some n \<Rightarrow>
                 (case ec_make_filename lib timestamp (Some ''.data'') (str_int n) None False of
                    Inl e \<Rightarrow> (s, Inl e)
                  | Inr purge_file \<Rightarrow>
                      (let s = (if older (join datadir purge_file) then s\<lparr>od_dir := remove_name purge_file (od_dir s)\<rparr> else s)
                       in case ec_make_filename lib timestamp (Some ''.data'') (str_int n) None True of
                            Inl e \<Rightarrow> (s, Inl e)
                          | Inr purge_file \<Rightarrow> (s\<lparr>od_dir := remove_empty (remove_name purge_file (od_dir s))\<rparr>, Inr ()))))
      in case r of
           Inl e \<Rightarrow> (s, Inl e)
         | Inr u \<Rightarrow> (s\<lparr>od_invalidated := od_invalidated s + 1\<rparr>, Inr ()))"

section \<open>What a commit leaves\<close>

lemma parse_without_policy:
  assumes "ec_parse_filename lib policy f = Inr i"
  shows "ec_parse_filename lib None f = Inr i"
proof -
  have v: "validate_fragment_index policy x = Inr n \<Longrightarrow> validate_fragment_index None x = Inr n" for x n
    by (auto simp: validate_fragment_index_def split: option.splits if_splits)
  obtain a b where f: "splitext f = (a, b)" by (cases "splitext f")
  show ?thesis
  proof (cases "b = ''.data''")
    case True
    define ps where "ps = split_on (CHR ''#'') a"
    define x where "x = (if length ps > 1 then ps ! 1 else ''None'')"
    have e: "ec_parse_filename lib pol f =
        (case ts_parse lib (ps ! 0) of
           None \<Rightarrow> Inl DiskFileError
         | Some t \<Rightarrow> try_then (validate_fragment_index pol x) (\<lambda>n. Inr \<lparr>fi_timestamp = t, fi_ext = ''.data'', fi_ctype = None,
             fi_frag = Some n, fi_durable = Some (length ps > 2 \<and> ps ! 2 = ''d''), fi_filename = []\<rparr>))" for pol
      by (simp add: ec_parse_filename_def f True Let_def ps_def x_def cong: option.case_cong)
    from assms show ?thesis unfolding e by (auto dest: v split: option.splits)
  qed (use assms in \<open>simp add: ec_parse_filename_def f\<close>)
qed

lemma infos_without_policy:
  "set (infos (ec_parse_filename lib policy) fs) \<subseteq> set (infos (ec_parse_filename lib None) fs)"
  using parse_without_policy [of lib policy] by (fastforce simp: in_infos)

text \<open>No file is newer than \<open>t\<close>, and tombstones are older.\<close>

definition none_newer :: "'t :: linorder finfo set \<Rightarrow> 't \<Rightarrow> bool" where
  "none_newer S t \<longleftrightarrow> (\<forall>j \<in> S. fi_timestamp j \<le> t \<and> (fi_ext j = ''.ts'' \<longrightarrow> fi_timestamp j < t))"

definition durable_in :: "'t finfo set \<Rightarrow> 't \<Rightarrow> 't finfo \<Rightarrow> bool" where
  "durable_in S t i \<longleftrightarrow> i \<in> S \<and> fi_ext i = ''.data'' \<and> is_durable i \<and> fi_timestamp i = t"

lemma durable_now:
  assumes "none_newer (set (infos p fs)) t" and "durable_in (set (infos p fs)) t i"
  shows "durable_at None (staged p fs ''.data'') = Some t" and "i \<in> set (staged p fs ''.data'')"
proof -
  let ?D = "staged p fs ''.data''"
  show i: "i \<in> set ?D"
    using assms by (auto simp: staged_data live_data_def with_ext_def none_newer_def durable_in_def)
  then obtain u where u: "durable_at None ?D = Some u"
    using durable_at_none [of ?D] assms(2) by (cases "durable_at None ?D") (auto simp: durable_in_def)
  obtain j where "j \<in> set ?D" "fi_timestamp j = u" using durable_at_listed [OF u] by blast
  then have "u \<le> t"
    using assms(1) staged_data [of p fs] by (auto simp: none_newer_def live_data_def with_ext_def)
  moreover have "t \<le> u"
    using durable_at_newest [OF descending_staged u i] assms(2) by (simp add: durable_in_def)
  ultimately show "durable_at None ?D = Some t" using u by simp
qed

lemma durable_chosen:
  assumes "none_newer (set (infos p fs)) t" and "durable_in (set (infos p fs)) t i" and "ec_outcome k p fs r"
    and "k = None \<or> k = fi_frag i"
  shows "\<exists>d. r_data_info r = Some d \<and> fi_timestamp d = t \<and> is_durable d"
proof -
  note at = durable_now [OF assms(1,2)]
  have "frag_choice k (set (infos p fs)) t (r_data_info r)"
    using choose_frag_spec [OF at(1) staged_data] assms(3) at(1) by (simp add: ec_outcome_def)
  moreover have "i \<in> frags_at (set (infos p fs)) t"
    using at(2) assms(2) by (simp add: frags_at_def staged_data durable_in_def)
  ultimately show ?thesis
    using assms(4) by (auto simp: frag_choice_def frags_at_def dest: same_file_fields(1) split: option.splits)
qed

lemma durable_kept:
  assumes "none_newer (set (infos p fs)) t" and "durable_in (set (infos p fs)) t i" and "ec_outcome None p fs r"
  shows "fi_filename i \<notin> fi_filename ` set (doomed env path r)"
proof
  assume "fi_filename i \<in> fi_filename ` set (doomed env path r)"
  then obtain j where j: "j \<in> set (doomed env path r)" "fi_filename j = fi_filename i" by auto
  have "i \<in> set (infos p fs)" using assms(2) by (simp add: durable_in_def)
  with j infos_inj [of j p fs i] ec_doomed_listed [OF assms(3)] have i: "i \<in> set (doomed env path r)" by auto
  note at = durable_now [OF assms(1,2)]
  have "i \<in> set (r_obsolete r) \<union> {j. t < fi_timestamp j}"
    using i assms(3) at(1) by (auto simp: doomed_def ec_outcome_def)
  then have i: "i \<in> superseded p fs" using assms(2,3) at(1) by (auto simp: ec_outcome_def durable_in_def)
  have "set (dropped_meta (live p fs ''.meta'')) \<subseteq> set (live p fs ''.meta'')" using set_kept_dropped by blast
  then have d: "i \<notin> set (dropped_meta (live p fs ''.meta''))"
    using assms(2) by (auto simp: set_live with_ext_def durable_in_def)
  show False
  proof (cases "listed p fs ''.ts''")
    case Nil
    with i d show False by (simp add: superseded_def)
  next
    case (Cons u us)
    then have "u \<in> set (infos p fs)" "fi_ext u = ''.ts''" "\<forall>v \<in> set us. fi_ext v = ''.ts''"
      using set_listed [of p fs "''.ts''"] by auto
    with i d assms(1,2) show False
      by (auto simp: superseded_def Cons none_newer_def durable_in_def)
  qed
qed

section \<open>Committing\<close>

fun ec_dir_ok :: "hash_dir \<Rightarrow> bool" where
  "ec_dir_ok Missing = True"
| "ec_dir_ok (Unlistable e) = True"
| "ec_dir_ok (Files fs) = (distinct (map fst fs) \<and> no_legacy (map fst fs))"

fun ec_relink_ok :: "relink \<Rightarrow> bool" where
  "ec_relink_ok NoPower = True"
| "ec_relink_ok (NextPower d) = ec_dir_ok d"
| "ec_relink_ok (PrevPower d) = ec_dir_ok d"

lemma default_args_simps [simp]:
  "ea_policy (default_args order) = None" "ea_frag_index (default_args order) = None" "ea_frag_prefs (default_args order) = None"
  by (simp_all add: default_args_def)

lemma clean_dir_ec:
  assumes "distinct (map fst fs)" and "no_legacy (map fst fs)"
  obtains r where "ec_outcome None (ec_parse_filename lib None) (rev (sort (map fst fs))) r"
    "clean_dir (ec_ops lib (default_args order)) env path (Files fs) =
       (dir_of (keep_files (kept_names env path r (map fst fs)) fs), Inr ())"
proof -
  obtain r where out: "ec_outcome None (ec_parse_filename lib None) (rev (sort (map fst fs))) r"
    and cl: "cleanup_ondisk_files (ec_ops lib (default_args order)) env path (Some (map fst fs)) =
       (if kept_names env path r (map fst fs) = [] then None else Some (kept_names env path r (map fst fs)),
        Inr (cleaned env path r, kept_names env path r (rev (sort (map fst fs)))))"
    by (rule ec_cleanup_run [OF assms(1) _ assms(2), of "default_args order" lib path env]) (simp, rule that, simp_all)
  have "kept_names env path r (map fst fs) = [] \<longleftrightarrow> keep_files (kept_names env path r (map fst fs)) fs = []"
    using names_keep_files [of env path r fs] by (metis map_is_Nil_conv)
  then have "clean_dir (ec_ops lib (default_args order)) env path (Files fs) =
       (dir_of (keep_files (kept_names env path r (map fst fs)) fs), Inr ())"
    by (simp add: clean_dir_def cl dir_of_def keep_files_def)
  with out show thesis by (rule that)
qed

lemma clean_dir_ec_returns:
  "ec_dir_ok d \<Longrightarrow> ignore_os_error (snd (clean_dir (ec_ops lib (default_args order)) env path d)) = Inr ()"
proof (cases d)
  case Missing
  have "no_legacy []" by (simp add: no_legacy_def)
  obtain r where "\<And>verify. get_ondisk_files (ec_ops lib (default_args order)) [] path verify = Inr r"
    by (rule ec_run [OF _ \<open>no_legacy []\<close>, of "default_args order" lib path]) (simp, rule that)
  with Missing show ?thesis by (simp add: clean_dir_def cleanup_ondisk_files_def)
next
  case (Unlistable e)
  then show ?thesis by (simp add: clean_dir_def)
next
  case (Files fs)
  assume "ec_dir_ok d"
  with Files have "distinct (map fst fs)" "no_legacy (map fst fs)" by simp_all
  then show ?thesis by (rule clean_dir_ec [of fs lib order env path]) (simp add: Files)
qed

lemma clean_other_ec_returns:
  "ec_relink_ok x \<Longrightarrow> snd (clean_other (ec_ops lib (default_args order)) env path x) = Inr ()"
  using clean_dir_ec_returns by (cases x) (auto simp: clean_other_def split_def Let_def)

lemma map_fst_delete: "set (map fst (AList.delete k fs)) = set (map fst fs) - {k}"
  by (auto simp: AList.delete_eq)

lemma renamed_names:
  assumes "distinct (map fst fs)"
  shows "distinct (map fst (AList.update new f (AList.delete old fs)))"
    and "set (map fst (AList.update new f (AList.delete old fs))) = insert new (set (map fst fs) - {old})"
proof -
  have "distinct (map fst (AList.delete old fs))" using assms by (simp add: distinct_delete)
  then show "distinct (map fst (AList.update new f (AList.delete old fs)))" by (rule distinct_update)
  show "set (map fst (AList.update new f (AList.delete old fs))) = insert new (set (map fst fs) - {old})"
    unfolding set_map dom_map_of_conv_image_fst [symmetric] using map_fst_delete [of old fs]
    by (simp add: dom_map_of_conv_image_fst)
qed

lemma renamed_no_legacy:
  assumes "distinct (map fst fs)" and "no_legacy (map fst fs)" and "snd (splitext new) \<noteq> ''.durable''"
  shows "no_legacy (map fst (AList.update new f (AList.delete old fs)))"
  using assms(2,3) by (simp only: no_legacy_def list_all_iff renamed_names(2) [OF assms(1)]) blast

lemma rename_in_ok:
  assumes "ec_dir_ok d" and "snd (splitext new) \<noteq> ''.durable''" and "rename_in old new err d = Inr d'"
  shows "ec_dir_ok d'"
proof -
  from assms(3) obtain fs f where d: "d = Files fs" "d' = Files (AList.update new f (AList.delete old fs))"
    by (auto simp: rename_in_def split: option.splits hash_dir.splits)
  with assms(1,2) show ?thesis by (simp add: renamed_names(1) renamed_no_legacy)
qed

lemma commit_runs:
  fixes env :: "'t :: {linorder, order_bot} df_env"
  assumes "internal_ok (de_lib env) t" and "CHR ''#'' \<notin> set (ts_internal (de_lib env) t)" and "0 \<le> n" and "n < policy"
    and "od_dir s = Files fs" and "distinct (map fst fs)" and "no_legacy (map fst fs)" and "ec_relink_ok (od_other s)"
    and "ec_make_filename (de_lib env) t (Some ''.data'') (str_int n) None False = Inr data_file"
    and "map_of fs data_file = Some f" and "none_newer (set (infos (ec_parse_filename (de_lib env) None) (map fst fs))) t"
    and "co_rename co = None" and "co_fsync co = None"
  shows "\<exists>s' fs' durable_file.
     ec_commit order env co policy path (Some n) t s =
       (s', case od_other s of
              NextPower d \<Rightarrow> (case rename_in data_file durable_file (co_rename_next co) d of
                Inl e \<Rightarrow> Inl UnboundLocalError | Inr d' \<Rightarrow> Inr ())
            | _ \<Rightarrow> Inr ()) \<and>
     ec_make_filename (de_lib env) t (Some ''.data'') (str_int n) None True = Inr durable_file \<and>
     od_dir s' = Files fs' \<and> map_of fs' durable_file = Some f \<and>
     (\<forall>args. ea_policy args = Some policy \<longrightarrow> ea_frag_prefs args = None \<longrightarrow> ea_frag_index args \<in> {None, Some n} \<longrightarrow>
       (\<exists>r d. get_ondisk_files (ec_ops (de_lib env) args) (map fst fs') path True = Inr r \<and>
          r_data_info r = Some d \<and> fi_timestamp d = t \<and> is_durable d))"
proof -
  let ?lib = "de_lib env" and ?ops = "ec_ops (de_lib env) (default_args order)"
  have n: "\<not> n < 0" using assms(3) by simp
  obtain new where new: "ec_make_filename ?lib t (Some ''.data'') (str_int n) None True = Inr new"
    and parse0: "\<forall>pol \<in> {None, Some policy}. ec_parse_filename ?lib pol new =
      Inr \<lparr>fi_timestamp = t, fi_ext = ''.data'', fi_ctype = None, fi_frag = Some n, fi_durable = Some True, fi_filename = []\<rparr>"
    using ec_filename_made [OF assms(1,2), of n None True None] ec_filename_made [OF assms(1,2), of n None True "Some policy"] n assms(4)
    by auto
  have parse: "ec_parse_filename ?lib pol new =
      Inr \<lparr>fi_timestamp = t, fi_ext = ''.data'', fi_ctype = None, fi_frag = Some n, fi_durable = Some True, fi_filename = []\<rparr>"
    if "pol = None \<or> pol = Some policy" for pol
    using parse0 that by blast
  have ext: "snd (splitext new) = ''.data''"
    using ec_parse_ext [OF parse [of None]] by simp
  define gs where "gs = AList.update new f (AList.delete data_file fs)"
  note names = renamed_names [OF assms(6), of new f data_file, folded gs_def]
  have leg: "no_legacy (map fst gs)" using renamed_no_legacy [OF assms(6,7)] ext by (simp add: gs_def)
  let ?i = "\<lparr>fi_timestamp = t, fi_ext = ''.data'', fi_ctype = None, fi_frag = Some n, fi_durable = Some True, fi_filename = new\<rparr>"
  have newer: "none_newer (set (infos (ec_parse_filename ?lib None) (map fst gs))) t"
  proof -
    have "j = ?i \<or> j \<in> set (infos (ec_parse_filename ?lib None) (map fst fs))"
      if "j \<in> set (infos (ec_parse_filename ?lib None) (map fst gs))" for j
      using that parse [of None] unfolding in_infos names(2) by auto
    with assms(11) show ?thesis by (force simp: none_newer_def)
  qed
  have dur: "durable_in (set (infos (ec_parse_filename ?lib pol) hs)) t ?i"
    if "pol = None \<or> pol = Some policy" "new \<in> set hs" for pol hs
    using parse [OF that(1)] that(2) by (auto simp: durable_in_def in_infos is_durable_def intro!: bexI [of _ new])
  obtain r where out: "ec_outcome None (ec_parse_filename ?lib None) (rev (sort (map fst gs))) r"
    and cl: "clean_dir ?ops (de_clean env) path (Files gs) =
      (dir_of (keep_files (kept_names (de_clean env) path r (map fst gs)) gs), Inr ())"
    by (rule clean_dir_ec [OF names(1) leg, of ?lib order "de_clean env" path]) (rule that)
  define hs where "hs = keep_files (kept_names (de_clean env) path r (map fst gs)) gs"
  have same: "set (infos p (rev (sort xs))) = set (infos p xs)" for p :: "string \<Rightarrow> pyexc + 't finfo" and xs
    by (auto simp: in_infos)
  have "new \<in> set (map fst gs)" by (simp add: names(2) del: set_map)
  with durable_kept [of "ec_parse_filename ?lib None" "rev (sort (map fst gs))" t ?i r "de_clean env" path] newer dur out
  have kept: "new \<in> set (kept_names (de_clean env) path r (map fst gs))" by (simp add: same kept_names_def)
  then have hs1: "map_of hs new = Some f" by (simp add: hs_def map_of_keep_files) (simp add: gs_def)
  then have "hs \<noteq> []" by auto
  with hs1 have hs: "map_of hs new = Some f" "dir_of hs = Files hs" by (simp_all add: dir_of_def)
  have hs_names: "map fst hs = kept_names (de_clean env) path r (map fst gs)" by (simp add: hs_def names_keep_files)
  then have sub: "set (map fst hs) \<subseteq> set (map fst gs)" and legh: "no_legacy (map fst hs)"
    using leg by (auto simp: kept_names_def no_legacy_def list_all_iff)
  have chosen: "\<exists>r d. get_ondisk_files (ec_ops ?lib args) (map fst hs) path True = Inr r \<and>
      r_data_info r = Some d \<and> fi_timestamp d = t \<and> is_durable d"
    if args: "ea_policy args = Some policy" "ea_frag_prefs args = None" "ea_frag_index args \<in> {None, Some n}" for args
  proof -
    obtain r' where run: "\<And>verify. get_ondisk_files (ec_ops ?lib args) (map fst hs) path verify = Inr r'"
      and out: "ec_outcome (ea_frag_index args) (ec_parse_filename ?lib (ea_policy args)) (map fst hs) r'"
      by (rule ec_run [OF args(2) legh, of ?lib path]) (rule that)
    have "set (infos (ec_parse_filename ?lib (Some policy)) (map fst hs)) \<subseteq> set (infos (ec_parse_filename ?lib None) (map fst gs))"
      using infos_without_policy [of ?lib "Some policy" "map fst hs"] sub by (fastforce simp: in_infos simp del: set_map)
    with newer have "none_newer (set (infos (ec_parse_filename ?lib (Some policy)) (map fst hs))) t"
      by (auto simp: none_newer_def)
    from durable_chosen [OF this dur out [unfolded args(1)]] kept hs_names args(3) run show ?thesis by auto
  qed
  have ren: "rename_in data_file new None (Files fs) = Inr (Files gs)" by (simp add: rename_in_def assms(10) gs_def)
  define link where "link = (case od_other s of NextPower d \<Rightarrow> rename_in data_file new (co_rename_next co) d | _ \<Rightarrow> Inl 0)"
  define other where "other = (case (od_other s, link) of (NextPower d, Inr d') \<Rightarrow> NextPower d' | (x, _) \<Rightarrow> x)"
  define bad where "bad = (case (od_other s, link) of (NextPower d, Inl e) \<Rightarrow> True | _ \<Rightarrow> False)"
  have "ec_relink_ok other"
    using assms(8) rename_in_ok [of _ new data_file "co_rename_next co"] ext
    by (auto simp: other_def link_def split: relink.split sum.split)
  from clean_other_ec_returns [OF this] obtain x where x: "clean_other ?ops (de_clean env) path other = (x, Inr ())"
    by (metis prod.collapse)
  have dr: "durable_rename co data_file new s = (s\<lparr>od_dir := Files gs, od_other := other\<rparr>, Inr bad)"
    using ren assms(5,12,13) by (cases "od_other s") (auto simp: durable_rename_def other_def bad_def link_def split: sum.split)
  have "ec_commit order env co policy path (Some n) t s =
      (s\<lparr>od_dir := Files hs, od_other := x\<rparr>, if bad then Inl UnboundLocalError else Inr ())"
    using cl x hs(2) by (simp add: ec_commit_def frag_str_def assms(9) new finalize_durable_def dr Let_def flip: hs_def)
  moreover have "(if bad then Inl UnboundLocalError else Inr ()) = (case od_other s of
      NextPower d \<Rightarrow> (case rename_in data_file new (co_rename_next co) d of Inl e \<Rightarrow> Inl UnboundLocalError | Inr d' \<Rightarrow> Inr ())
    | _ \<Rightarrow> Inr ())"
    by (auto simp: bad_def link_def split: relink.split sum.split)
  ultimately show ?thesis
    using new hs(1) chosen by (intro exI [of _ "s\<lparr>od_dir := Files hs, od_other := x\<rparr>"] exI [of _ hs] exI [of _ new]) simp
qed

text \<open>C27: Committing a fragment that was put, newer than everything else in its directory, makes the object durable:
  the file has its new name with its contents, and opening the directory from then on chooses a durable
  fragment of that time, whether asked for this fragment or for none.
\<close>

theorem commit_makes_durable:
  fixes env :: "'t :: {linorder, order_bot} df_env"
  assumes "internal_ok (de_lib env) t" and "CHR ''#'' \<notin> set (ts_internal (de_lib env) t)" and "0 \<le> n" and "n < policy"
    and "od_dir s = Files fs" and "distinct (map fst fs)" and "no_legacy (map fst fs)" and "od_other s = NoPower"
    and "ec_make_filename (de_lib env) t (Some ''.data'') (str_int n) None False = Inr data_file"
    and "map_of fs data_file = Some f" and "none_newer (set (infos (ec_parse_filename (de_lib env) None) (map fst fs))) t"
    and "co_rename co = None" and "co_fsync co = None"
  shows "\<exists>s' fs' durable_file.
     ec_commit order env co policy path (Some n) t s = (s', Inr ()) \<and>
     ec_make_filename (de_lib env) t (Some ''.data'') (str_int n) None True = Inr durable_file \<and>
     od_dir s' = Files fs' \<and> map_of fs' durable_file = Some f \<and>
     (\<forall>args. ea_policy args = Some policy \<longrightarrow> ea_frag_prefs args = None \<longrightarrow> ea_frag_index args \<in> {None, Some n} \<longrightarrow>
       (\<exists>r d. get_ondisk_files (ec_ops (de_lib env) args) (map fst fs') path True = Inr r \<and>
          r_data_info r = Some d \<and> fi_timestamp d = t \<and> is_durable d))"
  using commit_runs [OF assms(1-7) _ assms(9-13), of order path] by (simp add: assms(8))

text \<open>While the partition power is being raised, a commit whose link at the next power can not be renamed (for
  example because it is not there) makes the object durable, but raises \<^verbatim>\<open>UnboundLocalError\<close>.
\<close>

theorem failed_link_commit_raises:
  fixes env :: "'t :: {linorder, order_bot} df_env"
  assumes "internal_ok (de_lib env) t" and "CHR ''#'' \<notin> set (ts_internal (de_lib env) t)" and "0 \<le> n" and "n < policy"
    and "od_dir s = Files fs" and "distinct (map fst fs)" and "no_legacy (map fst fs)" and "od_other s = NextPower Missing"
    and "ec_make_filename (de_lib env) t (Some ''.data'') (str_int n) None False = Inr data_file"
    and "map_of fs data_file = Some f" and "none_newer (set (infos (ec_parse_filename (de_lib env) None) (map fst fs))) t"
    and "co_rename co = None" and "co_fsync co = None"
  shows "\<exists>s' fs' durable_file.
     ec_commit order env co policy path (Some n) t s = (s', Inl UnboundLocalError) \<and>
     ec_make_filename (de_lib env) t (Some ''.data'') (str_int n) None True = Inr durable_file \<and>
     od_dir s' = Files fs' \<and> map_of fs' durable_file = Some f"
proof -
  have "rename_in old new err Missing = Inl (case err of None \<Rightarrow> ENOENT | Some e \<Rightarrow> e)" for old new err
    by (simp add: rename_in_def split: option.split)
  then show ?thesis
    using commit_runs [OF assms(1-7) _ assms(9-13), of order path] by (fastforce simp: assms(8))
qed

text \<open>Purging.\<close>

lemma map_of_remove_name:
  "map_of (files_in (remove_name n d)) = (map_of (files_in d))(n := None)"
  by (cases d) (auto simp: remove_name_def files_in_def delete_conv')

lemma files_in_remove_empty [simp]: "files_in (remove_empty d) = files_in d"
  by (cases d) (auto simp: remove_empty_def files_in_def split: list.split)

text \<open>C40: Purging a fragment removes the durable file of that time and index, removes the non-durable one only if it
  is older than the delay, and touches no file other than these and the tombstone (and \<^verbatim>\<open>.meta\<close> file)
  asked for; the suffix is invalidated once.
\<close>

theorem purge_removes_only_fragment:
  assumes "0 \<le> n" and "ec_make_filename lib t (Some ''.data'') (str_int n) None False = Inr data_file"
    and "ec_make_filename lib t (Some ''.data'') (str_int n) None True = Inr durable_file"
  shows "\<exists>s'. ec_purge lib path older t (Some n) meta s = (s', Inr ()) \<and> od_invalidated s' = od_invalidated s + 1 \<and>
     (\<forall>name. map_of (files_in (od_dir s')) name =
        (if name = base_make_filename lib t (Some ''.ts'') None \<or> name = durable_file \<or>
            (name = data_file \<and> older (join path data_file)) \<or>
            (\<exists>m. meta = Some m \<and> name = base_make_filename lib m (Some ''.meta'') None)
         then None else map_of (files_in (od_dir s)) name))"
  using assms by (cases meta) (simp_all add: ec_purge_def Let_def map_of_remove_name)

section \<open>Committing, on an example\<close>

definition sample_commit :: commit_os where
  "sample_commit = \<lparr>co_rename = None, co_fsync = None, co_rename_next = None\<rparr>"

definition sample_fragment :: stored where
  "sample_fragment = \<lparr>st_body = ''frag'', st_md = Inr [(''X-Timestamp'', ''7'')], st_open_error = None\<rparr>"

definition sample_archive :: "(string \<times> stored) list" where
  "sample_archive = [(''7#2.data'', sample_fragment), (''3#2#d.data'', sample_fragment), (''1.ts'', sample_fragment)]"

definition sample_archive_disk :: "relink \<Rightarrow> odisk" where
  "sample_archive_disk other = \<lparr>od_dir = Files sample_archive, od_other = other, od_invalidated = 0, od_use_linkat = True\<rparr>"

lemma sample_archive_ok:
  "internal_ok (de_lib sample_df_env) 7" "CHR ''#'' \<notin> set (ts_internal (de_lib sample_df_env) 7)"
  "distinct (map fst sample_archive)" "no_legacy (map fst sample_archive)" "map_of sample_archive ''7#2.data'' = Some sample_fragment"
  "ec_make_filename (de_lib sample_df_env) 7 (Some ''.data'') (str_int 2) None False = Inr ''7#2.data''"
  "none_newer (set (infos (ec_parse_filename (de_lib sample_df_env) None) (map fst sample_archive))) 7"
  "co_rename sample_commit = None" "co_fsync sample_commit = None"
  using sample_internal(1) str_nat_chars(4)
  by (simp_all add: sample_archive_def sample_commit_def sample_df_env_def sample_lib_def none_newer_def) code_simp+

theorem commit_makes_durable_witness:
  "\<exists>s' fs' r d. ec_commit rev sample_df_env sample_commit 6 ''/d'' (Some 2) 7 (sample_archive_disk NoPower) = (s', Inr ()) \<and>
     od_dir s' = Files fs' \<and> get_ondisk_files (ec_ops sample_lib sample_args) (map fst fs') ''/d'' True = Inr r \<and>
     r_data_info r = Some d \<and> fi_timestamp d = 7"
proof -
  have d: "od_dir (sample_archive_disk NoPower) = Files sample_archive" "od_other (sample_archive_disk NoPower) = NoPower"
    by (simp_all add: sample_archive_disk_def)
  have l: "de_lib sample_df_env = sample_lib" by (simp add: sample_df_env_def)
  have a: "ea_policy sample_args = Some 6" "ea_frag_prefs sample_args = None" "ea_frag_index sample_args = None"
    by (simp_all add: sample_args_def)
  obtain s' fs' where "ec_commit rev sample_df_env sample_commit 6 ''/d'' (Some 2) 7 (sample_archive_disk NoPower) = (s', Inr ())"
    "od_dir s' = Files fs'"
    "\<exists>r d. get_ondisk_files (ec_ops sample_lib sample_args) (map fst fs') ''/d'' True = Inr r \<and>
       r_data_info r = Some d \<and> fi_timestamp d = 7 \<and> is_durable d"
    using commit_makes_durable [OF sample_archive_ok(1,2) _ _ d(1) sample_archive_ok(3,4) d(2) sample_archive_ok(6,5,7,8,9),
        of 6 rev "''/d''"] a
    unfolding l by auto
  then show ?thesis by blast
qed

theorem failed_link_commit_raises_witness:
  "\<exists>s'. ec_commit rev sample_df_env sample_commit 6 ''/d'' (Some 2) 7 (sample_archive_disk (NextPower Missing)) = (s', Inl UnboundLocalError)"
proof -
  have d: "od_dir (sample_archive_disk (NextPower Missing)) = Files sample_archive"
    "od_other (sample_archive_disk (NextPower Missing)) = NextPower Missing"
    by (simp_all add: sample_archive_disk_def)
  show ?thesis
    using failed_link_commit_raises [OF sample_archive_ok(1,2) _ _ d(1) sample_archive_ok(3,4) d(2) sample_archive_ok(6,5,7,8,9),
        of 6 rev "''/d''"] by auto
qed

theorem purge_removes_only_fragment_witness:
  "\<exists>s'. ec_purge sample_lib ''/d'' (\<lambda>p. False) 7 (Some 2) None (sample_archive_disk NoPower) = (s', Inr ()) \<and>
     map_of (files_in (od_dir s')) ''7#2.data'' = Some sample_fragment"
proof -
  have f: "ec_make_filename sample_lib 7 (Some ''.data'') (str_int 2) None False = Inr ''7#2.data''"
    "ec_make_filename sample_lib 7 (Some ''.data'') (str_int 2) None True = Inr ''7#2#d.data''"
    "base_make_filename sample_lib 7 (Some ''.ts'') None = ''7.ts''" by code_simp+
  show ?thesis
    using purge_removes_only_fragment [OF _ f(1,2), of "''/d''" "\<lambda>p. False" None "sample_archive_disk NoPower"]
    by (auto simp: f(3) sample_archive_disk_def sample_archive_def files_in_def)
qed

end
