(* ===== verification/Hashes.thy ===== *)
theory Hashes
  imports ErasureCoded
begin

text \<open>
  Suffix hashes of \<^verbatim>\<open>swift_patches/obj/bs_diskfile.py\<close>: the files \<^verbatim>\<open>hashes.pkl\<close> and \<^verbatim>\<open>hashes.invalid\<close> of a
  partition, hashing a suffix directory (which also cleans it up), and \<^verbatim>\<open>get_hashes\<close>.  Nothing else
  writes to the partition while \<^verbatim>\<open>get_hashes\<close> runs, so its retry after a change of \<^verbatim>\<open>hashes.pkl\<close> is modelled and never taken.
\<close>

section \<open>The two files\<close>

text \<open>
  The values in \<^verbatim>\<open>hashes.pkl\<close>: \<^verbatim>\<open>None\<close> for a suffix to hash again, a digest (replication) or digests by
  fragment index (EC), the flag \<^verbatim>\<open>valid\<close> and the time \<^verbatim>\<open>updated\<close>.
\<close>

datatype hval = HNone | HHash string | HDict "(int option \<times> string) list" | HBool bool | HTime int

type_synonym hashes = "(string, hval) dict"

text \<open>
  A suffix directory: its entries are object directories or something that can not be listed, with the
  errno of listing it.
\<close>

type_synonym entry = "string list + int"
type_synonym suffix_dir = "(string \<times> entry) list"

text \<open>
  A partition: \<^verbatim>\<open>hashes.pkl\<close> (\<open>None\<close> when it can not be read or unpickled), the text of
  \<^verbatim>\<open>hashes.invalid\<close> (\<open>None\<close>: no such file), and the directories in it.
\<close>

record part =
  pt_pkl :: "hashes option"
  pt_inv :: "string option"
  pt_dirs :: "(string, suffix_dir) dict"

definition valid_suffix :: "string \<Rightarrow> bool" where
  "valid_suffix value \<longleftrightarrow> length value = 3 \<and> list_all (\<lambda>c. c \<in> set ''0123456789abcdef'') value"

definition read_hashes :: "part \<Rightarrow> hashes" where
  "read_hashes p =
     (let hashes = (case pt_pkl p of None \<Rightarrow> [(''valid'', HBool False)] | Some h \<Rightarrow> h)
      in if \<not> list_all (\<lambda>k. valid_suffix k \<or> k \<in> {''valid'', ''updated''}) (map fst hashes)
         then [(''valid'', HBool False)]
         else dict_setdefault ''updated'' (HTime (-1)) (dict_setdefault ''valid'' (HBool True) hashes))"

text \<open>The dictionary is changed in place, so it is part of the result.\<close>

definition write_hashes :: "int \<Rightarrow> part \<Rightarrow> hashes \<Rightarrow> part \<times> hashes" where
  "write_hashes now p hashes =
     (let hashes = AList.update ''updated'' (HTime now) (dict_setdefault ''valid'' (HBool False) hashes)
      in (p\<lparr>pt_pkl := Some hashes\<rparr>, hashes))"

text \<open>The lines of a file in text mode, with their ends; a carriage return ends a line too.\<close>

fun text_lines :: "string \<Rightarrow> string list" where
  "text_lines [] = []"
| "text_lines (c # s) =
     (if c = CHR 0x0D \<and> take 1 s = [CHR 0x0A] then text_lines s
      else if c = CHR 0x0A \<or> c = CHR 0x0D then [CHR 0x0A] # text_lines s
      else case text_lines s of [] \<Rightarrow> [[c]] | l # ls \<Rightarrow> (c # l) # ls)"

definition inv_text :: "part \<Rightarrow> string" where
  "inv_text p = (case pt_inv p of None \<Rightarrow> [] | Some s \<Rightarrow> s)"

definition inv_suffixes :: "part \<Rightarrow> string list" where
  "inv_suffixes p = filter valid_suffix (map strip (text_lines (inv_text p)))"

definition consolidate_hashes :: "int \<Rightarrow> part \<Rightarrow> part \<times> hashes" where
  "consolidate_hashes now p =
     (let hashes = read_hashes p;
          found_invalidation_entry = (text_lines (inv_text p) \<noteq> []);
          hashes_updated = (inv_suffixes p \<noteq> []);
          hashes = fold (\<lambda>s. AList.update s HNone) (inv_suffixes p) hashes;
          (p, hashes) = (if hashes_updated then write_hashes now p hashes else (p, hashes));
          p = (if found_invalidation_entry then p\<lparr>pt_inv := Some []\<rparr> else p)
      in (p, hashes))"

definition invalidate_hash :: "string \<Rightarrow> part \<Rightarrow> part" where
  "invalidate_hash suffix_dir p =
     p\<lparr>pt_inv := Some (inv_text p @ basename suffix_dir @ [CHR 0x0A])\<rparr>"

section \<open>Hashing a suffix directory\<close>

text \<open>
  The digests are collected by a key (\<^verbatim>\<open>None\<close>, or a fragment index) in a dictionary of hashers; here the
  strings fed to each.
\<close>

type_synonym hashers = "(int option, string) dict"

definition feed :: "int option \<Rightarrow> string \<Rightarrow> hashers \<Rightarrow> hashers" where
  "feed k s d = AList.update k (dict_get d k [] @ s) d"

definition repl_update_suffix_hashes :: "'t ts_lib \<Rightarrow> hashers \<Rightarrow> 't results \<Rightarrow> pyexc + hashers" where
  "repl_update_suffix_hashes lib hashes info =
     Inr (case r_data_info info of
            None \<Rightarrow> hashes
          | Some i \<Rightarrow> feed None (ts_internal lib (fi_timestamp i) @ fi_ext i) hashes)"

definition ec_update_suffix_hashes :: "'t ts_lib \<Rightarrow> hashers \<Rightarrow> 't results \<Rightarrow> pyexc + hashers" where
  "ec_update_suffix_hashes lib hashes info =
     (case r_frag_sets info of
        None \<Rightarrow> Inl KeyError
      | Some sets \<Rightarrow>
          (let hashes = fold (\<lambda>i. feed (fi_frag i) (ts_internal lib (fi_timestamp i))) (concat (map snd sets)) hashes
           in case r_durable_frag_set info of
                None \<Rightarrow> Inr hashes
              | Some None \<Rightarrow> Inl TypeError
              | Some (Some []) \<Rightarrow> Inl IndexError
              | Some (Some (i # is)) \<Rightarrow> Inr (feed None (ts_internal lib (fi_timestamp i) @ ''.durable'') hashes)))"

definition feed_info :: "'t ts_lib \<Rightarrow> 't finfo option \<Rightarrow> hashers \<Rightarrow> hashers" where
  "feed_info lib info hashes =
     (case info of None \<Rightarrow> hashes | Some i \<Rightarrow> feed None (ts_internal lib (fi_timestamp i) @ fi_ext i) hashes)"

definition feed_ctype :: "'t ts_lib \<Rightarrow> 't finfo option \<Rightarrow> hashers \<Rightarrow> hashers" where
  "feed_ctype lib info hashes =
     (case info of None \<Rightarrow> hashes
      | Some i \<Rightarrow> (case fi_ctype i of None \<Rightarrow> hashes | Some c \<Rightarrow> feed None (ts_internal lib c @ ''_ctype'') hashes))"

text \<open>What a policy brings: its on-disk operations, its update of the hashers, and what it makes of them.\<close>

record 't hasher =
  ha_ops :: "'t policy_ops"
  ha_lib :: "'t ts_lib"
  ha_update :: "hashers \<Rightarrow> 't results \<Rightarrow> pyexc + hashers"
  ha_result :: "hashers \<Rightarrow> hval"

definition object_hash ::
  "'t hasher \<Rightarrow> 't results \<Rightarrow> hashers \<Rightarrow> pyexc + hashers" where
  "object_hash ha info hashes =
     try_then (ha_update ha (feed_info (ha_lib ha) (r_ts_info info) (feed_info (ha_lib ha) (r_meta_info info) hashes)) info)
       (\<lambda>hashes. Inr (feed_ctype (ha_lib ha) (r_ctype_info info) hashes))"

text \<open>
  The loop over the sorted entries: an entry that can not be listed is quarantined, which moves it away
  and invalidates the suffix (the number in the result counts this), or the error is raised.  The other
  results are the entries left and the hashers or the exception.
\<close>

fun hash_entries ::
  "'t :: {linorder, order_bot} hasher \<Rightarrow> 't clean_env \<Rightarrow> string \<Rightarrow> suffix_dir \<Rightarrow> hashers
     \<Rightarrow> suffix_dir \<times> nat \<times> (pyexc + hashers)" where
  "hash_entries ha env path [] hashes = ([], 0, Inr hashes)"
| "hash_entries ha env path ((hsh, Inr e) # es) hashes =
     (if e \<in> {ENOTDIR, ENODATA, EUCLEAN}
      then (let (es, n, r) = hash_entries ha env path es hashes in (es, Suc n, r))
      else ((hsh, Inr e) # es, 0, Inl (OSError e)))"
| "hash_entries ha env path ((hsh, Inl names) # es) hashes =
     (let (dir, r) = cleanup_ondisk_files (ha_ops ha) env (join path hsh) (Some names);
          here = (case dir of None \<Rightarrow> [] | Some names \<Rightarrow> [(hsh, Inl names)])
      in case r of
           Inl e \<Rightarrow> (here @ es, 0, Inl e)
         | Inr (info, files) \<Rightarrow>
             (case (if files = [] then Inr hashes else object_hash ha info hashes) of
                Inl e \<Rightarrow> (here @ es, 0, Inl e)
              | Inr hashes \<Rightarrow> (let (es, n, r) = hash_entries ha env path es hashes in (here @ es, n, r))))"

text \<open>\<open>None\<close> for a suffix directory that does not exist; an emptied one is removed.\<close>

definition hash_suffix_dir ::
  "'t :: {linorder, order_bot} hasher \<Rightarrow> 't clean_env \<Rightarrow> string \<Rightarrow> suffix_dir option
     \<Rightarrow> suffix_dir option \<times> nat \<times> (pyexc + hashers)" where
  "hash_suffix_dir ha env path dir =
     (case dir of
        None \<Rightarrow> (None, 0, Inl PathNotDir)
      | Some es \<Rightarrow>
          (let (es, n, r) = hash_entries ha env path (sort_key fst es) []
           in case r of
                Inl e \<Rightarrow> (Some es, n, Inl e)
              | Inr hashes \<Rightarrow> if es = [] then (None, n, Inl PathNotDir) else (Some es, n, Inr hashes)))"

definition hash_suffix ::
  "'t :: {linorder, order_bot} hasher \<Rightarrow> 't clean_env \<Rightarrow> string \<Rightarrow> suffix_dir option
     \<Rightarrow> suffix_dir option \<times> nat \<times> (pyexc + hval)" where
  "hash_suffix ha env path dir =
     (let (dir, n, r) = hash_suffix_dir ha env path dir in (dir, n, map_sum id (ha_result ha) r))"

definition repl_hasher :: "'t :: {linorder, order_bot} ts_lib \<Rightarrow> (string \<Rightarrow> string) \<Rightarrow> 't hasher" where
  "repl_hasher lib md5 = \<lparr>ha_ops = repl_ops lib, ha_lib = lib, ha_update = repl_update_suffix_hashes lib,
     ha_result = (\<lambda>d. HHash (md5 (dict_get d None [])))\<rparr>"

definition ec_hasher :: "'t :: {linorder, order_bot} ts_lib \<Rightarrow> 't ec_args \<Rightarrow> (string \<Rightarrow> string) \<Rightarrow> 't hasher" where
  "ec_hasher lib args md5 = \<lparr>ha_ops = ec_ops lib args, ha_lib = lib, ha_update = ec_update_suffix_hashes lib,
     ha_result = (\<lambda>d. HDict (map (\<lambda>(fi, s). (fi, md5 s)) d))\<rparr>"

section \<open>get_hashes\<close>

text \<open>The value is falsy: \<^verbatim>\<open>None\<close>, an empty digest or dictionary, false, zero.\<close>

fun falsy :: "hval \<Rightarrow> bool" where
  "falsy HNone = True"
| "falsy (HHash s) = (s = [])"
| "falsy (HDict d) = (d = [])"
| "falsy (HBool b) = (\<not> b)"
| "falsy (HTime t) = (t = 0)"

definition set_dir :: "string \<Rightarrow> suffix_dir option \<Rightarrow> part \<Rightarrow> part" where
  "set_dir suffix dir p = p\<lparr>pt_dirs := (case dir of None \<Rightarrow> AList.delete suffix (pt_dirs p)
     | Some d \<Rightarrow> AList.update suffix d (pt_dirs p))\<rparr>"

text \<open>
  The loop over the suffixes: the partition, the dictionary, the number hashed, and whether anything
  was hashed; exceptions other than \<^verbatim>\<open>PathNotDir\<close> and \<^verbatim>\<open>OSError\<close> end it.
\<close>

fun hash_suffixes ::
  "'t :: {linorder, order_bot} hasher \<Rightarrow> 't clean_env \<Rightarrow> string \<Rightarrow> (string \<times> hval) list
     \<Rightarrow> part \<Rightarrow> hashes \<Rightarrow> nat \<Rightarrow> bool \<Rightarrow> part \<times> (pyexc + (hashes \<times> nat \<times> bool))" where
  "hash_suffixes ha env pdir [] p hashes hashed modified = (p, Inr (hashes, hashed, modified))"
| "hash_suffixes ha env pdir ((suffix, h) # items) p hashes hashed modified =
     (if suffix \<in> {''valid'', ''updated''} \<or> \<not> falsy h
      then hash_suffixes ha env pdir items p hashes hashed modified
      else (let (dir, n, r) = hash_suffix ha env (join pdir suffix) (map_of (pt_dirs p) suffix);
                p = (invalidate_hash (join pdir suffix) ^^ n) (set_dir suffix dir p)
            in case r of
                 Inr v \<Rightarrow> hash_suffixes ha env pdir items p (AList.update suffix v hashes) (Suc hashed) True
               | Inl PathNotDir \<Rightarrow> hash_suffixes ha env pdir items p (AList.delete suffix hashes) hashed True
               | Inl (OSError e) \<Rightarrow> hash_suffixes ha env pdir items p hashes hashed True
               | Inl e \<Rightarrow> (p, Inl e)))"

text \<open>
  One round of \<^verbatim>\<open>__get_hashes\<close> up to the lock: what it read (\<open>orig_hashes\<close>), and what it found.  The
  exception handling around \<^verbatim>\<open>consolidate_hashes\<close> is for errors of the files, which are not modelled.
\<close>

definition rehash_start :: "int \<Rightarrow> string list \<Rightarrow> bool \<Rightarrow> part \<Rightarrow> part \<times> hashes \<times> hashes \<times> bool" where
  "rehash_start now recalculate do_listdir p =
     (let (p, orig_hashes) = consolidate_hashes now p;
          valid = (\<not> falsy (dict_get orig_hashes ''valid'' (HBool False)));
          do_listdir = (do_listdir \<or> \<not> valid);
          hashes = (if valid then orig_hashes else [(''valid'', HBool True)]);
          orig_hashes = (if valid then orig_hashes else read_hashes p);
          hashes = (if do_listdir
                    then fold (\<lambda>suff h. if length suff = 3 then dict_setdefault suff HNone h else h)
                           (map fst (pt_dirs p)) hashes
                    else hashes);
          hashes = fold (\<lambda>suffix. AList.update suffix HNone) recalculate hashes
      in (p, orig_hashes, hashes, do_listdir))"

text \<open>Under the lock: write only if \<^verbatim>\<open>hashes.pkl\<close> is still what was read.\<close>

definition rehash_commit :: "int \<Rightarrow> hashes \<Rightarrow> hashes \<Rightarrow> part \<Rightarrow> (part \<times> hashes) option" where
  "rehash_commit now orig_hashes hashes p =
     (if dict_eq (read_hashes p) orig_hashes then Some (write_hashes now p hashes) else None)"

text \<open>\<^verbatim>\<open>__get_hashes\<close> with nothing in between; the recursion on a lost race is bounded by \<open>fuel\<close>.\<close>

fun get_hashes ::
  "nat \<Rightarrow> 't :: {linorder, order_bot} hasher \<Rightarrow> 't clean_env \<Rightarrow> int \<Rightarrow> string \<Rightarrow> string list \<Rightarrow> bool \<Rightarrow> part
     \<Rightarrow> (part \<times> (pyexc + (nat \<times> hashes))) option" where
  "get_hashes 0 ha env now pdir recalculate do_listdir p = None"
| "get_hashes (Suc fuel) ha env now pdir recalculate do_listdir p =
     (let (p, orig_hashes, hashes, listed) = rehash_start now recalculate do_listdir p
      in case hash_suffixes ha env pdir hashes p hashes 0 listed of
           (p, Inl e) \<Rightarrow> Some (p, Inl e)
         | (p, Inr (hashes, hashed, modified)) \<Rightarrow>
             if modified
             then (case rehash_commit now orig_hashes hashes p of
                     Some (p, hashes) \<Rightarrow> Some (p, Inr (hashed, hashes))
                   | None \<Rightarrow> get_hashes fuel ha env now pdir recalculate (do_listdir \<or> listed) p)
             else Some (p, Inr (hashed, hashes)))"

text \<open>\<^verbatim>\<open>_get_hashes\<close>: without the two keys that are not suffixes.\<close>

definition public_hashes :: "hashes \<Rightarrow> hashes" where
  "public_hashes h = AList.delete ''valid'' (AList.delete ''updated'' h)"


section \<open>Reading back what was written\<close>

definition hashes_ok :: "hashes \<Rightarrow> bool" where
  "hashes_ok h \<longleftrightarrow> (\<forall>k \<in> set (map fst h). valid_suffix k \<or> k = ''valid'' \<or> k = ''updated'')"

lemma hashes_ok_update [simp]:
  "hashes_ok h \<Longrightarrow> valid_suffix k \<or> k = ''valid'' \<or> k = ''updated'' \<Longrightarrow> hashes_ok (AList.update k v h)"
  by (auto simp: hashes_ok_def dom_update image_iff)

lemma hashes_ok_setdefault [simp]:
  "hashes_ok h \<Longrightarrow> valid_suffix k \<or> k = ''valid'' \<or> k = ''updated'' \<Longrightarrow> hashes_ok (dict_setdefault k v h)"
  by (auto simp: dict_setdefault_def split: option.split)

lemma read_hashes_alt:
  "read_hashes p =
     (let h = (case pt_pkl p of None \<Rightarrow> [(''valid'', HBool False)] | Some h \<Rightarrow> h)
      in if hashes_ok h then dict_setdefault ''updated'' (HTime (-1)) (dict_setdefault ''valid'' (HBool True) h)
         else [(''valid'', HBool False)])"
  by (auto simp: read_hashes_def Let_def list_all_iff hashes_ok_def)

lemma hashes_ok_read [simp]: "hashes_ok (read_hashes p)"
proof -
  have "hashes_ok [(''valid'', HBool False)]" by (simp add: hashes_ok_def)
  then show ?thesis by (simp add: read_hashes_alt Let_def)
qed

lemma dict_setdefault_present: "map_of d k \<noteq> None \<Longrightarrow> dict_setdefault k v d = d"
  by (auto simp: dict_setdefault_def split: option.split)

lemma dict_setdefault_some [simp]: "map_of (dict_setdefault k v d) k' = None \<longleftrightarrow> k' \<noteq> k \<and> map_of d k' = None"
  by (auto simp: map_of_dict_setdefault split: option.split)

lemma write_read:
  assumes "hashes_ok h"
  shows "read_hashes (fst (write_hashes now p h)) = snd (write_hashes now p h)"
proof -
  let ?h = "snd (write_hashes now p h)"
  have ok: "hashes_ok ?h" using assms by (simp add: write_hashes_def Let_def)
  moreover have "map_of ?h ''valid'' \<noteq> None" "map_of ?h ''updated'' \<noteq> None"
    by (simp_all add: write_hashes_def Let_def)
  moreover have "pt_pkl (fst (write_hashes now p h)) = Some ?h" by (simp add: write_hashes_def Let_def)
  ultimately show ?thesis by (simp add: read_hashes_alt dict_setdefault_present)
qed

lemma write_hashes_simps [simp]:
  "pt_pkl (fst (write_hashes now p h)) = Some (snd (write_hashes now p h))"
  "pt_inv (fst (write_hashes now p h)) = pt_inv p"
  "pt_dirs (fst (write_hashes now p h)) = pt_dirs p"
  by (simp_all add: write_hashes_def Let_def)

lemma map_of_write:
  "map_of (snd (write_hashes now p h)) k =
     (if k = ''updated'' then Some (HTime now)
      else if k = ''valid'' \<and> map_of h k = None then Some (HBool False) else map_of h k)"
  by (auto simp: write_hashes_def Let_def map_of_dict_setdefault split: option.split)

lemma read_hashes_cong: "pt_pkl p = pt_pkl q \<Longrightarrow> read_hashes p = read_hashes q"
  by (simp add: read_hashes_def)

lemma read_hashes_inv [simp]: "read_hashes (p\<lparr>pt_inv := i\<rparr>) = read_hashes p" 
  "read_hashes (p\<lparr>pt_dirs := d\<rparr>) = read_hashes p"
  by (simp_all add: read_hashes_def)

definition none_suffixes :: "string list \<Rightarrow> hashes \<Rightarrow> hashes" where
  "none_suffixes ss h = fold (\<lambda>s. AList.update s HNone) ss h"

lemma map_of_none_suffixes: "map_of (none_suffixes ss h) k = (if k \<in> set ss then Some HNone else map_of h k)"
  by (induction ss arbitrary: h) (auto simp: none_suffixes_def)

lemma hashes_ok_none_suffixes: "hashes_ok h \<Longrightarrow> (\<And>s. s \<in> set ss \<Longrightarrow> valid_suffix s) \<Longrightarrow> hashes_ok (none_suffixes ss h)"
  by (induction ss arbitrary: h) (auto simp: none_suffixes_def)

lemma inv_suffixes_valid: "s \<in> set (inv_suffixes p) \<Longrightarrow> valid_suffix s"
  by (simp add: inv_suffixes_def)

lemma inv_suffixes_emptied [simp]: "inv_suffixes (p\<lparr>pt_inv := Some []\<rparr>) = []"
  by (simp add: inv_suffixes_def inv_text_def)

lemma no_lines: "text_lines s = [] \<longleftrightarrow> s = []"
  by (induction s rule: text_lines.induct) (auto split: list.split)

lemma text_lines_line:
  "list_all (\<lambda>c. \<not> py_space c) x \<Longrightarrow> text_lines (x @ CHR 0x0A # s) = (x @ [CHR 0x0A]) # text_lines s"
  by (induction x) (auto simp: py_space_def)

lemma consolidate_eq:
  "consolidate_hashes now p =
     (let (q, h) = (if inv_suffixes p = [] then (p, read_hashes p)
                    else write_hashes now p (none_suffixes (inv_suffixes p) (read_hashes p)))
      in (if pt_inv p = None \<or> pt_inv p = Some [] then q else q\<lparr>pt_inv := Some []\<rparr>, h))"
  by (auto simp: consolidate_hashes_def Let_def none_suffixes_def split_def no_lines inv_text_def split: option.split list.split)

lemma inv_suffixes_none: "pt_inv p = None \<or> pt_inv p = Some [] \<Longrightarrow> inv_suffixes p = []"
  by (auto simp: inv_suffixes_def inv_text_def)

lemma consolidate_read: "read_hashes (fst (consolidate_hashes now p)) = snd (consolidate_hashes now p)"
proof -
  have "hashes_ok (none_suffixes (inv_suffixes p) (read_hashes p))"
    by (simp add: hashes_ok_none_suffixes inv_suffixes_valid)
  then show ?thesis by (simp add: consolidate_eq split_def Let_def write_read)
qed

lemma consolidate_simps:
  "map_of (snd (consolidate_hashes now p)) k =
     (if k \<in> set (inv_suffixes p) then Some HNone
      else if k = ''updated'' \<and> inv_suffixes p \<noteq> [] then Some (HTime now)
      else if k = ''valid'' \<and> map_of (read_hashes p) k = None \<and> inv_suffixes p \<noteq> [] then Some (HBool False)
      else map_of (read_hashes p) k)"
proof -
  have "''valid'' \<notin> set (inv_suffixes p)" "''updated'' \<notin> set (inv_suffixes p)"
    using inv_suffixes_valid [of "''valid''" p] inv_suffixes_valid [of "''updated''" p] by (auto simp: valid_suffix_def)
  then show ?thesis
    by (auto simp: consolidate_eq split_def Let_def map_of_write map_of_none_suffixes)
qed

lemma consolidate_inv: "inv_suffixes (fst (consolidate_hashes now p)) = []"
proof (cases "inv_suffixes p = []")
  case True
  then show ?thesis by (simp add: consolidate_eq)
next
  case False
  then have "\<not> (pt_inv p = None \<or> pt_inv p = Some [])" using inv_suffixes_none by blast
  with False show ?thesis unfolding consolidate_eq split_def Let_def by (simp only: if_False fst_conv inv_suffixes_emptied)
qed

lemma consolidate_dirs [simp]: "pt_dirs (fst (consolidate_hashes now p)) = pt_dirs p"
  by (simp add: consolidate_eq split_def Let_def)


section \<open>What get_hashes computes\<close>

text \<open>The keys of a dictionary are distinct.\<close>

definition pkl_distinct :: "part \<Rightarrow> bool" where
  "pkl_distinct p \<longleftrightarrow> (case pt_pkl p of None \<Rightarrow> True | Some h \<Rightarrow> distinct (map fst h))"

lemma distinct_setdefault [simp]: "distinct (map fst h) \<Longrightarrow> distinct (map fst (dict_setdefault k v h))"
  by (auto simp: dict_setdefault_def distinct_update split: option.split)

lemma distinct_read: "pkl_distinct p \<Longrightarrow> distinct (map fst (read_hashes p))"
  by (auto simp: read_hashes_alt pkl_distinct_def Let_def split: option.splits)

lemma distinct_write: "distinct (map fst h) \<Longrightarrow> distinct (map fst (snd (write_hashes now p h)))"
  by (simp add: write_hashes_def Let_def distinct_update)

lemma distinct_none_suffixes: "distinct (map fst h) \<Longrightarrow> distinct (map fst (none_suffixes ss h))"
  by (induction ss arbitrary: h) (auto simp: none_suffixes_def distinct_update)

lemma distinct_consolidate: "pkl_distinct p \<Longrightarrow> distinct (map fst (snd (consolidate_hashes now p)))"
  by (simp add: consolidate_eq split_def Let_def distinct_write distinct_none_suffixes distinct_read)

definition default_suffixes :: "string list \<Rightarrow> hashes \<Rightarrow> hashes" where
  "default_suffixes ss h = fold (\<lambda>suff h. if length suff = 3 then dict_setdefault suff HNone h else h) ss h"

lemma distinct_default_suffixes: "distinct (map fst h) \<Longrightarrow> distinct (map fst (default_suffixes ss h))"
  by (induction ss arbitrary: h) (auto simp: default_suffixes_def)

lemma map_of_default_suffixes:
  "map_of (default_suffixes ss h) k =
     (case map_of h k of Some v \<Rightarrow> Some v
      | None \<Rightarrow> if k \<in> set ss \<and> length k = 3 then Some HNone else None)"
  by (induction ss arbitrary: h)
    (auto simp: default_suffixes_def map_of_dict_setdefault split: option.splits)

definition cache :: "int \<Rightarrow> part \<Rightarrow> hashes" where
  "cache now p =
     (let c = snd (consolidate_hashes now p)
      in if falsy (dict_get c ''valid'' (HBool False)) then [(''valid'', HBool True)] else c)"

definition lists_dirs :: "int \<Rightarrow> bool \<Rightarrow> part \<Rightarrow> bool" where
  "lists_dirs now do_listdir p \<longleftrightarrow>
     do_listdir \<or> falsy (dict_get (snd (consolidate_hashes now p)) ''valid'' (HBool False))"

definition start_hashes :: "int \<Rightarrow> string list \<Rightarrow> bool \<Rightarrow> part \<Rightarrow> hashes" where
  "start_hashes now recalculate do_listdir p =
     none_suffixes recalculate
       (if lists_dirs now do_listdir p then default_suffixes (map fst (pt_dirs p)) (cache now p) else cache now p)"

lemma rehash_start_eq:
  "rehash_start now recalculate do_listdir p =
     (fst (consolidate_hashes now p), read_hashes (fst (consolidate_hashes now p)),
      start_hashes now recalculate do_listdir p, lists_dirs now do_listdir p)"
  by (auto simp: rehash_start_def Let_def split_def consolidate_read start_hashes_def cache_def
      lists_dirs_def none_suffixes_def default_suffixes_def)

lemma distinct_start: "pkl_distinct p \<Longrightarrow> distinct (map fst (start_hashes now recalculate do_listdir p))"
  by (simp add: start_hashes_def distinct_none_suffixes distinct_default_suffixes cache_def Let_def distinct_consolidate)

lemma inv_funpow [simp]:
  "pt_pkl ((invalidate_hash d ^^ n) p) = pt_pkl p" "pt_dirs ((invalidate_hash d ^^ n) p) = pt_dirs p"
  by (induction n) (simp_all add: invalidate_hash_def)

lemma set_dir_simps [simp]:
  "pt_pkl (set_dir s d p) = pt_pkl p" "pt_inv (set_dir s d p) = pt_inv p"
  "map_of (pt_dirs (set_dir s d p)) = (map_of (pt_dirs p))(s := d)"
  by (simp_all add: set_dir_def delete_conv' split: option.split)

definition after_hash ::
  "'t :: {linorder, order_bot} hasher \<Rightarrow> 't clean_env \<Rightarrow> string \<Rightarrow> string \<Rightarrow> part \<Rightarrow> part" where
  "after_hash ha env pdir suffix p =
     (let (dir, n, r) = hash_suffix ha env (join pdir suffix) (map_of (pt_dirs p) suffix)
      in (invalidate_hash (join pdir suffix) ^^ n) (set_dir suffix dir p))"

lemma after_hash_simps [simp]:
  "pt_pkl (after_hash ha env pdir s p) = pt_pkl p"
  "s' \<noteq> s \<Longrightarrow> map_of (pt_dirs (after_hash ha env pdir s p)) s' = map_of (pt_dirs p) s'"
  by (simp_all add: after_hash_def split_def Let_def)

lemma hash_suffixes_Cons:
  "hash_suffixes ha env pdir ((suffix, h) # items) p hashes n m =
     (if suffix \<in> {''valid'', ''updated''} \<or> \<not> falsy h then hash_suffixes ha env pdir items p hashes n m
      else case snd (snd (hash_suffix ha env (join pdir suffix) (map_of (pt_dirs p) suffix))) of
          Inr v \<Rightarrow> hash_suffixes ha env pdir items (after_hash ha env pdir suffix p) (AList.update suffix v hashes) (Suc n) True
        | Inl PathNotDir \<Rightarrow> hash_suffixes ha env pdir items (after_hash ha env pdir suffix p) (AList.delete suffix hashes) n True
        | Inl (OSError e) \<Rightarrow> hash_suffixes ha env pdir items (after_hash ha env pdir suffix p) hashes n True
        | Inl e \<Rightarrow> (after_hash ha env pdir suffix p, Inl e))"
  by (simp add: after_hash_def split_def Let_def split: sum.split pyexc.split)

lemma hash_suffixes_pkl: "pt_pkl (fst (hash_suffixes ha env pdir items p hashes n m)) = pt_pkl p"
proof (induction items arbitrary: p hashes n m)
  case (Cons x items)
  obtain s h where x: "x = (s, h)" by (cases x)
  show ?case unfolding x hash_suffixes_Cons by (simp add: Cons.IH split: sum.split pyexc.split)
qed simp

text \<open>What is found for a suffix that is hashed again.\<close>

definition rehashed ::
  "'t :: {linorder, order_bot} hasher \<Rightarrow> 't clean_env \<Rightarrow> string \<Rightarrow> part \<Rightarrow> string \<Rightarrow> hval option \<Rightarrow> hval option" where
  "rehashed ha env pdir p s old =
     (case snd (snd (hash_suffix ha env (join pdir s) (map_of (pt_dirs p) s))) of
        Inr v \<Rightarrow> Some v
      | Inl PathNotDir \<Rightarrow> None
      | Inl e \<Rightarrow> old)"

definition stale :: "(string \<times> hval) list \<Rightarrow> string \<Rightarrow> bool" where
  "stale items s \<longleftrightarrow> s \<noteq> ''valid'' \<and> s \<noteq> ''updated'' \<and> (\<exists>h. map_of items s = Some h \<and> falsy h)"

lemma rehashed_cong: "map_of (pt_dirs p) s = map_of (pt_dirs q) s \<Longrightarrow> rehashed ha env pdir p s old = rehashed ha env pdir q s old"
  by (simp add: rehashed_def)

lemma map_of_hash_suffixes:
  assumes "hash_suffixes ha env pdir items p hashes n m = (p', Inr (hashes', n', m'))"
    and "distinct (map fst items)"
  shows "map_of hashes' s = (if stale items s then rehashed ha env pdir p s (map_of hashes s) else map_of hashes s)"
  using assms
proof (induction items arbitrary: p hashes n m)
  case Nil
  then show ?case by (simp add: stale_def)
next
  case (Cons x items)
  obtain suffix h where x: "x = (suffix, h)" by (cases x)
  have dist: "distinct (map fst items)" and new: "map_of items suffix = None"
    using Cons.prems(2) by (auto simp: x map_of_eq_None_iff)
  have st: "stale (x # items) s = (if s = suffix then suffix \<notin> {''valid'', ''updated''} \<and> falsy h else stale items s)"
    by (auto simp: stale_def x)
  have nst: "\<not> stale items suffix" using new by (simp add: stale_def)
  show ?case
  proof (cases "suffix \<in> {''valid'', ''updated''} \<or> \<not> falsy h")
    case True
    then have "hash_suffixes ha env pdir items p hashes n m = (p', Inr (hashes', n', m'))"
      using Cons.prems(1) by (simp add: x)
    from Cons.IH [OF this dist] True nst show ?thesis by (auto simp: st)
  next
    case False
    define q where "q = after_hash ha env pdir suffix p"
    let ?r = "snd (snd (hash_suffix ha env (join pdir suffix) (map_of (pt_dirs p) suffix)))"
    have re: "rehashed ha env pdir q s old = rehashed ha env pdir p s old" if "s \<noteq> suffix" for old
      using that by (intro rehashed_cong) (simp add: q_def)
    have run: "(case ?r of
          Inr v \<Rightarrow> hash_suffixes ha env pdir items q (AList.update suffix v hashes) (Suc n) True
        | Inl PathNotDir \<Rightarrow> hash_suffixes ha env pdir items q (AList.delete suffix hashes) n True
        | Inl (OSError e) \<Rightarrow> hash_suffixes ha env pdir items q hashes n True
        | Inl e \<Rightarrow> (q, Inl e)) = (p', Inr (hashes', n', m'))"
      using Cons.prems(1) False unfolding x hash_suffixes_Cons q_def by (simp only: if_False)
    have me: "rehashed ha env pdir p suffix old =
        (case ?r of Inr v \<Rightarrow> Some v | Inl PathNotDir \<Rightarrow> None | Inl e \<Rightarrow> old)" for old
      by (simp add: rehashed_def)
    from run consider (ok) v where "?r = Inr v" "hash_suffixes ha env pdir items q (AList.update suffix v hashes) (Suc n) True = (p', Inr (hashes', n', m'))"
      | (gone) "?r = Inl PathNotDir" "hash_suffixes ha env pdir items q (AList.delete suffix hashes) n True = (p', Inr (hashes', n', m'))"
      | (err) e where "?r = Inl (OSError e)" "hash_suffixes ha env pdir items q hashes n True = (p', Inr (hashes', n', m'))"
      by (auto split: sum.splits pyexc.splits)
    then show ?thesis
    proof cases
      case ok
      show ?thesis using Cons.IH [OF ok(2) dist] False nst by (auto simp: st re me ok(1))
    next
      case gone
      show ?thesis using Cons.IH [OF gone(2) dist] False nst by (auto simp: st re me gone(1) delete_conv')
    next
      case err
      show ?thesis using Cons.IH [OF err(2) dist] False nst by (auto simp: st re me err(1))
    qed
  qed
qed

lemma hash_suffixes_modified:
  "hash_suffixes ha env pdir items p hashes n m = (p', Inr (hashes', n', m')) \<Longrightarrow> m \<Longrightarrow> m'"
proof (induction items arbitrary: p hashes n m)
  case (Cons x items)
  obtain s h where x: "x = (s, h)" by (cases x)
  from Cons.prems show ?case
    unfolding x hash_suffixes_Cons by (auto split: if_splits sum.splits pyexc.splits intro: Cons.IH)
qed simp

text \<open>Without interference the first round commits.\<close>

lemma get_hashes_Suc:
  "get_hashes (Suc fuel) ha env now pdir recalculate do_listdir p =
     (let p1 = fst (consolidate_hashes now p);
          h = start_hashes now recalculate do_listdir p
      in Some (case hash_suffixes ha env pdir h p1 h 0 (lists_dirs now do_listdir p) of
           (q, Inl e) \<Rightarrow> (q, Inl e)
         | (q, Inr (hashes, hashed, modified)) \<Rightarrow>
             if modified then (fst (write_hashes now q hashes), Inr (hashed, snd (write_hashes now q hashes)))
             else (q, Inr (hashed, hashes))))"
proof -
  let ?p1 = "fst (consolidate_hashes now p)" and ?h = "start_hashes now recalculate do_listdir p"
  let ?r = "hash_suffixes ha env pdir ?h ?p1 ?h 0 (lists_dirs now do_listdir p)"
  have "read_hashes (fst ?r) = read_hashes ?p1" by (intro read_hashes_cong hash_suffixes_pkl)
  then have c: "rehash_commit now (read_hashes ?p1) h (fst ?r) = Some (write_hashes now (fst ?r) h)" for h
    by (simp add: rehash_commit_def dict_eq_map_of)
  show ?thesis
    by (cases ?r) (use c in \<open>auto simp: rehash_start_eq split_def Let_def split: sum.split\<close>)
qed

text \<open>\<^verbatim>\<open>get_hashes\<close> returns (or raises) in its first round when nothing else writes to the partition:
  what it reads before the commit is what it read at the start, whatever the files held and whatever was
  quarantined in between.  More fuel changes nothing.\<close>

theorem get_hashes_returns:
  "(\<exists>q r. get_hashes 1 ha env now pdir recalculate do_listdir p = Some (q, r)) \<and>
   get_hashes (Suc fuel) ha env now pdir recalculate do_listdir p = get_hashes 1 ha env now pdir recalculate do_listdir p"
proof -
  have eq: "get_hashes (Suc fuel) ha env now pdir recalculate do_listdir p = get_hashes (Suc 0) ha env now pdir recalculate do_listdir p"
    by (simp only: get_hashes_Suc)
  have "\<exists>x. get_hashes (Suc 0) ha env now pdir recalculate do_listdir p = Some x"
    by (simp only: get_hashes_Suc Let_def option.inject) blast
  with eq show ?thesis by auto
qed

lemma get_hashes_cases:
  assumes "get_hashes (Suc fuel) ha env now pdir recalculate do_listdir p = Some (q, Inr (n, h))"
  obtains q' h' n' m where
    "hash_suffixes ha env pdir (start_hashes now recalculate do_listdir p) (fst (consolidate_hashes now p))
       (start_hashes now recalculate do_listdir p) 0 (lists_dirs now do_listdir p) = (q', Inr (h', n', m))"
    "(q, h) = (if m then write_hashes now q' h' else (q', h'))"
proof -
  let ?r = "hash_suffixes ha env pdir (start_hashes now recalculate do_listdir p) (fst (consolidate_hashes now p))
       (start_hashes now recalculate do_listdir p) 0 (lists_dirs now do_listdir p)"
  obtain q' v where r: "?r = (q', v)" by (cases ?r)
  show thesis
  proof (cases v)
    case (Inl e)
    with assms show thesis unfolding get_hashes_Suc Let_def r by simp
  next
    case (Inr x)
    obtain h' n' m where x: "x = (h', n', m)" by (cases x)
    from assms have "(q, h) = (if m then write_hashes now q' h' else (q', h'))"
      unfolding get_hashes_Suc Let_def r Inr x by (auto split: if_splits)
    with r Inr x show thesis using that by simp
  qed
qed

lemma map_of_start:
  assumes "s \<noteq> ''valid''" and "s \<noteq> ''updated''"
  shows "map_of (start_hashes now recalculate do_listdir p) s =
    (if s \<in> set recalculate then Some HNone
     else case map_of (cache now p) s of Some v \<Rightarrow> Some v
       | None \<Rightarrow> if lists_dirs now do_listdir p \<and> map_of (pt_dirs p) s \<noteq> None \<and> length s = 3 then Some HNone else None)"
  using assms by (auto simp: start_hashes_def map_of_none_suffixes map_of_default_suffixes map_of_eq_None_iff split: option.split)

text \<open>What a suffix is worth before anything is hashed: its entry in the cache, unless that is invalidated.\<close>

definition cached :: "int \<Rightarrow> string list \<Rightarrow> part \<Rightarrow> string \<Rightarrow> hval option" where
  "cached now recalculate p s =
     (case map_of (cache now p) s of
        Some v \<Rightarrow> if s \<in> set recalculate \<or> falsy v then None else Some v
      | None \<Rightarrow> None)"

definition wanted :: "int \<Rightarrow> string list \<Rightarrow> bool \<Rightarrow> part \<Rightarrow> string \<Rightarrow> bool" where
  "wanted now recalculate do_listdir p s \<longleftrightarrow>
     s \<in> set recalculate \<or> map_of (cache now p) s \<noteq> None \<or>
     lists_dirs now do_listdir p \<and> map_of (pt_dirs p) s \<noteq> None \<and> length s = 3"

text \<open>C38: the hash \<^verbatim>\<open>get_hashes\<close> returns for a suffix is the cached one, when it is valid and was not asked
  for again, and else what hashing the directory finds now: none if the directory is gone.  A suffix that
  nobody asked for, the cache does not have and no listing found is not in the result.\<close>

theorem get_hashes_result:
  assumes "get_hashes (Suc fuel) ha env now pdir recalculate do_listdir p = Some (q, Inr (n, h))"
    and "pkl_distinct p" and "s \<noteq> ''valid''" and "s \<noteq> ''updated''"
  shows "map_of (public_hashes h) s =
    (case cached now recalculate p s of
       Some v \<Rightarrow> Some v
     | None \<Rightarrow>
         if \<not> wanted now recalculate do_listdir p s then None
         else case snd (snd (hash_suffix ha env (join pdir s) (map_of (pt_dirs p) s))) of
                Inr v \<Rightarrow> Some v
              | Inl PathNotDir \<Rightarrow> None
              | Inl e \<Rightarrow> map_of (start_hashes now recalculate do_listdir p) s)"
proof -
  let ?h = "start_hashes now recalculate do_listdir p"
  obtain q' h' n' m where
    r: "hash_suffixes ha env pdir ?h (fst (consolidate_hashes now p)) ?h 0 (lists_dirs now do_listdir p) = (q', Inr (h', n', m))"
    and h: "(q, h) = (if m then write_hashes now q' h' else (q', h'))"
    by (rule get_hashes_cases [OF assms(1)])
  have "map_of (public_hashes h) s = map_of h s"
    using assms(3,4) by (simp add: public_hashes_def delete_conv')
  also have "\<dots> = map_of h' s"
    using h assms(3,4) map_of_write [of now q' h' s] by (auto split: if_splits dest: sym)
  also have "\<dots> = (if stale ?h s then rehashed ha env pdir (fst (consolidate_hashes now p)) s (map_of ?h s) else map_of ?h s)"
    by (rule map_of_hash_suffixes [OF r distinct_start [OF assms(2)]])
  also have "\<dots> = (if stale ?h s then rehashed ha env pdir p s (map_of ?h s) else map_of ?h s)"
    by (simp add: rehashed_cong [of "fst (consolidate_hashes now p)" s p])
  also have "\<dots> = (case cached now recalculate p s of
       Some v \<Rightarrow> Some v
     | None \<Rightarrow> if \<not> wanted now recalculate do_listdir p s then None else rehashed ha env pdir p s (map_of ?h s))"
    using assms(3,4) by (auto simp: stale_def map_of_start cached_def wanted_def split: option.splits)
  finally show ?thesis unfolding rehashed_def .
qed

text \<open>a directory of the partition whose name has three characters but is no suffix (such as \<^verbatim>\<open>tmp\<close>) ends
  up in the hashes when the partition is listed, and then \<^verbatim>\<open>hashes.pkl\<close> is taken for corrupt from there on:
  all cached hashes are lost with every read.\<close>

theorem listed_directory_spoils_hashes:
  assumes "get_hashes (Suc fuel) ha env now pdir recalculate do_listdir p = Some (q, Inr (n, h))"
    and "pkl_distinct p" and "lists_dirs now do_listdir p"
    and "length s = 3" and "\<not> valid_suffix s"
    and "snd (snd (hash_suffix ha env (join pdir s) (map_of (pt_dirs p) s))) = Inr v"
  shows "read_hashes q = [(''valid'', HBool False)]"
proof -
  let ?h = "start_hashes now recalculate do_listdir p"
  have s: "s \<noteq> ''valid''" "s \<noteq> ''updated''" using assms(4) by auto
  obtain q' h' n' m where
    r: "hash_suffixes ha env pdir ?h (fst (consolidate_hashes now p)) ?h 0 (lists_dirs now do_listdir p) = (q', Inr (h', n', m))"
    and h: "(q, h) = (if m then write_hashes now q' h' else (q', h'))"
    by (rule get_hashes_cases [OF assms(1)])
  have dir: "map_of (pt_dirs p) s \<noteq> None"
    using assms(6) by (cases "map_of (pt_dirs p) s") (simp_all add: hash_suffix_def hash_suffix_dir_def)
  have ok: "hashes_ok (cache now p)"
    using hashes_ok_read [of "fst (consolidate_hashes now p)"] unfolding consolidate_read
    by (simp add: cache_def Let_def hashes_ok_def)
  then have "map_of (cache now p) s = None"
    using s assms(5) by (auto simp: hashes_ok_def map_of_eq_None_iff)
  then have "map_of ?h s = Some HNone" using dir assms(3,4) s by (simp add: map_of_start)
  then have "stale ?h s" using s by (simp add: stale_def)
  then have "map_of h' s = Some v"
    using map_of_hash_suffixes [OF r distinct_start [OF assms(2)], of s] assms(6) by (simp add: rehashed_def)
  moreover have m: "m" using hash_suffixes_modified [OF r] assms(3) by simp
  ultimately have "map_of (snd (write_hashes now q' h')) s = Some v" using s by (simp add: map_of_write)
  then have "\<not> hashes_ok (snd (write_hashes now q' h'))"
    using s assms(5) by (force simp: hashes_ok_def dest!: map_of_SomeD)
  moreover have "q = fst (write_hashes now q' h')" using h m by (metis fst_conv)
  ultimately show ?thesis by (simp add: read_hashes_alt)
qed

text \<open>What the file of invalidations holds after some suffixes were invalidated.\<close>

lemma strip_line:
  assumes "list_all (\<lambda>c. \<not> py_space c) x"
  shows "strip (x @ [CHR 0x0A]) = x"
proof -
  have n: "py_space (CHR 0x0A)" by (simp add: py_space_def)
  have d: "dropWhile py_space y = y" if "list_all (\<lambda>c. \<not> py_space c) y" for y using that by (cases y) simp_all
  show ?thesis
  proof (cases x)
    case Nil
    then show ?thesis by (simp add: strip_def n)
  next
    case (Cons c cs)
    then have "dropWhile py_space (x @ [CHR 0x0A]) = x @ [CHR 0x0A]" using assms by simp
    moreover have "list_all (\<lambda>c. \<not> py_space c) (rev x)" using assms by (simp add: list_all_iff)
    ultimately show ?thesis by (simp add: strip_def n d)
  qed
qed

lemma invalidated_text:
  "inv_text (fold invalidate_hash dirs p) = inv_text p @ concat (map (\<lambda>d. basename d @ [CHR 0x0A]) dirs)"
  by (induction dirs arbitrary: p) (simp_all add: invalidate_hash_def inv_text_def)

lemma invalidated_frame:
  "pt_pkl (fold invalidate_hash dirs p) = pt_pkl p" "pt_dirs (fold invalidate_hash dirs p) = pt_dirs p"
  by (induction dirs arbitrary: p) (simp_all add: invalidate_hash_def)

lemma text_lines_dirs:
  "\<forall>d \<in> set dirs. list_all (\<lambda>c. \<not> py_space c) (basename d) \<Longrightarrow>
     text_lines (concat (map (\<lambda>d. basename d @ [CHR 0x0A]) dirs)) = map (\<lambda>d. basename d @ [CHR 0x0A]) dirs"
  by (induction dirs) (simp_all add: text_lines_line)

lemma invalidated_suffixes:
  assumes "inv_text p = []" and "\<forall>d \<in> set dirs. list_all (\<lambda>c. \<not> py_space c) (basename d)"
  shows "inv_suffixes (fold invalidate_hash dirs p) = filter valid_suffix (map basename dirs)"
proof -
  have "map strip (map (\<lambda>d. basename d @ [CHR 0x0A]) dirs) = map basename dirs"
    using assms(2) by (induction dirs) (simp_all add: strip_line)
  then show ?thesis
    unfolding inv_suffixes_def invalidated_text assms(1) append_Nil text_lines_dirs [OF assms(2)] by (rule arg_cong)
qed

text \<open>The suffixes among some directories.\<close>

definition named_suffixes :: "string list \<Rightarrow> string set" where
  "named_suffixes dirs =
     {basename d | d. d \<in> set dirs \<and> length (basename d) = 3 \<and> set (basename d) \<subseteq> set ''0123456789abcdef''}"

text \<open>C37: consolidating loses no invalidation.  After any directories were invalidated since the file of invalidations
  was last spent, every suffix among them (three lower-case hexadecimal digits) has no hash, all other suffixes keep
  theirs, the file of invalidations is spent again, and what is returned is what the next reader of \<^verbatim>\<open>hashes.pkl\<close>
  gets.  The names of the directories have no white space, as those of suffixes have not.\<close>

theorem consolidate_keeps_invalidations:
  assumes "pt_inv p = None \<or> pt_inv p = Some []"
    and "\<forall>d \<in> set dirs. list_all (\<lambda>c. \<not> py_space c) (basename d)"
  shows "let (q, h) = consolidate_hashes now (fold invalidate_hash dirs p)
     in (\<forall>s. map_of h s =
           (if s \<in> named_suffixes dirs then Some HNone
            else if s = ''updated'' \<and> named_suffixes dirs \<noteq> {} then Some (HTime now)
            else if s = ''valid'' \<and> map_of (read_hashes p) s = None \<and> named_suffixes dirs \<noteq> {} then Some (HBool False)
            else map_of (read_hashes p) s)) \<and>
        (pt_inv q = None \<or> pt_inv q = Some []) \<and> read_hashes q = h \<and> pt_dirs q = pt_dirs p"
proof -
  let ?p = "fold invalidate_hash dirs p"
  have t: "inv_text p = []" using assms(1) by (auto simp: inv_text_def)
  have v: "valid_suffix x \<longleftrightarrow> length x = 3 \<and> set x \<subseteq> set ''0123456789abcdef''" for x
    unfolding valid_suffix_def list_all_iff subset_iff Ball_def by (rule refl)
  have "set (filter valid_suffix (map basename dirs)) = named_suffixes dirs"
    unfolding named_suffixes_def set_filter set_map v by blast
  then have inv: "set (inv_suffixes ?p) = named_suffixes dirs"
    by (simp only: invalidated_suffixes [OF t assms(2)])
  have ne: "inv_suffixes ?p \<noteq> [] \<longleftrightarrow> named_suffixes dirs \<noteq> {}" using inv by (metis set_empty)
  have r: "read_hashes ?p = read_hashes p" by (rule read_hashes_cong) (rule invalidated_frame)
  have spent: "pt_inv (fst (consolidate_hashes now ?p)) = None \<or> pt_inv (fst (consolidate_hashes now ?p)) = Some []"
    by (simp add: consolidate_eq split_def Let_def)
  note simps = consolidate_simps [of now ?p, unfolded inv ne r]
  show ?thesis
    unfolding Let_def split_def
    by (intro conjI allI simps spent consolidate_read) (simp only: consolidate_dirs invalidated_frame)
qed

section \<open>Types\<close>

fun hval_for :: "string \<Rightarrow> hval \<Rightarrow> bool" where
  "hval_for k (HBool b) = (k = ''valid'')"
| "hval_for k (HTime t) = (k = ''updated'')"
| "hval_for k HNone = (k \<noteq> ''valid'' \<and> k \<noteq> ''updated'')"
| "hval_for k (HHash s) = (k \<noteq> ''valid'' \<and> k \<noteq> ''updated'')"
| "hval_for k (HDict d) = (k \<noteq> ''valid'' \<and> k \<noteq> ''updated'')"

definition typed :: "hashes \<Rightarrow> bool" where
  "typed h \<longleftrightarrow> distinct (map fst h) \<and> (\<forall>k v. map_of h k = Some v \<longrightarrow> hval_for k v)"

definition part_typed :: "part \<Rightarrow> bool" where
  "part_typed p \<longleftrightarrow> (case pt_pkl p of None \<Rightarrow> True | Some h \<Rightarrow> typed h)"

lemma typed_update: "typed h \<Longrightarrow> hval_for k v \<Longrightarrow> typed (AList.update k v h)"
  by (auto simp: typed_def distinct_update)

lemma typed_setdefault: "typed h \<Longrightarrow> hval_for k v \<Longrightarrow> typed (dict_setdefault k v h)"
  by (simp add: dict_setdefault_def typed_update split: option.split)

lemma typed_delete: "typed h \<Longrightarrow> typed (AList.delete k h)"
  by (auto simp: typed_def distinct_delete delete_conv' split: if_splits)

lemma typed_invalid [simp]: "typed [(''valid'', HBool b)]"
  by (simp add: typed_def)

lemma typed_read: "part_typed p \<Longrightarrow> typed (read_hashes p)"
  by (auto simp: read_hashes_alt part_typed_def Let_def typed_setdefault split: option.splits)

lemma typed_write: "typed h \<Longrightarrow> typed (snd (write_hashes now p h))"
  by (simp add: write_hashes_def Let_def typed_update typed_setdefault)

lemma typed_none_suffixes:
  "typed h \<Longrightarrow> (\<And>s. s \<in> set ss \<Longrightarrow> s \<noteq> ''valid'' \<and> s \<noteq> ''updated'') \<Longrightarrow> typed (none_suffixes ss h)"
  by (induction ss arbitrary: h) (auto simp: none_suffixes_def typed_update)

lemma typed_default_suffixes: "typed h \<Longrightarrow> typed (default_suffixes ss h)"
proof (induction ss arbitrary: h)
  case (Cons s ss)
  have "typed (if length s = 3 then dict_setdefault s HNone h else h)"
    using Cons.prems by (auto intro!: typed_setdefault)
  from Cons.IH [OF this] show ?case by (simp add: default_suffixes_def)
qed (simp add: default_suffixes_def)

lemma inv_suffix_plain: "s \<in> set (inv_suffixes p) \<Longrightarrow> s \<noteq> ''valid'' \<and> s \<noteq> ''updated''"
  using inv_suffixes_valid [of s p] by (auto simp: valid_suffix_def)

lemma typed_consolidate:
  assumes "part_typed p"
  shows "typed (snd (consolidate_hashes now p))" and "part_typed (fst (consolidate_hashes now p))"
proof -
  have "typed (none_suffixes (inv_suffixes p) (read_hashes p))"
    using assms by (intro typed_none_suffixes typed_read) (auto dest: inv_suffix_plain)
  then show "typed (snd (consolidate_hashes now p))" "part_typed (fst (consolidate_hashes now p))"
    using assms typed_read [OF assms] by (simp_all add: consolidate_eq split_def Let_def typed_write part_typed_def)
qed

lemma typed_start:
  assumes "part_typed p" and "\<forall>s \<in> set recalculate. length s = 3"
  shows "typed (start_hashes now recalculate do_listdir p)"
  using assms typed_consolidate(1) [OF assms(1), of now]
  by (auto simp: start_hashes_def cache_def Let_def intro!: typed_none_suffixes typed_default_suffixes)

lemma hash_suffix_typed:
  assumes "ha = repl_hasher lib md5 \<or> ha = ec_hasher lib args md5"
    and "snd (snd (hash_suffix ha env path dir)) = Inr v" and "k \<noteq> ''valid''" and "k \<noteq> ''updated''"
  shows "hval_for k v"
proof -
  obtain dir' n r where r: "hash_suffix_dir ha env path dir = (dir', n, r)" by (rule prod_cases3)
  show ?thesis
    using assms by (cases r) (auto simp: hash_suffix_def r repl_hasher_def ec_hasher_def)
qed

lemma typed_hash_suffixes:
  assumes "hash_suffixes ha env pdir items p hashes n m = (p', Inr (hashes', n', m'))"
    and "ha = repl_hasher lib md5 \<or> ha = ec_hasher lib args md5" and "typed hashes"
  shows "typed hashes'"
  using assms(1,3)
proof (induction items arbitrary: p hashes n m)
  case (Cons x items)
  obtain s h where x: "x = (s, h)" by (cases x)
  from Cons.prems show ?case
    unfolding x hash_suffixes_Cons
    by (auto split: if_splits sum.splits pyexc.splits intro: Cons.IH typed_delete
        intro!: typed_update hash_suffix_typed [OF assms(2)])
qed simp

text \<open>C39: the dictionary keeps its types: with either policy, \<^verbatim>\<open>hashes.pkl\<close> has each key once, a flag under
  \<^verbatim>\<open>valid\<close>, a time under \<^verbatim>\<open>updated\<close>, and a digest, digests or \<^verbatim>\<open>None\<close> under every other key; so does the result.\<close>

theorem get_hashes_typed:
  assumes "part_typed p" and "ha = repl_hasher lib md5 \<or> ha = ec_hasher lib args md5"
    and "\<forall>s \<in> set recalculate. length s = 3"
    and "get_hashes (Suc fuel) ha env now pdir recalculate do_listdir p = Some (q, Inr (n, h))"
  shows "part_typed q \<and> typed h \<and> (\<forall>k v. map_of (public_hashes h) k = Some v \<longrightarrow> (\<forall>b t. v \<noteq> HBool b \<and> v \<noteq> HTime t))"
proof -
  obtain q' h' n' m where
    r: "hash_suffixes ha env pdir (start_hashes now recalculate do_listdir p) (fst (consolidate_hashes now p))
       (start_hashes now recalculate do_listdir p) 0 (lists_dirs now do_listdir p) = (q', Inr (h', n', m))"
    and h: "(q, h) = (if m then write_hashes now q' h' else (q', h'))"
    by (rule get_hashes_cases [OF assms(4)])
  have "typed h'" by (rule typed_hash_suffixes [OF r assms(2) typed_start [OF assms(1,3)]])
  moreover have "part_typed q'"
    using typed_consolidate(2) [OF assms(1), of now] arg_cong [OF r, of "\<lambda>x. pt_pkl (fst x)"]
    by (simp add: part_typed_def hash_suffixes_pkl)
  moreover have "h = (if m then snd (write_hashes now q' h') else h')" "q = (if m then fst (write_hashes now q' h') else q')"
    using h by (simp_all split: if_splits) (metis fst_conv snd_conv)+
  ultimately have q: "part_typed q" and t: "typed h"
    by (simp_all add: typed_write part_typed_def)
  then show ?thesis
    by (auto simp: public_hashes_def delete_conv' typed_def split: if_splits) (metis hval_for.simps)+
qed

section \<open>Concrete runs\<close>

text \<open>A partition without \<^verbatim>\<open>hashes.pkl\<close>: a suffix with one object and one that is empty, and a stray directory.\<close>

definition sample_part :: part where
  "sample_part = \<lparr>pt_pkl = None, pt_inv = Some ''abc\<newline>'',
     pt_dirs = [(''abc'', [(''o1'', Inl [''2.data'', ''1.ts''])]), (''def'', [])]\<rparr>"

definition stray_part :: part where
  "stray_part = sample_part\<lparr>pt_dirs := [(''tmp'', [(''x'', Inl [''2.data''])])]\<rparr>"

definition hashes_after :: "string \<Rightarrow> hashes" where
  "hashes_after s = [(''valid'', HBool True), (s, HHash ''2.data''), (''updated'', HTime 7)]"

lemma sample_run:
  "get_hashes (Suc 0) (repl_hasher sample_lib id) sample_env 7 ''/p'' [] False sample_part =
     Some (\<lparr>pt_pkl = Some (hashes_after ''abc''), pt_inv = Some [], pt_dirs = [(''abc'', [(''o1'', Inl [''2.data''])])]\<rparr>,
       Inr (1, hashes_after ''abc''))"
  by code_simp

lemma stray_run:
  "get_hashes (Suc 0) (repl_hasher sample_lib id) sample_env 7 ''/p'' [] False stray_part =
     Some (\<lparr>pt_pkl = Some (hashes_after ''tmp''), pt_inv = Some [], pt_dirs = [(''tmp'', [(''x'', Inl [''2.data''])])]\<rparr>,
       Inr (1, hashes_after ''tmp''))"
  by code_simp

theorem get_hashes_result_witness:
  "map_of (public_hashes (hashes_after ''abc'')) ''abc'' = Some (HHash ''2.data'')"
proof -
  have "pkl_distinct sample_part" "cached 7 [] sample_part ''abc'' = None" "wanted 7 [] False sample_part ''abc''"
    "snd (snd (hash_suffix (repl_hasher sample_lib id) sample_env ''/p/abc'' (map_of (pt_dirs sample_part) ''abc''))) = Inr (HHash ''2.data'')"
    "join ''/p'' ''abc'' = ''/p/abc''"
    by code_simp+
  with get_hashes_result [OF sample_run, of "''abc''"] show ?thesis by simp
qed

theorem get_hashes_typed_witness:
  "typed (hashes_after ''abc'')"
  by (rule get_hashes_typed [OF _ _ _ sample_run, of sample_lib id, THEN conjunct2, THEN conjunct1])
    (simp_all add: part_typed_def sample_part_def)

theorem listed_directory_spoils_hashes_witness:
  "read_hashes \<lparr>pt_pkl = Some (hashes_after ''tmp''), pt_inv = Some [], pt_dirs = [(''tmp'', [(''x'', Inl [''2.data''])])]\<rparr> =
     [(''valid'', HBool False)]"
proof -
  have "pkl_distinct stray_part" "lists_dirs 7 False stray_part" "\<not> valid_suffix ''tmp''" "length ''tmp'' = 3"
    "snd (snd (hash_suffix (repl_hasher sample_lib id) sample_env ''/p/tmp'' (map_of (pt_dirs stray_part) ''tmp''))) = Inr (HHash ''2.data'')"
    "join ''/p'' ''tmp'' = ''/p/tmp''"
    by code_simp+
  with listed_directory_spoils_hashes [OF stray_run, of "''tmp''"] show ?thesis by simp
qed

theorem consolidate_keeps_invalidations_witness:
  "map_of (snd (consolidate_hashes 9 (fold invalidate_hash [''/p/abc'', ''/p/tmp''] (sample_part\<lparr>pt_inv := None\<rparr>)))) ''abc'' = Some HNone"
proof -
  have d: "\<forall>d \<in> set [''/p/abc'', ''/p/tmp'']. list_all (\<lambda>c. \<not> py_space c) (basename d)" and b: "basename ''/p/abc'' = ''abc''" by code_simp+
  have "''abc'' \<in> named_suffixes [''/p/abc'', ''/p/tmp'']"
    unfolding named_suffixes_def using b by (intro CollectI exI [of _ "''/p/abc''"]) simp
  moreover have "pt_inv (sample_part\<lparr>pt_inv := None\<rparr>) = None \<or> pt_inv (sample_part\<lparr>pt_inv := None\<rparr>) = Some []" by simp
  ultimately show ?thesis
    using consolidate_keeps_invalidations [OF _ d, of "sample_part\<lparr>pt_inv := None\<rparr>" 9] by (simp add: Let_def split_def)
qed

end
