(* ===== verification/Walks.thy ===== *)
theory Walks
  imports Hashes
begin
text \<open>
  The manager's walk over a partition, from which SSYNC learns what is there: \<^verbatim>\<open>yield_suffixes\<close> and \<^verbatim>\<open>yield_hashes\<close> of
  \<^verbatim>\<open>swift_patches/obj/bs_diskfile.py\<close>, over the clean-up of \<open>OnDisk\<close> and the partitions of \<open>Hashes\<close>.  The locale
  \<open>clean_policy\<close> is what the walk relies on of a policy; both policies interpret it.  A generator is run to its end:
  nothing else happens in the partition meanwhile.
\<close>

section \<open>yield_hashes\<close>

text \<open>What is told of an object: the dictionary \<^verbatim>\<open>result\<close>, a key that is absent being \<open>None\<close>.\<close>

record 't stamps =
  sp_data :: "'t option"
  sp_meta :: "'t option"
  sp_ctype :: "'t option"
  sp_durable :: "bool option"

definition stamps_of :: "'t results \<Rightarrow> 't stamps" where
  "stamps_of info =
     \<lparr>sp_data = (case r_ts_info info of None \<Rightarrow> map_option fi_timestamp (r_data_info info) | Some t \<Rightarrow> Some (fi_timestamp t)),
      sp_meta = map_option fi_timestamp (r_meta_info info),
      sp_ctype = (case r_ctype_info info of None \<Rightarrow> None | Some c \<Rightarrow> fi_ctype c),
      sp_durable = (case r_data_info info of None \<Rightarrow> None | Some d \<Rightarrow> fi_durable d)\<rparr>"

text \<open>\<^verbatim>\<open>int(suffix, 16)\<close> does not raise: digits with single underscores between, a sign and \<^verbatim>\<open>0x\<close> before.\<close>

definition hex_digit :: "char \<Rightarrow> bool" where
  "hex_digit c \<longleftrightarrow> c \<in> set ''0123456789abcdefABCDEF''"

fun hex_digits :: "string \<Rightarrow> bool" where
  "hex_digits [] = False"
| "hex_digits [c] = hex_digit c"
| "hex_digits (c # d # s) = (hex_digit c \<and> (if d = CHR ''_'' then hex_digits s else hex_digits (d # s)))"

definition hex_int :: "string \<Rightarrow> bool" where
  "hex_int s =
     (let s = strip s;
          s = (case s of c # r \<Rightarrow> if c \<in> set ''+-'' then r else s | [] \<Rightarrow> []);
          t = drop 2 s
      in hex_digits s \<or>
         take 2 s \<in> {''0x'', ''0X''} \<and> hex_digits (case t of c # r \<Rightarrow> if c = CHR ''_'' then r else t | [] \<Rightarrow> []))"

definition yield_suffixes :: "part \<Rightarrow> string list" where
  "yield_suffixes p = filter (\<lambda>s. length s = 3 \<and> hex_int s) (map fst (pt_dirs p))"

text \<open>
  \<^verbatim>\<open>cleanup_ondisk_files(object_path)\<close> for an entry of a suffix directory: the entry left, and the result.  An entry
  that is gone is an empty directory; another that can not be listed raises.
\<close>

definition clean_entry ::
  "'t :: {linorder, order_bot} policy_ops \<Rightarrow> 't clean_env \<Rightarrow> string \<Rightarrow> entry
     \<Rightarrow> entry option \<times> (pyexc + ('t results \<times> string list))" where
  "clean_entry ops env path en =
     (case en of
        Inl names \<Rightarrow> (let (dir, r) = cleanup_ondisk_files ops env path (Some names) in (map_option Inl dir, r))
      | Inr e \<Rightarrow> if e = ENOENT then (None, snd (cleanup_ondisk_files ops env path None)) else (Some (Inr e), Inl (OSError e)))"

text \<open>
  The loop over the entries of a suffix: the entries left, whether files were found, what was yielded, and the
  exception that ended it; errors of a disk file are logged and skipped (\<^verbatim>\<open>AssertionError\<close>, which the clean-up does not
  raise, would be too).
\<close>

fun walk_hashes ::
  "'t :: {linorder, order_bot} policy_ops \<Rightarrow> 't clean_env \<Rightarrow> string \<Rightarrow> suffix_dir
     \<Rightarrow> suffix_dir \<times> bool \<times> (string \<times> 't stamps) list \<times> pyexc option" where
  "walk_hashes ops env path [] = ([], False, [], None)"
| "walk_hashes ops env path ((hsh, en) # es) =
     (let (dir, r) = clean_entry ops env (join path hsh) en;
          here = (case dir of None \<Rightarrow> [] | Some en \<Rightarrow> [(hsh, en)])
      in case r of
           Inl e \<Rightarrow>
             if is_disk_file_error e
             then (let (es, found, ys, x) = walk_hashes ops env path es in (here @ es, found, ys, x))
             else (here @ es, False, [], Some e)
         | Inr (info, files) \<Rightarrow>
             (let (es, found, ys, x) = walk_hashes ops env path es;
                  st = stamps_of info
              in (here @ es, files \<noteq> [] \<or> found, (if sp_data st = None then ys else (hsh, st) # ys), x)))"

definition suffix_entries :: "part \<Rightarrow> string \<Rightarrow> suffix_dir" where
  "suffix_entries p suffix = (case map_of (pt_dirs p) suffix of None \<Rightarrow> [] | Some es \<Rightarrow> es)"

definition set_entries :: "string \<Rightarrow> suffix_dir \<Rightarrow> part \<Rightarrow> part" where
  "set_entries suffix es p = (if map_of (pt_dirs p) suffix = None then p else set_dir suffix (Some es) p)"

fun walk_suffixes ::
  "'t :: {linorder, order_bot} policy_ops \<Rightarrow> 't clean_env \<Rightarrow> string \<Rightarrow> string list \<Rightarrow> part
     \<Rightarrow> part \<times> (string \<times> 't stamps) list \<times> pyexc option" where
  "walk_suffixes ops env pdir [] p = (p, [], None)"
| "walk_suffixes ops env pdir (suffix # ss) p =
     (let (es, found, ys, x) = walk_hashes ops env (join pdir suffix) (suffix_entries p suffix);
          p = set_entries suffix es p
      in case x of
           Some e \<Rightarrow> (p, ys, Some e)
         | None \<Rightarrow>
             (let p = (if found then p else invalidate_hash (join pdir suffix) p);
                  (p, ys', x) = walk_suffixes ops env pdir ss p
              in (p, ys @ ys', x)))"

definition walked_suffixes :: "string list option \<Rightarrow> part \<Rightarrow> string list" where
  "walked_suffixes suffixes p = (case suffixes of None \<Rightarrow> yield_suffixes p | Some ss \<Rightarrow> ss)"

text \<open>\<open>mounted\<close>: \<^verbatim>\<open>get_dev_path\<close> gives a path.\<close>

definition yield_hashes ::
  "'t :: {linorder, order_bot} policy_ops \<Rightarrow> 't clean_env \<Rightarrow> bool \<Rightarrow> string \<Rightarrow> string list option \<Rightarrow> part
     \<Rightarrow> part \<times> (string \<times> 't stamps) list \<times> pyexc option" where
  "yield_hashes ops env mounted pdir suffixes p =
     (if \<not> mounted then (p, [], Some DiskFileDeviceUnavailable)
      else walk_suffixes ops env pdir (walked_suffixes suffixes p) p)"

section \<open>What a walk promises\<close>

text \<open>What choosing among the names of a directory finds, and what the clean-up makes of a suffix directory.\<close>

definition opens :: "'t :: {linorder, order_bot} policy_ops \<Rightarrow> string \<Rightarrow> entry \<Rightarrow> 't stamps \<Rightarrow> bool" where
  "opens ops path en st \<longleftrightarrow> (\<exists>names r. en = Inl names \<and> get_ondisk_files ops (rev (sort names)) path True = Inr r \<and>
     st = stamps_of r \<and> sp_data st \<noteq> None)"

definition cleaned_entries ::
  "'t :: {linorder, order_bot} policy_ops \<Rightarrow> 't clean_env \<Rightarrow> string \<Rightarrow> suffix_dir \<Rightarrow> suffix_dir" where
  "cleaned_entries ops env path es =
     concat (map (\<lambda>(h, en). case en of
         Inl names \<Rightarrow> (case fst (cleanup_ondisk_files ops env (join path h) (Some names)) of None \<Rightarrow> [] | Some l \<Rightarrow> [(h, Inl l)])
       | Inr e \<Rightarrow> [(h, Inr e)]) es)"

text \<open>All entries are directories, and \<open>ok\<close>.\<close>

definition fine :: "(string list \<Rightarrow> bool) \<Rightarrow> suffix_dir \<Rightarrow> bool" where
  "fine ok es \<longleftrightarrow> (\<forall>(h, en) \<in> set es. \<exists>names. en = Inl names \<and> ok names)"

text \<open>What the walk relies on of a policy: cleaning a directory that is \<open>ok\<close> raises nothing and changes no choice.\<close>

locale clean_policy = ondisk_policy ops
  for ops :: "'t :: {linorder, order_bot} policy_ops" +
  fixes ok :: "string list \<Rightarrow> bool"
  assumes clean: "ok disk \<Longrightarrow> \<exists>r disk' r'. get_ondisk_files ops (rev (sort disk)) path False = Inr r \<and>
      cleanup_ondisk_files ops env path (Some disk) =
        (if disk' = [] then None else Some disk', Inr (cleaned env path r, rev (sort disk'))) \<and>
      get_ondisk_files ops (rev (sort disk')) path True = Inr r' \<and>
      r_data_info r' = r_data_info r \<and> r_meta_info r' = r_meta_info r \<and> r_ctype_info r' = r_ctype_info r \<and>
      r_ts_info r' = r_ts_info (cleaned env path r)"
begin

lemma empty_directory:
  assumes "get_ondisk_files ops [] path verify = Inr r"
  shows "r_data_info r = None" and "r_ts_info r = None"
  using chosen_files(1,2) [OF assms] staged_ext [of _ "op_parse ops" "[]"] by (fastforce intro: ccontr)+

lemma walk_hashes_ok:
  assumes "fine ok es"
  shows "\<exists>found ys. walk_hashes ops env path es = (cleaned_entries ops env path es, found, ys, None) \<and>
    (\<forall>h st. (h, st) \<in> set ys \<longleftrightarrow> (\<exists>en. (h, en) \<in> set (cleaned_entries ops env path es) \<and> opens ops (join path h) en st)) \<and>
    (found \<longleftrightarrow> cleaned_entries ops env path es \<noteq> [])"
  using assms
proof (induction es)
  case Nil
  then show ?case by (auto simp: cleaned_entries_def)
next
  case (Cons e es)
  obtain h names where e: "e = (h, Inl names)" "ok names" using Cons.prems by (cases e) (auto simp: fine_def)
  let ?path = "join path h"
  obtain r disk' r' where r: "get_ondisk_files ops (rev (sort names)) ?path False = Inr r"
    "cleanup_ondisk_files ops env ?path (Some names) =
       (if disk' = [] then None else Some disk', Inr (cleaned env ?path r, rev (sort disk')))"
    "get_ondisk_files ops (rev (sort disk')) ?path True = Inr r'"
    "r_data_info r' = r_data_info r" "r_meta_info r' = r_meta_info r" "r_ctype_info r' = r_ctype_info r"
    "r_ts_info r' = r_ts_info (cleaned env ?path r)"
    using clean [OF e(2), of ?path env] by blast
  let ?es = "cleaned_entries ops env path es"
  obtain found ys where rest: "walk_hashes ops env path es = (?es, found, ys, None)"
    "\<forall>h st. (h, st) \<in> set ys \<longleftrightarrow> (\<exists>en. (h, en) \<in> set ?es \<and> opens ops (join path h) en st)" "found \<longleftrightarrow> ?es \<noteq> []"
    using Cons.IH Cons.prems by (auto simp: fine_def)
  let ?st = "stamps_of (cleaned env ?path r)" and ?here = "if disk' = [] then [] else [(h, Inl disk')]"
  have same: "stamps_of r' = ?st" using r(4-7) by (simp add: stamps_of_def cleaned_def add_obsolete_def split: option.split)
  have left: "disk' \<noteq> []" if "sp_data ?st \<noteq> None"
  proof
    assume "disk' = []"
    with r(3) have "get_ondisk_files ops [] ?path True = Inr r'" by simp
    then have "r_data_info r' = None" "r_ts_info r' = None" using empty_directory [of ?path True r'] by simp_all
    then show False using that unfolding same [symmetric] by (simp add: stamps_of_def)
  qed
  have o: "opens ops ?path (Inl disk') st \<longleftrightarrow> st = ?st \<and> sp_data ?st \<noteq> None" for st
    using r(3) same by (auto simp: opens_def)
  have es: "cleaned_entries ops env path (e # es) = ?here @ ?es"
    using r(2) by (simp add: cleaned_entries_def e(1))
  have "sort disk' = [] \<longleftrightarrow> disk' = []" by (metis set_empty set_sort)
  then have w: "walk_hashes ops env path (e # es) =
      (?here @ ?es, disk' \<noteq> [] \<or> found, (if sp_data ?st = None then ys else (h, ?st) # ys), None)"
    using rest(1) r(2) by (simp add: e(1) clean_entry_def Let_def)
  show ?case
    unfolding w es
  proof (intro exI conjI, rule refl)
    let ?ys = "if sp_data ?st = None then ys else (h, ?st) # ys"
    show "\<forall>g st. (g, st) \<in> set ?ys \<longleftrightarrow> (\<exists>en. (g, en) \<in> set (?here @ ?es) \<and> opens ops (join path g) en st)"
    proof (intro allI)
      fix g st
      have "(\<exists>en. (g, en) \<in> set (?here @ ?es) \<and> opens ops (join path g) en st) \<longleftrightarrow>
          disk' \<noteq> [] \<and> g = h \<and> st = ?st \<and> sp_data ?st \<noteq> None \<or> (g, st) \<in> set ys"
        using o rest(2) by auto
      then show "(g, st) \<in> set ?ys \<longleftrightarrow> (\<exists>en. (g, en) \<in> set (?here @ ?es) \<and> opens ops (join path g) en st)"
        using left by auto
    qed
    show "(disk' \<noteq> [] \<or> found) \<longleftrightarrow> ?here @ ?es \<noteq> []" using rest(3) by simp
  qed
qed

lemma walk_suffixes_ok:
  assumes "distinct ss" and "\<forall>s \<in> set ss. fine ok (suffix_entries p s)"
  shows "\<exists>p' ys. walk_suffixes ops env pdir ss p = (p', ys, None) \<and>
    (\<forall>s. suffix_entries p' s =
       (if s \<in> set ss then cleaned_entries ops env (join pdir s) (suffix_entries p s) else suffix_entries p s)) \<and>
    (\<forall>h st. (h, st) \<in> set ys \<longleftrightarrow>
       (\<exists>s \<in> set ss. \<exists>en. (h, en) \<in> set (suffix_entries p' s) \<and> opens ops (join (join pdir s) h) en st)) \<and>
    (let empty = filter (\<lambda>s. suffix_entries p' s = []) ss in
     pt_inv p' = (if empty = [] then pt_inv p
       else Some (inv_text p @ concat (map (\<lambda>s. basename (join pdir s) @ [CHR 0x0A]) empty))))"
  using assms
proof (induction ss arbitrary: p)
  case Nil
  then show ?case by simp
next
  case (Cons s ss)
  let ?es = "cleaned_entries ops env (join pdir s) (suffix_entries p s)"
  obtain found ys where a: "walk_hashes ops env (join pdir s) (suffix_entries p s) = (?es, found, ys, None)"
    "\<forall>h st. (h, st) \<in> set ys \<longleftrightarrow> (\<exists>en. (h, en) \<in> set ?es \<and> opens ops (join (join pdir s) h) en st)" "found \<longleftrightarrow> ?es \<noteq> []"
    using walk_hashes_ok [of "suffix_entries p s" env "join pdir s"] Cons.prems(2) by auto
  define q where "q = (if found then set_entries s ?es p else invalidate_hash (join pdir s) (set_entries s ?es p))"
  have none: "?es = []" if "map_of (pt_dirs p) s = None" using that by (simp add: suffix_entries_def cleaned_entries_def)
  have q: "suffix_entries q t = (if t = s then ?es else suffix_entries p t)" for t
    using none by (auto simp: q_def set_entries_def suffix_entries_def set_dir_def invalidate_hash_def update_conv')
  have qi: "pt_inv q = (if ?es = [] then Some (inv_text p @ basename (join pdir s) @ [CHR 0x0A]) else pt_inv p)"
    using a(3) by (simp add: q_def set_entries_def set_dir_def invalidate_hash_def inv_text_def)
  then have qt: "inv_text q = (if ?es = [] then inv_text p @ basename (join pdir s) @ [CHR 0x0A] else inv_text p)"
    by (simp add: inv_text_def)
  have other: "suffix_entries q t = suffix_entries p t" if "t \<in> set ss" for t using that q Cons.prems(1) by auto
  obtain p' ys' where b: "walk_suffixes ops env pdir ss q = (p', ys', None)"
    "\<forall>t. suffix_entries p' t =
       (if t \<in> set ss then cleaned_entries ops env (join pdir t) (suffix_entries q t) else suffix_entries q t)"
    "\<forall>h st. (h, st) \<in> set ys' \<longleftrightarrow>
       (\<exists>t \<in> set ss. \<exists>en. (h, en) \<in> set (suffix_entries p' t) \<and> opens ops (join (join pdir t) h) en st)"
    "pt_inv p' = (if filter (\<lambda>s. suffix_entries p' s = []) ss = [] then pt_inv q
       else Some (inv_text q @ concat (map (\<lambda>s. basename (join pdir s) @ [CHR 0x0A]) (filter (\<lambda>s. suffix_entries p' s = []) ss))))"
  proof -
    have "\<forall>t \<in> set ss. fine ok (suffix_entries q t)" using Cons.prems other by auto
    with Cons.IH [of q] Cons.prems(1) show thesis using that by (auto simp: Let_def)
  qed
  have w: "walk_suffixes ops env pdir (s # ss) p = (p', ys @ ys', None)" using a(1) b(1) by (simp add: q_def Let_def)
  have s: "suffix_entries p' s = ?es" using b(2) Cons.prems(1) q by simp
  show ?case
    unfolding w
  proof (intro exI conjI, rule refl)
    show "\<forall>t. suffix_entries p' t =
       (if t \<in> set (s # ss) then cleaned_entries ops env (join pdir t) (suffix_entries p t) else suffix_entries p t)"
      using b(2) s q other by auto
    show "\<forall>h st. (h, st) \<in> set (ys @ ys') \<longleftrightarrow>
        (\<exists>t \<in> set (s # ss). \<exists>en. (h, en) \<in> set (suffix_entries p' t) \<and> opens ops (join (join pdir t) h) en st)"
      using a(2) b(3) s by simp
    show "let empty = filter (\<lambda>s. suffix_entries p' s = []) (s # ss) in
        pt_inv p' = (if empty = [] then pt_inv p
          else Some (inv_text p @ concat (map (\<lambda>s. basename (join pdir s) @ [CHR 0x0A]) empty)))"
      unfolding b(4) qi qt Let_def by (simp add: s)
  qed
qed

end

text \<open>Both policies keep the promise.\<close>

interpretation repl_walk: clean_policy "repl_ops lib" distinct
proof unfold_locales
  fix disk and path :: string and env assume d: "distinct (disk :: string list)"
  obtain r r' where "\<And>verify. get_ondisk_files (repl_ops lib) (rev (sort disk)) path verify = Inr r"
    "repl_outcome (base_parse_filename lib) (rev (sort disk)) r"
    "cleanup_ondisk_files (repl_ops lib) env path (Some disk) =
       (if kept_names env path r disk = [] then None else Some (kept_names env path r disk),
        Inr (cleaned env path r, rev (sort (kept_names env path r disk))))"
    "\<And>verify. get_ondisk_files (repl_ops lib) (rev (sort (kept_names env path r disk))) path verify = Inr r'"
    "repl_outcome (base_parse_filename lib) (rev (sort (kept_names env path r disk))) r'"
    "r_data_info r' = r_data_info r" "r_meta_info r' = r_meta_info r" "r_ctype_info r' = r_ctype_info r"
    "r_ts_info r' = r_ts_info (cleaned env path r)"
    by (rule repl_cleanup_run [OF d, of lib path env]) (rule that)
  then show "\<exists>r disk' r'. get_ondisk_files (repl_ops lib) (rev (sort disk)) path False = Inr r \<and>
      cleanup_ondisk_files (repl_ops lib) env path (Some disk) =
        (if disk' = [] then None else Some disk', Inr (cleaned env path r, rev (sort disk'))) \<and>
      get_ondisk_files (repl_ops lib) (rev (sort disk')) path True = Inr r' \<and>
      r_data_info r' = r_data_info r \<and> r_meta_info r' = r_meta_info r \<and> r_ctype_info r' = r_ctype_info r \<and>
      r_ts_info r' = r_ts_info (cleaned env path r)" by blast
qed

interpretation ec_walk: clean_policy "ec_ops lib args" "\<lambda>disk. distinct disk \<and> no_legacy disk \<and> ea_frag_prefs args = None"
proof unfold_locales
  fix disk and path :: string and env assume d: "distinct (disk :: string list) \<and> no_legacy disk \<and> ea_frag_prefs args = None"
  obtain r disk' r' where "get_ondisk_files (ec_ops lib args) (rev (sort disk)) path False = Inr r"
    "cleanup_ondisk_files (ec_ops lib args) env path (Some disk) =
       (if disk' = [] then None else Some disk', Inr (cleaned env path r, rev (sort disk')))"
    "set disk' \<subseteq> set disk" "get_ondisk_files (ec_ops lib args) (rev (sort disk')) path True = Inr r'"
    "r_data_info r' = r_data_info r" "r_meta_info r' = r_meta_info r"
    "r_ctype_info r' = r_ctype_info r" "r_unexpected r' = r_unexpected r"
    "r_ts_info r' = r_ts_info (cleaned env path r)"
    "\<forall>i \<in> with_ext ''.data'' (set (infos (ec_parse_filename lib (ea_policy args)) disk)).
       fi_filename i \<in> set disk' \<longleftrightarrow> frag_kept env path (set (infos (ec_parse_filename lib (ea_policy args)) disk)) i"
    by (rule ec_clean_again [of disk args lib path env]) (use d in blast)+
  then show "\<exists>r disk' r'. get_ondisk_files (ec_ops lib args) (rev (sort disk)) path False = Inr r \<and>
      cleanup_ondisk_files (ec_ops lib args) env path (Some disk) =
        (if disk' = [] then None else Some disk', Inr (cleaned env path r, rev (sort disk'))) \<and>
      get_ondisk_files (ec_ops lib args) (rev (sort disk')) path True = Inr r' \<and>
      r_data_info r' = r_data_info r \<and> r_meta_info r' = r_meta_info r \<and> r_ctype_info r' = r_ctype_info r \<and>
      r_ts_info r' = r_ts_info (cleaned env path r)" by blast
qed

section \<open>What SSYNC is told\<close>

lemma repl_yield_hashes:
  assumes "distinct (walked_suffixes suffixes p)"
    and "\<forall>s \<in> set (walked_suffixes suffixes p). fine distinct (suffix_entries p s)"
  shows "\<exists>p' ys. yield_hashes (repl_ops lib) env True pdir suffixes p = (p', ys, None) \<and>
    (\<forall>s. suffix_entries p' s = (if s \<in> set (walked_suffixes suffixes p)
       then cleaned_entries (repl_ops lib) env (join pdir s) (suffix_entries p s) else suffix_entries p s)) \<and>
    (\<forall>h st. (h, st) \<in> set ys \<longleftrightarrow> (\<exists>s \<in> set (walked_suffixes suffixes p). \<exists>en. (h, en) \<in> set (suffix_entries p' s) \<and>
       opens (repl_ops lib) (join (join pdir s) h) en st))"
  unfolding yield_hashes_def using repl_walk.walk_suffixes_ok [OF assms, of lib env pdir] by auto

text \<open>
  What is to be told of an erasure-coded object with the files \<open>S\<close>: the time of the newest durable fragment, the time
  of the newest \<^verbatim>\<open>.meta\<close> file not older than it, and a content type's time from such a file if it is newer than the
  fragment; without a durable fragment, the time of the newest tombstone.  Nothing is told when there is neither, or
  when the fragment that was asked for is missing.
\<close>

definition metas_since :: "'t :: linorder \<Rightarrow> 't finfo set \<Rightarrow> 't finfo set" where
  "metas_since t S = {m \<in> with_ext ''.meta'' S. t \<le> fi_timestamp m}"

definition ec_told :: "int option \<Rightarrow> 't :: linorder finfo set \<Rightarrow> 't stamps \<Rightarrow> bool" where
  "ec_told frag_index S st \<longleftrightarrow>
     (\<exists>w d m. newest (durable_frags S) (Some w) \<and> frag_choice frag_index S (fi_timestamp w) (Some d) \<and>
        newest (metas_since (fi_timestamp w) S) m \<and>
        sp_data st = Some (fi_timestamp w) \<and> sp_durable st = Some True \<and> sp_meta st = map_option fi_timestamp m \<and>
        (\<forall>c. sp_ctype st = Some c \<longrightarrow> fi_timestamp w < c \<and> (\<exists>i \<in> metas_since (fi_timestamp w) S. fi_ctype i = Some c)) \<and>
        (\<forall>i c. m = Some i \<longrightarrow> fi_ctype i = Some c \<longrightarrow> fi_timestamp w < c \<longrightarrow> (\<exists>c'. sp_ctype st = Some c' \<and> c \<le> c'))) \<or>
     (\<exists>t. durable_frags S = {} \<and> newest (with_ext ''.ts'' S) (Some t) \<and>
        st = \<lparr>sp_data = Some (fi_timestamp t), sp_meta = None, sp_ctype = None, sp_durable = None\<rparr>)"

text \<open>The \<^verbatim>\<open>.meta\<close> files of the choice.\<close>

lemma meta_choice_since:
  assumes "descending fi_timestamp ms" and "set (since t ms) = M"
    and "(mi, ci) = meta_choice d (since t (kept_meta ms))" and "fi_timestamp d = t"
  shows "newest M mi"
    and "\<And>c. ci = Some c \<Longrightarrow> c \<in> M \<and> newer_than (fi_ctype c) t"
    and "\<And>m x. mi = Some m \<Longrightarrow> fi_ctype m = Some x \<Longrightarrow> t < x \<Longrightarrow> \<exists>c y. ci = Some c \<and> fi_ctype c = Some y \<and> x \<le> y"
proof -
  have "newest M mi \<and> (\<forall>c. ci = Some c \<longrightarrow> c \<in> M \<and> newer_than (fi_ctype c) t) \<and>
     (\<forall>m x. mi = Some m \<longrightarrow> fi_ctype m = Some x \<longrightarrow> t < x \<longrightarrow> (\<exists>c y. ci = Some c \<and> fi_ctype c = Some y \<and> x \<le> y))"
  proof (cases "ms = []")
    case True
    then show ?thesis using assms(2,3) by (simp add: since_def meta_choice_def newest_def kept_meta_def retain_meta_def)
  next
    case False
    from False assms(1) show ?thesis
    proof (cases rule: kept_meta_cases)
      case (one m)
      then show ?thesis using assms(2-4)
        by (cases "t \<le> fi_timestamp m") (auto simp: since_def meta_choice_def newest_def newer_than_def split: if_splits option.splits)
    next
      case (two m c)
      have c: "fi_ctype c \<noteq> None" "\<And>x. fi_ctype m = Some x \<Longrightarrow> \<exists>y. fi_ctype c = Some y \<and> x < y"
        using two(5) by (auto simp: ctype_or_0_def split: option.splits)
      show ?thesis
      proof (cases "t \<le> fi_timestamp c")
        case True
        then have "t \<le> fi_timestamp m" using two(4) by simp
        then show ?thesis using True two assms(2-4) c
          by (auto simp: since_def meta_choice_def newest_def newer_than_def split: if_splits option.splits dest!: c(2))
      next
        case False
        then show ?thesis using two assms(2-4)
          by (cases "t \<le> fi_timestamp m") (auto simp: since_def meta_choice_def newest_def newer_than_def split: if_splits option.splits)
      qed
    qed
  qed
  then show "newest M mi" "\<And>c. ci = Some c \<Longrightarrow> c \<in> M \<and> newer_than (fi_ctype c) t"
    "\<And>m x. mi = Some m \<Longrightarrow> fi_ctype m = Some x \<Longrightarrow> t < x \<Longrightarrow> \<exists>c y. ci = Some c \<and> fi_ctype c = Some y \<and> x \<le> y" by blast+
qed

lemma outcome_told:
  assumes out: "ec_outcome k p fs r"
  shows "sp_data (stamps_of r) \<noteq> None \<longleftrightarrow> (\<exists>st. ec_told k (set (infos p fs)) st)"
    and "sp_data (stamps_of r) \<noteq> None \<Longrightarrow> ec_told k (set (infos p fs)) (stamps_of r)"
proof -
  let ?D = "staged p fs ''.data''" and ?S = "set (infos p fs)"
  have D: "set ?D = live_data ?S" by (rule staged_data)
  have "(sp_data (stamps_of r) \<noteq> None \<longleftrightarrow> (\<exists>st. ec_told k ?S st)) \<and> (sp_data (stamps_of r) \<noteq> None \<longrightarrow> ec_told k ?S (stamps_of r))"
  proof (cases "durable_at None ?D")
    case None
    then have n: "durable_frags ?S = {}" using D by (auto simp: durable_at_none durable_frags_def)
    have r: "r_data_info r = None" "r_meta_info r = None" "r_ctype_info r = None" "newest (with_ext ''.ts'' ?S) (r_ts_info r)"
      using out None first_staged_ts [of p fs] by (simp_all add: ec_outcome_def)
    have none: "\<not> newest (durable_frags ?S) (Some w)" for w using n by (simp add: newest_def)
    show ?thesis
    proof (cases "r_ts_info r")
      case None
      then have "with_ext ''.ts'' ?S = {}" using r(4) by (simp add: newest_def)
      then show ?thesis using r None none by (simp add: stamps_of_def ec_told_def newest_def)
    next
      case (Some t)
      then show ?thesis using r n by (auto simp: stamps_of_def ec_told_def)
    qed
  next
    case (Some t)
    obtain w where w: "newest (durable_frags ?S) (Some w)" "fi_timestamp w = t"
      using durable_at_listed [OF Some] D durable_at_newest [OF descending_staged Some]
      by (fastforce simp: newest_def durable_frags_def)
    have same: "fi_timestamp v = t" if "newest (durable_frags ?S) (Some v)" for v
      using w that by (force simp: newest_def)
    have ne: "durable_frags ?S \<noteq> {}" using w(1) by (auto simp: newest_def)
    have r: "r_ts_info r = None" "r_data_info r = choose_frag (Some (set_for None ?D t)) k"
      "(r_meta_info r, r_ctype_info r) = (case r_data_info r of None \<Rightarrow> (None, None)
             | Some d \<Rightarrow> meta_choice d (since t (staged p fs ''.meta'')))"
      using out Some by (simp_all add: ec_outcome_def)
    have f: "frag_choice k ?S t (r_data_info r)" unfolding r(2) by (rule choose_frag_spec [OF Some D])
    show ?thesis
    proof (cases "r_data_info r")
      case None
      then have "\<not> frag_choice k ?S t (Some d)" for d
        using f by (auto simp: frag_choice_def same_file_def split: option.splits) (metis finfo.select_convs(4) finfo.surjective finfo.update_convs(5))
      then show ?thesis using r None same ne by (auto simp: stamps_of_def ec_told_def)
    next
      case (Some d)
      have d: "is_durable d" "fi_timestamp d = t"
        using f Some by (auto simp: frag_choice_def frags_at_def same_file_fields)
      have w': "w \<in> live_data ?S" using w(1) by (auto simp: newest_def durable_frags_def)
      have M: "set (since t (live p fs ''.meta'')) = metas_since t ?S"
        using w' w(2) by (auto simp: since_def set_live metas_since_def live_data_def with_ext_def)
      have m: "(r_meta_info r, r_ctype_info r) = meta_choice d (since t (kept_meta (live p fs ''.meta'')))"
        using r(3) Some by (simp add: staged_def)
      have desc: "descending fi_timestamp (live p fs ''.meta'')" by auto
      note mc = meta_choice_since [OF desc M m d(2)]
      have "ec_told k ?S (stamps_of r)"
        unfolding ec_told_def
      proof (intro disjI1 exI conjI)
        show "newest (durable_frags ?S) (Some w)" by (rule w(1))
        show "frag_choice k ?S (fi_timestamp w) (Some d)" using f Some w(2) by simp
        show "newest (metas_since (fi_timestamp w) ?S) (r_meta_info r)" using mc(1) w(2) by simp
        show "sp_data (stamps_of r) = Some (fi_timestamp w)" "sp_durable (stamps_of r) = Some True"
          "sp_meta (stamps_of r) = map_option fi_timestamp (r_meta_info r)"
          using r(1) Some d w(2) by (simp_all add: stamps_of_def is_durable_def)
        show "\<forall>c. sp_ctype (stamps_of r) = Some c \<longrightarrow> fi_timestamp w < c \<and> (\<exists>i \<in> metas_since (fi_timestamp w) ?S. fi_ctype i = Some c)"
          using mc(2) w(2) by (fastforce simp: stamps_of_def newer_than_def split: option.splits)
        show "\<forall>i c. r_meta_info r = Some i \<longrightarrow> fi_ctype i = Some c \<longrightarrow> fi_timestamp w < c \<longrightarrow> (\<exists>c'. sp_ctype (stamps_of r) = Some c' \<and> c \<le> c')"
          using mc(3) w(2) by (fastforce simp: stamps_of_def)
      qed
      then show ?thesis using r(1) Some by (auto simp: stamps_of_def)
    qed
  qed
  then show "sp_data (stamps_of r) \<noteq> None \<longleftrightarrow> (\<exists>st. ec_told k (set (infos p fs)) st)"
    "sp_data (stamps_of r) \<noteq> None \<Longrightarrow> ec_told k (set (infos p fs)) (stamps_of r)" by blast+
qed

text \<open>Opening and the files of a directory; a cleaned directory holds no other names.\<close>

lemma opens_told:
  assumes "ea_frag_prefs args = None" and "no_legacy names"
  shows "opens (ec_ops lib args) path (Inl names) st \<longrightarrow> ec_told (ea_frag_index args) (set (infos (ec_parse_filename lib (ea_policy args)) names)) st"
    and "ec_told (ea_frag_index args) (set (infos (ec_parse_filename lib (ea_policy args)) names)) st \<longrightarrow>
      (\<exists>st'. opens (ec_ops lib args) path (Inl names) st')"
proof -
  let ?p = "ec_parse_filename lib (ea_policy args)" and ?fs = "rev (sort names)"
  have leg: "no_legacy ?fs" using assms(2) by (simp add: no_legacy_def list_all_iff)
  obtain r where r: "\<And>verify. get_ondisk_files (ec_ops lib args) ?fs path verify = Inr r" "ec_outcome (ea_frag_index args) ?p ?fs r"
    by (rule ec_run [OF assms(1) leg, of lib path]) (rule that)
  have S: "set (infos ?p ?fs) = set (infos ?p names)" by (auto simp: in_infos)
  note o = outcome_told [OF r(2), unfolded S]
  show "opens (ec_ops lib args) path (Inl names) st \<longrightarrow> ec_told (ea_frag_index args) (set (infos ?p names)) st"
    using o(2) r(1) by (auto simp: opens_def)
  show "ec_told (ea_frag_index args) (set (infos ?p names)) st \<longrightarrow> (\<exists>st'. opens (ec_ops lib args) path (Inl names) st')"
    using o(1) r(1) by (auto simp: opens_def)
qed

lemma ec_cleanup_subset:
  assumes "distinct disk" and "ea_frag_prefs args = None" and "no_legacy disk"
    and "fst (cleanup_ondisk_files (ec_ops lib args) env path (Some disk)) = Some names"
  shows "set names \<subseteq> set disk"
proof -
  obtain r where "cleanup_ondisk_files (ec_ops lib args) env path (Some disk) =
       (if kept_names env path r disk = [] then None else Some (kept_names env path r disk),
        Inr (cleaned env path r, kept_names env path r (rev (sort disk))))"
    by (rule ec_cleanup_run [OF assms(1-3), of lib path env]) (rule that)
  then show ?thesis using assms(4) by (auto simp: kept_names_def split: if_splits)
qed

lemma cleaned_legacy:
  assumes "ea_frag_prefs args = None" and "fine (\<lambda>names. distinct names \<and> no_legacy names) es"
    and "(h, Inl names) \<in> set (cleaned_entries (ec_ops lib args) env path es)"
  shows "no_legacy names"
proof -
  obtain disk where disk: "(h, Inl disk) \<in> set es" "fst (cleanup_ondisk_files (ec_ops lib args) env (join path h) (Some disk)) = Some names"
  proof -
    obtain a en where a: "(a, en) \<in> set es" "(h, Inl names) \<in> set (case en of
         Inl names \<Rightarrow> (case fst (cleanup_ondisk_files (ec_ops lib args) env (join path a) (Some names)) of None \<Rightarrow> [] | Some l \<Rightarrow> [(a, Inl l)])
       | Inr e \<Rightarrow> [(a, Inr e)])"
      using assms(3) by (auto simp: cleaned_entries_def)
    then show thesis using that by (cases en) (auto split: option.splits)
  qed
  then have "distinct disk" "no_legacy disk" using assms(2) by (auto simp: fine_def)
  then have "set names \<subseteq> set disk"
    using ec_cleanup_subset [OF _ assms(1), of disk lib env "join path h"] disk(2) by auto
  then show ?thesis using \<open>no_legacy disk\<close> by (auto simp: no_legacy_def list_all_iff)
qed

text \<open>C29: walking the suffixes of an erasure-coded partition whose directories can be listed and hold no legacy
  \<^verbatim>\<open>.durable\<close> files raises nothing and cleans up every object's directory.  The walk tells of exactly the objects
  that then have a durable fragment or a tombstone, and tells of each the times of these files and the durability.
  Other suffixes stay as they are, and exactly the walked suffixes that are left empty are written to
  \<^verbatim>\<open>hashes.invalid\<close>, in order.\<close>

theorem ec_yield_hashes:
  assumes "ea_frag_prefs args = None" and "distinct (walked_suffixes suffixes p)"
    and "\<forall>s \<in> set (walked_suffixes suffixes p). fine (\<lambda>names. distinct names \<and> no_legacy names) (suffix_entries p s)"
  shows "\<exists>p' ys. yield_hashes (ec_ops lib args) env True pdir suffixes p = (p', ys, None) \<and>
    (\<forall>s. suffix_entries p' s = (if s \<in> set (walked_suffixes suffixes p)
       then cleaned_entries (ec_ops lib args) env (join pdir s) (suffix_entries p s) else suffix_entries p s)) \<and>
    (\<forall>h st. (h, st) \<in> set ys \<longrightarrow> (\<exists>s \<in> set (walked_suffixes suffixes p). \<exists>names. (h, Inl names) \<in> set (suffix_entries p' s) \<and>
       ec_told (ea_frag_index args) (set (infos (ec_parse_filename lib (ea_policy args)) names)) st)) \<and>
    (\<forall>s \<in> set (walked_suffixes suffixes p). \<forall>h names st. (h, Inl names) \<in> set (suffix_entries p' s) \<longrightarrow>
       ec_told (ea_frag_index args) (set (infos (ec_parse_filename lib (ea_policy args)) names)) st \<longrightarrow>
       (\<exists>st'. (h, st') \<in> set ys \<and> ec_told (ea_frag_index args) (set (infos (ec_parse_filename lib (ea_policy args)) names)) st')) \<and>
    (let empty = filter (\<lambda>s. suffix_entries p' s = []) (walked_suffixes suffixes p) in
     pt_inv p' = (if empty = [] then pt_inv p
       else Some (inv_text p @ concat (map (\<lambda>s. basename (join pdir s) @ [CHR 0x0A]) empty))))"
proof -
  let ?ss = "walked_suffixes suffixes p" and ?S = "\<lambda>names. set (infos (ec_parse_filename lib (ea_policy args)) names)"
  let ?k = "ea_frag_index args"
  have f: "\<forall>s \<in> set ?ss. fine (\<lambda>disk. distinct disk \<and> no_legacy disk \<and> ea_frag_prefs args = None) (suffix_entries p s)"
    using assms(1,3) by (auto simp: fine_def)
  obtain p' ys where w: "walk_suffixes (ec_ops lib args) env pdir ?ss p = (p', ys, None)"
    "\<forall>s. suffix_entries p' s = (if s \<in> set ?ss
       then cleaned_entries (ec_ops lib args) env (join pdir s) (suffix_entries p s) else suffix_entries p s)"
    "\<forall>h st. (h, st) \<in> set ys \<longleftrightarrow> (\<exists>s \<in> set ?ss. \<exists>en. (h, en) \<in> set (suffix_entries p' s) \<and>
       opens (ec_ops lib args) (join (join pdir s) h) en st)"
    "let empty = filter (\<lambda>s. suffix_entries p' s = []) ?ss in
     pt_inv p' = (if empty = [] then pt_inv p
       else Some (inv_text p @ concat (map (\<lambda>s. basename (join pdir s) @ [CHR 0x0A]) empty)))"
    using ec_walk.walk_suffixes_ok [OF assms(2) f, of lib env pdir] by blast
  have leg: "no_legacy names" if "s \<in> set ?ss" "(h, Inl names) \<in> set (suffix_entries p' s)" for s h names
    using that w(2) assms(1,3) by (auto dest!: cleaned_legacy [rotated 2])
  have told: "opens (ec_ops lib args) path (Inl names) st \<longrightarrow> ec_told ?k (?S names) st"
    "ec_told ?k (?S names) st \<longrightarrow> (\<exists>st'. opens (ec_ops lib args) path (Inl names) st')"
    if "no_legacy names" for path names st
    using opens_told [OF assms(1) that, where lib = lib and path = path] by blast+
  show ?thesis
    unfolding yield_hashes_def
  proof (intro exI conjI)
    show "(if \<not> True then (p, [], Some DiskFileDeviceUnavailable) else walk_suffixes (ec_ops lib args) env pdir ?ss p) = (p', ys, None)"
      using w(1) by simp
    show "\<forall>h st. (h, st) \<in> set ys \<longrightarrow> (\<exists>s \<in> set ?ss. \<exists>names. (h, Inl names) \<in> set (suffix_entries p' s) \<and> ec_told ?k (?S names) st)"
      using w(3) leg told(1) by (metis opens_def)
    show "\<forall>s \<in> set ?ss. \<forall>h names st. (h, Inl names) \<in> set (suffix_entries p' s) \<longrightarrow> ec_told ?k (?S names) st \<longrightarrow>
       (\<exists>st'. (h, st') \<in> set ys \<and> ec_told ?k (?S names) st')"
      using w(3) leg told by metis
  qed (use w(2,4) in blast)+
qed

definition walk_part :: part where
  "walk_part = \<lparr>pt_pkl = None, pt_inv = None,
     pt_dirs = [(''abc'', [(''h1'', Inl [''2#3#d.data'', ''1.ts'']), (''h2'', Inl [''999.ts''])]), (''def'', [(''h3'', Inl [])]),
       (''tmp'', [])]\<rparr>"

theorem ec_yield_hashes_witness:
  "\<exists>p' ys. yield_hashes (ec_ops sample_lib sample_args) old_env True ''/p'' None walk_part = (p', ys, None) \<and>
     (\<forall>s. s \<notin> set [''abc'', ''def''] \<longrightarrow> suffix_entries p' s = suffix_entries walk_part s)"
proof -
  have s: "walked_suffixes None walk_part = [''abc'', ''def'']" "distinct (walked_suffixes None walk_part)"
    "ea_frag_prefs sample_args = None" "suffix_entries walk_part ''abc'' = [(''h1'', Inl [''2#3#d.data'', ''1.ts'']), (''h2'', Inl [''999.ts''])]"
    "suffix_entries walk_part ''def'' = [(''h3'', Inl [])]" "no_legacy []" "no_legacy [''999.ts'']" "no_legacy [''2#3#d.data'', ''1.ts'']" by code_simp+
  have "\<forall>s \<in> set (walked_suffixes None walk_part). fine (\<lambda>names. distinct names \<and> no_legacy names) (suffix_entries walk_part s)"
    using s(4-8) by (simp add: s(1) fine_def)
  from ec_yield_hashes [OF s(3,2) this, of sample_lib old_env "''/p''"] obtain p' ys where
    "yield_hashes (ec_ops sample_lib sample_args) old_env True ''/p'' None walk_part = (p', ys, None)"
    "\<forall>s. suffix_entries p' s = (if s \<in> set [''abc'', ''def'']
       then cleaned_entries (ec_ops sample_lib sample_args) old_env (join ''/p'' s) (suffix_entries walk_part s) else suffix_entries walk_part s)"
    unfolding s(1) by (elim exE conjE) (rule that)
  then show ?thesis by (intro exI [of _ p'] exI [of _ ys]) simp
qed

lemma walk_sample:
  "yield_hashes (ec_ops sample_lib sample_args) old_env True ''/p'' None walk_part =
     (\<lparr>pt_pkl = None, pt_inv = Some ''def\<newline>'', pt_dirs = [(''abc'', [(''h1'', Inl [''2#3#d.data'']), (''h2'', Inl [''999.ts''])]), (''def'', []), (''tmp'', [])]\<rparr>,
      [(''h1'', \<lparr>sp_data = Some 2, sp_meta = None, sp_ctype = None, sp_durable = Some True\<rparr>),
       (''h2'', \<lparr>sp_data = Some 999, sp_meta = None, sp_ctype = None, sp_durable = None\<rparr>)], None)"
  by code_simp

end
