(* ===== verification/Auditor.thy ===== *)
theory Auditor
  imports PyStrings
begin

text \<open>
  The auditor's walk of \<^verbatim>\<open>swift_patches/obj/bs_diskfile.py\<close>: \<^verbatim>\<open>object_audit_location_generator\<close> over all devices,
  with the status file of each device that lets a sweep go on where a killed one stopped (\<^verbatim>\<open>get_auditor_status\<close>,
  \<^verbatim>\<open>update_auditor_status\<close>, \<^verbatim>\<open>clear_auditor_status\<close>).  A run is the sequence of what becomes visible: the contents
  a status file takes, and the locations handed to the auditor; a kill leaves a prefix of it.
\<close>

section \<open>The status file\<close>

text \<open>
  What reading it gives: the partitions, text that is not JSON, a file that can not be read (the errno), or text
  whose use raises (\<^verbatim>\<open>UnicodeDecodeError\<close> is a \<open>ValueError\<close>, JSON without the key a \<open>KeyError\<close>).
\<close>

datatype status_text =
    Partitions "string list"
  | Broken
  | Unreadable int
  | Foreign pyexc

record status =
  st_text :: status_text
  st_mtime :: int

text \<open>
  The outcome of \<^verbatim>\<open>listdir\<close> of \<^verbatim>\<open>swift.common.utils\<close>, which is not in the repository, on a path: the names, or the
  errno of the \<open>OSError\<close>.
\<close>

type_synonym listing = "string list + int"

definition listed_or_raise :: "listing \<Rightarrow> pyexc + string list" where
  "listed_or_raise l = (case l of Inl names \<Rightarrow> Inr names | Inr e \<Rightarrow> Inl (OSError e))"

text \<open>Without a logger, the warning about bad JSON is an \<open>AttributeError\<close>.\<close>

definition get_auditor_status :: "bool \<Rightarrow> listing \<Rightarrow> status option \<Rightarrow> pyexc + string list" where
  "get_auditor_status logger datadir st =
     (case map_option st_text st of
        None \<Rightarrow> listed_or_raise datadir
      | Some (Unreadable e) \<Rightarrow> listed_or_raise datadir
      | Some Broken \<Rightarrow> if logger then listed_or_raise datadir else Inl AttributeError
      | Some (Foreign e) \<Rightarrow> Inl e
      | Some (Partitions ps) \<Rightarrow> Inr ps)"

text \<open>
  Writing can fail before or after the file is truncated.  The result is the contents the file takes, in order:
  between opening and writing it is empty.  Times are in one unit; \<^verbatim>\<open>os.stat\<close> fails where there is no file.
\<close>

datatype write_outcome = Not_opened | Not_written | Written

definition MIN_TIME_UPDATE_AUDITOR_STATUS :: int where
  "MIN_TIME_UPDATE_AUDITOR_STATUS = 60"

definition update_auditor_status :: "int \<Rightarrow> write_outcome \<Rightarrow> string list \<Rightarrow> status option \<Rightarrow> status list" where
  "update_auditor_status now w partitions st =
     (let mtime = (case st of None \<Rightarrow> 0 | Some s \<Rightarrow> st_mtime s);
          recently_updated = mtime + MIN_TIME_UPDATE_AUDITOR_STATUS > now
      in if recently_updated \<and> partitions \<noteq> [] then []
         else case w of
                Not_opened \<Rightarrow> []
              | Not_written \<Rightarrow> [\<lparr>st_text = Broken, st_mtime = now\<rparr>]
              | Written \<Rightarrow> [\<lparr>st_text = Broken, st_mtime = now\<rparr>, \<lparr>st_text = Partitions partitions, st_mtime = now\<rparr>])"

text \<open>The status files of all devices, by device; \<^verbatim>\<open>remove_file\<close> does not raise.\<close>

type_synonym statuses = "string \<Rightarrow> status option"

fun clear_statuses :: "string list \<Rightarrow> statuses \<Rightarrow> statuses" where
  "clear_statuses [] S = S"
| "clear_statuses (d # ds) S = clear_statuses ds (S(d := None))"

definition clear_auditor_status :: "listing \<Rightarrow> statuses \<Rightarrow> statuses \<times> pyexc option" where
  "clear_auditor_status devices S =
     (case devices of Inl ds \<Rightarrow> (clear_statuses ds S, None) | Inr e \<Rightarrow> (S, Some (OSError e)))"

section \<open>The walk\<close>

record 'p audit_location =
  al_path :: string
  al_device :: string
  al_partition :: string
  al_policy :: 'p

datatype 'p audit_event =
    Status string status
  | Location "'p audit_location"

text \<open>
  Its surroundings: \<^verbatim>\<open>listdir\<close>, whether \<^verbatim>\<open>check_drive\<close> accepts a device and \<^verbatim>\<open>os.path.exists\<close> a path, what
  \<^verbatim>\<open>random.shuffle\<close> makes of a list, and time and outcome of each update on a device, by position.
\<close>

record audit_env =
  ae_ls :: "string \<Rightarrow> listing"
  ae_drive :: "string \<Rightarrow> bool"
  ae_exists :: "string \<Rightarrow> bool"
  ae_shuffle :: "string list \<Rightarrow> string list"
  ae_now :: "string \<Rightarrow> nat \<Rightarrow> int"
  ae_write :: "string \<Rightarrow> nat \<Rightarrow> write_outcome"

definition skipped_errno :: "int \<Rightarrow> bool" where
  "skipped_errno e \<longleftrightarrow> e \<in> {ENOTDIR, ENODATA, EUCLEAN}"

fun audit_suffixes ::
  "(string \<Rightarrow> listing) \<Rightarrow> string \<Rightarrow> string \<Rightarrow> 'p \<Rightarrow> string \<Rightarrow> string list
     \<Rightarrow> 'p audit_event list \<times> pyexc option" where
  "audit_suffixes ls device part policy part_path [] = ([], None)"
| "audit_suffixes ls device part policy part_path (asuffix # suffixes) =
     (let suff_path = join part_path asuffix in
      case ls suff_path of
        Inr e \<Rightarrow>
          if skipped_errno e then audit_suffixes ls device part policy part_path suffixes
          else ([], Some (OSError e))
      | Inl hashes \<Rightarrow>
          (let (es, x) = audit_suffixes ls device part policy part_path suffixes
           in (map (\<lambda>hsh. Location \<lparr>al_path = join suff_path hsh, al_device = device, al_partition = part,
                 al_policy = policy\<rparr>) hashes @ es, x)))"

definition audit_partition ::
  "(string \<Rightarrow> listing) \<Rightarrow> string \<Rightarrow> 'p \<Rightarrow> string \<Rightarrow> string \<Rightarrow> 'p audit_event list \<times> pyexc option" where
  "audit_partition ls device policy datadir_path part =
     (let part_path = join datadir_path part in
      case ls part_path of
        Inr e \<Rightarrow> if skipped_errno e then ([], None) else ([], Some (OSError e))
      | Inl suffixes \<Rightarrow> audit_suffixes ls device part policy part_path suffixes)"

definition now_status :: "status list \<Rightarrow> status option \<Rightarrow> status option" where
  "now_status us st = (if us = [] then st else Some (last us))"

fun audit_partitions ::
  "audit_env \<Rightarrow> string \<Rightarrow> 'p \<Rightarrow> string \<Rightarrow> nat \<Rightarrow> string list \<Rightarrow> status option
     \<Rightarrow> 'p audit_event list \<times> pyexc option" where
  "audit_partitions env device policy datadir_path pos [] st =
     (map (Status device) (update_auditor_status (ae_now env device pos) (ae_write env device pos) [] st), None)"
| "audit_partitions env device policy datadir_path pos (part # partitions) st =
     (let us = update_auditor_status (ae_now env device pos) (ae_write env device pos) (part # partitions) st;
          (es, x) = audit_partition (ae_ls env) device policy datadir_path part
      in case x of
           Some e \<Rightarrow> (map (Status device) us @ es, Some e)
         | None \<Rightarrow>
             (let (es', x) = audit_partitions env device policy datadir_path (Suc pos) partitions (now_status us st)
              in (map (Status device) us @ es @ es', x)))"

definition audit_device ::
  "audit_env \<Rightarrow> bool \<Rightarrow> string \<Rightarrow> string \<Rightarrow> 'p \<Rightarrow> string \<Rightarrow> status option
     \<Rightarrow> 'p audit_event list \<times> pyexc option" where
  "audit_device env logger devices datadir policy device st =
     (let datadir_path = join (join devices device) datadir in
      if \<not> ae_drive env device \<or> \<not> ae_exists env datadir_path then ([], None)
      else case get_auditor_status logger (ae_ls env datadir_path) st of
             Inl e \<Rightarrow> ([], Some e)
           | Inr partitions \<Rightarrow> audit_partitions env device policy datadir_path 0 partitions st)"

fun apply_event :: "'p audit_event \<Rightarrow> statuses \<Rightarrow> statuses" where
  "apply_event (Status d s) S = S(d := Some s)"
| "apply_event (Location l) S = S"

definition after_events :: "'p audit_event list \<Rightarrow> statuses \<Rightarrow> statuses" where
  "after_events es S = fold apply_event es S"

fun audit_devices ::
  "audit_env \<Rightarrow> bool \<Rightarrow> string \<Rightarrow> string \<Rightarrow> 'p \<Rightarrow> string list \<Rightarrow> statuses
     \<Rightarrow> 'p audit_event list \<times> pyexc option" where
  "audit_devices env logger devices datadir policy [] S = ([], None)"
| "audit_devices env logger devices datadir policy (device # device_dirs) S =
     (let (es, x) = audit_device env logger devices datadir policy device (S device) in
      case x of
        Some e \<Rightarrow> (es, Some e)
      | None \<Rightarrow>
          (let (es', x) = audit_devices env logger devices datadir policy device_dirs (after_events es S)
           in (es @ es', x)))"

text \<open>\<^verbatim>\<open>split_policy_string\<close> of Swift gives the policy; \<open>[]\<close> is the absent \<^verbatim>\<open>device_dirs\<close>.\<close>

definition object_audit_location_generator ::
  "audit_env \<Rightarrow> bool \<Rightarrow> string \<Rightarrow> string \<Rightarrow> 'p \<Rightarrow> string list \<Rightarrow> statuses
     \<Rightarrow> 'p audit_event list \<times> pyexc option" where
  "object_audit_location_generator env logger devices datadir policy device_dirs S =
     (case ae_ls env devices of
        Inr e \<Rightarrow> ([], Some (OSError e))
      | Inl names \<Rightarrow>
          (let dirs = (if device_dirs = [] then names else filter (\<lambda>d. d \<in> set device_dirs) (remdups names))
           in audit_devices env logger devices datadir policy (ae_shuffle env dirs) S))"

section \<open>What there is to visit\<close>

text \<open>Errors that stop the walk do not occur in \<open>ls\<close>.\<close>

definition walkable :: "(string \<Rightarrow> listing) \<Rightarrow> bool" where
  "walkable ls \<longleftrightarrow> (\<forall>p e. ls p = Inr e \<longrightarrow> skipped_errno e)"

definition names_at :: "(string \<Rightarrow> listing) \<Rightarrow> string \<Rightarrow> string set" where
  "names_at ls p = (case ls p of Inl names \<Rightarrow> set names | Inr e \<Rightarrow> {})"

text \<open>The object directories of a partition, and of the partitions that a sweep of a device still has before it.\<close>

definition places_in :: "(string \<Rightarrow> listing) \<Rightarrow> string \<Rightarrow> 'p \<Rightarrow> string \<Rightarrow> string \<Rightarrow> 'p audit_location set" where
  "places_in ls device policy datadir_path part =
     (\<Union>s \<in> names_at ls (join datadir_path part).
        (\<lambda>h. \<lparr>al_path = join (join (join datadir_path part) s) h, al_device = device, al_partition = part,
               al_policy = policy\<rparr>) ` names_at ls (join (join datadir_path part) s))"

definition remaining :: "string set \<Rightarrow> status option \<Rightarrow> string set" where
  "remaining partitions st = (case map_option st_text st of Some (Partitions ps) \<Rightarrow> set ps | _ \<Rightarrow> partitions)"

definition usable :: "string set \<Rightarrow> status option \<Rightarrow> bool" where
  "usable partitions st \<longleftrightarrow>
     (case map_option st_text st of Some (Partitions ps) \<Rightarrow> set ps \<subseteq> partitions | Some (Foreign e) \<Rightarrow> False | _ \<Rightarrow> True)"

definition to_visit ::
  "audit_env \<Rightarrow> string \<Rightarrow> string \<Rightarrow> 'p \<Rightarrow> string \<Rightarrow> status option \<Rightarrow> 'p audit_location set" where
  "to_visit env devices datadir policy device st =
     (let dp = join (join devices device) datadir in
      if ae_drive env device \<and> ae_exists env dp
      then \<Union> (places_in (ae_ls env) device policy dp ` remaining (names_at (ae_ls env) dp) st) else {})"

lemma audit_suffixes_run:
  assumes "walkable ls"
  shows "\<exists>es. audit_suffixes ls device part policy path ss = (es, None) \<and>
    set es = (\<Union>s \<in> set ss. Location ` (\<lambda>h. \<lparr>al_path = join (join path s) h, al_device = device, al_partition = part,
      al_policy = policy\<rparr>) ` names_at ls (join path s))"
proof (induction ss)
  case Nil
  then show ?case by simp
next
  case (Cons s ss)
  then show ?case
    using assms by (cases "ls (join path s)") (auto simp: names_at_def walkable_def image_image Let_def)
qed

lemma audit_partition_run:
  assumes "walkable ls"
  shows "\<exists>es. audit_partition ls device policy dp p = (es, None) \<and> set es = Location ` places_in ls device policy dp p"
proof (cases "ls (join dp p)")
  case (Inl ss)
  then show ?thesis
    using audit_suffixes_run [OF assms, of device p policy "join dp p" ss]
    by (auto simp: audit_partition_def places_in_def names_at_def image_UN)
next
  case (Inr e)
  then show ?thesis using assms by (simp add: audit_partition_def places_in_def names_at_def walkable_def)
qed

section \<open>A kill at any point\<close>

text \<open>The status of one device after some events of its own.\<close>

fun device_status :: "'p audit_event list \<Rightarrow> status option \<Rightarrow> status option" where
  "device_status [] st = st"
| "device_status (Status d s # es) st = device_status es (Some s)"
| "device_status (Location l # es) st = device_status es st"

lemma device_status_append [simp]: "device_status (xs @ ys) st = device_status ys (device_status xs st)"
  by (induction xs st rule: device_status.induct) simp_all

lemma device_status_locations: "set es \<subseteq> range Location \<Longrightarrow> device_status es st = st"
  by (induction es st rule: device_status.induct) auto

lemma device_status_updates: "device_status (map (Status d) us) st = now_status us st"
  by (induction us arbitrary: st) (simp_all add: now_status_def)

text \<open>
  Events keep a promise: after any of them the status still names, or stands for, all that was not visited.
\<close>

definition keeps_rest ::
  "(string \<Rightarrow> 'p audit_location set) \<Rightarrow> string set \<Rightarrow> 'p audit_event list \<Rightarrow> status option \<Rightarrow> bool" where
  "keeps_rest places all es st \<longleftrightarrow>
     (\<forall>xs ys. es = xs @ ys \<longrightarrow> usable all (device_status xs st) \<and>
        (\<forall>l. Location l \<in> set ys \<longrightarrow> l \<in> \<Union> (places ` remaining all (device_status xs st))))"

lemma update_statuses:
  "update_auditor_status now w ps st \<in> {[], [\<lparr>st_text = Broken, st_mtime = now\<rparr>],
     [\<lparr>st_text = Broken, st_mtime = now\<rparr>, \<lparr>st_text = Partitions ps, st_mtime = now\<rparr>]}"
  by (simp add: update_auditor_status_def Let_def split: write_outcome.split)

fun handed_out :: "'p audit_event list \<Rightarrow> 'p audit_location list" where
  "handed_out [] = []"
| "handed_out (Status d s # es) = handed_out es"
| "handed_out (Location l # es) = l # handed_out es"

definition locations :: "'p audit_event list \<Rightarrow> 'p audit_location set" where
  "locations es = set (handed_out es)"

lemma locations_iff: "l \<in> locations es \<longleftrightarrow> Location l \<in> set es"
  by (induction es rule: handed_out.induct) (auto simp: locations_def)

lemma locations_simps [simp]:
  "locations [] = {}" "locations (Status d s # es) = locations es" "locations (Location l # es) = insert l (locations es)"
  "locations (xs @ ys) = locations xs \<union> locations ys" "locations (map (Status d) us) = {}"
  by (auto simp: locations_iff set_eq_iff)

lemma locations_eq: "set es = Location ` L \<Longrightarrow> locations es = L"
  by (auto simp: locations_iff set_eq_iff)

lemma keeps_rest_Nil: "usable all st \<Longrightarrow> keeps_rest places all [] st"
  by (simp add: keeps_rest_def)

lemma keeps_rest_usable: "keeps_rest places all es st \<Longrightarrow> usable all st"
  by (auto simp: keeps_rest_def dest: spec [of _ "[]"])

lemma keeps_rest_Status:
  assumes "keeps_rest places all es (Some s)" and "usable all st"
    and "locations es \<subseteq> \<Union> (places ` remaining all st)"
  shows "keeps_rest places all (Status d s # es) st"
  using assms(1,2) assms(3) [unfolded subset_iff locations_iff]
  unfolding keeps_rest_def by (fastforce simp: Cons_eq_append_conv)

lemma keeps_rest_Location:
  assumes "keeps_rest places all es st" and "l \<in> \<Union> (places ` remaining all st)"
  shows "keeps_rest places all (Location l # es) st"
proof -
  have "Location k \<in> set es \<Longrightarrow> k \<in> \<Union> (places ` remaining all st)" for k
    using assms(1) by (auto simp: keeps_rest_def dest: spec [of _ "[]"])
  then show ?thesis
    using assms unfolding keeps_rest_def by (auto simp: Cons_eq_append_conv keeps_rest_usable [OF assms(1)])
qed

lemma keeps_rest_Locations:
  assumes "keeps_rest places all es st" and "set xs \<subseteq> Location ` (\<Union> (places ` remaining all st))"
  shows "keeps_rest places all (xs @ es) st"
  using assms by (induction xs) (auto intro!: keeps_rest_Location)

lemma keeps_rest_updates:
  assumes "usable all st" and "set ps \<subseteq> remaining all st" and "set ps \<subseteq> all"
    and us: "us = update_auditor_status now w ps st"
    and "locations es \<subseteq> \<Union> (places ` set ps)" and rest: "keeps_rest places all es (now_status us st)"
  shows "keeps_rest places all (map (Status d) us @ es) st"
proof -
  let ?b = "\<lparr>st_text = Broken, st_mtime = now\<rparr>" and ?p = "\<lparr>st_text = Partitions ps, st_mtime = now\<rparr>"
  have l: "locations es \<subseteq> \<Union> (places ` remaining all t)" if "set ps \<subseteq> remaining all t" for t using assms(5) that by blast
  have u: "usable all (Some ?b)" "set ps \<subseteq> remaining all (Some ?b)"
    using assms(3) by (simp_all add: usable_def remaining_def)
  consider "us = []" | "us = [?b]" | "us = [?b, ?p]" using update_statuses [of now w ps st] us by blast
  then show ?thesis
  proof cases
    case 1
    then show ?thesis using rest by (simp add: now_status_def)
  next
    case 2
    then show ?thesis using rest keeps_rest_Status [OF _ assms(1) l [OF assms(2)]] by (simp add: now_status_def)
  next
    case 3
    have "keeps_rest places all (Status d ?p # es) (Some ?b)"
      using rest 3 by (intro keeps_rest_Status u(1) l u(2)) (simp add: now_status_def)
    from keeps_rest_Status [OF this assms(1), of d] show ?thesis using 3 l [OF assms(2)] by simp
  qed
qed

lemma remaining_updates:
  "usable all st \<Longrightarrow> set ps \<subseteq> remaining all st \<Longrightarrow> set ps \<subseteq> all \<Longrightarrow>
     usable all (now_status (update_auditor_status now w ps st) st) \<and>
     set ps \<subseteq> remaining all (now_status (update_auditor_status now w ps st) st)"
  using update_statuses [of now w ps st] by (auto simp: now_status_def usable_def remaining_def)

lemma remaining_known: "usable all st \<Longrightarrow> remaining all st \<subseteq> all"
  by (auto simp: usable_def remaining_def split: option.splits status_text.splits)

section \<open>One device\<close>

lemma audit_partitions_run:
  assumes "walkable (ae_ls env)" and "usable all st" and "set ps \<subseteq> remaining all st"
  shows "\<exists>es. audit_partitions env device policy dp pos ps st = (es, None) \<and>
    locations es = \<Union> (places_in (ae_ls env) device policy dp ` set ps) \<and>
    (\<forall>d s. Status d s \<in> set es \<longrightarrow> d = device) \<and>
    keeps_rest (places_in (ae_ls env) device policy dp) all es st"
  using assms(2,3)
proof (induction ps arbitrary: pos st)
  case Nil
  have "keeps_rest (places_in (ae_ls env) device policy dp) all
      (map (Status device) (update_auditor_status (ae_now env device pos) (ae_write env device pos) [] st) @ []) st"
    using remaining_updates [OF Nil.prems] by (intro keeps_rest_updates [OF Nil.prems _ refl]) (simp_all add: keeps_rest_Nil)
  then show ?case by auto
next
  case (Cons p ps)
  let ?us = "update_auditor_status (ae_now env device pos) (ae_write env device pos) (p # ps) st"
  let ?places = "places_in (ae_ls env) device policy dp"
  have sub: "set (p # ps) \<subseteq> all" using remaining_known Cons.prems by blast
  note now = remaining_updates [OF Cons.prems sub, of "ae_now env device pos" "ae_write env device pos"]
  obtain es where p: "audit_partition (ae_ls env) device policy dp p = (es, None)" "set es = Location ` ?places p"
    using audit_partition_run [OF assms(1), of device policy dp p] by blast
  obtain es' where ps: "audit_partitions env device policy dp (Suc pos) ps (now_status ?us st) = (es', None)"
    "locations es' = \<Union> (?places ` set ps)" "\<forall>d s. Status d s \<in> set es' \<longrightarrow> d = device"
    "keeps_rest ?places all es' (now_status ?us st)"
    using Cons.IH [of "now_status ?us st" "Suc pos"] now by auto
  have l: "locations (es @ es') = \<Union> (?places ` set (p # ps))" using locations_eq [OF p(2)] ps(2) by simp
  have "keeps_rest ?places all (es @ es') (now_status ?us st)"
    using ps(4) p(2) now by (intro keeps_rest_Locations) auto
  then have "keeps_rest ?places all (map (Status device) ?us @ es @ es') st"
    using keeps_rest_updates [OF Cons.prems sub refl] l by blast
  moreover have "audit_partitions env device policy dp pos (p # ps) st = (map (Status device) ?us @ es @ es', None)"
    using p(1) ps(1) by (simp add: Let_def)
  moreover have "\<forall>d s. Status d s \<in> set (map (Status device) ?us @ es @ es') \<longrightarrow> d = device" using p(2) ps(3) by auto
  ultimately show ?case using l by auto
qed

text \<open>On a device that is walked, its partitions can be listed and its status names partitions it has.\<close>

definition walked :: "audit_env \<Rightarrow> string \<Rightarrow> string \<Rightarrow> string \<Rightarrow> bool" where
  "walked env devices datadir device \<longleftrightarrow> ae_drive env device \<and> ae_exists env (join (join devices device) datadir)"

definition resumable :: "audit_env \<Rightarrow> string \<Rightarrow> string \<Rightarrow> string \<Rightarrow> status option \<Rightarrow> bool" where
  "resumable env devices datadir device st \<longleftrightarrow>
     (let dp = join (join devices device) datadir in
      walked env devices datadir device \<longrightarrow> isl (ae_ls env dp) \<and> usable (names_at (ae_ls env) dp) st)"

lemma get_auditor_status_run:
  assumes "isl l" and "usable (case l of Inl ns \<Rightarrow> set ns | Inr e \<Rightarrow> {}) st"
  shows "\<exists>ps. get_auditor_status True l st = Inr ps \<and> set ps = remaining (case l of Inl ns \<Rightarrow> set ns | Inr e \<Rightarrow> {}) st"
  using assms
  by (auto simp: get_auditor_status_def usable_def remaining_def listed_or_raise_def isl_def
      split: option.splits status_text.splits)

lemma audit_device_run:
  assumes "walkable (ae_ls env)" and "resumable env devices datadir device st"
  shows "\<exists>es. audit_device env True devices datadir policy device st = (es, None) \<and>
    locations es = to_visit env devices datadir policy device st \<and>
    (\<forall>d s. Status d s \<in> set es \<longrightarrow> d = device) \<and>
    (\<forall>xs ys. es = xs @ ys \<longrightarrow> resumable env devices datadir device (device_status xs st) \<and>
       locations ys \<subseteq> to_visit env devices datadir policy device (device_status xs st))"
proof (cases "walked env devices datadir device")
  case False
  then show ?thesis by (auto simp: audit_device_def to_visit_def walked_def resumable_def)
next
  case True
  let ?dp = "join (join devices device) datadir"
  let ?all = "names_at (ae_ls env) ?dp" and ?places = "places_in (ae_ls env) device policy ?dp"
  have ok: "isl (ae_ls env ?dp)" "usable ?all st" using assms(2) True by (simp_all add: resumable_def Let_def)
  obtain ps where ps: "get_auditor_status True (ae_ls env ?dp) st = Inr ps" "set ps = remaining ?all st"
    using get_auditor_status_run [OF ok(1)] ok(2) unfolding names_at_def by blast
  obtain es where es: "audit_partitions env device policy ?dp 0 ps st = (es, None)"
    "locations es = \<Union> (?places ` set ps)" "\<forall>d s. Status d s \<in> set es \<longrightarrow> d = device" "keeps_rest ?places ?all es st"
    using audit_partitions_run [OF assms(1) ok(2), of ps device policy ?dp 0] ps(2) by auto
  have run: "audit_device env True devices datadir policy device st = (es, None)"
    using True ps(1) es(1) by (simp add: audit_device_def walked_def)
  have visit: "to_visit env devices datadir policy device t = \<Union> (?places ` remaining ?all t)" for t
    using True by (simp add: to_visit_def walked_def Let_def)
  have "resumable env devices datadir device (device_status xs st) \<and>
      locations ys \<subseteq> to_visit env devices datadir policy device (device_status xs st)" if "es = xs @ ys" for xs ys
    using es(4) that ok(1) unfolding visit keeps_rest_def by (auto simp: resumable_def locations_iff)
  then show ?thesis using run es(2,3) ps(2) visit by auto
qed

section \<open>All devices\<close>

lemma after_events_append: "after_events (xs @ ys) S = after_events ys (after_events xs S)"
  by (simp add: after_events_def)

lemma after_events_device:
  "(\<forall>d s. Status d s \<in> set es \<longrightarrow> d = device) \<Longrightarrow> after_events es S d = (if d = device then device_status es (S d) else S d)"
proof (induction es arbitrary: S)
  case Nil
  then show ?case by (simp add: after_events_def)
next
  case (Cons e es)
  have t: "\<forall>d s. Status d s \<in> set es \<longrightarrow> d = device" using Cons.prems by simp
  show ?case using Cons.IH [OF t] Cons.prems by (cases e) (auto simp: after_events_def)
qed

lemma after_events_other: "(\<forall>s. Status d s \<notin> set es) \<Longrightarrow> after_events es S d = S d"
proof (induction es arbitrary: S)
  case Nil
  then show ?case by (simp add: after_events_def)
next
  case (Cons e es)
  then show ?case by (cases e) (auto simp: after_events_def)
qed

lemma audit_devices_run:
  assumes "walkable (ae_ls env)" and "distinct ds" and "\<forall>d \<in> set ds. resumable env devices datadir d (S d)"
  shows "\<exists>es. audit_devices env True devices datadir policy ds S = (es, None) \<and>
    locations es = (\<Union>d \<in> set ds. to_visit env devices datadir policy d (S d)) \<and>
    (\<forall>d s. Status d s \<in> set es \<longrightarrow> d \<in> set ds) \<and>
    (\<forall>xs ys. es = xs @ ys \<longrightarrow> (\<forall>d \<in> set ds. resumable env devices datadir d (after_events xs S d)) \<and>
       locations ys \<subseteq> (\<Union>d \<in> set ds. to_visit env devices datadir policy d (after_events xs S d)))"
  using assms(2,3)
proof (induction ds arbitrary: S)
  case Nil
  then show ?case by simp
next
  case (Cons d ds)
  let ?visit = "to_visit env devices datadir policy" and ?ok = "resumable env devices datadir"
  obtain es where a: "audit_device env True devices datadir policy d (S d) = (es, None)" "locations es = ?visit d (S d)"
    "\<forall>c s. Status c s \<in> set es \<longrightarrow> c = d"
    "\<forall>xs ys. es = xs @ ys \<longrightarrow> ?ok d (device_status xs (S d)) \<and> locations ys \<subseteq> ?visit d (device_status xs (S d))"
    using audit_device_run [OF assms(1)] Cons.prems(2) by (metis list.set_intros(1))
  let ?S = "after_events es S"
  have S: "?S c = S c" if "c \<in> set ds" for c using after_events_device [OF a(3)] that Cons.prems(1) by auto
  obtain es' where b: "audit_devices env True devices datadir policy ds ?S = (es', None)"
    "locations es' = (\<Union>c \<in> set ds. ?visit c (?S c))" "\<forall>c s. Status c s \<in> set es' \<longrightarrow> c \<in> set ds"
    "\<forall>xs ys. es' = xs @ ys \<longrightarrow> (\<forall>c \<in> set ds. ?ok c (after_events xs ?S c)) \<and>
       locations ys \<subseteq> (\<Union>c \<in> set ds. ?visit c (after_events xs ?S c))"
    using Cons.IH [of ?S] Cons.prems S by auto
  have split: "(\<forall>c \<in> set (d # ds). ?ok c (after_events xs S c)) \<and>
      locations ys \<subseteq> (\<Union>c \<in> set (d # ds). ?visit c (after_events xs S c))" if e: "es @ es' = xs @ ys" for xs ys
  proof -
    from e consider us where "es = xs @ us" "ys = us @ es'" | us where "xs = es @ us" "es' = us @ ys"
      by (auto simp: append_eq_append_conv2)
    then show ?thesis
    proof cases
      case 1
      have t: "\<forall>c s. Status c s \<in> set xs \<longrightarrow> c = d" using a(3) 1 by auto
      have x: "after_events xs S c = (if c = d then device_status xs (S d) else S c)" for c
        using after_events_device [OF t] by auto
      have n: "d \<notin> set ds" using Cons.prems(1) by simp
      have l: "locations es' = (\<Union>c \<in> set ds. ?visit c (S c))" using b(2) S by simp
      show ?thesis using a(4) 1 Cons.prems n unfolding x l by (auto simp: l)
    next
      case 2
      have "\<forall>s. Status d s \<notin> set us" using b(3) 2 Cons.prems(1) by auto
      then have "after_events xs S d = device_status es (S d)"
        using after_events_other [of d us ?S] after_events_device [OF a(3)] 2 by (simp add: after_events_append)
      moreover have "?ok d (device_status es (S d))" using a(4) by blast
      ultimately show ?thesis using b(4) 2 by (auto simp: after_events_append)
    qed
  qed
  have "audit_devices env True devices datadir policy (d # ds) S = (es @ es', None)" using a(1) b(1) by simp
  moreover have "locations (es @ es') = (\<Union>c \<in> set (d # ds). ?visit c (S c))" using a(2) b(2) S by simp
  moreover have "\<forall>c s. Status c s \<in> set (es @ es') \<longrightarrow> c \<in> set (d # ds)" using a(3) b(3) by auto
  ultimately show ?case using split by blast
qed

section \<open>Sweeps\<close>

definition same_tree :: "audit_env \<Rightarrow> audit_env \<Rightarrow> bool" where
  "same_tree env env' \<longleftrightarrow> ae_ls env' = ae_ls env \<and> ae_drive env' = ae_drive env \<and> ae_exists env' = ae_exists env"

definition shuffles :: "audit_env \<Rightarrow> bool" where
  "shuffles env \<longleftrightarrow> (\<forall>xs. set (ae_shuffle env xs) = set xs \<and> (distinct xs \<longrightarrow> distinct (ae_shuffle env xs)))"

definition chosen_devices :: "string list \<Rightarrow> string list \<Rightarrow> string set" where
  "chosen_devices names device_dirs = (if device_dirs = [] then set names else set names \<inter> set device_dirs)"

lemma same_tree_simps:
  "same_tree env env' \<Longrightarrow> resumable env' devices datadir d st = resumable env devices datadir d st"
  "same_tree env env' \<Longrightarrow> to_visit env' devices datadir policy d st = to_visit env devices datadir policy d st"
  by (simp_all add: same_tree_def resumable_def walked_def to_visit_def Let_def)

lemma to_visit_known:
  assumes "resumable env devices datadir d st"
  shows "to_visit env devices datadir policy d st \<subseteq> to_visit env devices datadir policy d None"
  using assms remaining_known [of "names_at (ae_ls env) (join (join devices d) datadir)" st]
  by (auto simp: to_visit_def resumable_def walked_def remaining_def [of _ None] Let_def)

lemma generator_run:
  assumes "walkable (ae_ls env)" and "shuffles env" and "ae_ls env devices = Inl names" and "distinct names"
    and "\<forall>d \<in> set names. resumable env devices datadir d (S d)"
  shows "\<exists>es. object_audit_location_generator env True devices datadir policy device_dirs S = (es, None) \<and>
    locations es = (\<Union>d \<in> chosen_devices names device_dirs. to_visit env devices datadir policy d (S d)) \<and>
    (\<forall>xs ys. es = xs @ ys \<longrightarrow> (\<forall>d \<in> set names. resumable env devices datadir d (after_events xs S d)) \<and>
       locations ys \<subseteq> (\<Union>d \<in> chosen_devices names device_dirs. to_visit env devices datadir policy d (after_events xs S d)))"
proof -
  define dirs where "dirs = ae_shuffle env (if device_dirs = [] then names
    else filter (\<lambda>d. d \<in> set device_dirs) (remdups names))"
  have set: "set dirs = chosen_devices names device_dirs" and d: "distinct dirs"
    using assms(2,4) by (auto simp: dirs_def shuffles_def chosen_devices_def)
  have sub: "set dirs \<subseteq> set names" by (auto simp: set chosen_devices_def)
  obtain es where es: "audit_devices env True devices datadir policy dirs S = (es, None)"
    "locations es = (\<Union>d \<in> set dirs. to_visit env devices datadir policy d (S d))"
    "\<forall>d s. Status d s \<in> set es \<longrightarrow> d \<in> set dirs"
    "\<forall>xs ys. es = xs @ ys \<longrightarrow> (\<forall>d \<in> set dirs. resumable env devices datadir d (after_events xs S d)) \<and>
       locations ys \<subseteq> (\<Union>d \<in> set dirs. to_visit env devices datadir policy d (after_events xs S d))"
    using audit_devices_run [OF assms(1) d, of devices datadir S policy] assms(5) sub by blast
  have "resumable env devices datadir d (after_events xs S d)" if "es = xs @ ys" "d \<in> set names" for xs ys d
  proof (cases "d \<in> set dirs")
    case True
    then show ?thesis using es(4) that by blast
  next
    case False
    then have "after_events xs S d = S d" using es(3) that by (intro after_events_other) auto
    then show ?thesis using assms(5) that by simp
  qed
  then show ?thesis
    using es(1,2,4) assms(3) unfolding set by (auto simp: object_audit_location_generator_def dirs_def)
qed

text \<open>C19: a sweep of the auditor that is killed at any moment, also in the middle of writing a status file, and
  whatever updates of a status failed or were left out, is finished by the next one: while the directories stay as
  they are, the next sweep raises nothing, visits every location the killed one had not handed out yet, and visits
  nothing but what is on the devices.\<close>

theorem audit_resumes:
  assumes "walkable (ae_ls env)" and "ae_ls env devices = Inl names" and "distinct names"
    and "\<forall>d \<in> set names. resumable env devices datadir d (S d)"
    and "shuffles env" and "shuffles env'" and "same_tree env env'"
  shows "\<exists>es. object_audit_location_generator env True devices datadir policy device_dirs S = (es, None) \<and>
    (\<forall>killed rest. es = killed @ rest \<longrightarrow>
      (\<exists>es'. object_audit_location_generator env' True devices datadir policy device_dirs (after_events killed S) = (es', None) \<and>
         locations rest \<subseteq> locations es' \<and>
         locations es' \<subseteq> (\<Union>d \<in> chosen_devices names device_dirs. to_visit env devices datadir policy d None)))"
proof -
  obtain es where es: "object_audit_location_generator env True devices datadir policy device_dirs S = (es, None)"
    "\<forall>xs ys. es = xs @ ys \<longrightarrow> (\<forall>d \<in> set names. resumable env devices datadir d (after_events xs S d)) \<and>
       locations ys \<subseteq> (\<Union>d \<in> chosen_devices names device_dirs. to_visit env devices datadir policy d (after_events xs S d))"
    using generator_run [OF assms(1,5,2-4), of policy device_dirs] by blast
  have "\<exists>es'. object_audit_location_generator env' True devices datadir policy device_dirs (after_events killed S) = (es', None) \<and>
      locations rest \<subseteq> locations es' \<and>
      locations es' \<subseteq> (\<Union>d \<in> chosen_devices names device_dirs. to_visit env devices datadir policy d None)"
    if k: "es = killed @ rest" for killed rest
  proof -
    have ok: "\<forall>d \<in> set names. resumable env' devices datadir d (after_events killed S d)"
      and rest: "locations rest \<subseteq> (\<Union>d \<in> chosen_devices names device_dirs.
        to_visit env' devices datadir policy d (after_events killed S d))"
      using es(2) k by (simp_all add: same_tree_simps [OF assms(7)])
    have tree: "walkable (ae_ls env')" "ae_ls env' devices = Inl names" using assms(1,2,7) by (simp_all add: same_tree_def)
    obtain es' where es': "object_audit_location_generator env' True devices datadir policy device_dirs (after_events killed S) = (es', None)"
      "locations es' = (\<Union>d \<in> chosen_devices names device_dirs. to_visit env' devices datadir policy d (after_events killed S d))"
      using generator_run [OF tree(1) assms(6) tree(2) assms(3) ok, of policy device_dirs] by blast
    have "to_visit env' devices datadir policy d (after_events killed S d) \<subseteq> to_visit env devices datadir policy d None"
      if "d \<in> chosen_devices names device_dirs" for d
    proof -
      have "d \<in> set names" using that by (auto simp: chosen_devices_def split: if_splits)
      then show ?thesis using ok unfolding same_tree_simps [OF assms(7)] by (intro to_visit_known) simp
    qed
    then have "locations es' \<subseteq> (\<Union>d \<in> chosen_devices names device_dirs. to_visit env devices datadir policy d None)"
      unfolding es'(2) by (intro UN_mono order_refl)
    moreover have "locations rest \<subseteq> locations es'" unfolding es'(2) by (rule rest)
    ultimately show ?thesis by (intro exI [of _ es'] conjI es'(1))
  qed
  then show ?thesis using es(1) by blast
qed

text \<open>A tree with one device: partition \<open>7\<close> holds two objects, partition \<open>9\<close> one; the first update fails half-way.\<close>

definition sample_ls :: "string \<Rightarrow> listing" where
  "sample_ls p =
     (if p = ''/srv'' then Inl [''d1'']
      else if p = ''/srv/d1/objects'' then Inl [''7'', ''9'', ''auditor_status_ALL.json'']
      else if p = ''/srv/d1/objects/7'' then Inl [''abc'']
      else if p = ''/srv/d1/objects/7/abc'' then Inl [''h1'', ''h2'']
      else if p = ''/srv/d1/objects/9'' then Inl [''def'', ''hashes.pkl'']
      else if p = ''/srv/d1/objects/9/def'' then Inl [''h3'']
      else Inr ENOTDIR)"

definition sample_audit :: audit_env where
  "sample_audit = \<lparr>ae_ls = sample_ls, ae_drive = (\<lambda>d. True), ae_exists = (\<lambda>p. True), ae_shuffle = rev,
     ae_now = (\<lambda>d k. 1000 + int k * 100), ae_write = (\<lambda>d k. if k = 0 then Not_written else Written)\<rparr>"

theorem audit_resumes_witness:
  "\<exists>es. object_audit_location_generator sample_audit True ''/srv'' ''objects'' (0::nat) [] (\<lambda>d. None) = (es, None) \<and>
    (\<forall>killed rest. es = killed @ rest \<longrightarrow>
      (\<exists>es'. object_audit_location_generator sample_audit True ''/srv'' ''objects'' 0 [] (after_events killed (\<lambda>d. None)) =
           (es', None) \<and> locations rest \<subseteq> locations es' \<and>
         locations es' \<subseteq> (\<Union>d \<in> chosen_devices [''d1''] []. to_visit sample_audit ''/srv'' ''objects'' 0 d None)))"
  by (rule audit_resumes)
    (simp_all add: walkable_def skipped_errno_def sample_audit_def sample_ls_def resumable_def usable_def shuffles_def
      same_tree_def join_def Let_def)

lemma sample_audit_run:
  "locations (fst (object_audit_location_generator sample_audit True ''/srv'' ''objects'' (0::nat) [] (\<lambda>d. None))) =
     {\<lparr>al_path = ''/srv/d1/objects/7/abc/h1'', al_device = ''d1'', al_partition = ''7'', al_policy = 0\<rparr>,
      \<lparr>al_path = ''/srv/d1/objects/7/abc/h2'', al_device = ''d1'', al_partition = ''7'', al_policy = 0\<rparr>,
      \<lparr>al_path = ''/srv/d1/objects/9/def/h3'', al_device = ''d1'', al_partition = ''9'', al_policy = 0\<rparr>}"
  by code_simp

text \<open>C20: once the statuses are cleared a sweep that is left to finish hands out exactly the entries of the suffix
  directories of the partitions of the chosen devices that are mounted and have the policy's directory.\<close>

theorem cleared_sweep_is_complete:
  assumes "walkable (ae_ls env)" and "ae_ls env devices = Inl names" and "distinct names" and "shuffles env"
    and "\<forall>d \<in> set names. walked env devices datadir d \<longrightarrow> isl (ae_ls env (join (join devices d) datadir))"
    and "clear_auditor_status (ae_ls env devices) S = (S', x)"
  shows "x = None \<and> (\<exists>es. object_audit_location_generator env True devices datadir policy device_dirs S' = (es, None) \<and>
    (\<forall>l. Location l \<in> set es \<longleftrightarrow>
      (\<exists>d \<in> chosen_devices names device_dirs. walked env devices datadir d \<and>
         (let dp = join (join devices d) datadir in
          \<exists>p \<in> names_at (ae_ls env) dp. \<exists>s \<in> names_at (ae_ls env) (join dp p). \<exists>h \<in> names_at (ae_ls env) (join (join dp p) s).
            l = \<lparr>al_path = join (join (join dp p) s) h, al_device = d, al_partition = p, al_policy = policy\<rparr>))))"
proof -
  have S': "S' = clear_statuses names S" and x: "x = None"
    using assms(2,6) by (simp_all add: clear_auditor_status_def)
  have "clear_statuses ds T d = (if d \<in> set ds then None else T d)" for ds T d
    by (induction ds arbitrary: T) simp_all
  then have none: "S' d = None" if "d \<in> set names" for d using that by (simp add: S')
  have ok: "\<forall>d \<in> set names. resumable env devices datadir d (S' d)"
    using none assms(5) by (simp add: resumable_def usable_def Let_def)
  obtain es where es: "object_audit_location_generator env True devices datadir policy device_dirs S' = (es, None)"
    "locations es = (\<Union>d \<in> chosen_devices names device_dirs. to_visit env devices datadir policy d (S' d))"
    using generator_run [OF assms(1,4,2,3) ok, of policy device_dirs] by blast
  have c: "S' d = None" if "d \<in> chosen_devices names device_dirs" for d
    using that by (intro none) (auto simp: chosen_devices_def split: if_splits)
  have "Location l \<in> set es \<longleftrightarrow> (\<exists>d \<in> chosen_devices names device_dirs. l \<in> to_visit env devices datadir policy d None)" for l
    using es(2) c by (auto simp: locations_iff set_eq_iff)
  then show ?thesis
    using x es(1) by (simp add: to_visit_def walked_def remaining_def places_in_def Let_def) blast
qed

theorem cleared_sweep_is_complete_witness:
  "\<exists>es. object_audit_location_generator sample_audit True ''/srv'' ''objects'' (0::nat) [] (clear_statuses [''d1''] (\<lambda>d. None)) =
     (es, None) \<and>
     Location \<lparr>al_path = ''/srv/d1/objects/9/def/h3'', al_device = ''d1'', al_partition = ''9'', al_policy = 0\<rparr> \<in> set es"
proof -
  have h: "walkable (ae_ls sample_audit)" "ae_ls sample_audit ''/srv'' = Inl [''d1'']" "distinct [''d1'']" "shuffles sample_audit"
    "\<forall>d \<in> set [''d1'']. walked sample_audit ''/srv'' ''objects'' d \<longrightarrow>
       isl (ae_ls sample_audit (join (join ''/srv'' d) ''objects''))"
    "clear_auditor_status (ae_ls sample_audit ''/srv'') (\<lambda>d. None) = (clear_statuses [''d1''] (\<lambda>d. None), None)"
    by (simp_all add: walkable_def skipped_errno_def sample_audit_def sample_ls_def shuffles_def join_def clear_auditor_status_def)
  show ?thesis
    using cleared_sweep_is_complete [OF h, of "0::nat" "[]"]
    by (auto simp: chosen_devices_def walked_def Let_def names_at_def sample_audit_def sample_ls_def join_def)
qed

end
