(* ===== verification/BsEngine.thy ===== *)
theory BsEngine
  imports Prelude
begin

text \<open>
  The storage engine, \<^verbatim>\<open>bluestore/src/injection\<close> (\<^verbatim>\<open>object.cpp\<close>, \<^verbatim>\<open>backend.cpp\<close>, \<^verbatim>\<open>internal.cpp\<close>): Objects with
  their states, the addresses of their entries, and the transactions they prepare, which \<^verbatim>\<open>submit\<close> hands to
  Ceph's BlueStore in order.  BlueStore itself is a parameter: what it does with one change of a transaction.
\<close>

section \<open>Entries, addresses and transactions\<close>

text \<open>
  An address: the entry that holds a name, or an entry of the temporary space with its generation.  All
  entries of a name are in one collection, so the collection is left out.
\<close>

datatype address = Held string | Temp string nat

text \<open>An entry: its attributes, bytes, and the header of its map.\<close>

record bs_entry =
  en_ts :: nat
  en_deleted :: bool
  en_old :: bool
  en_data :: string
  en_header :: string

type_synonym bstore = "address \<Rightarrow> bs_entry option"

text \<open>The changes of a transaction: \<^verbatim>\<open>touch\<close>, \<^verbatim>\<open>setattrs\<close>, \<^verbatim>\<open>write\<close>, \<^verbatim>\<open>omap_setheader\<close>, \<^verbatim>\<open>collection_move_rename\<close>, \<^verbatim>\<open>remove\<close>.\<close>

datatype txop =
    Touch address
  | SetAttrs address nat bool bool
  | WriteAt address nat string
  | SetHeader address string
  | MoveRename address address
  | RemoveEntry address

text \<open>
  What the engine relies on of BlueStore, as long as it has room: a change that fits the store has its \<open>effect\<close>.  A store
  that runs full kills the process (\<^verbatim>\<open>ARCHITECTURE.md\<close>, Capacity), which is left to whoever sets \<^verbatim>\<open>bluestore_capacity\<close>.  Nothing is assumed of
  a change to a missing entry, of a move onto an existing one, or of a write anywhere but at the end of the
  bytes; \<open>None\<close> stands for a killed process.
\<close>

fun fits :: "txop \<Rightarrow> bstore \<Rightarrow> bool" where
  "fits (Touch a) st = (st a = None)"
| "fits (SetAttrs a t d old) st = (st a \<noteq> None)"
| "fits (WriteAt a offset bytes) st = (case st a of None \<Rightarrow> False | Some en \<Rightarrow> offset = length (en_data en))"
| "fits (SetHeader a blob) st = (st a \<noteq> None)"
| "fits (MoveRename a b) st = (st a \<noteq> None \<and> st b = None)"
| "fits (RemoveEntry a) st = (st a \<noteq> None)"

definition change_entry :: "address \<Rightarrow> (bs_entry \<Rightarrow> bs_entry) \<Rightarrow> bstore \<Rightarrow> bstore" where
  "change_entry a f st = st(a := map_option f (st a))"

fun effect :: "txop \<Rightarrow> bstore \<Rightarrow> bstore" where
  "effect (Touch a) st = st(a \<mapsto> \<lparr>en_ts = 0, en_deleted = False, en_old = False, en_data = [], en_header = []\<rparr>)"
| "effect (SetAttrs a t d old) st = change_entry a (\<lambda>en. en\<lparr>en_ts := t, en_deleted := d, en_old := old\<rparr>) st"
| "effect (WriteAt a offset bytes) st = change_entry a (\<lambda>en. en\<lparr>en_data := en_data en @ bytes\<rparr>) st"
| "effect (SetHeader a blob) st = change_entry a (\<lambda>en. en\<lparr>en_header := blob\<rparr>) st"
| "effect (MoveRename a b) st = st(a := None, b := st a)"
| "effect (RemoveEntry a) st = st(a := None)"

definition bluestore_ok :: "(txop \<Rightarrow> bstore \<Rightarrow> bstore option) \<Rightarrow> bool" where
  "bluestore_ok ap \<longleftrightarrow> (\<forall>p st. fits p st \<longrightarrow> ap p st = Some (effect p st))"

text \<open>\<^verbatim>\<open>queue_transaction\<close>, for one transaction and for several.\<close>

fun apply_ops :: "(txop \<Rightarrow> bstore \<Rightarrow> bstore option) \<Rightarrow> txop list \<Rightarrow> bstore \<Rightarrow> bstore option" where
  "apply_ops ap [] st = Some st"
| "apply_ops ap (p # ps) st = (case ap p st of None \<Rightarrow> None | Some st \<Rightarrow> apply_ops ap ps st)"

fun apply_txs :: "(txop \<Rightarrow> bstore \<Rightarrow> bstore option) \<Rightarrow> txop list list \<Rightarrow> bstore \<Rightarrow> bstore option" where
  "apply_txs ap [] st = Some st"
| "apply_txs ap (t # ts) st = (case apply_ops ap t st of None \<Rightarrow> None | Some st \<Rightarrow> apply_txs ap ts st)"

section \<open>Objects\<close>

datatype ostate = PRE_SEARCH | IN_SEARCH | MISSING | PRE_WRITE | IN_WRITE | ACTIVE | OLD

record object =
  ob_name :: string
  ob_ts :: nat
  ob_deleted :: bool
  ob_state :: ostate
  ob_written :: nat

text \<open>The engine: the store as BlueStore has it, the queue, the Objects alive, and the last estimate.\<close>

record engine =
  eg_store :: bstore
  eg_queue :: "txop list list"
  eg_objs :: "nat \<Rightarrow> object option"
  eg_next :: nat
  eg_last :: nat

datatype bs_error = StateError | ChangedError | ConflictError | InvalidArgument

definition new_engine :: "bstore \<Rightarrow> engine" where
  "new_engine st = \<lparr>eg_store = st, eg_queue = [], eg_objs = (\<lambda>i. None), eg_next = 0, eg_last = 0\<rparr>"

definition address_of :: "object \<Rightarrow> address" where
  "address_of ob = (if ob_state ob \<in> {PRE_WRITE, IN_WRITE, OLD} then Temp (ob_name ob) (ob_ts ob) else Held (ob_name ob))"

definition save :: "object \<Rightarrow> txop" where
  "save ob = SetAttrs (address_of ob) (ob_ts ob) (ob_deleted ob) (ob_state ob = OLD)"

text \<open>The timestamp, the deletion mark and the state of the entry at an address.\<close>

definition load_entry :: "bstore \<Rightarrow> address \<Rightarrow> (nat \<times> bool \<times> ostate) option" where
  "load_entry st a =
     (case st a of
        None \<Rightarrow> None
      | Some en \<Rightarrow> Some (en_ts en, en_deleted en,
          case a of Held n \<Rightarrow> ACTIVE | Temp n g \<Rightarrow> if en_old en then OLD else IN_WRITE))"

definition prepare :: "txop list \<Rightarrow> engine \<Rightarrow> engine" where
  "prepare t e = e\<lparr>eg_queue := eg_queue e @ [t]\<rparr>"

definition set_obj :: "nat \<Rightarrow> object \<Rightarrow> engine \<Rightarrow> engine" where
  "set_obj i ob e = e\<lparr>eg_objs := (eg_objs e)(i \<mapsto> ob)\<rparr>"

definition new_obj :: "object \<Rightarrow> engine \<Rightarrow> engine \<times> nat" where
  "new_obj ob e = (e\<lparr>eg_objs := (eg_objs e)(eg_next e \<mapsto> ob), eg_next := eg_next e + 1\<rparr>, eg_next e)"

text \<open>\<^verbatim>\<open>estimate()\<close>; \<open>now\<close> is the clock in ticks.\<close>

definition estimate :: "nat \<Rightarrow> engine \<Rightarrow> engine \<times> nat" where
  "estimate now e = (let t = max now (eg_last e + 1) in (e\<lparr>eg_last := t\<rparr>, t))"

definition create_obj :: "nat option \<Rightarrow> nat \<Rightarrow> string \<Rightarrow> engine \<Rightarrow> engine \<times> nat" where
  "create_obj ts now name e =
     (let (e, t) = estimate now e
      in new_obj \<lparr>ob_name = name, ob_ts = case_option t id ts, ob_deleted = False, ob_state = PRE_WRITE, ob_written = 0\<rparr> e)"

definition find_obj :: "string \<Rightarrow> engine \<Rightarrow> engine \<times> nat" where
  "find_obj name = new_obj \<lparr>ob_name = name, ob_ts = 0, ob_deleted = False, ob_state = PRE_SEARCH, ob_written = 0\<rparr>"

text \<open>
  The methods of an Object, first \<^verbatim>\<open>require\<close>, which raises \<^verbatim>\<open>StateError\<close>.  An Object that is not alive can not
  be called.
\<close>

definition require :: "ostate list \<Rightarrow> nat \<Rightarrow> engine \<Rightarrow> bs_error + object" where
  "require allowed i e =
     (case eg_objs e i of
        None \<Rightarrow> Inl StateError
      | Some ob \<Rightarrow> if ob_state ob \<in> set allowed then Inr ob else Inl StateError)"

definition open_obj :: "nat \<Rightarrow> engine \<Rightarrow> engine \<times> (bs_error + unit)" where
  "open_obj i e =
     (case require [PRE_SEARCH] i e of
        Inl x \<Rightarrow> (e, Inl x)
      | Inr ob \<Rightarrow>
          (let ob = ob\<lparr>ob_state := IN_SEARCH\<rparr>
           in (set_obj i (case load_entry (eg_store e) (address_of ob) of
                 None \<Rightarrow> ob\<lparr>ob_state := MISSING\<rparr>
               | Some (t, d, s) \<Rightarrow> ob\<lparr>ob_ts := t, ob_deleted := d, ob_state := s\<rparr>) e, Inr ())))"

text \<open>
  A read runs outside of any lock: the address is computed from the Object as it is when the call begins (\<open>ob\<close>),
  the bytes come from the store \<open>st\<close>, and \<^verbatim>\<open>check\<close> looks at a later store, \<open>st'\<close>.
\<close>

definition check_obj :: "object \<Rightarrow> bstore \<Rightarrow> bs_error + unit" where
  "check_obj ob st =
     (case load_entry st (address_of ob) of
        None \<Rightarrow> Inl ChangedError
      | Some (t, d, s) \<Rightarrow> if t \<noteq> ob_ts ob then Inl ChangedError else Inr ())"

definition checked_read :: "(bs_entry \<Rightarrow> string) \<Rightarrow> nat \<Rightarrow> nat \<Rightarrow> object \<Rightarrow> bstore \<Rightarrow> bstore \<Rightarrow> bs_error + string" where
  "checked_read content offset amount ob st st' =
     (case st (address_of ob) of
        None \<Rightarrow> Inl ChangedError
      | Some en \<Rightarrow> map_sum id (\<lambda>u. take amount (drop offset (content en))) (check_obj ob st'))"

definition read_obj :: "nat \<Rightarrow> nat \<Rightarrow> nat \<Rightarrow> engine \<Rightarrow> bstore \<Rightarrow> bstore \<Rightarrow> bs_error + string" where
  "read_obj i offset amount e st st' =
     (case require [ACTIVE, OLD] i e of
        Inl x \<Rightarrow> Inl x
      | Inr ob \<Rightarrow> if amount = 0 then Inr [] else checked_read en_data offset amount ob st st')"

definition read_metadata_obj :: "nat \<Rightarrow> nat \<Rightarrow> nat \<Rightarrow> engine \<Rightarrow> bstore \<Rightarrow> bstore \<Rightarrow> bs_error + string" where
  "read_metadata_obj i offset amount e st st' =
     (case require [ACTIVE, OLD] i e of
        Inl x \<Rightarrow> Inl x
      | Inr ob \<Rightarrow> checked_read en_header offset amount ob st st')"

definition write_obj :: "nat \<Rightarrow> string \<Rightarrow> engine \<Rightarrow> engine \<times> (bs_error + unit)" where
  "write_obj i bytes e =
     (case require [PRE_WRITE, IN_WRITE] i e of
        Inl x \<Rightarrow> (e, Inl x)
      | Inr ob \<Rightarrow>
          (let oid = address_of ob;
               (ob, t) = (if ob_state ob = PRE_WRITE
                          then (let ob = ob\<lparr>ob_state := IN_WRITE\<rparr> in (ob, [Touch oid, save ob])) else (ob, []));
               t = t @ [WriteAt oid (ob_written ob) bytes];
               ob = ob\<lparr>ob_written := ob_written ob + length bytes\<rparr>
           in (prepare t (set_obj i ob e), Inr ())))"

definition write_metadata_obj :: "nat \<Rightarrow> string \<Rightarrow> engine \<Rightarrow> engine \<times> (bs_error + unit)" where
  "write_metadata_obj i blob e =
     (case require [PRE_WRITE, IN_WRITE, ACTIVE] i e of
        Inl x \<Rightarrow> (e, Inl x)
      | Inr ob \<Rightarrow>
          (let oid = address_of ob;
               (ob, t) = (if ob_state ob = PRE_WRITE then (ob\<lparr>ob_state := IN_WRITE\<rparr>, [Touch oid]) else (ob, []))
           in (prepare (t @ [SetHeader oid blob, save ob]) (set_obj i ob e), Inr ())))"

definition tombstone_obj :: "nat \<Rightarrow> string \<Rightarrow> engine \<Rightarrow> engine \<times> (bs_error + unit)" where
  "tombstone_obj i blob e =
     (case require [PRE_WRITE] i e of
        Inl x \<Rightarrow> (e, Inl x)
      | Inr ob \<Rightarrow> write_metadata_obj i blob (set_obj i (ob\<lparr>ob_deleted := True\<rparr>) e))"

text \<open>\<^verbatim>\<open>Backend::put\<close>: \<open>nxt\<close> takes the name over from \<open>prev\<close>, with the timestamp it is to
  have instead of the estimate.\<close>

definition put_obj :: "nat \<Rightarrow> nat \<Rightarrow> nat option \<Rightarrow> engine \<Rightarrow> engine \<times> (bs_error + unit)" where
  "put_obj nxt prev ts e =
     (case require [IN_WRITE] nxt e of
        Inl x \<Rightarrow> (e, Inl x)
      | Inr ob \<Rightarrow>
          (case require [ACTIVE, MISSING] prev e of
             Inl x \<Rightarrow> (e, Inl x)
           | Inr po \<Rightarrow>
               if ob_name ob \<noteq> ob_name po then (e, Inl InvalidArgument)
               else (let settled = case_option (ob_ts ob) id ts
                     in if settled \<le> ob_ts po then (e, Inl ConflictError)
               else (let (e, t) =
                           (if ob_state po = ACTIVE
                            then (let po' = po\<lparr>ob_state := OLD\<rparr>
                                  in (set_obj prev po' e, [MoveRename (address_of po) (address_of po'), save po']))
                            else (e, []));
                         ob' = ob\<lparr>ob_state := ACTIVE, ob_ts := settled\<rparr>
                     in (prepare (t @ [MoveRename (address_of ob) (address_of ob'), save ob']) (set_obj nxt ob' e), Inr ())))))"

text \<open>
  \<^verbatim>\<open>submit\<close>, with no other thread in it; \<open>None\<close> when BlueStore kills the process.  A thread that finds the lock taken returns at
  once: among other requests a \<^verbatim>\<open>submit\<close> is any number of the steps \<open>at_hand\<close> and \<open>at_whole\<close> of \<open>BsSystem\<close>.
\<close>

definition submit :: "(txop \<Rightarrow> bstore \<Rightarrow> bstore option) \<Rightarrow> engine \<Rightarrow> engine option" where
  "submit ap e = map_option (\<lambda>st. e\<lparr>eg_store := st, eg_queue := []\<rparr>) (apply_txs ap (eg_queue e) (eg_store e))"

text \<open>The destructor of an Object.\<close>

definition release_obj :: "nat \<Rightarrow> engine \<Rightarrow> engine" where
  "release_obj i e =
     (case eg_objs e i of
        None \<Rightarrow> e
      | Some ob \<Rightarrow>
          (let e = e\<lparr>eg_objs := (eg_objs e)(i := None)\<rparr>
           in if ob_state ob \<in> {IN_WRITE, OLD} then prepare [RemoveEntry (address_of ob)] e else e))"

text \<open>
  \<^verbatim>\<open>Backend::clean\<close>.  \<open>listing\<close> gives the addresses of each collection in BlueStore's order; a collection is left
  at its first entry that is not temporary.  What is removed is the address that the entry's attributes give.
\<close>

definition is_temp :: "address \<Rightarrow> bool" where
  "is_temp a = (case a of Held n \<Rightarrow> False | Temp n g \<Rightarrow> True)"

definition address_loaded :: "bstore \<Rightarrow> address \<Rightarrow> address" where
  "address_loaded st a =
     (case load_entry st a of
        None \<Rightarrow> a
      | Some (t, d, s) \<Rightarrow> address_of \<lparr>ob_name = (case a of Held n \<Rightarrow> n | Temp n g \<Rightarrow> n), ob_ts = t, ob_deleted = d, ob_state = s, ob_written = 0\<rparr>)"

definition clean_store :: "(bstore \<Rightarrow> address list list) \<Rightarrow> engine \<Rightarrow> engine" where
  "clean_store listing e =
     fold (\<lambda>l e. fold (\<lambda>a. prepare [RemoveEntry (address_loaded (eg_store e) a)]) (takeWhile is_temp l) e) (listing (eg_store e)) e"

end
