(* ===== verification/BsSystem.thy ===== *)
theory BsSystem
  imports BsEngine
begin

text \<open>
  The engine under the Device's discipline, as a step relation over the engine, the Device's map of Objects and
  the history of a store.  The invariant tells which version of a name every entry holds, at every moment of
  the queue's way to BlueStore; every step keeps it.
\<close>

section \<open>A run of changes\<close>

text \<open>\<open>runs P ops st\<close>: every change fits, and \<open>P\<close> holds of the store before, between and after them.\<close>

fun runs :: "(bstore \<Rightarrow> bool) \<Rightarrow> txop list \<Rightarrow> bstore \<Rightarrow> bool" where
  "runs P [] st = P st"
| "runs P (p # ps) st = (P st \<and> fits p st \<and> runs P ps (effect p st))"

lemma runs_first: "runs P ops st \<Longrightarrow> P st"
  by (cases ops) simp_all

lemma runs_last: "runs P ops st \<Longrightarrow> P (fold effect ops st)"
  by (induction ops arbitrary: st) simp_all

lemma runs_append: "runs P (xs @ ys) st \<longleftrightarrow> runs P xs st \<and> runs P ys (fold effect xs st)"
  by (induction xs arbitrary: st) (auto dest: runs_first)

lemma runs_mono: "runs P ops st \<Longrightarrow> (\<And>s. P s \<Longrightarrow> Q s) \<Longrightarrow> runs Q ops st"
  by (induction ops arbitrary: st) simp_all

lemma runs_conj: "runs (\<lambda>s. P s \<and> Q s) ops st \<longleftrightarrow> runs P ops st \<and> runs Q ops st"
  by (induction ops arbitrary: st) auto

lemma runs_apply:
  "bluestore_ok ap \<Longrightarrow> runs P ops st \<Longrightarrow> apply_ops ap ops st = Some (fold effect ops st)"
  by (induction ops arbitrary: st) (auto simp: bluestore_ok_def)

lemma runs_apply_txs:
  "bluestore_ok ap \<Longrightarrow> runs P (concat ts) st \<Longrightarrow> apply_txs ap ts st = Some (fold effect (concat ts) st)"
  by (induction ts arbitrary: st) (auto simp: runs_append runs_apply)

text \<open>The addresses a change touches; it leaves the others alone.\<close>

fun touches :: "txop \<Rightarrow> address set" where
  "touches (Touch a) = {a}"
| "touches (SetAttrs a t d old) = {a}"
| "touches (WriteAt a offset bytes) = {a}"
| "touches (SetHeader a blob) = {a}"
| "touches (MoveRename a b) = {a, b}"
| "touches (RemoveEntry a) = {a}"

lemma effect_untouched: "a \<notin> touches p \<Longrightarrow> effect p st a = st a"
  by (cases p) (auto simp: change_entry_def)

lemma fold_untouched: "\<forall>p \<in> set ops. a \<notin> touches p \<Longrightarrow> fold effect ops st a = st a"
  by (induction ops arbitrary: st) (simp_all add: effect_untouched)

lemma runs_untouched:
  "runs P ops st \<Longrightarrow> \<forall>p \<in> set ops. a \<notin> touches p \<Longrightarrow> runs (\<lambda>s. s a = st a) ops st"
proof (induction ops arbitrary: st)
  case (Cons p ps)
  then have "runs (\<lambda>s. s a = effect p st a) ps (effect p st)" by simp
  then show ?case using Cons.prems by (simp add: effect_untouched)
qed simp

lemma runs_ignoring:
  assumes "runs Q ops st" and "\<forall>p \<in> set ops. touches p \<subseteq> A" and "P st"
    and "\<And>s s'. P s \<Longrightarrow> (\<forall>a. a \<notin> A \<longrightarrow> s' a = s a) \<Longrightarrow> P s'"
  shows "runs P ops st"
  using assms(1-3)
proof (induction ops arbitrary: st)
  case (Cons p ps)
  have "\<forall>a. a \<notin> A \<longrightarrow> effect p st a = st a" using Cons.prems(2) by (auto intro!: effect_untouched)
  then have "P (effect p st)" using assms(4) Cons.prems(3) by blast
  then show ?case using Cons by simp
qed simp

section \<open>The Device's discipline\<close>

text \<open>
  What the Device does with the engine, one atomic step at a time.  The map \<open>wd_map\<close> is \<^verbatim>\<open>BluestoreDevice.objects\<close>:
  an entry counts while its Object is alive; \<open>wd_vers\<close> is \<^verbatim>\<open>versions\<close>.  The rest is history: \<open>wd_base\<close> is the store
  after the transactions handed over whole, \<open>wd_ver\<close> the bytes of every version of a name, by its timestamp,
  \<open>wd_bytes\<close> the bytes written through each Object, and \<open>wd_handed\<close> the number of changes handed over.
\<close>

record world =
  wd_eng :: engine
  wd_map :: "string \<Rightarrow> nat option"
  wd_vers :: "nat \<Rightarrow> nat"
  wd_base :: bstore
  wd_ver :: "string \<times> nat \<Rightarrow> string option"
  wd_bytes :: "nat \<Rightarrow> string"
  wd_handed :: nat

definition live_obj :: "world \<Rightarrow> string \<Rightarrow> nat option" where
  "live_obj w n = (case wd_map w n of None \<Rightarrow> None | Some i \<Rightarrow> if eg_objs (wd_eng w) i = None then None else Some i)"

abbreviation queued :: "world \<Rightarrow> txop list" where
  "queued w \<equiv> concat (eg_queue (wd_eng w))"

abbreviation store :: "world \<Rightarrow> bstore" where
  "store w \<equiv> eg_store (wd_eng w)"

abbreviation obj :: "world \<Rightarrow> nat \<Rightarrow> object option" where
  "obj w \<equiv> eg_objs (wd_eng w)"

text \<open>The store once everything prepared is applied.\<close>

definition logical :: "world \<Rightarrow> bstore" where
  "logical w = fold effect (queued w) (store w)"

text \<open>
  The steps.  A name is searched for when no Object for it is alive; the engine's calls follow; \<open>at_put\<close> replaces the
  Object in the map in the same step, since nothing yields between the two; \<open>at_hand\<close> and \<open>at_whole\<close> are \<^verbatim>\<open>submit\<close>, a change
  at a time.  An Object dies at any moment when nothing holds it; that the one in the map is not let go of while a change
  of its name's entry is queued is how the methods are written: each ends in a \<^verbatim>\<open>sync\<close> of the Object it has made such a
  change for, and a call in the thread pool holds its Object until it is done.  A step is marked with the time that the
  clock gave as an estimate, or that a request settled.
\<close>

datatype mark = Plain | Estimate nat | Settle nat

inductive dev_step :: "(txop \<Rightarrow> bstore \<Rightarrow> bstore option) \<Rightarrow> mark \<Rightarrow> world \<Rightarrow> world \<Rightarrow> bool" for ap where
  at_search: "live_obj w n = None \<Longrightarrow> find_obj n (wd_eng w) = (e, i) \<Longrightarrow> open_obj i e = (e', Inr ()) \<Longrightarrow>
     dev_step ap Plain w (w\<lparr>wd_eng := e', wd_map := (wd_map w)(n \<mapsto> i)\<rparr>)"
| at_create: "create_obj None now n (wd_eng w) = (e, i) \<Longrightarrow>
     dev_step ap (Estimate (eg_last e)) w (w\<lparr>wd_eng := e, wd_bytes := (wd_bytes w)(i := [])\<rparr>)"
| at_write: "write_obj i bytes (wd_eng w) = (e, Inr ()) \<Longrightarrow>
     dev_step ap Plain w (w\<lparr>wd_eng := e, wd_bytes := (wd_bytes w)(i := wd_bytes w i @ bytes)\<rparr>)"
| at_metadata: "write_metadata_obj i blob (wd_eng w) = (e, Inr ()) \<Longrightarrow>
     dev_step ap Plain w (w\<lparr>wd_eng := e, wd_vers := (if map_option ob_state (obj w i) = Some ACTIVE
       then (wd_vers w)(i := wd_vers w i + 1) else wd_vers w)\<rparr>)"
| at_tombstone: "tombstone_obj i blob (wd_eng w) = (e, Inr ()) \<Longrightarrow>
     dev_step ap Plain w (w\<lparr>wd_eng := e\<rparr>)"
| at_put: "obj w i = Some ob \<Longrightarrow> live_obj w (ob_name ob) = Some prev \<Longrightarrow> put_obj i prev (Some settled) (wd_eng w) = (e, Inr ()) \<Longrightarrow>
     dev_step ap (Settle settled) w (w\<lparr>wd_eng := e, wd_map := (wd_map w)(ob_name ob \<mapsto> i),
       wd_ver := (wd_ver w)((ob_name ob, settled) \<mapsto> wd_bytes w i)\<rparr>)"
| at_hand: "eg_queue (wd_eng w) = (p # ps) # ts \<Longrightarrow> ap p (store w) = Some st \<Longrightarrow>
     dev_step ap Plain w (w\<lparr>wd_eng := (wd_eng w)\<lparr>eg_store := st, eg_queue := ps # ts\<rparr>, wd_handed := wd_handed w + 1\<rparr>)"
| at_whole: "eg_queue (wd_eng w) = [] # ts \<Longrightarrow>
     dev_step ap Plain w (w\<lparr>wd_eng := (wd_eng w)\<lparr>eg_queue := ts\<rparr>, wd_base := store w\<rparr>)"
| at_release: "obj w i = Some ob \<Longrightarrow> (wd_map w (ob_name ob) = Some i \<longrightarrow> (\<forall>p \<in> set (queued w). Held (ob_name ob) \<notin> touches p)) \<Longrightarrow>
     dev_step ap Plain w (w\<lparr>wd_eng := release_obj i (wd_eng w)\<rparr>)"

text \<open>A run: its marks, in order.\<close>

primrec dev_run :: "(txop \<Rightarrow> bstore \<Rightarrow> bstore option) \<Rightarrow> mark list \<Rightarrow> world \<Rightarrow> world \<Rightarrow> bool" where
  "dev_run ap [] w w' = (w' = w)"
| "dev_run ap (m # ms) w w' = (\<exists>w1. dev_step ap m w w1 \<and> dev_run ap ms w1 w')"

lemma dev_run_append: "dev_run ap (ms @ ms') w w' \<longleftrightarrow> (\<exists>w1. dev_run ap ms w w1 \<and> dev_run ap ms' w1 w')"
  by (induction ms arbitrary: w) auto

text \<open>
  The steps of runs whose estimates are in \<open>E\<close> and whose requests settle other times.  In every run that keeps the two
  apart the steps are such ones, with its own estimates for \<open>E\<close>; a run that does not may kill the process
  (\<open>estimate_collision_kills\<close> in \<open>BsReads\<close>).
\<close>

fun within :: "nat set \<Rightarrow> mark \<Rightarrow> bool" where
  "within E Plain = True"
| "within E (Estimate t) = (t \<in> E)"
| "within E (Settle t) = (t \<notin> E)"

definition bs_step :: "(txop \<Rightarrow> bstore \<Rightarrow> bstore option) \<Rightarrow> nat set \<Rightarrow> world \<Rightarrow> world \<Rightarrow> bool" where
  "bs_step ap E w w' \<longleftrightarrow> (\<exists>m. within E m \<and> dev_step ap m w w')"

lemma dev_run_steps: "dev_run ap ms w w' \<Longrightarrow> \<forall>m \<in> set ms. within E m \<Longrightarrow> (bs_step ap E)\<^sup>*\<^sup>* w w'"
proof (induction ms arbitrary: w)
  case (Cons m ms)
  then obtain w1 where "dev_step ap m w w1" "(bs_step ap E)\<^sup>*\<^sup>* w1 w'" by auto
  moreover from this(1) have "bs_step ap E w w1" using Cons.prems(2) by (auto simp: bs_step_def)
  ultimately show ?case by (simp add: converse_rtranclp_into_rtranclp)
qed simp

lemma stepI: "dev_step ap m w w' \<Longrightarrow> within E m \<Longrightarrow> bs_step ap E w w'"
  by (auto simp: bs_step_def)

lemmas step_search = stepI [OF at_search within.simps(1) [THEN iffD2, OF TrueI]]
lemmas step_create = stepI [OF at_create within.simps(2) [THEN iffD2]]
lemmas step_write = stepI [OF at_write within.simps(1) [THEN iffD2, OF TrueI]]
lemmas step_metadata = stepI [OF at_metadata within.simps(1) [THEN iffD2, OF TrueI]]
lemmas step_tombstone = stepI [OF at_tombstone within.simps(1) [THEN iffD2, OF TrueI]]
lemmas step_put = stepI [OF at_put within.simps(3) [THEN iffD2]]
lemmas step_hand = stepI [OF at_hand within.simps(1) [THEN iffD2, OF TrueI]]
lemmas step_whole = stepI [OF at_whole within.simps(1) [THEN iffD2, OF TrueI]]
lemmas step_release = stepI [OF at_release within.simps(1) [THEN iffD2, OF TrueI]]

lemma bs_step_cases [consumes 1, case_names step_search step_create step_write step_metadata step_tombstone step_put step_hand step_whole step_release]:
  assumes "bs_step ap E w w'"
    and "\<And>n e i e'. w' = w\<lparr>wd_eng := e', wd_map := (wd_map w)(n \<mapsto> i)\<rparr> \<Longrightarrow> live_obj w n = None \<Longrightarrow> find_obj n (wd_eng w) = (e, i) \<Longrightarrow> open_obj i e = (e', Inr ()) \<Longrightarrow> P"
    and "\<And>now n e i. w' = w\<lparr>wd_eng := e, wd_bytes := (wd_bytes w)(i := [])\<rparr> \<Longrightarrow> create_obj None now n (wd_eng w) = (e, i) \<Longrightarrow> eg_last e \<in> E \<Longrightarrow> P"
    and "\<And>i bytes e. w' = w\<lparr>wd_eng := e, wd_bytes := (wd_bytes w)(i := wd_bytes w i @ bytes)\<rparr> \<Longrightarrow> write_obj i bytes (wd_eng w) = (e, Inr ()) \<Longrightarrow> P"
    and "\<And>i blob e. w' = w\<lparr>wd_eng := e, wd_vers := (if map_option ob_state (obj w i) = Some ACTIVE
       then (wd_vers w)(i := wd_vers w i + 1) else wd_vers w)\<rparr> \<Longrightarrow> write_metadata_obj i blob (wd_eng w) = (e, Inr ()) \<Longrightarrow> P"
    and "\<And>i blob e. w' = w\<lparr>wd_eng := e\<rparr> \<Longrightarrow> tombstone_obj i blob (wd_eng w) = (e, Inr ()) \<Longrightarrow> P"
    and "\<And>i ob prev settled e. w' = w\<lparr>wd_eng := e, wd_map := (wd_map w)(ob_name ob \<mapsto> i),
       wd_ver := (wd_ver w)((ob_name ob, settled) \<mapsto> wd_bytes w i)\<rparr> \<Longrightarrow> obj w i = Some ob \<Longrightarrow> live_obj w (ob_name ob) = Some prev \<Longrightarrow> settled \<notin> E \<Longrightarrow> put_obj i prev (Some settled) (wd_eng w) = (e, Inr ()) \<Longrightarrow> P"
    and "\<And>p ps ts st. w' = w\<lparr>wd_eng := (wd_eng w)\<lparr>eg_store := st, eg_queue := ps # ts\<rparr>, wd_handed := wd_handed w + 1\<rparr> \<Longrightarrow> eg_queue (wd_eng w) = (p # ps) # ts \<Longrightarrow> ap p (store w) = Some st \<Longrightarrow> P"
    and "\<And>ts. w' = w\<lparr>wd_eng := (wd_eng w)\<lparr>eg_queue := ts\<rparr>, wd_base := store w\<rparr> \<Longrightarrow> eg_queue (wd_eng w) = [] # ts \<Longrightarrow> P"
    and "\<And>i ob. w' = w\<lparr>wd_eng := release_obj i (wd_eng w)\<rparr> \<Longrightarrow> obj w i = Some ob \<Longrightarrow> (wd_map w (ob_name ob) = Some i \<longrightarrow> (\<forall>p \<in> set (queued w). Held (ob_name ob) \<notin> touches p)) \<Longrightarrow> P"
  shows P
proof -
  obtain m where m: "dev_step ap m w w'" "within E m" using assms(1) by (auto simp: bs_step_def)
  from m(1) show P
  proof cases
    case (at_search n e i e')
    then show P by (intro assms(2))
  next
    case (at_create now n e i)
    then show P using m(2) by (intro assms(3)) simp_all
  next
    case (at_write i bytes e)
    then show P by (intro assms(4))
  next
    case (at_metadata i blob e)
    then show P by (intro assms(5))
  next
    case (at_tombstone i blob e)
    then show P by (intro assms(6))
  next
    case (at_put i ob prev settled e)
    then show P using m(2) by (intro assms(7)) simp_all
  next
    case (at_hand p ps ts st)
    then show P by (intro assms(8))
  next
    case (at_whole ts)
    then show P by (intro assms(9))
  next
    case (at_release i ob)
    then show P by (intro assms(10))
  qed
qed

section \<open>The invariant\<close>

text \<open>Settled timestamps and estimates tell the entries apart: which version of a name an entry holds.\<close>

definition ver_ok :: "nat set \<Rightarrow> (string \<times> nat \<Rightarrow> string option) \<Rightarrow> bstore \<Rightarrow> bool" where
  "ver_ok E V st \<longleftrightarrow>
     (\<forall>n en. st (Held n) = Some en \<longrightarrow> en_ts en \<notin> E \<longrightarrow> V (n, en_ts en) = Some (en_data en)) \<and>
     (\<forall>n g en. st (Temp n g) = Some en \<longrightarrow> g \<notin> E \<longrightarrow> en_ts en = g \<and> V (n, g) = Some (en_data en))"

definition store_ok :: "nat set \<Rightarrow> (string \<times> nat \<Rightarrow> string option) \<Rightarrow> nat \<Rightarrow> bstore \<Rightarrow> bool" where
  "store_ok E V mx L \<longleftrightarrow>
     (\<forall>n en. L (Held n) = Some en \<longrightarrow> en_ts en \<notin> E) \<and>
     (\<forall>n g. L (Temp n g) \<noteq> None \<longrightarrow> g \<in> E \<longrightarrow> g \<le> mx) \<and>
     (\<forall>n g. L (Temp n g) \<noteq> None \<longrightarrow> g \<notin> E \<longrightarrow> (\<exists>en. L (Held n) = Some en \<and> g < en_ts en)) \<and>
     (\<forall>n t. V (n, t) \<noteq> None \<longrightarrow> (\<exists>en. L (Held n) = Some en \<and> t \<le> en_ts en)) \<and>
     (\<forall>n g en. L (Temp n g) = Some en \<longrightarrow> en_ts en = g)"

definition handle_ok :: "nat set \<Rightarrow> world \<Rightarrow> bstore \<Rightarrow> nat \<Rightarrow> object \<Rightarrow> bool" where
  "handle_ok E w L i ob \<longleftrightarrow> i < eg_next (wd_eng w) \<and>
     (case ob_state ob of
        PRE_SEARCH \<Rightarrow> True
      | IN_SEARCH \<Rightarrow> True
      | MISSING \<Rightarrow> wd_map w (ob_name ob) = Some i \<longrightarrow> L (Held (ob_name ob)) = None
      | PRE_WRITE \<Rightarrow> ob_ts ob \<in> E \<and> ob_ts ob \<le> eg_last (wd_eng w) \<and> L (address_of ob) = None \<and>
          ob_written ob = 0 \<and> wd_bytes w i = []
      | IN_WRITE \<Rightarrow> ob_ts ob \<in> E \<and> ob_ts ob \<le> eg_last (wd_eng w) \<and> ob_written ob = length (wd_bytes w i) \<and>
          (\<exists>en. L (address_of ob) = Some en \<and> en_ts en = ob_ts ob \<and> en_deleted en = ob_deleted ob \<and> en_data en = wd_bytes w i)
      | ACTIVE \<Rightarrow> wd_map w (ob_name ob) = Some i \<and> ob_ts ob \<notin> E \<and>
          (\<exists>en. L (address_of ob) = Some en \<and> en_ts en = ob_ts ob \<and> en_deleted en = ob_deleted ob)
      | OLD \<Rightarrow> ob_ts ob \<notin> E \<and>
          (\<exists>en. L (address_of ob) = Some en \<and> en_ts en = ob_ts ob \<and> en_deleted en = ob_deleted ob))"

definition holding :: "object \<Rightarrow> bool" where
  "holding ob \<longleftrightarrow> ob_state ob \<in> {PRE_WRITE, IN_WRITE, ACTIVE, OLD}"

definition objs_ok :: "nat set \<Rightarrow> world \<Rightarrow> bstore \<Rightarrow> bool" where
  "objs_ok E w L \<longleftrightarrow>
     (\<forall>i ob. obj w i = Some ob \<longrightarrow> handle_ok E w L i ob) \<and>
     (\<forall>i j ob ob'. obj w i = Some ob \<longrightarrow> obj w j = Some ob' \<longrightarrow> holding ob \<longrightarrow> holding ob' \<longrightarrow> i \<noteq> j \<longrightarrow>
        address_of ob \<noteq> address_of ob') \<and>
     (\<forall>n i. wd_map w n = Some i \<longrightarrow> i < eg_next (wd_eng w) \<and>
        (\<forall>ob. obj w i = Some ob \<longrightarrow> ob_name ob = n \<and> ob_state ob \<in> {ACTIVE, MISSING}))"

text \<open>Names stay held, by versions that are not older.\<close>

definition keeps :: "bstore \<Rightarrow> bstore \<Rightarrow> bool" where
  "keeps st st' \<longleftrightarrow> (\<forall>n en. st (Held n) = Some en \<longrightarrow> (\<exists>en'. st' (Held n) = Some en' \<and> en_ts en \<le> en_ts en'))"

definition settled_ok :: "nat set \<Rightarrow> bstore \<Rightarrow> bool" where
  "settled_ok E st \<longleftrightarrow> (\<forall>n en. st (Held n) = Some en \<longrightarrow> en_ts en \<notin> E) \<and> (\<forall>n g en. st (Temp n g) = Some en \<longrightarrow> en_ts en = g)"

text \<open>The stores between transactions.\<close>

fun bounds :: "nat set \<Rightarrow> bstore \<Rightarrow> txop list list \<Rightarrow> bstore \<Rightarrow> bool" where
  "bounds E b [] st = True"
| "bounds E b (q # qs) st = (settled_ok E (fold effect q st) \<and> keeps b (fold effect q st) \<and>
     bounds E (fold effect q st) qs (fold effect q st))"

definition bs_inv :: "nat set \<Rightarrow> world \<Rightarrow> bool" where
  "bs_inv E w \<longleftrightarrow>
     runs (ver_ok E (wd_ver w)) (queued w) (store w) \<and>
     (\<forall>n. live_obj w n = None \<longrightarrow> runs (\<lambda>st. st (Held n) = logical w (Held n)) (queued w) (store w)) \<and>
     store_ok E (wd_ver w) (eg_last (wd_eng w)) (logical w) \<and>
     objs_ok E w (logical w) \<and>
     bounds E (wd_base w) (eg_queue (wd_eng w)) (store w) \<and> keeps (wd_base w) (logical w) \<and>
     settled_ok E (wd_base w) \<and> ver_ok E (wd_ver w) (wd_base w) \<and> finite (dom (store w))"

lemma finite_effect:
  assumes "finite (dom st)"
  shows "finite (dom (effect p st))"
proof -
  have c: "dom (change_entry a f st) = dom st" for a f by (auto simp: change_entry_def)
  have u: "finite (dom s) \<Longrightarrow> finite (dom (s(a := x)))" for s :: bstore and a x
    by (rule finite_subset [of _ "insert a (dom s)"]) auto
  show ?thesis using assms by (cases p) (simp_all add: c u del: dom_fun_upd)
qed

lemma keeps_trans: "keeps a b \<Longrightarrow> keeps b c \<Longrightarrow> keeps a c"
  unfolding keeps_def by (meson order.trans)

lemma bounds_keeps: "bounds E b qs st \<Longrightarrow> qs \<noteq> [] \<Longrightarrow> keeps b (fold effect (concat qs) st)"
proof (induction qs arbitrary: b st)
  case (Cons q qs)
  then show ?case by (cases qs) (auto intro: keeps_trans)
qed simp

lemma bounds_append:
  "bounds E b qs st \<Longrightarrow> settled_ok E (fold effect (concat (qs @ [t])) st) \<Longrightarrow> keeps b (fold effect (concat (qs @ [t])) st) \<Longrightarrow>
   keeps (fold effect (concat qs) st) (fold effect (concat (qs @ [t])) st) \<Longrightarrow> bounds E b (qs @ [t]) st"
proof (induction qs arbitrary: b st)
  case (Cons q qs)
  let ?s = "fold effect q st"
  have "keeps ?s (fold effect (concat (qs @ [t])) ?s)"
    using Cons.prems bounds_keeps [of E ?s qs ?s] by (cases qs) (auto intro: keeps_trans)
  then show ?case using Cons by simp
qed simp


section \<open>What the engine's calls prepare\<close>

lemma require_Inr: "require allowed i e = Inr ob \<longleftrightarrow> eg_objs e i = Some ob \<and> ob_state ob \<in> set allowed"
  by (auto simp: require_def split: option.splits)

lemma write_obj_prepares:
  assumes "write_obj i bytes e = (e', Inr ())"
  obtains (first) ob where "eg_objs e i = Some ob" "ob_state ob = PRE_WRITE"
      "e' = prepare [Touch (Temp (ob_name ob) (ob_ts ob)), SetAttrs (Temp (ob_name ob) (ob_ts ob)) (ob_ts ob) (ob_deleted ob) False,
         WriteAt (Temp (ob_name ob) (ob_ts ob)) (ob_written ob) bytes]
       (set_obj i (ob\<lparr>ob_state := IN_WRITE, ob_written := ob_written ob + length bytes\<rparr>) e)"
  | (later) ob where "eg_objs e i = Some ob" "ob_state ob = IN_WRITE"
      "e' = prepare [WriteAt (Temp (ob_name ob) (ob_ts ob)) (ob_written ob) bytes]
       (set_obj i (ob\<lparr>ob_written := ob_written ob + length bytes\<rparr>) e)"
  using assms that
  by (cases "require [PRE_WRITE, IN_WRITE] i e")
    (auto simp: write_obj_def Let_def require_Inr address_of_def save_def split: if_splits)

lemma write_metadata_obj_prepares:
  assumes "write_metadata_obj i blob e = (e', Inr ())"
  obtains (first) ob where "eg_objs e i = Some ob" "ob_state ob = PRE_WRITE"
      "e' = prepare [Touch (Temp (ob_name ob) (ob_ts ob)), SetHeader (Temp (ob_name ob) (ob_ts ob)) blob,
         SetAttrs (Temp (ob_name ob) (ob_ts ob)) (ob_ts ob) (ob_deleted ob) False] (set_obj i (ob\<lparr>ob_state := IN_WRITE\<rparr>) e)"
  | (later) ob where "eg_objs e i = Some ob" "ob_state ob \<in> {IN_WRITE, ACTIVE}"
      "e' = prepare [SetHeader (address_of ob) blob, SetAttrs (address_of ob) (ob_ts ob) (ob_deleted ob) False] (set_obj i ob e)"
  using assms that
  by (cases "require [PRE_WRITE, IN_WRITE, ACTIVE] i e")
    (auto simp: write_metadata_obj_def Let_def require_Inr address_of_def save_def split: if_splits)

lemma tombstone_obj_prepares:
  assumes "tombstone_obj i blob e = (e', Inr ())"
  obtains ob where "eg_objs e i = Some ob" "ob_state ob = PRE_WRITE"
      "e' = prepare [Touch (Temp (ob_name ob) (ob_ts ob)), SetHeader (Temp (ob_name ob) (ob_ts ob)) blob,
         SetAttrs (Temp (ob_name ob) (ob_ts ob)) (ob_ts ob) True False] (set_obj i (ob\<lparr>ob_deleted := True, ob_state := IN_WRITE\<rparr>) e)"
  using assms that
  by (auto simp: tombstone_obj_def write_metadata_obj_def Let_def require_def address_of_def save_def set_obj_def
      split: option.splits if_splits)

lemma put_obj_prepares:
  assumes "put_obj i j ts e = (e', Inr ())" and "eg_objs e i = Some ob" and "eg_objs e j = Some po"
  obtains (over) "ob_state ob = IN_WRITE" "ob_state po = ACTIVE" "ob_name po = ob_name ob" "ob_ts po < case_option (ob_ts ob) id ts"
      "e' = prepare [MoveRename (Held (ob_name ob)) (Temp (ob_name ob) (ob_ts po)),
           SetAttrs (Temp (ob_name ob) (ob_ts po)) (ob_ts po) (ob_deleted po) True,
           MoveRename (Temp (ob_name ob) (ob_ts ob)) (Held (ob_name ob)),
           SetAttrs (Held (ob_name ob)) (case_option (ob_ts ob) id ts) (ob_deleted ob) False]
         (set_obj i (ob\<lparr>ob_state := ACTIVE, ob_ts := case_option (ob_ts ob) id ts\<rparr>) (set_obj j (po\<lparr>ob_state := OLD\<rparr>) e))"
  | (fresh) "ob_state ob = IN_WRITE" "ob_state po = MISSING" "ob_name po = ob_name ob" "ob_ts po < case_option (ob_ts ob) id ts"
      "e' = prepare [MoveRename (Temp (ob_name ob) (ob_ts ob)) (Held (ob_name ob)),
           SetAttrs (Held (ob_name ob)) (case_option (ob_ts ob) id ts) (ob_deleted ob) False]
         (set_obj i (ob\<lparr>ob_state := ACTIVE, ob_ts := case_option (ob_ts ob) id ts\<rparr>) e)"
  using assms that
  by (auto simp: put_obj_def Let_def require_def address_of_def save_def split: if_splits)

lemma prepare_simps [simp]:
  "eg_store (prepare t e) = eg_store e" "eg_queue (prepare t e) = eg_queue e @ [t]" "eg_objs (prepare t e) = eg_objs e"
  "eg_next (prepare t e) = eg_next e" "eg_last (prepare t e) = eg_last e"
  by (simp_all add: prepare_def)

lemma set_obj_simps [simp]:
  "eg_store (set_obj i ob e) = eg_store e" "eg_queue (set_obj i ob e) = eg_queue e"
  "eg_objs (set_obj i ob e) = (eg_objs e)(i \<mapsto> ob)" "eg_next (set_obj i ob e) = eg_next e" "eg_last (set_obj i ob e) = eg_last e"
  by (simp_all add: set_obj_def)

section \<open>Every step keeps the invariant\<close>

lemma ver_ok_mono: "ver_ok E V st \<Longrightarrow> V \<subseteq>\<^sub>m V' \<Longrightarrow> ver_ok E V' st"
  unfolding ver_ok_def map_le_def by (metis domI)

lemma logical_prepare:
  "eg_queue (wd_eng w') = eg_queue (wd_eng w) @ [t] \<Longrightarrow> store w' = store w \<Longrightarrow> logical w' = fold effect t (logical w)"
  by (simp add: logical_def)

lemma inv_extend:
  assumes inv: "bs_inv E w"
    and q: "eg_queue (wd_eng w') = eg_queue (wd_eng w) @ [t]" "store w' = store w" "wd_base w' = wd_base w"
    and ver: "wd_ver w \<subseteq>\<^sub>m wd_ver w'" and path: "runs (ver_ok E (wd_ver w')) t (logical w)"
    and dead: "\<And>n. live_obj w' n = None \<Longrightarrow> live_obj w n = None \<and> runs (\<lambda>st. st (Held n) = logical w (Held n)) t (logical w)"
    and ok: "store_ok E (wd_ver w') (eg_last (wd_eng w')) (fold effect t (logical w))" "objs_ok E w' (fold effect t (logical w))"
    and k: "keeps (logical w) (fold effect t (logical w))"
  shows "bs_inv E w'"
proof -
  have L: "logical w' = fold effect t (logical w)" by (rule logical_prepare [OF q(1,2)])
  have p: "queued w' = queued w @ t" using q(1) by simp
  have r: "runs (ver_ok E (wd_ver w')) (queued w) (store w)"
    using inv ver by (auto simp: bs_inv_def intro: runs_mono ver_ok_mono)
  have d: "runs (\<lambda>st. st (Held n) = logical w' (Held n)) (queued w') (store w')" if "live_obj w' n = None" for n
  proof -
    have t: "runs (\<lambda>st. st (Held n) = logical w (Held n)) t (logical w)" using dead [OF that] by blast
    have "logical w' (Held n) = logical w (Held n)" using runs_last [OF t] L by simp
    then show ?thesis using inv dead [OF that] t by (simp add: p q(2) runs_append bs_inv_def logical_def)
  qed
  have s: "settled_ok E (logical w')" using ok(1) by (simp add: L store_ok_def settled_ok_def)
  have kb: "keeps (wd_base w) (logical w')" using inv k by (auto simp: L bs_inv_def intro: keeps_trans)
  have "bounds E (wd_base w') (eg_queue (wd_eng w')) (store w')"
  proof -
    have e: "fold effect (concat (eg_queue (wd_eng w) @ [t])) (store w) = logical w'" by (simp only: L) (simp add: logical_def)
    have b: "bounds E (wd_base w) (eg_queue (wd_eng w)) (store w)" using inv by (simp add: bs_inv_def)
    have k': "keeps (fold effect (concat (eg_queue (wd_eng w))) (store w)) (logical w')" using k L by (simp add: logical_def)
    show ?thesis unfolding q by (rule bounds_append [OF b]) (simp_all only: e s kb k')
  qed
  then show ?thesis using inv r d ok kb path ver
    by (auto simp: bs_inv_def p q runs_append L logical_def [of w, symmetric] intro: ver_ok_mono)
qed


lemma objs_ok_update:
  assumes ok: "objs_ok E w L" and i: "obj w i = Some ob" "holding ob" "holding ob'" and a: "address_of ob' = address_of ob"
    and n: "ob_name ob' = ob_name ob" "ob_state ob = ACTIVE \<longleftrightarrow> ob_state ob' = ACTIVE"
    and w': "wd_eng w' = prepare t (set_obj i ob' (wd_eng w))" "wd_map w' = wd_map w" "\<And>j. j \<noteq> i \<Longrightarrow> wd_bytes w' j = wd_bytes w j"
    and L': "\<And>b. b \<noteq> address_of ob \<Longrightarrow> L' b = L b" and h: "handle_ok E w' L' i ob'"
  shows "objs_ok E w' L'"
proof -
  have other: "handle_ok E w' L' j po" if j: "obj w j = Some po" "j \<noteq> i" for j po
  proof -
    have po: "handle_ok E w L j po" using ok j by (simp add: objs_ok_def)
    show ?thesis
    proof (cases "holding po")
      case True
      then have "address_of po \<noteq> address_of ob" using ok i j by (simp add: objs_ok_def)
      then show ?thesis using po L' w' j True by (auto simp: handle_ok_def holding_def split: ostate.splits)
    next
      case False
      have "L' (Held (ob_name po)) = L (Held (ob_name po))" if "wd_map w (ob_name po) = Some j"
      proof (rule L')
        show "Held (ob_name po) \<noteq> address_of ob"
        proof
          assume e: "Held (ob_name po) = address_of ob"
          then have "ob_state ob = ACTIVE" "ob_name ob = ob_name po"
            using i(2) by (auto simp: address_of_def holding_def split: if_splits)
          moreover have "handle_ok E w L i ob" using ok i by (simp add: objs_ok_def)
          ultimately show False using that j by (simp add: handle_ok_def)
        qed
      qed
      then show ?thesis using po w' False by (auto simp: handle_ok_def holding_def split: ostate.splits)
    qed
  qed
  have st: "ob_name ob' = m \<and> ob_state ob' \<in> {ACTIVE, MISSING}" if "wd_map w m = Some i" for m
  proof -
    have "ob_name ob = m \<and> ob_state ob \<in> {ACTIVE, MISSING}" using ok i(1) that unfolding objs_ok_def by blast
    then show ?thesis using i(2) n by (auto simp: holding_def)
  qed
  have inj: "address_of po \<noteq> address_of qo"
    if "obj w j = Some po" "obj w k = Some qo" "holding po" "holding qo" "j \<noteq> k" for j po k qo
    using ok that unfolding objs_ok_def by blast
  have before: "\<exists>qo. obj w j = Some qo \<and> holding qo \<and> address_of po = address_of qo" if "obj w' j = Some po" "holding po" for j po
    using that i a w'(1) by (cases "j = i") auto
  show ?thesis
    unfolding objs_ok_def
  proof (intro conjI allI impI)
    fix j po assume "obj w' j = Some po"
    then show "handle_ok E w' L' j po" using other h w'(1) by (cases "j = i") auto
  next
    fix j k po qo
    assume "obj w' j = Some po" "obj w' k = Some qo" "holding po" "holding qo" "j \<noteq> k"
    then show "address_of po \<noteq> address_of qo"
      using inj before by metis
  next
    fix m j assume m: "wd_map w' m = Some j"
    then show "j < eg_next (wd_eng w')" using ok w' by (simp add: objs_ok_def)
  next
    fix m j po assume m: "wd_map w' m = Some j" and po: "obj w' j = Some po"
    show "ob_name po = m" using ok w' m po st by (cases "j = i") (auto simp: objs_ok_def)
    show "ob_state po \<in> {ACTIVE, MISSING}" using ok w' m po st [of m] by (cases "j = i") (auto simp: objs_ok_def)
  qed
qed

lemma inv_update:
  assumes inv: "bs_inv E w" and i: "obj w i = Some ob" "holding ob" "holding ob'" and a: "address_of ob' = address_of ob"
    and n: "ob_name ob' = ob_name ob" "ob_state ob = ACTIVE \<longleftrightarrow> ob_state ob' = ACTIVE"
    and w': "wd_eng w' = prepare t (set_obj i ob' (wd_eng w))" "wd_map w' = wd_map w" "wd_ver w' = wd_ver w" "wd_base w' = wd_base w"
      "\<And>j. j \<noteq> i \<Longrightarrow> wd_bytes w' j = wd_bytes w j"
    and t: "\<forall>p \<in> set t. touches p \<subseteq> {address_of ob}" "runs (ver_ok E (wd_ver w)) t (logical w)"
    and g: "\<And>m g. address_of ob = Temp m g \<Longrightarrow> g \<in> E \<and> g \<le> eg_last (wd_eng w)"
    and hld: "\<And>m. address_of ob = Held m \<Longrightarrow> map_option en_ts (fold effect t (logical w) (Held m)) = map_option en_ts (logical w (Held m))"
    and h: "handle_ok E w' (fold effect t (logical w)) i ob'"
  shows "bs_inv E w'"
proof -
  let ?L = "logical w" and ?L' = "fold effect t (logical w)"
  have oth: "?L' b = ?L b" if "b \<noteq> address_of ob" for b using t(1) that by (intro fold_untouched) auto
  have ts: "map_option en_ts (?L' (Held m)) = map_option en_ts (?L (Held m))" for m
    using hld [of m] oth [of "Held m"] by (cases "address_of ob = Held m") simp_all
  have hs: "\<exists>en. ?L' (Held m) = Some en \<and> en_ts en = x" if "?L (Held m) = Some en0" "en_ts en0 = x" for m en0 x
    using ts [of m] that by (cases "?L' (Held m)") auto
  have hs': "\<exists>en. ?L (Held m) = Some en \<and> en_ts en = x" if "?L' (Held m) = Some en0" "en_ts en0 = x" for m en0 x
    using ts [of m] that by (cases "?L (Held m)") auto
  have so: "store_ok E (wd_ver w) (eg_last (wd_eng w)) ?L" and oo: "objs_ok E w ?L" using inv by (simp_all add: bs_inv_def)
  show ?thesis
  proof (rule inv_extend [OF inv])
    show "eg_queue (wd_eng w') = eg_queue (wd_eng w) @ [t]" "store w' = store w" "wd_base w' = wd_base w"
      "wd_ver w \<subseteq>\<^sub>m wd_ver w'" "runs (ver_ok E (wd_ver w')) t ?L" using w' t(2) by simp_all
    show "objs_ok E w' ?L'" by (rule objs_ok_update [OF oo i a n w'(1,2,5) oth h])
    show "keeps ?L ?L'" using hs by (fastforce simp: keeps_def)
    show "store_ok E (wd_ver w') (eg_last (wd_eng w')) ?L'"
      unfolding store_ok_def w'(3)
    proof (intro conjI allI impI)
      fix m en assume "?L' (Held m) = Some en"
      then show "en_ts en \<notin> E" using hs' so unfolding store_ok_def by metis
    next
      fix m k assume "?L' (Temp m k) \<noteq> None" "k \<in> E"
      then show "k \<le> eg_last (wd_eng w')" using so g [of m k] oth [of "Temp m k"] w'(1)
        by (cases "address_of ob = Temp m k") (auto simp: store_ok_def)
    next
      fix m k assume k: "?L' (Temp m k) \<noteq> None" "k \<notin> E"
      then have "address_of ob \<noteq> Temp m k" using g by blast
      then have "?L (Temp m k) \<noteq> None" using k oth [of "Temp m k"] by simp
      then obtain en where "?L (Held m) = Some en" "k < en_ts en" using so k(2) unfolding store_ok_def by blast
      then show "\<exists>en. ?L' (Held m) = Some en \<and> k < en_ts en" using hs by metis
    next
      fix m k assume "wd_ver w (m, k) \<noteq> None"
      then obtain en where "?L (Held m) = Some en" "k \<le> en_ts en" using so unfolding store_ok_def by blast
      then show "\<exists>en. ?L' (Held m) = Some en \<and> k \<le> en_ts en" using hs by metis
    next
      fix m k en assume k: "?L' (Temp m k) = Some en"
      show "en_ts en = k"
      proof (cases "address_of ob = Temp m k")
        case True
        then have a': "address_of ob' = Temp m k" using a by simp
        then have "ob_ts ob' = k" by (auto simp: address_of_def split: if_splits)
        then show ?thesis using h i(3) k a' by (auto simp: handle_ok_def holding_def split: ostate.splits)
      next
        case False
        then show ?thesis using so k oth [of "Temp m k"] unfolding store_ok_def by metis
      qed
    qed
    fix m assume "live_obj w' m = None"
    then have lw: "live_obj w m = None" using w' i by (auto simp: live_obj_def split: option.splits if_splits)
    have "address_of ob \<noteq> Held m"
    proof
      assume "address_of ob = Held m"
      then have "ob_state ob = ACTIVE" "ob_name ob = m" using i(2) by (auto simp: address_of_def holding_def split: if_splits)
      then have "wd_map w m = Some i" using oo i(1) by (fastforce simp: objs_ok_def handle_ok_def)
      then show False using lw i(1) by (simp add: live_obj_def)
    qed
    then have "runs (\<lambda>st. st (Held m) = ?L (Held m)) t ?L" using t by (intro runs_untouched) (auto dest!: bspec)
    with lw show "live_obj w m = None \<and> runs (\<lambda>st. st (Held m) = ?L (Held m)) t ?L" by blast
  qed
qed


lemma temp_runs:
  assumes "runs (\<lambda>s. True) t L" and "\<forall>p \<in> set t. touches p \<subseteq> {Temp n g}" and "g \<in> E" and "ver_ok E V L"
  shows "runs (ver_ok E V) t L"
proof (rule runs_ignoring [where P = "ver_ok E V", OF assms(1,2,4)])
  fix s s' :: bstore assume v: "ver_ok E V s" and s: "\<forall>a. a \<notin> {Temp n g} \<longrightarrow> s' a = s a"
  from s assms(3) have "\<And>m. s' (Held m) = s (Held m)" "\<And>m k. k \<notin> E \<Longrightarrow> s' (Temp m k) = s (Temp m k)" by auto
  with v show "ver_ok E V s'" unfolding ver_ok_def by metis
qed

lemma inv_handle:
  assumes "bs_inv E w" and "obj w i = Some ob"
  shows "handle_ok E w (logical w) i ob"
  using assms by (simp add: bs_inv_def objs_ok_def)

lemma inv_ver: "bs_inv E w \<Longrightarrow> ver_ok E (wd_ver w) (logical w)"
  unfolding bs_inv_def logical_def using runs_last by blast

text \<open>A change of an entry being written.\<close>

lemma inv_writing:
  assumes inv: "bs_inv E w" and i: "obj w i = Some ob" "ob_state ob \<in> {PRE_WRITE, IN_WRITE}"
    and ob': "ob_state ob' \<in> {PRE_WRITE, IN_WRITE}" "ob_name ob' = ob_name ob" "ob_ts ob' = ob_ts ob"
    and t: "\<forall>p \<in> set t. touches p \<subseteq> {Temp (ob_name ob) (ob_ts ob)}" "runs (\<lambda>s. True) t (logical w)"
    and h: "handle_ok E (w\<lparr>wd_eng := prepare t (set_obj i ob' (wd_eng w)), wd_bytes := (wd_bytes w)(i := bs)\<rparr>)
      (fold effect t (logical w)) i ob'"
  shows "bs_inv E (w\<lparr>wd_eng := prepare t (set_obj i ob' (wd_eng w)), wd_bytes := (wd_bytes w)(i := bs)\<rparr>)"
proof (rule inv_update [OF inv i(1) _ _ _ ob'(2) _ _ _ _ _ _ _ _ _ _ h])
  have a: "address_of ob = Temp (ob_name ob) (ob_ts ob)" using i(2) by (auto simp: address_of_def)
  have e: "ob_ts ob \<in> E \<and> ob_ts ob \<le> eg_last (wd_eng w)"
    using inv_handle [OF inv i(1)] i(2) by (auto simp: handle_ok_def)
  show "holding ob" "holding ob'" "ob_state ob = ACTIVE \<longleftrightarrow> ob_state ob' = ACTIVE" using i(2) ob'(1) by (auto simp: holding_def)
  show "address_of ob' = address_of ob" using a ob' by (auto simp: address_of_def)
  show "\<forall>p \<in> set t. touches p \<subseteq> {address_of ob}" using t(1) by (simp add: a)
  show "runs (ver_ok E (wd_ver w)) t (logical w)" using e by (intro temp_runs [OF t(2,1)] inv_ver [OF inv]) simp
  show "g \<in> E \<and> g \<le> eg_last (wd_eng w)" if "address_of ob = Temp m g" for m g using e that by (simp add: a)
  show "map_option en_ts (fold effect t (logical w) (Held m)) = map_option en_ts (logical w (Held m))" if "address_of ob = Held m" for m
    using that by (simp add: a)
qed simp_all

lemma inv_write:
  assumes inv: "bs_inv E w" and r: "write_obj i bytes (wd_eng w) = (e, Inr ())"
  shows "bs_inv E (w\<lparr>wd_eng := e, wd_bytes := (wd_bytes w)(i := wd_bytes w i @ bytes)\<rparr>)"
  using r
proof (cases rule: write_obj_prepares)
  case (first ob)
  have h: "handle_ok E w (logical w) i ob" by (rule inv_handle [OF inv first(1)])
  show ?thesis unfolding first(3)
    by (rule inv_writing [OF inv first(1)])
      (use h first in \<open>auto simp: handle_ok_def address_of_def change_entry_def\<close>)
next
  case (later ob)
  have h: "handle_ok E w (logical w) i ob" by (rule inv_handle [OF inv later(1)])
  show ?thesis unfolding later(3)
    by (rule inv_writing [OF inv later(1)])
      (use h later in \<open>auto simp: handle_ok_def address_of_def change_entry_def\<close>)
qed

lemma inv_tombstone:
  assumes inv: "bs_inv E w" and r: "tombstone_obj i blob (wd_eng w) = (e, Inr ())"
  shows "bs_inv E (w\<lparr>wd_eng := e\<rparr>)"
  using r
proof (cases rule: tombstone_obj_prepares)
  case (1 ob)
  have h: "handle_ok E w (logical w) i ob" by (rule inv_handle [OF inv 1(1)])
  have "bs_inv E (w\<lparr>wd_eng := e, wd_bytes := (wd_bytes w)(i := wd_bytes w i)\<rparr>)" unfolding 1(3)
    by (rule inv_writing [OF inv 1(1)])
      (use h 1 in \<open>auto simp: handle_ok_def address_of_def change_entry_def\<close>)
  then show ?thesis by simp
qed

lemma inv_metadata:
  assumes inv: "bs_inv E w" and r: "write_metadata_obj i blob (wd_eng w) = (e, Inr ())"
  shows "bs_inv E (w\<lparr>wd_eng := e\<rparr>)"
  using r
proof (cases rule: write_metadata_obj_prepares)
  case (first ob)
  have h: "handle_ok E w (logical w) i ob" by (rule inv_handle [OF inv first(1)])
  have "bs_inv E (w\<lparr>wd_eng := e, wd_bytes := (wd_bytes w)(i := wd_bytes w i)\<rparr>)" unfolding first(3)
    by (rule inv_writing [OF inv first(1)])
      (use h first in \<open>auto simp: handle_ok_def address_of_def change_entry_def\<close>)
  then show ?thesis by simp
next
  case (later ob)
  have h: "handle_ok E w (logical w) i ob" by (rule inv_handle [OF inv later(1)])
  show ?thesis
  proof (cases "ob_state ob = ACTIVE")
    case False
    then have st: "ob_state ob = IN_WRITE" using later(2) by simp
    have "bs_inv E (w\<lparr>wd_eng := e, wd_bytes := (wd_bytes w)(i := wd_bytes w i)\<rparr>)" unfolding later(3)
      by (rule inv_writing [OF inv later(1)])
        (use h st in \<open>auto simp: handle_ok_def address_of_def change_entry_def\<close>)
    then show ?thesis by simp
  next
    case True
    then have a: "address_of ob = Held (ob_name ob)" by (simp add: address_of_def)
    obtain en where en: "logical w (Held (ob_name ob)) = Some en" "en_ts en = ob_ts ob" "en_deleted en = ob_deleted ob"
      using h True by (auto simp: handle_ok_def a)
    have v: "ver_ok E (wd_ver w) (logical w)" by (rule inv_ver [OF inv])
    have d: "wd_ver w (ob_name ob, ob_ts ob) = Some (en_data en)"
    proof -
      have "ob_ts ob \<notin> E" using h True by (simp add: handle_ok_def)
      then show ?thesis using v en(1,2) unfolding ver_ok_def by metis
    qed
    show ?thesis unfolding later(3)
      by (rule inv_update [OF inv later(1), where ob' = ob])
        (use h True a en v d in \<open>auto simp: handle_ok_def holding_def change_entry_def ver_ok_def\<close>)
  qed
qed


text \<open>The counters of metadata versions and of changes handed over play no part in the invariant.\<close>

lemma inv_counters: "bs_inv E (w\<lparr>wd_vers := vs, wd_handed := h\<rparr>) = bs_inv E w"
proof -
  have l: "live_obj (w\<lparr>wd_vers := vs, wd_handed := h\<rparr>) n = live_obj w n" for n by (simp add: live_obj_def cong: option.case_cong)
  show ?thesis
    by (simp add: bs_inv_def logical_def l objs_ok_def handle_ok_def cong: ostate.case_cong)
qed

lemma inv_vers: "bs_inv E (w\<lparr>wd_vers := vs\<rparr>) = bs_inv E w"
  using inv_counters [where w = w and vs = vs and h = "wd_handed w"] by simp

lemma handle_ok_mono:
  assumes "handle_ok E w L j po" and "eg_next (wd_eng w) \<le> eg_next (wd_eng w')" and "eg_last (wd_eng w) \<le> eg_last (wd_eng w')"
    and "wd_bytes w' j = wd_bytes w j" and "wd_map w' (ob_name po) = Some j \<longleftrightarrow> wd_map w (ob_name po) = Some j"
  shows "handle_ok E w' L j po"
  using assms by (auto simp: handle_ok_def split: ostate.splits)

lemma objs_ok_new:
  assumes ok: "objs_ok E w L" and i: "i = eg_next (wd_eng w)" "obj w' = (obj w)(i \<mapsto> ob)" "eg_next (wd_eng w') = i + 1"
      "eg_last (wd_eng w) \<le> eg_last (wd_eng w')" "\<And>j. j \<noteq> i \<Longrightarrow> wd_bytes w' j = wd_bytes w j"
    and m: "wd_map w' = wd_map w \<or>
      wd_map w' = (wd_map w)(ob_name ob \<mapsto> i) \<and> live_obj w (ob_name ob) = None \<and> ob_state ob \<in> {ACTIVE, MISSING}"
    and h: "handle_ok E w' L i ob"
    and a: "\<And>j po. obj w j = Some po \<Longrightarrow> holding po \<Longrightarrow> holding ob \<Longrightarrow> address_of po \<noteq> address_of ob"
  shows "objs_ok E w' L"
proof -
  have fresh: "j \<noteq> i" if "obj w j = Some po" for j po using ok that i(1) unfolding objs_ok_def handle_ok_def by blast
  have fresh': "j \<noteq> i" if "wd_map w n = Some j" for n j using ok that i(1) unfolding objs_ok_def by blast
  have mp: "wd_map w' n = Some j \<longleftrightarrow> wd_map w n = Some j" if "obj w j = Some po" "wd_map w n = Some j \<or> wd_map w' n = Some j" for n j po
  proof (cases "wd_map w' = wd_map w")
    case False
    then have "wd_map w' = (wd_map w)(ob_name ob \<mapsto> i)" "live_obj w (ob_name ob) = None" using m by auto
    then show ?thesis using that fresh [OF that(1)] by (auto simp: live_obj_def split: if_splits)
  qed simp
  have old: "handle_ok E w' L j po" if "obj w j = Some po" for j po
    by (rule handle_ok_mono [where w = w]) (use ok that i mp [OF that] fresh [OF that] in \<open>auto simp: objs_ok_def\<close>)
  show ?thesis
    unfolding objs_ok_def
  proof (intro conjI allI impI)
    fix j po assume "obj w' j = Some po"
    then show "handle_ok E w' L j po" using old h i(2) by (cases "j = i") auto
  next
    fix j k po qo
    assume *: "obj w' j = Some po" "obj w' k = Some qo" "holding po" "holding qo" "j \<noteq> k"
    show "address_of po \<noteq> address_of qo"
    proof (cases "j = i \<or> k = i")
      case True
      then show ?thesis using * a i(2) by (metis fun_upd_apply option.inject)
    next
      case False
      then show ?thesis using * ok i(2) unfolding objs_ok_def by (metis fun_upd_apply)
    qed
  next
    fix n j assume n: "wd_map w' n = Some j"
    show "j < eg_next (wd_eng w')"
    proof (cases "j = i")
      case False
      then have "wd_map w n = Some j" using n m by (auto split: if_splits)
      then show ?thesis using ok i(1,3) unfolding objs_ok_def by (metis less_Suc_eq Suc_eq_plus1)
    qed (simp add: i(3))
  next
    fix n j po assume n: "wd_map w' n = Some j" "obj w' j = Some po"
    show "ob_name po = n" "ob_state po \<in> {ACTIVE, MISSING}"
    proof -
      have "ob_name po = n \<and> ob_state po \<in> {ACTIVE, MISSING}"
      proof (cases "j = i")
        case True
        then have "wd_map w' \<noteq> wd_map w" using n(1) fresh' by metis
        then show ?thesis using True n m fresh' i(2) by (auto split: if_splits)
      next
        case False
        then have j: "obj w j = Some po" using n(2) i(2) by simp
        then have "wd_map w n = Some j" using mp [OF j] n(1) by blast
        with j show ?thesis using ok unfolding objs_ok_def by blast
      qed
      then show "ob_name po = n" "ob_state po \<in> {ACTIVE, MISSING}" by blast+
    qed
  qed
qed

lemma inv_same_queue:
  assumes inv: "bs_inv E w" and q: "eg_queue (wd_eng w') = eg_queue (wd_eng w)" "store w' = store w" "wd_base w' = wd_base w" "wd_ver w' = wd_ver w"
    and l: "\<And>n. live_obj w' n = None \<Longrightarrow> live_obj w n = None" and mx: "eg_last (wd_eng w) \<le> eg_last (wd_eng w')"
    and ok: "objs_ok E w' (logical w)"
  shows "bs_inv E w'"
proof -
  have L: "logical w' = logical w" by (simp add: logical_def q)
  have s: "store_ok E (wd_ver w) (eg_last (wd_eng w)) (logical w)" using inv by (simp add: bs_inv_def)
  have "store_ok E (wd_ver w) (eg_last (wd_eng w')) (logical w)"
    using s mx unfolding store_ok_def by (meson order.trans)
  then show ?thesis using inv l ok unfolding bs_inv_def by (simp add: L q)
qed

lemma inv_create:
  assumes inv: "bs_inv E w" and r: "create_obj None now n (wd_eng w) = (e, i)" and E: "eg_last e \<in> E"
  shows "bs_inv E (w\<lparr>wd_eng := e, wd_bytes := (wd_bytes w)(i := [])\<rparr>)"
proof -
  let ?t = "max now (eg_last (wd_eng w) + 1)"
  let ?ob = "\<lparr>ob_name = n, ob_ts = ?t, ob_deleted = False, ob_state = PRE_WRITE, ob_written = 0\<rparr>"
  have e: "e = (wd_eng w)\<lparr>eg_last := ?t, eg_objs := (obj w)(eg_next (wd_eng w) \<mapsto> ?ob), eg_next := eg_next (wd_eng w) + 1\<rparr>"
    and i: "i = eg_next (wd_eng w)"
    using r by (auto simp: create_obj_def estimate_def new_obj_def Let_def)
  have tE: "?t \<in> E" using E by (simp add: e)
  have oo: "objs_ok E w (logical w)" and so: "store_ok E (wd_ver w) (eg_last (wd_eng w)) (logical w)" using inv by (simp_all add: bs_inv_def)
  have none: "logical w (Temp n ?t) = None" using so tE unfolding store_ok_def by fastforce
  have d: "address_of po \<noteq> address_of ?ob" if "obj w j = Some po" "holding po" for j po
    using inv_handle [OF inv that(1)] that(2) none by (auto simp: handle_ok_def holding_def address_of_def)
  show ?thesis
  proof (rule inv_same_queue [OF inv])
    show "objs_ok E (w\<lparr>wd_eng := e, wd_bytes := (wd_bytes w)(i := [])\<rparr>) (logical w)"
      by (rule objs_ok_new [OF oo i, where ob = ?ob]) (use d none tE in \<open>auto simp: e i handle_ok_def address_of_def\<close>)
    show "live_obj w m = None" if "live_obj (w\<lparr>wd_eng := e, wd_bytes := (wd_bytes w)(i := [])\<rparr>) m = None" for m
      using that by (auto simp: live_obj_def e split: option.splits if_splits)
  qed (simp_all add: e)
qed

lemma inv_search:
  assumes inv: "bs_inv E w" and l: "live_obj w n = None" and r: "find_obj n (wd_eng w) = (e, i)" "open_obj i e = (e', Inr ())"
  shows "bs_inv E (w\<lparr>wd_eng := e', wd_map := (wd_map w)(n \<mapsto> i)\<rparr>)"
proof -
  let ?ob = "case store w (Held n) of None \<Rightarrow> \<lparr>ob_name = n, ob_ts = 0, ob_deleted = False, ob_state = MISSING, ob_written = 0\<rparr>
     | Some en \<Rightarrow> \<lparr>ob_name = n, ob_ts = en_ts en, ob_deleted = en_deleted en, ob_state = ACTIVE, ob_written = 0\<rparr>"
  have e: "e' = (wd_eng w)\<lparr>eg_objs := (obj w)(eg_next (wd_eng w) \<mapsto> ?ob), eg_next := eg_next (wd_eng w) + 1\<rparr>"
    and i: "i = eg_next (wd_eng w)"
    using r by (auto simp: find_obj_def new_obj_def open_obj_def require_def set_obj_def load_entry_def address_of_def Let_def
      split: option.splits)
  have oo: "objs_ok E w (logical w)" and so: "store_ok E (wd_ver w) (eg_last (wd_eng w)) (logical w)" using inv by (simp_all add: bs_inv_def)
  have L: "store w (Held n) = logical w (Held n)" using inv l unfolding bs_inv_def by (blast dest: runs_first)
  have d: "address_of po \<noteq> address_of ?ob" if "obj w j = Some po" "holding po" "holding ?ob" for j po
    using inv_handle [OF inv that(1)] that l
    by (auto simp: handle_ok_def holding_def address_of_def live_obj_def split: option.splits if_splits)
  show ?thesis
  proof (rule inv_same_queue [OF inv])
    show "objs_ok E (w\<lparr>wd_eng := e', wd_map := (wd_map w)(n \<mapsto> i)\<rparr>) (logical w)"
      by (rule objs_ok_new [OF oo i, where ob = ?ob])
        (use d l L so in \<open>auto simp: e i handle_ok_def address_of_def store_ok_def split: option.splits\<close>)
    show "live_obj w m = None" if "live_obj (w\<lparr>wd_eng := e', wd_map := (wd_map w)(n \<mapsto> i)\<rparr>) m = None" for m
      using that by (auto simp: live_obj_def e i split: option.splits if_splits)
  qed (simp_all add: e)
qed


lemma inv_hand:
  assumes ap: "bluestore_ok ap" and inv: "bs_inv E w" and q: "eg_queue (wd_eng w) = (p # ps) # ts" and r: "ap p (store w) = Some st"
  shows "bs_inv E (w\<lparr>wd_eng := (wd_eng w)\<lparr>eg_store := st, eg_queue := ps # ts\<rparr>, wd_handed := h\<rparr>)"
proof -
  let ?w = "w\<lparr>wd_eng := (wd_eng w)\<lparr>eg_store := st, eg_queue := ps # ts\<rparr>, wd_handed := h\<rparr>"
  have "fits p (store w)" using inv q by (simp add: bs_inv_def)
  then have st: "st = effect p (store w)" using ap r by (simp add: bluestore_ok_def)
  have L: "logical ?w = logical w" by (simp add: logical_def q st)
  have l: "live_obj ?w n = live_obj w n" for n by (simp add: live_obj_def cong: option.case_cong)
  have oo: "objs_ok E ?w (logical w) = objs_ok E w (logical w)" by (simp add: objs_ok_def handle_ok_def cong: ostate.case_cong)
  show ?thesis using inv unfolding bs_inv_def L l oo by (simp add: q st finite_effect)
qed

lemma inv_whole:
  assumes inv: "bs_inv E w" and q: "eg_queue (wd_eng w) = [] # ts"
  shows "bs_inv E (w\<lparr>wd_eng := (wd_eng w)\<lparr>eg_queue := ts\<rparr>, wd_base := store w\<rparr>)"
proof -
  let ?w = "w\<lparr>wd_eng := (wd_eng w)\<lparr>eg_queue := ts\<rparr>, wd_base := store w\<rparr>"
  have L: "logical ?w = logical w" by (simp add: logical_def q)
  have l: "live_obj ?w n = live_obj w n" for n by (simp add: live_obj_def cong: option.case_cong)
  have oo: "objs_ok E ?w (logical w) = objs_ok E w (logical w)" by (simp add: objs_ok_def handle_ok_def cong: ostate.case_cong)
  have v: "ver_ok E (wd_ver w) (store w)" using inv by (auto simp: bs_inv_def dest: runs_first)
  have b: "bounds E (store w) ts (store w)" using inv q by (simp add: bs_inv_def)
  have k: "keeps (store w) (logical w)"
    using bounds_keeps [OF b] by (cases ts) (simp_all add: logical_def q keeps_def)
  show ?thesis using inv v b k unfolding bs_inv_def L l oo by (simp add: q)
qed

lemma objs_okI:
  assumes "\<And>i ob. obj w i = Some ob \<Longrightarrow> handle_ok E w L i ob"
    and "\<And>i j ob ob'. obj w i = Some ob \<Longrightarrow> obj w j = Some ob' \<Longrightarrow> holding ob \<Longrightarrow> holding ob' \<Longrightarrow> i \<noteq> j \<Longrightarrow>
      address_of ob \<noteq> address_of ob'"
    and "\<And>n i. wd_map w n = Some i \<Longrightarrow> i < eg_next (wd_eng w)"
    and "\<And>n i ob. wd_map w n = Some i \<Longrightarrow> obj w i = Some ob \<Longrightarrow> ob_name ob = n \<and> ob_state ob \<in> {ACTIVE, MISSING}"
  shows "objs_ok E w L"
  using assms by (simp add: objs_ok_def)

lemma objs_ok_remove:
  assumes ok: "objs_ok E w L" and i: "obj w i = Some ob" and o: "obj w' = (obj w)(i := None)"
    and w': "eg_next (wd_eng w') = eg_next (wd_eng w)" "eg_last (wd_eng w') = eg_last (wd_eng w)" "wd_bytes w' = wd_bytes w" "wd_map w' = wd_map w"
    and L': "L' = L \<or> holding ob \<and> ob_state ob \<noteq> ACTIVE \<and> L' = L(address_of ob := None)"
  shows "objs_ok E w' L'"
proof -
  have *: "handle_ok E w' L' j po" if j: "obj w j = Some po" "j \<noteq> i" for j po
  proof -
    have h: "handle_ok E w' L j po"
      by (rule handle_ok_mono [where w = w]) (use ok j w' in \<open>auto simp: objs_ok_def\<close>)
    show ?thesis
    proof (cases "L' = L")
      case False
      then have L: "holding ob" "ob_state ob \<noteq> ACTIVE" "L' = L(address_of ob := None)" using L' by blast+
      have "holding po \<Longrightarrow> address_of po \<noteq> address_of ob" using ok i j L(1) unfolding objs_ok_def by blast
      moreover have "address_of ob \<noteq> Held m" for m using L by (auto simp: holding_def address_of_def)
      ultimately show ?thesis using h L(3) by (auto simp: handle_ok_def holding_def split: ostate.splits)
    qed (simp add: h)
  qed
  have **: "obj w j = Some po \<and> j \<noteq> i" if "obj w' j = Some po" for j po using that o by (auto split: if_splits)
  have inj: "address_of po \<noteq> address_of qo"
    if "obj w j = Some po" "obj w k = Some qo" "holding po" "holding qo" "j \<noteq> k" for j k po qo
    using ok that unfolding objs_ok_def by blast
  have mp: "j < eg_next (wd_eng w) \<and> (\<forall>po. obj w j = Some po \<longrightarrow> ob_name po = n \<and> ob_state po \<in> {ACTIVE, MISSING})"
    if "wd_map w n = Some j" for n j using ok that unfolding objs_ok_def by blast
  show ?thesis
  proof (rule objs_okI)
    show "handle_ok E w' L' j po" if "obj w' j = Some po" for j po using * ** that by blast
    show "address_of po \<noteq> address_of qo" if "obj w' j = Some po" "obj w' k = Some qo" "holding po" "holding qo" "j \<noteq> k" for j k po qo
      using inj ** that by blast
    show "j < eg_next (wd_eng w')" if "wd_map w' n = Some j" for n j using mp that w' by simp
    show "ob_name po = n \<and> ob_state po \<in> {ACTIVE, MISSING}" if "wd_map w' n = Some j" "obj w' j = Some po" for n j po
      using mp ** that w'(4) by metis
  qed
qed

lemma inv_release:
  assumes inv: "bs_inv E w" and i: "obj w i = Some ob"
    and d: "wd_map w (ob_name ob) = Some i \<longrightarrow> (\<forall>p \<in> set (queued w). Held (ob_name ob) \<notin> touches p)"
  shows "bs_inv E (w\<lparr>wd_eng := release_obj i (wd_eng w)\<rparr>)"
proof -
  let ?w = "w\<lparr>wd_eng := release_obj i (wd_eng w)\<rparr>"
  have oo: "objs_ok E w (logical w)" and so: "store_ok E (wd_ver w) (eg_last (wd_eng w)) (logical w)" using inv by (simp_all add: bs_inv_def)
  have h: "handle_ok E w (logical w) i ob" by (rule inv_handle [OF inv i])
  show ?thesis
  proof (cases "ob_state ob \<in> {IN_WRITE, OLD}")
    case True
    then have hld: "holding ob" "ob_state ob \<noteq> ACTIVE" by (auto simp: holding_def)
    let ?a = "address_of ob"
    have a: "?a = Temp (ob_name ob) (ob_ts ob)" using True by (auto simp: address_of_def)
    obtain en where en: "logical w ?a = Some en" using True h by (auto simp: handle_ok_def)
    have e: "release_obj i (wd_eng w) = prepare [RemoveEntry ?a] ((wd_eng w)\<lparr>eg_objs := (obj w)(i := None)\<rparr>)"
      using i True by (auto simp: release_obj_def Let_def)
    have v: "ver_ok E (wd_ver w) (logical w)" by (rule inv_ver [OF inv])
    show ?thesis
    proof (rule inv_extend [OF inv])
      show "eg_queue (wd_eng ?w) = eg_queue (wd_eng w) @ [[RemoveEntry ?a]]" "store ?w = store w" "wd_base ?w = wd_base w"
        "wd_ver w \<subseteq>\<^sub>m wd_ver ?w" by (simp_all add: e)
      show "runs (ver_ok E (wd_ver ?w)) [RemoveEntry ?a] (logical w)" using v en by (auto simp: a ver_ok_def)
      show "store_ok E (wd_ver ?w) (eg_last (wd_eng ?w)) (fold effect [RemoveEntry ?a] (logical w))"
        using so by (auto simp: e a store_ok_def)
      show "objs_ok E ?w (fold effect [RemoveEntry ?a] (logical w))"
        by (rule objs_ok_remove [OF oo i]) (use hld in \<open>simp_all add: e\<close>)
      show "keeps (logical w) (fold effect [RemoveEntry ?a] (logical w))" by (simp add: keeps_def a)
      fix n assume "live_obj ?w n = None"
      moreover have "wd_map w n \<noteq> Some i" using oo i True unfolding objs_ok_def by fastforce
      ultimately have "live_obj w n = None" by (auto simp: live_obj_def e split: option.splits if_splits)
      then show "live_obj w n = None \<and> runs (\<lambda>st. st (Held n) = logical w (Held n)) [RemoveEntry ?a] (logical w)"
        by (simp add: a en [unfolded a])
    qed
  next
    case False
    then have e: "release_obj i (wd_eng w) = (wd_eng w)\<lparr>eg_objs := (obj w)(i := None)\<rparr>"
      using i by (auto simp: release_obj_def Let_def)
    have L: "logical ?w = logical w" by (simp add: logical_def e)
    have o: "objs_ok E ?w (logical w)" by (rule objs_ok_remove [OF oo i]) (simp_all add: e)
    have "runs (\<lambda>st. st (Held n) = logical w (Held n)) (queued w) (store w)" if "live_obj ?w n = None" for n
    proof (cases "wd_map w n = Some i")
      case True
      then have n: "ob_name ob = n" using oo i unfolding objs_ok_def by blast
      have "runs (\<lambda>st. st (Held n) = store w (Held n)) (queued w) (store w)"
        using inv d True n by (intro runs_untouched [where P = "ver_ok E (wd_ver w)"]) (simp_all add: bs_inv_def)
      moreover from runs_last [OF this] have "logical w (Held n) = store w (Held n)" by (simp add: logical_def)
      ultimately show ?thesis by simp
    next
      case False
      then have "live_obj w n = None" using that by (auto simp: live_obj_def e split: option.splits if_splits)
      then show ?thesis using inv by (simp add: bs_inv_def)
    qed
    then show ?thesis using inv o unfolding bs_inv_def L by (simp add: e)
  qed
qed


lemma ver_ok_temp:
  "ver_ok E V st \<Longrightarrow> (\<And>en. x = Some en \<Longrightarrow> g \<notin> E \<Longrightarrow> en_ts en = g \<and> V (n, g) = Some (en_data en)) \<Longrightarrow> ver_ok E V (st(Temp n g := x))"
  by (auto simp: ver_ok_def)

lemma ver_ok_held:
  "ver_ok E V st \<Longrightarrow> (\<And>en. x = Some en \<Longrightarrow> en_ts en \<notin> E \<Longrightarrow> V (n, en_ts en) = Some (en_data en)) \<Longrightarrow> ver_ok E V (st(Held n := x))"
  by (auto simp: ver_ok_def)

text \<open>The objects after a put: \<open>po'\<close> is what the replaced one has become.\<close>

lemma objs_ok_put:
  assumes ok: "objs_ok E w L" and i: "obj w i = Some ob" "ob_state ob = IN_WRITE" and j: "obj w j = Some po" "ob_name po = ob_name ob"
    and mp: "wd_map w (ob_name ob) = Some j"
    and w': "obj w' = (obj w)(j \<mapsto> po', i \<mapsto> ob')" "wd_map w' = (wd_map w)(ob_name ob \<mapsto> i)" "wd_bytes w' = wd_bytes w"
      "eg_next (wd_eng w') = eg_next (wd_eng w)" "eg_last (wd_eng w') = eg_last (wd_eng w)"
    and ob': "ob_name ob' = ob_name ob" "ob_state ob' = ACTIVE"
    and po': "po' = po \<and> ob_state po = MISSING \<or>
       ob_state po = ACTIVE \<and> ob_state po' = OLD \<and> address_of po' = Temp (ob_name ob) (ob_ts po) \<and> L (address_of po') = None"
    and h: "handle_ok E w' L' i ob'" "handle_ok E w' L' j po'"
    and L': "\<And>a. a \<noteq> Held (ob_name ob) \<Longrightarrow> a \<noteq> address_of ob \<Longrightarrow> ob_state po = ACTIVE \<longrightarrow> a \<noteq> address_of po' \<Longrightarrow> L' a = L a"
  shows "objs_ok E w' L'"
proof -
  have ij: "i \<noteq> j" using i(2) j(1) po' i(1) by auto
  have ho: "handle_ok E w L k qo" if "obj w k = Some qo" for k qo using ok that by (simp add: objs_ok_def)
  have inj: "address_of po \<noteq> address_of qo"
    if "obj w j = Some po" "obj w k = Some qo" "holding po" "holding qo" "j \<noteq> k" for j k po qo
    using ok that unfolding objs_ok_def by blast
  have po_ts: "ob_state po = ACTIVE \<Longrightarrow> ob_ts po \<notin> E" using ho [OF j(1)] by (simp add: handle_ok_def)
  have hb: "holding ob" using i(2) by (simp add: holding_def)
  have apart: "address_of qo \<noteq> Held (ob_name ob) \<and> address_of qo \<noteq> address_of ob \<and> (ob_state po = ACTIVE \<longrightarrow> address_of qo \<noteq> address_of po')"
    if q: "obj w k = Some qo" "k \<noteq> i" "k \<noteq> j" "holding qo" for k qo
  proof (intro conjI impI)
    have hq: "handle_ok E w L k qo" by (rule ho [OF q(1)])
    show "address_of qo \<noteq> address_of ob" by (rule inj [OF q(1) i(1) q(4) hb q(2)])
    show "address_of qo \<noteq> Held (ob_name ob)"
      using hq q(3,4) mp by (auto simp: handle_ok_def holding_def address_of_def split: if_splits)
    assume po: "ob_state po = ACTIVE"
    then have "address_of po' = Temp (ob_name ob) (ob_ts po)" "L (address_of po') = None" using po' by auto
    then show "address_of qo \<noteq> address_of po'"
      using hq q(4) po_ts [OF po] by (auto simp: handle_ok_def holding_def address_of_def split: if_splits)
  qed
  have aob: "address_of ob' = Held (ob_name ob)" using ob' by (simp add: address_of_def)
  have hpo: "address_of po' \<noteq> Held (ob_name ob)" if "holding po'" using po' that by (auto simp: holding_def)
  have *: "k = i \<and> qo = ob' \<or> k = j \<and> k \<noteq> i \<and> qo = po' \<or> k \<noteq> i \<and> k \<noteq> j \<and> obj w k = Some qo" if "obj w' k = Some qo" for k qo
    using that w'(1) by (auto split: if_splits)
  have other: "handle_ok E w' L' k qo" if q: "obj w k = Some qo" "k \<noteq> i" "k \<noteq> j" for k qo
  proof (cases "holding qo")
    case True
    then have "L' (address_of qo) = L (address_of qo)" using apart [OF q] L' by blast
    moreover have "ob_state qo = ACTIVE \<Longrightarrow> ob_name qo \<noteq> ob_name ob"
      using ho [OF q(1)] q(3) mp by (auto simp: handle_ok_def)
    ultimately show ?thesis using ho [OF q(1)] True w' q by (auto simp: handle_ok_def holding_def split: ostate.splits)
  next
    case False
    have "L' (Held (ob_name qo)) = L (Held (ob_name qo))" if "wd_map w' (ob_name qo) = Some k"
    proof -
      have "ob_name qo \<noteq> ob_name ob" using that w'(2) q(2) by auto
      moreover have "Held m \<noteq> address_of ob" for m using i(2) by (simp add: address_of_def)
      ultimately show ?thesis using L' [of "Held (ob_name qo)"] po' by auto
    qed
    then show ?thesis using ho [OF q(1)] False w' q by (auto simp: handle_ok_def holding_def split: ostate.splits if_splits)
  qed
  show ?thesis
  proof (rule objs_okI)
    show "handle_ok E w' L' k qo" if "obj w' k = Some qo" for k qo using * [OF that] h other by blast
    show "address_of po1 \<noteq> address_of qo" if q: "obj w' m = Some po1" "obj w' k = Some qo" "holding po1" "holding qo" "m \<noteq> k" for m k po1 qo
    proof -
      have hld: "address_of po' \<noteq> address_of qo" if "obj w k = Some qo" "k \<noteq> i" "k \<noteq> j" "holding qo" "holding po'" for k qo
        using apart [OF that(1-4)] that(5) po' by (auto simp: holding_def)
      show ?thesis using * [OF q(1)] * [OF q(2)] q(3-5) apart aob hpo hld inj by metis
    qed
    show "k < eg_next (wd_eng w')" if "wd_map w' n = Some k" for n k
      using that w' ok ho [OF i(1)] by (auto simp: objs_ok_def handle_ok_def split: if_splits)
    show "ob_name qo = n \<and> ob_state qo \<in> {ACTIVE, MISSING}" if q: "wd_map w' n = Some k" "obj w' k = Some qo" for n k qo
    proof (cases "n = ob_name ob")
      case True
      then have "k = i" using q(1) w'(2) by simp
      then show ?thesis using q(2) w'(1) ob' True by simp
    next
      case False
      then have m: "wd_map w n = Some k" using q(1) w'(2) by simp
      have nm: "ob_name x = n \<and> ob_state x \<in> {ACTIVE, MISSING}" if "obj w k = Some x" for x
        using ok m that unfolding objs_ok_def by blast
      have "k \<noteq> i" "k \<noteq> j" using nm i j False by auto
      then show ?thesis using * [OF q(2)] nm by blast
    qed
  qed
qed


lemma fresh_version:
  assumes "store_ok E V mx L" and "\<And>en. L (Held n) = Some en \<Longrightarrow> en_ts en < k"
  shows "V (n, k) = None"
proof (rule ccontr)
  assume "V (n, k) \<noteq> None"
  then obtain en where "L (Held n) = Some en" "k \<le> en_ts en" using assms(1) unfolding store_ok_def by blast
  then show False using assms(2) by fastforce
qed

lemma inv_put_core:
  assumes inv: "bs_inv E w" and i: "obj w i = Some ob" "ob_state ob = IN_WRITE" and j: "obj w j = Some po" "ob_name po = ob_name ob"
    and mp: "wd_map w (ob_name ob) = Some j" and E: "settled \<notin> E"
    and ob': "ob' = ob\<lparr>ob_state := ACTIVE, ob_ts := settled\<rparr>"
    and po': "po' = po \<and> ob_state po = MISSING \<or>
       ob_state po = ACTIVE \<and> po' = po\<lparr>ob_state := OLD\<rparr> \<and> logical w (Temp (ob_name ob) (ob_ts po)) = None"
    and hl: "\<And>en. logical w (Held (ob_name ob)) = Some en \<Longrightarrow> en_ts en < settled"
    and t: "\<forall>p \<in> set t. touches p \<subseteq> {Held (ob_name ob), Temp (ob_name ob) (ob_ts ob), Temp (ob_name ob) (ob_ts po)}"
      "runs (ver_ok E ((wd_ver w)((ob_name ob, settled) \<mapsto> wd_bytes w i))) t (logical w)"
    and a: "ob_state po = MISSING \<longrightarrow> (\<forall>p \<in> set t. touches p \<subseteq> {Held (ob_name ob), Temp (ob_name ob) (ob_ts ob)})"
    and e: "e = prepare t (set_obj i ob' (set_obj j po' (wd_eng w)))"
    and en: "fold effect t (logical w) (Held (ob_name ob)) = Some en" "en_ts en = settled" "en_deleted en = ob_deleted ob"
      "fold effect t (logical w) (Temp (ob_name ob) (ob_ts ob)) = None"
      "ob_state po = ACTIVE \<longrightarrow> (\<exists>en. fold effect t (logical w) (Temp (ob_name ob) (ob_ts po)) = Some en \<and>
         en_ts en = ob_ts po \<and> en_deleted en = ob_deleted po)"
  shows "bs_inv E (w\<lparr>wd_eng := e, wd_map := (wd_map w)(ob_name ob \<mapsto> i),
     wd_ver := (wd_ver w)((ob_name ob, settled) \<mapsto> wd_bytes w i)\<rparr>)"
proof -
  let ?L = "logical w" and ?n = "ob_name ob" and ?V = "(wd_ver w)((ob_name ob, settled) \<mapsto> wd_bytes w i)"
  let ?L' = "fold effect t ?L"
  let ?w = "w\<lparr>wd_eng := e, wd_map := (wd_map w)(?n \<mapsto> i), wd_ver := ?V\<rparr>"
  have oo: "objs_ok E w ?L" and so: "store_ok E (wd_ver w) (eg_last (wd_eng w)) ?L" using inv by (simp_all add: bs_inv_def)
  have hj: "handle_ok E w ?L j po" and hi: "handle_ok E w ?L i ob" by (rule inv_handle [OF inv j(1)], rule inv_handle [OF inv i(1)])
  have aob: "address_of ob = Temp ?n (ob_ts ob)" using i(2) by (simp add: address_of_def)
  have same: "?L' b = ?L b" if "b \<noteq> Held ?n" "b \<noteq> Temp ?n (ob_ts ob)" "ob_state po = ACTIVE \<longrightarrow> b \<noteq> Temp ?n (ob_ts po)" for b
    using that t(1) a po' by (intro fold_untouched) (fastforce dest!: bspec)
  have temps: "?L (Temp m k) \<noteq> None \<or> m = ?n \<and> k = ob_ts po \<and> ob_state po = ACTIVE" if "?L' (Temp m k) \<noteq> None" for m k
    using same [of "Temp m k"] that en(4) by (cases "m = ?n \<and> k = ob_ts ob"; cases "m = ?n \<and> k = ob_ts po \<and> ob_state po = ACTIVE") auto
  have ts: "\<exists>en'. ?L' (Held m) = Some en' \<and> k \<le> en_ts en'" if "?L (Held m) = Some en0" "k \<le> en_ts en0" for m en0 k
    using same [of "Held m"] that en hl [of en0] by (cases "m = ?n") auto
  have pE: "ob_state po = ACTIVE \<Longrightarrow> ob_ts po \<notin> E \<and> ob_ts po < settled"
    using hj hl by (auto simp: handle_ok_def address_of_def j(2))
  show ?thesis
  proof (rule inv_extend [OF inv])
    show "eg_queue (wd_eng ?w) = eg_queue (wd_eng w) @ [t]" "store ?w = store w" "wd_base ?w = wd_base w" by (simp_all add: e)
    show "runs (ver_ok E (wd_ver ?w)) t ?L" using t(2) by simp
    have "wd_ver w (?n, settled) = None" by (rule fresh_version [OF so hl])
    then show "wd_ver w \<subseteq>\<^sub>m wd_ver ?w" by (auto simp: map_le_def)
    show "keeps ?L ?L'" using ts by (fastforce simp: keeps_def)
    have "store_ok E ?V (eg_last (wd_eng w)) ?L'"
      unfolding store_ok_def
    proof (intro conjI allI impI)
      fix m en' assume *: "?L' (Held m) = Some en'"
      show "en_ts en' \<notin> E"
      proof (cases "m = ?n")
        case True
        then show ?thesis using * en E by simp
      next
        case False
        then have "?L (Held m) = Some en'" using * same [of "Held m"] by simp
        then show ?thesis using so unfolding store_ok_def by blast
      qed
    next
      fix m k assume *: "?L' (Temp m k) \<noteq> None" "k \<in> E"
      then have "?L (Temp m k) \<noteq> None" using temps pE by blast
      then show "k \<le> eg_last (wd_eng w)" using so *(2) unfolding store_ok_def by blast
    next
      fix m k assume *: "?L' (Temp m k) \<noteq> None" "k \<notin> E"
      show "\<exists>en. ?L' (Held m) = Some en \<and> k < en_ts en"
      proof (cases "?L (Temp m k) = None")
        case True
        then show ?thesis using temps [OF *(1)] pE en by auto
      next
        case False
        then obtain en0 where "?L (Held m) = Some en0" "k < en_ts en0" using so *(2) unfolding store_ok_def by blast
        then show ?thesis using ts [of m en0 "Suc k"] by (simp add: Suc_le_eq)
      qed
    next
      fix m k assume *: "?V (m, k) \<noteq> None"
      show "\<exists>en. ?L' (Held m) = Some en \<and> k \<le> en_ts en"
      proof (cases "m = ?n \<and> k = settled")
        case True
        then show ?thesis using en by simp
      next
        case False
        then have "wd_ver w (m, k) \<noteq> None" using * by (auto split: if_splits)
        then obtain en0 where "?L (Held m) = Some en0" "k \<le> en_ts en0" using so unfolding store_ok_def by blast
        then show ?thesis by (rule ts)
      qed
    next
      fix m k en' assume *: "?L' (Temp m k) = Some en'"
      show "en_ts en' = k"
      proof (cases "m = ?n \<and> k = ob_ts po \<and> ob_state po = ACTIVE")
        case True
        then show ?thesis using en * by auto
      next
        case False
        then have "?L (Temp m k) = Some en'"
          using same [of "Temp m k"] * en(4) by (cases "m = ?n \<and> k = ob_ts ob") auto
        then show ?thesis using so unfolding store_ok_def by blast
      qed
    qed
    then show "store_ok E (wd_ver ?w) (eg_last (wd_eng ?w)) ?L'" by (simp add: e)
    have ap: "address_of po' = Temp ?n (ob_ts po)" if "ob_state po = ACTIVE" using po' that j(2) by (simp add: address_of_def)
    have ij: "i \<noteq> j" using i j po' by auto
    show "objs_ok E ?w ?L'"
    proof (rule objs_ok_put [OF oo i j mp, where ob' = ob' and po' = po'])
      show "obj ?w = (obj w)(j \<mapsto> po', i \<mapsto> ob')" by (simp add: e)
      show "po' = po \<and> ob_state po = MISSING \<or> ob_state po = ACTIVE \<and> ob_state po' = OLD \<and>
        address_of po' = Temp ?n (ob_ts po) \<and> ?L (address_of po') = None" using po' ap by auto
      show "handle_ok E ?w ?L' i ob'" using hi en E by (simp add: handle_ok_def ob' e address_of_def)
      show "handle_ok E ?w ?L' j po'"
        using po'
      proof (elim disjE conjE)
        assume "po' = po" "ob_state po = MISSING"
        then show ?thesis using hj ij j(2) by (simp add: handle_ok_def e)
      next
        assume *: "ob_state po = ACTIVE" "po' = po\<lparr>ob_state := OLD\<rparr>"
        then show ?thesis using hj pE en(5) ap by (simp add: handle_ok_def e)
      qed
      show "?L' b = ?L b" if "b \<noteq> Held ?n" "b \<noteq> address_of ob" "ob_state po = ACTIVE \<longrightarrow> b \<noteq> address_of po'" for b
        using same that aob ap by auto
    qed (simp_all add: e ob')
    fix m assume m: "live_obj ?w m = None"
    then have "m \<noteq> ?n" "live_obj w m = None" by (auto simp: live_obj_def e split: option.splits if_splits)
    moreover from this(1) have "runs (\<lambda>st. st (Held m) = ?L (Held m)) t ?L"
      using t by (intro runs_untouched) (auto dest!: bspec)
    ultimately show "live_obj w m = None \<and> runs (\<lambda>st. st (Held m) = ?L (Held m)) t ?L" by blast
  qed
qed


lemma inv_put:
  assumes inv: "bs_inv E w" and i: "obj w i = Some ob" and l: "live_obj w (ob_name ob) = Some j" and E: "settled \<notin> E"
    and r: "put_obj i j (Some settled) (wd_eng w) = (e, Inr ())"
  shows "bs_inv E (w\<lparr>wd_eng := e, wd_map := (wd_map w)(ob_name ob \<mapsto> i),
     wd_ver := (wd_ver w)((ob_name ob, settled) \<mapsto> wd_bytes w i)\<rparr>)"
proof -
  let ?L = "logical w" and ?n = "ob_name ob" and ?V = "(wd_ver w)((ob_name ob, settled) \<mapsto> wd_bytes w i)"
  have so: "store_ok E (wd_ver w) (eg_last (wd_eng w)) ?L" and v: "ver_ok E (wd_ver w) ?L"
    using inv by (simp_all add: bs_inv_def inv_ver [OF inv])
  have mp: "wd_map w ?n = Some j" using l by (auto simp: live_obj_def split: option.splits if_splits)
  obtain po where j: "obj w j = Some po" using l by (auto simp: live_obj_def split: option.splits if_splits)
  have hj: "handle_ok E w ?L j po" and hi: "handle_ok E w ?L i ob" by (rule inv_handle [OF inv j], rule inv_handle [OF inv i])
  have ver: "ver_ok E ?V ?L" if hl: "\<And>en. ?L (Held ?n) = Some en \<Longrightarrow> en_ts en < settled"
  proof -
    have "wd_ver w (?n, settled) = None" by (rule fresh_version [OF so hl])
    then have "wd_ver w \<subseteq>\<^sub>m ?V" by (auto simp: map_le_def)
    with v show ?thesis by (rule ver_ok_mono)
  qed
  show ?thesis
    using r i j
  proof (cases rule: put_obj_prepares)
    case over
    have g: "ob_ts ob \<in> E" using hi over(1) by (simp add: handle_ok_def)
    obtain en where en: "?L (Temp ?n (ob_ts ob)) = Some en" "en_ts en = ob_ts ob" "en_data en = wd_bytes w i"
      using hi over(1) by (auto simp: handle_ok_def address_of_def)
    obtain ep where ep: "?L (Held ?n) = Some ep" "en_ts ep = ob_ts po" "en_deleted ep = ob_deleted po" and pE: "ob_ts po \<notin> E"
      using hj over(2,3) by (auto simp: handle_ok_def address_of_def)
    have none: "?L (Temp ?n (ob_ts po)) = None"
    proof (rule ccontr)
      assume "?L (Temp ?n (ob_ts po)) \<noteq> None"
      then obtain x where "?L (Held ?n) = Some x" "ob_ts po < en_ts x" using so pE unfolding store_ok_def by blast
      then show False using ep by simp
    qed
    have gp: "ob_ts ob \<noteq> ob_ts po" using g pE by auto
    have lt: "ob_ts po < settled" using over(4) by simp
    have "wd_ver w (?n, ob_ts po) = Some (en_data ep)" using v ep(1,2) pE unfolding ver_ok_def by metis
    then have vp: "?V (?n, ob_ts po) = Some (en_data ep)" using lt by simp
    have hl: "\<And>x. ?L (Held ?n) = Some x \<Longrightarrow> en_ts x < settled" using ep lt by simp
    note vl = ver [OF hl]
    show ?thesis
    proof (rule inv_put_core [OF inv i over(1) j over(3) mp E refl _ hl _ _ _ over(5) [simplified]])
      show "runs (ver_ok E ?V) [MoveRename (Held ?n) (Temp ?n (ob_ts po)),
          SetAttrs (Temp ?n (ob_ts po)) (ob_ts po) (ob_deleted po) True,
          MoveRename (Temp ?n (ob_ts ob)) (Held ?n), SetAttrs (Held ?n) settled (ob_deleted ob) False] ?L"
        using ep en none gp g pE vp
        by (simp add: change_entry_def vl) (intro conjI ver_ok_temp ver_ok_held vl; auto)
    qed (use over ep en none gp E lt in \<open>auto simp: change_entry_def\<close>)
  next
    case fresh
    have g: "ob_ts ob \<in> E" using hi fresh(1) by (simp add: handle_ok_def)
    obtain en where en: "?L (Temp ?n (ob_ts ob)) = Some en" "en_ts en = ob_ts ob" "en_data en = wd_bytes w i"
      using hi fresh(1) by (auto simp: handle_ok_def address_of_def)
    have none: "?L (Held ?n) = None" using hj fresh(2,3) mp by (simp add: handle_ok_def)
    have hl: "\<And>x. ?L (Held ?n) = Some x \<Longrightarrow> en_ts x < settled" using none by simp
    note vl = ver [OF hl]
    have e: "e = prepare [MoveRename (Temp ?n (ob_ts ob)) (Held ?n), SetAttrs (Held ?n) settled (ob_deleted ob) False]
        (set_obj i (ob\<lparr>ob_state := ACTIVE, ob_ts := settled\<rparr>) (set_obj j po (wd_eng w)))"
      using fresh(5) j by (simp add: set_obj_def fun_upd_idem)
    show ?thesis
    proof (rule inv_put_core [OF inv i fresh(1) j fresh(3) mp E refl _ hl _ _ _ e])
      show "runs (ver_ok E ?V) [MoveRename (Temp ?n (ob_ts ob)) (Held ?n), SetAttrs (Held ?n) settled (ob_deleted ob) False] ?L"
        using en none g
        by (simp add: change_entry_def vl) (intro conjI ver_ok_temp ver_ok_held vl; auto)
    qed (use fresh en none E in \<open>auto simp: change_entry_def\<close>)
  qed
qed

lemma bs_step_inv: "bs_step ap E w w' \<Longrightarrow> bluestore_ok ap \<Longrightarrow> bs_inv E w \<Longrightarrow> bs_inv E w'"
proof (erule bs_step_cases, goal_cases)
  case (4 i blob e)
  then show ?case using inv_vers [where w = "w\<lparr>wd_eng := e\<rparr>"] by (simp add: inv_metadata)
qed (simp_all add: inv_search inv_create inv_write inv_tombstone inv_put inv_hand inv_whole inv_release)

end
