(* ===== verification/BsReads.thy ===== *)
theory BsReads
  imports BsSystem "HOL-Library.Sublist"
begin

text \<open>
  What the invariant gives: BlueStore is never asked for what would kill the process, a crash leaves whole
  versions, a read of bytes returns those of one version, and a read of metadata the whole of it, however the
  requests interleave.
\<close>

section \<open>Reachable worlds\<close>

text \<open>A store that was cleaned: finite, no temporary entries, and the names' timestamps are settled ones.\<close>

definition swept :: "nat set \<Rightarrow> bstore \<Rightarrow> bool" where
  "swept E st \<longleftrightarrow> (\<forall>n g. st (Temp n g) = None) \<and> settled_ok E st \<and> finite (dom st)"

definition fresh_world :: "bstore \<Rightarrow> world" where
  "fresh_world st = \<lparr>wd_eng = new_engine st, wd_map = (\<lambda>n. None), wd_vers = (\<lambda>i. 0), wd_base = st,
     wd_ver = (\<lambda>(n, t). case st (Held n) of None \<Rightarrow> None | Some en \<Rightarrow> if en_ts en = t then Some (en_data en) else None),
     wd_bytes = (\<lambda>i. []), wd_handed = 0\<rparr>"

definition reachable :: "(txop \<Rightarrow> bstore \<Rightarrow> bstore option) \<Rightarrow> nat set \<Rightarrow> bstore \<Rightarrow> world \<Rightarrow> bool" where
  "reachable ap E st w \<longleftrightarrow> (bs_step ap E)\<^sup>*\<^sup>* (fresh_world st) w"

lemma inv_fresh: "swept E st \<Longrightarrow> bs_inv E (fresh_world st)"
  by (auto simp: swept_def settled_ok_def bs_inv_def fresh_world_def new_engine_def logical_def ver_ok_def store_ok_def
      objs_ok_def keeps_def live_obj_def split: option.splits if_splits)

lemma steps_inv: "(bs_step ap E)\<^sup>*\<^sup>* w w' \<Longrightarrow> bluestore_ok ap \<Longrightarrow> bs_inv E w \<Longrightarrow> bs_inv E w'"
  by (induction rule: rtranclp_induct) (auto intro: bs_step_inv)

lemma reachable_inv: "reachable ap E st w \<Longrightarrow> bluestore_ok ap \<Longrightarrow> swept E st \<Longrightarrow> bs_inv E w"
  unfolding reachable_def by (erule steps_inv) (auto intro: inv_fresh)

text \<open>The estimates of a run, and a run none of whose requests settles a time that the clock gives as an estimate.\<close>

definition estimates_of :: "mark list \<Rightarrow> nat set" where
  "estimates_of ms = {t. Estimate t \<in> set ms}"

definition apart :: "mark list \<Rightarrow> bool" where
  "apart ms \<longleftrightarrow> (\<forall>t \<in> estimates_of ms. Settle t \<notin> set ms)"

lemma apart_within: "apart ms \<Longrightarrow> \<forall>m \<in> set ms. within (estimates_of ms) m"
proof
  fix m assume "apart ms" "m \<in> set ms"
  then show "within (estimates_of ms) m" by (cases m) (auto simp: apart_def estimates_of_def)
qed

lemma run_reachable: "dev_run ap ms (fresh_world st) w \<Longrightarrow> apart ms \<Longrightarrow> reachable ap (estimates_of ms) st w"
  unfolding reachable_def by (erule dev_run_steps) (rule apart_within)

text \<open>C5: However the Device's steps interleave, the engine never asks anything of a BlueStore that has room left that
  would kill the process: handing over the whole queue works after every run, whatever part of it has been handed over
  already, as long as none of the timestamps that the run settles, or that the names have at its start, is one of the
  run's estimates.  That these may meet is a defect; \<open>estimate_collision_kills\<close> below has the run.\<close>

theorem submit_never_kills:
  assumes ok: "bluestore_ok ap" and "swept (estimates_of ms) st" and "dev_run ap ms (fresh_world st) w" and "apart ms"
  shows "\<exists>e. submit ap (wd_eng w) = Some e \<and> eg_queue e = [] \<and> eg_objs e = eg_objs (wd_eng w)"
proof -
  have "bs_inv (estimates_of ms) w" by (rule reachable_inv [OF run_reachable [OF assms(3,4)] ok assms(2)])
  then have "apply_txs ap (eg_queue (wd_eng w)) (store w) = Some (logical w)"
    unfolding logical_def by (auto simp: bs_inv_def intro: runs_apply_txs [OF ok])
  then show ?thesis by (simp add: submit_def)
qed

text \<open>An entry that has the time of its address is found at it.\<close>

lemma address_loaded_own:
  assumes "st (Temp n g) = Some en" and "en_ts en = g"
  shows "address_loaded st (Temp n g) = Temp n g"
  using assms by (simp add: address_loaded_def load_entry_def address_of_def)

lemma steps_keep_base:
  "(bs_step ap E)\<^sup>*\<^sup>* w w' \<Longrightarrow> bluestore_ok ap \<Longrightarrow> bs_inv E w \<Longrightarrow> keeps (wd_base w) (wd_base w')"
proof (induction rule: rtranclp_induct)
  case base
  then show ?case by (simp add: keeps_def)
next
  case (step w1 w2)
  have inv: "bs_inv E w1" by (rule steps_inv [OF step(1,4,5)])
  have "keeps (wd_base w1) (wd_base w2)"
    using step(2) inv by (cases rule: bs_step_cases) (auto simp: bs_inv_def keeps_def)
  with step.IH [OF step(4,5)] show ?case by (rule keeps_trans)
qed

text \<open>C6: Whatever transactions a crash cuts off, every name in the store is held by one whole version, with the bytes
  written for it, and a name once held stays held, by a version that is not older; and \<^verbatim>\<open>clean\<close> finds what was left unfinished where it is.\<close>

theorem crash_leaves_whole_versions:
  assumes "bluestore_ok ap" and "swept E st" and "reachable ap E st w" and "(bs_step ap E)\<^sup>*\<^sup>* w w'" and "wd_base w (Held n) = Some en"
  shows "(\<exists>en'. wd_base w' (Held n) = Some en' \<and> en_ts en \<le> en_ts en' \<and> wd_ver w' (n, en_ts en') = Some (en_data en')) \<and>
    {a \<in> dom (wd_base w'). is_temp a \<and> address_loaded (wd_base w') a \<noteq> a} = {}"
proof -
  have inv: "bs_inv E w" by (rule reachable_inv [OF assms(3,1,2)])
  have inv': "bs_inv E w'" by (rule steps_inv [OF assms(4,1) inv])
  obtain en' where e: "wd_base w' (Held n) = Some en'" "en_ts en \<le> en_ts en'"
    using steps_keep_base [OF assms(4,1) inv] assms(5) unfolding keeps_def by blast
  have "en_ts en' \<notin> E" using inv' e(1) unfolding bs_inv_def settled_ok_def by blast
  moreover have "ver_ok E (wd_ver w') (wd_base w')" using inv' by (simp add: bs_inv_def)
  ultimately have v: "wd_ver w' (n, en_ts en') = Some (en_data en')" using e(1) unfolding ver_ok_def by blast
  have "\<forall>m g x. wd_base w' (Temp m g) = Some x \<longrightarrow> en_ts x = g" using inv' unfolding bs_inv_def settled_ok_def by blast
  then have "address_loaded (wd_base w') a = a" if "a \<in> dom (wd_base w')" "is_temp a" for a
    using that address_loaded_own by (cases a) (auto simp: is_temp_def)
  then show ?thesis using e v by blast
qed


section \<open>Reads\<close>

text \<open>
  Version \<open>k\<close> of a name in the life of its entry: \<open>at_version\<close> while the entry is that version, \<open>past\<close> once it never
  will be again.  \<open>landed\<close>: the store shows version \<open>k\<close>, until it is past for good; \<open>once\<close>: so it is from every moment on
  at which the store shows version \<open>k\<close>.
\<close>

definition at_version :: "string \<Rightarrow> nat \<Rightarrow> bstore \<Rightarrow> bool" where
  "at_version n k st \<longleftrightarrow> (\<exists>en. st (Held n) = Some en \<and> en_ts en = k)"

definition past :: "nat set \<Rightarrow> string \<Rightarrow> nat \<Rightarrow> bstore \<Rightarrow> bool" where
  "past E n k st \<longleftrightarrow> (\<forall>en. st (Held n) = Some en \<longrightarrow> en_ts en \<in> E \<or> k < en_ts en)"

fun landed :: "nat set \<Rightarrow> string \<Rightarrow> nat \<Rightarrow> txop list \<Rightarrow> bstore \<Rightarrow> bool" where
  "landed E n k [] st = (at_version n k st \<or> past E n k st)"
| "landed E n k (p # ps) st = (at_version n k st \<and> landed E n k ps (effect p st) \<or> runs (past E n k) (p # ps) st)"

fun once :: "nat set \<Rightarrow> string \<Rightarrow> nat \<Rightarrow> txop list \<Rightarrow> bstore \<Rightarrow> bool" where
  "once E n k [] st = True"
| "once E n k (p # ps) st = ((at_version n k st \<longrightarrow> landed E n k (p # ps) st) \<and> once E n k ps (effect p st))"

lemma past_landed: "runs (past E n k) ops st \<Longrightarrow> landed E n k ops st"
  by (cases ops) auto

lemma landed_append:
  "landed E n k xs st \<Longrightarrow> (at_version n k (fold effect xs st) \<Longrightarrow> landed E n k ys (fold effect xs st)) \<Longrightarrow>
   (past E n k (fold effect xs st) \<Longrightarrow> runs (past E n k) ys (fold effect xs st)) \<Longrightarrow> landed E n k (xs @ ys) st"
proof (induction xs arbitrary: st)
  case Nil
  then show ?case by (auto intro: past_landed)
next
  case (Cons p ps)
  have late: "runs (past E n k) ((p # ps) @ ys) st" if "runs (past E n k) (p # ps) st"
    using that Cons.prems(3) runs_last [OF that] by (simp only: runs_append)
  have "at_version n k st \<and> landed E n k ps (effect p st) \<or> runs (past E n k) (p # ps) st" using Cons.prems(1) by simp
  then show ?case
  proof (elim disjE conjE)
    assume a: "at_version n k st" and l: "landed E n k ps (effect p st)"
    have "landed E n k (ps @ ys) (effect p st)" by (rule Cons.IH [OF l]) (use Cons.prems(2,3) in simp_all)
    with a show ?thesis by simp
  next
    assume "runs (past E n k) (p # ps) st"
    from late [OF this] show ?thesis by (rule past_landed)
  qed
qed

lemma once_landed: "once E n k ops st \<Longrightarrow> at_version n k st \<Longrightarrow> landed E n k ops st"
  by (cases ops) auto

lemma once_append:
  "once E n k xs st \<Longrightarrow> once E n k ys (fold effect xs st) \<Longrightarrow>
   (past E n k (fold effect xs st) \<Longrightarrow> runs (past E n k) ys (fold effect xs st)) \<Longrightarrow> once E n k (xs @ ys) st"
proof (induction xs arbitrary: st)
  case (Cons p ps)
  have "landed E n k ((p # ps) @ ys) st" if "at_version n k st"
    by (rule landed_append [OF once_landed [OF Cons.prems(1) that] once_landed [OF Cons.prems(2)] Cons.prems(3)])
  moreover have "once E n k (ps @ ys) (effect p st)"
    by (rule Cons.IH) (use Cons.prems in simp_all)
  ultimately show ?case by simp
qed simp

text \<open>What a transaction does to the entries of the names, when it follows the store \<open>L\<close>.\<close>

definition orderly :: "nat set \<Rightarrow> bstore \<Rightarrow> txop list \<Rightarrow> bool" where
  "orderly E L t \<longleftrightarrow> (\<forall>n k. k \<notin> E \<longrightarrow> once E n k t L \<and> (L (Held n) \<noteq> None \<longrightarrow> past E n k L \<longrightarrow> runs (past E n k) t L))"

lemma steady:
  assumes "runs Q t L" and "runs (\<lambda>s. map_option en_ts (s (Held n)) = map_option en_ts (L (Held n))) t L"
  shows "once E n k t L \<and> (at_version n k L \<longrightarrow> landed E n k t L) \<and> (past E n k L \<longrightarrow> runs (past E n k) t L)"
proof -
  have a: "at_version n k s \<longleftrightarrow> at_version n k L" and p: "past E n k s \<longleftrightarrow> past E n k L"
    if "map_option en_ts (s (Held n)) = map_option en_ts (L (Held n))" for s
    using that unfolding at_version_def past_def by (cases "s (Held n)"; cases "L (Held n)"; simp)+
  let ?S = "\<lambda>s. map_option en_ts (s (Held n)) = map_option en_ts (L (Held n))"
  have r: "past E n k L \<longrightarrow> runs (past E n k) t L"
    using p by (blast intro: runs_mono [OF assms(2)])
  have l: "landed E n k t s" if "at_version n k L" "runs ?S t s" for t s
    using that(2)
  proof (induction t arbitrary: s)
    case Nil
    then show ?case using a [of s] that(1) by simp
  next
    case (Cons p ps)
    then show ?case using a [of s] that(1) by simp
  qed
  have o: "once E n k t s" if "runs ?S t s" for t s
    using that
  proof (induction t arbitrary: s)
    case (Cons p ps)
    have "at_version n k s \<longrightarrow> landed E n k (p # ps) s"
    proof
      assume "at_version n k s"
      then have "at_version n k L" using a [of s] Cons.prems by simp
      then show "landed E n k (p # ps) s" using Cons.prems by (rule l)
    qed
    then show ?case using Cons by simp
  qed simp
  show ?thesis using r l o assms(2) by blast
qed

lemma orderly_temps:
  assumes "runs Q t L" and "\<forall>p \<in> set t. \<forall>n. Held n \<notin> touches p"
  shows "orderly E L t"
proof -
  have "runs (\<lambda>s. map_option en_ts (s (Held n)) = map_option en_ts (L (Held n))) t L" for n
    by (rule runs_mono [OF runs_untouched [OF assms(1), of "Held n"]]) (use assms(2) in auto)
  then show ?thesis unfolding orderly_def using steady [OF assms(1)] by blast
qed


lemma orderly_metadata:
  assumes inv: "bs_inv E w" and r: "write_metadata_obj i blob (wd_eng w) = (e, Inr ())"
  shows "\<exists>t. eg_queue e = eg_queue (wd_eng w) @ [t] \<and> eg_store e = store w \<and> (runs Q t (logical w) \<longrightarrow> orderly E (logical w) t)"
  using r
proof (cases rule: write_metadata_obj_prepares)
  case (first ob)
  then show ?thesis by (auto intro!: orderly_temps simp del: runs.simps)
next
  case (later ob)
  show ?thesis
  proof (cases "ob_state ob = ACTIVE")
    case False
    then have "address_of ob = Temp (ob_name ob) (ob_ts ob)" using later(2) by (auto simp: address_of_def)
    then show ?thesis using later by (auto intro!: orderly_temps simp del: runs.simps)
  next
    case True
    let ?t = "[SetHeader (Held (ob_name ob)) blob, SetAttrs (Held (ob_name ob)) (ob_ts ob) (ob_deleted ob) False]"
    have a: "address_of ob = Held (ob_name ob)" using True by (simp add: address_of_def)
    obtain en where en: "logical w (Held (ob_name ob)) = Some en" "en_ts en = ob_ts ob"
      using inv_handle [OF inv later(1)] True by (auto simp: handle_ok_def a)
    have "runs (\<lambda>s. map_option en_ts (s (Held n)) = map_option en_ts (logical w (Held n))) ?t (logical w)" for n
      using en by (simp add: change_entry_def)
    then have "orderly E (logical w) ?t" if "runs Q ?t (logical w)" unfolding orderly_def using steady [OF that] by blast
    then show ?thesis using later by (auto simp: a simp del: runs.simps)
  qed
qed

lemma orderly_put:
  assumes inv: "bs_inv E w" and i: "obj w i = Some ob" and l: "live_obj w (ob_name ob) = Some j"
    and r: "put_obj i j (Some settled) (wd_eng w) = (e, Inr ())"
  shows "\<exists>t. eg_queue e = eg_queue (wd_eng w) @ [t] \<and> eg_store e = store w \<and> (runs Q t (logical w) \<longrightarrow> orderly E (logical w) t)"
proof -
  let ?L = "logical w" and ?n = "ob_name ob"
  have mp: "wd_map w ?n = Some j" using l by (auto simp: live_obj_def split: option.splits if_splits)
  obtain po where j: "obj w j = Some po" using l by (auto simp: live_obj_def split: option.splits if_splits)
  have hj: "handle_ok E w ?L j po" and hi: "handle_ok E w ?L i ob" by (rule inv_handle [OF inv j], rule inv_handle [OF inv i])
  have other: "once E n k t ?L \<and> (past E n k ?L \<longrightarrow> runs (past E n k) t ?L)"
    if "n \<noteq> ?n" "runs Q t ?L" "\<forall>p \<in> set t. \<forall>a \<in> touches p. \<forall>m. a = Held m \<longrightarrow> m = ?n" for n k t
  proof -
    have "runs (\<lambda>s. map_option en_ts (s (Held n)) = map_option en_ts (?L (Held n))) t ?L"
      by (rule runs_mono [OF runs_untouched [OF that(2), of "Held n"]]) (use that in auto)
    then show ?thesis using steady [OF that(2)] by blast
  qed
  show ?thesis
    using r i j
  proof (cases rule: put_obj_prepares)
    case over
    let ?t = "[MoveRename (Held ?n) (Temp ?n (ob_ts po)), SetAttrs (Temp ?n (ob_ts po)) (ob_ts po) (ob_deleted po) True,
       MoveRename (Temp ?n (ob_ts ob)) (Held ?n), SetAttrs (Held ?n) settled (ob_deleted ob) False]"
    have g: "ob_ts ob \<in> E" using hi over(1) by (simp add: handle_ok_def)
    obtain en where en: "?L (Temp ?n (ob_ts ob)) = Some en" "en_ts en = ob_ts ob" using hi over(1) by (auto simp: handle_ok_def address_of_def)
    obtain ep where ep: "?L (Held ?n) = Some ep" "en_ts ep = ob_ts po" "ob_ts po \<notin> E"
      using hj over(2,3) by (auto simp: handle_ok_def address_of_def)
    have lt: "ob_ts po < settled" using over(4) by simp
    have "orderly E ?L ?t" if q: "runs Q ?t ?L"
      unfolding orderly_def
    proof (intro allI impI)
      fix n k assume k: "k \<notin> E"
      show "once E n k ?t ?L \<and> (?L (Held n) \<noteq> None \<longrightarrow> past E n k ?L \<longrightarrow> runs (past E n k) ?t ?L)"
      proof (cases "n = ?n")
        case True
        have t: "runs (\<lambda>s. True) ?t ?L" using q by (rule runs_mono) simp
        show ?thesis using True en ep g k lt t
          by (auto simp: at_version_def past_def change_entry_def)
      qed (use other [OF _ q] in auto)
    qed
    then show ?thesis using over(5) by (auto simp del: runs.simps)
  next
    case fresh
    let ?t = "[MoveRename (Temp ?n (ob_ts ob)) (Held ?n), SetAttrs (Held ?n) settled (ob_deleted ob) False]"
    have g: "ob_ts ob \<in> E" using hi fresh(1) by (simp add: handle_ok_def)
    obtain en where en: "?L (Temp ?n (ob_ts ob)) = Some en" "en_ts en = ob_ts ob" using hi fresh(1) by (auto simp: handle_ok_def address_of_def)
    have none: "?L (Held ?n) = None" using hj fresh(2,3) mp by (simp add: handle_ok_def)
    have "orderly E ?L ?t" if q: "runs Q ?t ?L"
      unfolding orderly_def
    proof (intro allI impI)
      fix n k assume k: "k \<notin> E"
      show "once E n k ?t ?L \<and> (?L (Held n) \<noteq> None \<longrightarrow> past E n k ?L \<longrightarrow> runs (past E n k) ?t ?L)"
      proof (cases "n = ?n")
        case True
        then show ?thesis using none en g k by (auto simp: at_version_def)
      qed (use other [OF _ q] in auto)
    qed
    then show ?thesis using fresh(5) by (auto simp del: runs.simps)
  qed
qed


text \<open>How a step moves the queue on.\<close>

definition appends :: "nat set \<Rightarrow> world \<Rightarrow> world \<Rightarrow> txop list \<Rightarrow> bool" where
  "appends E w w' t \<longleftrightarrow> queued w' = queued w @ t \<and> store w' = store w \<and> wd_handed w' = wd_handed w \<and> orderly E (logical w) t"

definition hands :: "world \<Rightarrow> world \<Rightarrow> txop \<Rightarrow> bool" where
  "hands w w' p \<longleftrightarrow> queued w = p # queued w' \<and> store w' = effect p (store w) \<and> wd_handed w' = wd_handed w + 1 \<and> wd_ver w' = wd_ver w"

lemma step_queue:
  assumes st: "bs_step ap E w w'" and ok: "bluestore_ok ap" and inv: "bs_inv E w"
  shows "(\<exists>t. appends E w w' t) \<or> (\<exists>p. hands w w' p)"
proof -
  have r: "runs (ver_ok E (wd_ver w')) t (logical w)" if "eg_queue (wd_eng w') = eg_queue (wd_eng w) @ [t]" "store w' = store w" for t
  proof -
    have "runs (ver_ok E (wd_ver w')) (queued w') (store w')" using bs_step_inv [OF st ok inv] by (simp add: bs_inv_def)
    then show ?thesis using that by (simp add: runs_append logical_def)
  qed
  have app: ?thesis if "wd_handed w' = wd_handed w" "\<exists>t. eg_queue (wd_eng w') = eg_queue (wd_eng w) @ [t] \<and> store w' = store w \<and>
      (runs (ver_ok E (wd_ver w')) t (logical w) \<longrightarrow> orderly E (logical w) t)"
    using that r by (fastforce simp: appends_def)
  have none: ?thesis if "eg_queue (wd_eng w') = eg_queue (wd_eng w)" "store w' = store w" "wd_handed w' = wd_handed w"
    using that by (intro disjI1 exI [of _ "[]"]) (simp add: appends_def orderly_def)
  show ?thesis
    using st
  proof (cases rule: bs_step_cases)
    case (step_search n e i e')
    then show ?thesis by (intro none) (auto simp: find_obj_def new_obj_def open_obj_def require_def Let_def)
  next
    case (step_create now n e i)
    then show ?thesis by (intro none) (auto simp: create_obj_def new_obj_def estimate_def Let_def)
  next
    case (step_write i bytes e)
    from step_write(2) show ?thesis
    proof (cases rule: write_obj_prepares)
      case (first ob)
      show ?thesis by (rule app) (auto intro!: orderly_temps simp: step_write(1) first(3) simp del: runs.simps)
    next
      case (later ob)
      show ?thesis by (rule app) (auto intro!: orderly_temps simp: step_write(1) later(3) simp del: runs.simps)
    qed
  next
    case (step_metadata i blob e)
    then show ?thesis by (intro app) (use orderly_metadata [OF inv] in simp_all)
  next
    case (step_tombstone i blob e)
    from step_tombstone(2) show ?thesis
      by (cases rule: tombstone_obj_prepares) (rule app, auto intro!: orderly_temps simp: step_tombstone(1) simp del: runs.simps)
  next
    case (step_put i ob prev settled e)
    then show ?thesis by (intro app) (use orderly_put [OF inv] in simp_all)
  next
    case (step_hand p ps ts st)
    moreover have "fits p (store w)" using inv step_hand by (simp add: bs_inv_def)
    ultimately show ?thesis using ok by (simp add: bluestore_ok_def hands_def)
  next
    case (step_whole ts)
    then show ?thesis by (intro disjI1 exI [of _ "[]"]) (simp add: appends_def orderly_def)
  next
    case (step_release i ob)
    show ?thesis
    proof (cases "ob_state ob \<in> {IN_WRITE, OLD}")
      case True
      then have "address_of ob = Temp (ob_name ob) (ob_ts ob)" by (auto simp: address_of_def)
      then show ?thesis using True step_release
        by (intro app) (auto simp: release_obj_def Let_def intro!: orderly_temps simp del: runs.simps)
    next
      case False
      then show ?thesis using step_release by (intro none) (auto simp: release_obj_def Let_def)
    qed
  qed
qed


lemma put_newer:
  assumes inv: "bs_inv E w" and i: "obj w i = Some ob" and l: "live_obj w (ob_name ob) = Some j"
    and r: "put_obj i j (Some settled) (wd_eng w) = (e, Inr ())"
  shows "wd_ver w (ob_name ob, settled) = None" and "ob_state ob = IN_WRITE"
proof -
  have mp: "wd_map w (ob_name ob) = Some j" using l by (auto simp: live_obj_def split: option.splits if_splits)
  obtain po where j: "obj w j = Some po" using l by (auto simp: live_obj_def split: option.splits if_splits)
  have hj: "handle_ok E w (logical w) j po" by (rule inv_handle [OF inv j])
  have so: "store_ok E (wd_ver w) (eg_last (wd_eng w)) (logical w)" using inv by (simp add: bs_inv_def)
  have *: "en_ts en < settled" if "logical w (Held (ob_name ob)) = Some en" for en
    using r i j by (cases rule: put_obj_prepares) (use hj mp that in \<open>auto simp: handle_ok_def address_of_def\<close>)
  show "wd_ver w (ob_name ob, settled) = None" by (rule fresh_version [OF so *])
  show "ob_state ob = IN_WRITE" using r i j by (cases rule: put_obj_prepares)
qed

lemma step_ver:
  assumes "bs_step ap E w w'" and inv: "bs_inv E w"
  shows "wd_ver w \<subseteq>\<^sub>m wd_ver w'"
  using assms(1)
proof (cases rule: bs_step_cases)
  case (step_put i ob prev settled e)
  then show ?thesis using put_newer(1) [OF inv step_put(2,3,5)] by (auto simp: map_le_def)
qed simp_all

text \<open>An Object that holds or held a name stays the same version for as long as it is alive.\<close>

definition same_handle :: "world \<Rightarrow> nat \<Rightarrow> string \<Rightarrow> nat \<Rightarrow> bool" where
  "same_handle w i n k \<longleftrightarrow> i < eg_next (wd_eng w) \<and>
     (\<forall>ob. obj w i = Some ob \<longrightarrow> ob_name ob = n \<and> ob_ts ob = k \<and> ob_state ob \<in> {ACTIVE, OLD})"

lemma same_handle_set:
  assumes h: "same_handle w i n k" and j: "obj w j = Some ob" and w': "obj w' = (obj w)(j \<mapsto> ob')" "eg_next (wd_eng w') = eg_next (wd_eng w)"
    and ob': "ob_name ob' = ob_name ob" "ob_state ob \<in> {ACTIVE, OLD} \<Longrightarrow> ob_ts ob' = ob_ts ob \<and> ob_state ob' \<in> {ACTIVE, OLD}"
  shows "same_handle w' i n k"
proof (cases "j = i")
  case True
  then have "ob_name ob = n" "ob_ts ob = k" "ob_state ob \<in> {ACTIVE, OLD}" using h j by (simp_all add: same_handle_def)
  then show ?thesis using ob' w' h True by (simp add: same_handle_def)
qed (use h w' in \<open>simp add: same_handle_def\<close>)

lemma step_handle:
  assumes st: "bs_step ap E w w'" and inv: "bs_inv E w" and h: "same_handle w i n k"
  shows "same_handle w' i n k"
  using st
proof (cases rule: bs_step_cases)
  case (step_search m e j e')
  then show ?thesis using h
    by (auto simp: same_handle_def find_obj_def new_obj_def open_obj_def require_def set_obj_def Let_def split: if_splits option.splits)
next
  case (step_create now m e j)
  then show ?thesis using h
    by (auto simp: same_handle_def create_obj_def new_obj_def estimate_def Let_def split: if_splits)
next
  case (step_write j bytes e)
  from step_write(2) show ?thesis
  proof (cases rule: write_obj_prepares)
    case (first ob)
    show ?thesis
      by (rule same_handle_set [OF h first(1), where ob' = "ob\<lparr>ob_state := IN_WRITE, ob_written := ob_written ob + length bytes\<rparr>"])
        (simp_all add: step_write(1) first(2,3))
  next
    case (later ob)
    show ?thesis
      by (rule same_handle_set [OF h later(1), where ob' = "ob\<lparr>ob_written := ob_written ob + length bytes\<rparr>"])
        (simp_all add: step_write(1) later(2,3))
  qed
next
  case (step_metadata j blob e)
  from step_metadata(2) show ?thesis
  proof (cases rule: write_metadata_obj_prepares)
    case (first ob)
    show ?thesis by (rule same_handle_set [OF h first(1), where ob' = "ob\<lparr>ob_state := IN_WRITE\<rparr>"])
      (simp_all add: step_metadata(1) first(2,3))
  next
    case (later ob)
    show ?thesis by (rule same_handle_set [OF h later(1), where ob' = ob]) (simp_all add: step_metadata(1) later(3))
  qed
next
  case (step_tombstone j blob e)
  from step_tombstone(2) show ?thesis
  proof (cases rule: tombstone_obj_prepares)
    case (1 ob)
    show ?thesis by (rule same_handle_set [OF h 1(1), where ob' = "ob\<lparr>ob_deleted := True, ob_state := IN_WRITE\<rparr>"])
      (simp_all add: step_tombstone(1) 1(2,3))
  qed
next
  case (step_put j ob prev settled e)
  obtain po where po: "obj w prev = Some po" using step_put(3) by (auto simp: live_obj_def split: option.splits if_splits)
  from step_put(5,2) po show ?thesis
  proof (cases rule: put_obj_prepares)
    case over
    let ?w = "w\<lparr>wd_eng := set_obj prev (po\<lparr>ob_state := OLD\<rparr>) (wd_eng w)\<rparr>"
    have h1: "same_handle ?w i n k" by (rule same_handle_set [OF h po, where ob' = "po\<lparr>ob_state := OLD\<rparr>"]) simp_all
    have "prev \<noteq> j" using over(1,2) po step_put(2) by auto
    then have "obj ?w j = Some ob" using step_put(2) by simp
    then show ?thesis
      by (rule same_handle_set [OF h1, where ob' = "ob\<lparr>ob_state := ACTIVE, ob_ts := settled\<rparr>"]) (simp_all add: step_put(1) over)
  next
    case fresh
    show ?thesis
      by (rule same_handle_set [OF h step_put(2), where ob' = "ob\<lparr>ob_state := ACTIVE, ob_ts := settled\<rparr>"]) (simp_all add: step_put(1) fresh)
  qed
next
  case (step_release j ob)
  then show ?thesis using h by (auto simp: same_handle_def release_obj_def prepare_def Let_def split: if_splits)
qed (use h in \<open>auto simp: same_handle_def\<close>)


text \<open>Every version appears under its name once, and never again after it is past.\<close>

definition once_ok :: "nat set \<Rightarrow> world \<Rightarrow> bool" where
  "once_ok E w \<longleftrightarrow> (\<forall>n k. k \<notin> E \<longrightarrow> wd_ver w (n, k) \<noteq> None \<longrightarrow> once E n k (queued w) (store w))"

lemma once_unseen:
  "runs (\<lambda>s. \<not> at_version n k s) xs st \<Longrightarrow> once E n k ys (fold effect xs st) \<Longrightarrow> once E n k (xs @ ys) st"
  by (induction xs arbitrary: st) simp_all

lemma version_held: "bs_inv E w \<Longrightarrow> wd_ver w (n, k) \<noteq> None \<Longrightarrow> logical w (Held n) \<noteq> None"
  unfolding bs_inv_def store_ok_def by blast

lemma at_version_ver: "ver_ok E V st \<Longrightarrow> at_version n k st \<Longrightarrow> k \<notin> E \<Longrightarrow> \<exists>en. st (Held n) = Some en \<and> V (n, k) = Some (en_data en)"
  unfolding ver_ok_def at_version_def by blast

lemma step_once:
  assumes st: "bs_step ap E w w'" and ok: "bluestore_ok ap" and inv: "bs_inv E w" and o: "once_ok E w"
  shows "once_ok E w'"
  unfolding once_ok_def
proof (intro allI impI)
  fix n k assume k: "k \<notin> E" and v: "wd_ver w' (n, k) \<noteq> None"
  have r: "runs (ver_ok E (wd_ver w)) (queued w) (store w)" using inv by (simp add: bs_inv_def)
  from step_queue [OF st ok inv] show "once E n k (queued w') (store w')"
  proof (elim disjE exE conjE)
    fix t assume t: "appends E w w' t"
    then have ord: "once E n k t (logical w)" using k by (simp add: appends_def orderly_def)
    have "once E n k (queued w @ t) (store w)"
    proof (cases "wd_ver w (n, k) = None")
      case True
      have "runs (\<lambda>s. \<not> at_version n k s) (queued w) (store w)"
        using r by (rule runs_mono) (use True k at_version_ver in fastforce)
      then show ?thesis using ord by (simp add: once_unseen logical_def)
    next
      case False
      have "once E n k (queued w) (store w)" using o k False unfolding once_ok_def by blast
      moreover have "past E n k (logical w) \<Longrightarrow> runs (past E n k) t (logical w)"
        using t k version_held [OF inv False] unfolding appends_def orderly_def by blast
      ultimately show ?thesis using ord by (simp add: once_append logical_def)
    qed
    then show ?thesis using t by (simp add: appends_def)
  next
    fix p assume "hands w w' p"
    then have p: "queued w = p # queued w'" "store w' = effect p (store w)" "wd_ver w' = wd_ver w" by (simp_all add: hands_def)
    have "once E n k (queued w) (store w)" using o k v p(3) unfolding once_ok_def by simp
    then show ?thesis using p by simp
  qed
qed

lemma step_past:
  assumes st: "bs_step ap E w w'" and ok: "bluestore_ok ap" and inv: "bs_inv E w"
    and k: "k \<notin> E" "wd_ver w (n, k) \<noteq> None" and p: "runs (past E n k) (queued w) (store w)"
  shows "runs (past E n k) (queued w') (store w')"
  using step_queue [OF st ok inv]
proof (elim disjE exE conjE)
  fix t assume t: "appends E w w' t"
  have "past E n k (logical w)" using runs_last [OF p] by (simp add: logical_def)
  then have "runs (past E n k) t (logical w)"
    using t k version_held [OF inv k(2)] unfolding appends_def orderly_def by blast
  then show ?thesis using p t by (simp add: appends_def runs_append logical_def)
qed (use p in \<open>simp add: hands_def\<close>)

lemma step_landed:
  assumes st: "bs_step ap E w w'" and ok: "bluestore_ok ap" and inv: "bs_inv E w"
    and k: "k \<notin> E" "wd_ver w (n, k) \<noteq> None" and l: "landed E n k (queued w) (store w)"
  shows "landed E n k (queued w') (store w')"
  using step_queue [OF st ok inv]
proof (elim disjE exE conjE)
  fix t assume t: "appends E w w' t"
  have o: "once E n k t (logical w)" "past E n k (logical w) \<Longrightarrow> runs (past E n k) t (logical w)"
    using t k version_held [OF inv k(2)] unfolding appends_def orderly_def by blast+
  have "landed E n k (queued w @ t) (store w)"
    by (rule landed_append [OF l]) (use o in \<open>simp_all add: once_landed logical_def\<close>)
  then show ?thesis using t by (simp add: appends_def)
next
  fix p assume "hands w w' p"
  then show ?thesis using l by (auto simp: hands_def intro: past_landed)
qed

lemma once_fresh: "once_ok E (fresh_world st)"
  by (simp add: once_ok_def fresh_world_def new_engine_def)

lemma steps_once: "(bs_step ap E)\<^sup>*\<^sup>* w w' \<Longrightarrow> bluestore_ok ap \<Longrightarrow> bs_inv E w \<Longrightarrow> once_ok E w \<Longrightarrow> once_ok E w'"
  by (induction rule: rtranclp_induct) (auto intro: step_once steps_inv)

lemma steps_ver: "(bs_step ap E)\<^sup>*\<^sup>* w w' \<Longrightarrow> bluestore_ok ap \<Longrightarrow> bs_inv E w \<Longrightarrow> wd_ver w \<subseteq>\<^sub>m wd_ver w'"
proof (induction rule: rtranclp_induct)
  case (step y z)
  then show ?case using step_ver [OF step(2) steps_inv [OF step(1,4,5)]] by (blast intro: map_le_trans)
qed simp

lemma steps_handle: "(bs_step ap E)\<^sup>*\<^sup>* w w' \<Longrightarrow> bluestore_ok ap \<Longrightarrow> bs_inv E w \<Longrightarrow> same_handle w i n k \<Longrightarrow> same_handle w' i n k"
  by (induction rule: rtranclp_induct) (auto intro: step_handle steps_inv)

lemma map_le_Some: "m \<subseteq>\<^sub>m m' \<Longrightarrow> m x = Some v \<Longrightarrow> m' x = Some v"
  unfolding map_le_def by (metis domI)

lemma steps_landed:
  "(bs_step ap E)\<^sup>*\<^sup>* w w' \<Longrightarrow> bluestore_ok ap \<Longrightarrow> bs_inv E w \<Longrightarrow> k \<notin> E \<Longrightarrow> wd_ver w (n, k) = Some v \<Longrightarrow>
   landed E n k (queued w) (store w) \<Longrightarrow> landed E n k (queued w') (store w')"
proof (induction rule: rtranclp_induct)
  case (step y z)
  have "wd_ver y (n, k) = Some v" by (rule map_le_Some [OF steps_ver [OF step(1,4,5)] step(7)])
  then show ?case by (intro step_landed [OF step(2,4) steps_inv [OF step(1,4,5)] step(6)] step.IH [OF step(4-8)]) simp
qed simp

lemma steps_past:
  "(bs_step ap E)\<^sup>*\<^sup>* w w' \<Longrightarrow> bluestore_ok ap \<Longrightarrow> bs_inv E w \<Longrightarrow> k \<notin> E \<Longrightarrow> wd_ver w (n, k) = Some v \<Longrightarrow>
   runs (past E n k) (queued w) (store w) \<Longrightarrow> runs (past E n k) (queued w') (store w')"
proof (induction rule: rtranclp_induct)
  case (step y z)
  have "wd_ver y (n, k) = Some v" by (rule map_le_Some [OF steps_ver [OF step(1,4,5)] step(7)])
  then show ?case by (intro step_past [OF step(2,4) steps_inv [OF step(1,4,5)] step(6)] step.IH [OF step(4-8)]) simp
qed simp


text \<open>The header of version \<open>k\<close> of a name, wherever its entry is.\<close>

definition hdr_ok :: "string \<Rightarrow> nat \<Rightarrow> string \<Rightarrow> bstore \<Rightarrow> bool" where
  "hdr_ok n k h st \<longleftrightarrow>
     (\<forall>en. st (Held n) = Some en \<longrightarrow> en_ts en = k \<longrightarrow> en_header en = h) \<and> (\<forall>en. st (Temp n k) = Some en \<longrightarrow> en_header en = h)"

lemma hdr_untouched:
  assumes "runs Q t L" and "\<forall>p \<in> set t. Held n \<notin> touches p \<and> Temp n k \<notin> touches p" and "hdr_ok n k h L"
  shows "runs (hdr_ok n k h) t L"
proof -
  have "runs (\<lambda>s. s (Held n) = L (Held n) \<and> s (Temp n k) = L (Temp n k)) t L"
    unfolding runs_conj using runs_untouched [OF assms(1)] assms(2) by blast
  then show ?thesis by (rule runs_mono) (use assms(3) in \<open>simp add: hdr_ok_def\<close>)
qed

lemma step_header:
  assumes st: "bs_step ap E w w'" and ok: "bluestore_ok ap" and inv: "bs_inv E w"
    and i: "obj w i = Some ob" "ob_state ob \<in> {ACTIVE, OLD}" and v: "wd_vers w' i = wd_vers w i"
    and n: "ob_name ob = n" "ob_ts ob = k" "k \<notin> E" "wd_ver w (n, k) \<noteq> None"
    and t: "queued w' = queued w @ t" "store w' = store w" and h: "hdr_ok n k h (logical w)"
  shows "runs (hdr_ok n k h) t (logical w)"
proof -
  have r: "runs (ver_ok E (wd_ver w')) t (logical w)"
  proof -
    have "runs (ver_ok E (wd_ver w')) (queued w') (store w')" using bs_step_inv [OF st ok inv] by (simp add: bs_inv_def)
    then show ?thesis using t by (simp add: runs_append logical_def)
  qed
  have so: "store_ok E (wd_ver w) (eg_last (wd_eng w)) (logical w)" using inv by (simp add: bs_inv_def)
  have writing: ?thesis if "\<forall>p \<in> set t. touches p \<subseteq> {Temp m g}" "g \<in> E" for m g
    by (rule hdr_untouched [OF r _ h]) (use that n(3) in auto)
  have same: ?thesis if "queued w' = queued w" using that t h by simp
  show ?thesis
    using st
  proof (cases rule: bs_step_cases)
    case (step_search n e i e')
    then show ?thesis by (intro same) (auto simp: find_obj_def new_obj_def open_obj_def require_def Let_def)
  next
    case (step_create now n e i)
    then show ?thesis by (intro same) (auto simp: create_obj_def new_obj_def estimate_def Let_def)
  next
    case (step_write j bytes e)
    from step_write(2) show ?thesis
    proof (cases rule: write_obj_prepares)
      case (first ob)
      then have "ob_ts ob \<in> E" using inv_handle [OF inv first(1)] by (simp add: handle_ok_def)
      then show ?thesis by (rule writing [rotated]) (use t step_write first in auto)
    next
      case (later ob)
      then have "ob_ts ob \<in> E" using inv_handle [OF inv later(1)] by (simp add: handle_ok_def)
      then show ?thesis by (rule writing [rotated]) (use t step_write later in auto)
    qed
  next
    case (step_tombstone j blob e)
    from step_tombstone(2) show ?thesis
    proof (cases rule: tombstone_obj_prepares)
      case (1 ob)
      then have "ob_ts ob \<in> E" using inv_handle [OF inv 1(1)] by (simp add: handle_ok_def)
      then show ?thesis by (rule writing [rotated]) (use t step_tombstone 1 in auto)
    qed
  next
    case (step_metadata j blob e)
    from step_metadata(2) show ?thesis
    proof (cases rule: write_metadata_obj_prepares)
      case (first ob)
      then have "ob_ts ob \<in> E" using inv_handle [OF inv first(1)] by (simp add: handle_ok_def)
      then show ?thesis by (rule writing [rotated]) (use t step_metadata first in auto)
    next
      case (later po)
      show ?thesis
      proof (cases "ob_state po = ACTIVE")
        case False
        then have "ob_ts po \<in> E" "address_of po = Temp (ob_name po) (ob_ts po)"
          using later(2) inv_handle [OF inv later(1)] by (auto simp: handle_ok_def address_of_def)
        then show ?thesis using t step_metadata later by (intro writing) auto
      next
        case True
        have hp: "handle_ok E w (logical w) j po" by (rule inv_handle [OF inv later(1)])
        have a: "address_of po = Held (ob_name po)" using True by (simp add: address_of_def)
        obtain en where en: "logical w (Held (ob_name po)) = Some en" "en_ts en = ob_ts po" using hp True by (auto simp: handle_ok_def a)
        have tt: "t = [SetHeader (Held (ob_name po)) blob, SetAttrs (Held (ob_name po)) (ob_ts po) (ob_deleted po) False]"
          using t(1) step_metadata(1) later(3) a by simp
        have ji: "j \<noteq> i" using v step_metadata(1) later(1) True by auto
        have "ob_ts po \<noteq> k" if m: "ob_name po = n"
        proof -
          have hi: "handle_ok E w (logical w) i ob" by (rule inv_handle [OF inv i(1)])
          have "wd_map w n = Some j" using hp True m by (simp add: handle_ok_def)
          then have "ob_state ob = OLD" using hi i(2) n ji by (auto simp: handle_ok_def)
          then have "logical w (Temp n k) \<noteq> None" using hi n by (auto simp: handle_ok_def address_of_def)
          then obtain en' where "logical w (Held n) = Some en'" "k < en_ts en'" using so n(3) unfolding store_ok_def by blast
          then show ?thesis using en m by simp
        qed
        then show ?thesis using h en unfolding tt by (auto simp: hdr_ok_def change_entry_def)
      qed
    qed
  next
    case (step_put j nb prev settled e)
    obtain po where po: "obj w prev = Some po" using step_put(3) by (auto simp: live_obj_def split: option.splits if_splits)
    have hn: "handle_ok E w (logical w) j nb" and hp: "handle_ok E w (logical w) prev po"
      by (rule inv_handle [OF inv step_put(2)], rule inv_handle [OF inv po])
    have g: "ob_ts nb \<in> E" using hn put_newer(2) [OF inv step_put(2,3,5)] by (simp add: handle_ok_def)
    have new: "ob_name nb = n \<Longrightarrow> settled \<noteq> k" using put_newer(1) [OF inv step_put(2,3,5)] n(4) by auto
    from step_put(5,2) po show ?thesis
    proof (cases rule: put_obj_prepares)
      case over
      have tt: "t = [MoveRename (Held (ob_name nb)) (Temp (ob_name nb) (ob_ts po)),
          SetAttrs (Temp (ob_name nb) (ob_ts po)) (ob_ts po) (ob_deleted po) True,
          MoveRename (Temp (ob_name nb) (ob_ts nb)) (Held (ob_name nb)), SetAttrs (Held (ob_name nb)) settled (ob_deleted nb) False]"
        using t(1) step_put(1) over(5) by simp
      obtain ep where "logical w (Held (ob_name nb)) = Some ep" "en_ts ep = ob_ts po"
        using hp over(2,3) by (auto simp: handle_ok_def address_of_def)
      moreover obtain en where "logical w (Temp (ob_name nb) (ob_ts nb)) = Some en" "en_ts en = ob_ts nb"
        using hn over(1) by (auto simp: handle_ok_def address_of_def)
      moreover have "runs (\<lambda>s. True) t (logical w)" using r by (rule runs_mono) simp
      ultimately show ?thesis using h g n(3) new unfolding tt by (auto simp: hdr_ok_def change_entry_def)
    next
      case fresh
      have tt: "t = [MoveRename (Temp (ob_name nb) (ob_ts nb)) (Held (ob_name nb)), SetAttrs (Held (ob_name nb)) settled (ob_deleted nb) False]"
        using t(1) step_put(1) fresh(5) by simp
      obtain en where "logical w (Temp (ob_name nb) (ob_ts nb)) = Some en" "en_ts en = ob_ts nb"
        using hn fresh(1) by (auto simp: handle_ok_def address_of_def)
      moreover have "runs (\<lambda>s. True) t (logical w)" using r by (rule runs_mono) simp
      ultimately show ?thesis using h g n(3) new unfolding tt by (auto simp: hdr_ok_def change_entry_def)
    qed
  next
    case (step_hand p ps ts st)
    then have "length (queued w) = length (queued w') + 1" by simp
    then show ?thesis using t(1) by simp
  next
    case (step_whole ts)
    then show ?thesis by (intro same) simp
  next
    case (step_release j po)
    show ?thesis
    proof (cases "ob_state po \<in> {IN_WRITE, OLD}")
      case True
      then have a: "address_of po = Temp (ob_name po) (ob_ts po)" by (auto simp: address_of_def)
      have tt: "t = [RemoveEntry (address_of po)]" using t(1) step_release True by (auto simp: release_obj_def Let_def)
      have "\<exists>en. logical w (address_of po) = Some en" using True inv_handle [OF inv step_release(2)] by (auto simp: handle_ok_def)
      then show ?thesis using h unfolding tt a by (auto simp: hdr_ok_def)
    next
      case False
      then show ?thesis using step_release by (intro same) (auto simp: release_obj_def Let_def)
    qed
  qed
qed


section \<open>After a sync\<close>

text \<open>\<open>synced w0 w\<close>: everything prepared at \<open>w0\<close> has been handed over at \<open>w\<close>.\<close>

definition synced :: "world \<Rightarrow> world \<Rightarrow> bool" where
  "synced w0 w \<longleftrightarrow> wd_handed w0 + length (queued w0) \<le> wd_handed w"

text \<open>Since \<open>w0\<close>: the changes \<open>done\<close> were handed over, and \<open>new\<close> were prepared.\<close>

definition passed :: "world \<Rightarrow> world \<Rightarrow> txop list \<Rightarrow> txop list \<Rightarrow> bool" where
  "passed w0 w dn new \<longleftrightarrow> queued w0 @ new = dn @ queued w \<and> wd_handed w = wd_handed w0 + length dn \<and> store w = fold effect dn (store w0)"

lemma since_logical: "passed w0 w dn new \<Longrightarrow> logical w = fold effect new (logical w0)"
  unfolding passed_def logical_def by (metis fold_append comp_apply)

lemma since_synced:
  assumes "passed w0 w dn new" and "synced w0 w"
  obtains d where "new = d @ queued w" "store w = fold effect d (logical w0)"
proof -
  have l: "length (queued w0) \<le> length dn" using assms by (simp add: passed_def synced_def)
  then have "dn = queued w0 @ drop (length (queued w0)) dn \<and> new = drop (length (queued w0)) dn @ queued w"
    using assms(1) unfolding passed_def by (metis append_eq_append_conv_if append_take_drop_id)
  then show thesis using that assms(1) unfolding passed_def logical_def by (metis fold_append comp_apply)
qed

lemma step_since:
  assumes "bs_step ap E w w'" and "bluestore_ok ap" and "bs_inv E w" and s: "passed w0 w dn new"
  shows "\<exists>dn' t. passed w0 w' dn' (new @ t) \<and> orderly E (logical w) t \<and> (t = [] \<or> queued w' = queued w @ t \<and> store w' = store w)"
  using step_queue [OF assms(1-3)]
proof (elim disjE exE)
  fix t assume t: "appends E w w' t"
  then have "passed w0 w' dn (new @ t)" using s by (simp add: passed_def appends_def)
  then show ?thesis using t unfolding appends_def by blast
next
  fix p assume p: "hands w w' p"
  then have "passed w0 w' (dn @ [p]) (new @ [])" using s by (simp add: passed_def hands_def)
  moreover have "orderly E (logical w) []" by (simp add: orderly_def)
  ultimately show ?thesis by blast
qed

lemma step_dead:
  assumes "bs_step ap E w w'" and "bs_inv E w" and "i < eg_next (wd_eng w)" and "obj w i = None"
  shows "obj w' i = None"
proof -
  have "same_handle w' i n k" for n k
    by (rule step_handle [OF assms(1,2)]) (use assms(3,4) in \<open>simp add: same_handle_def\<close>)
  from this [of "[]" 0] this [of "''x''" 0] show ?thesis by (cases "obj w' i") (auto simp: same_handle_def)
qed

text \<open>An Object is alive and its metadata version has not moved.\<close>

lemma step_vers: "bs_step ap E w w' \<Longrightarrow> wd_vers w i \<le> wd_vers w' i"
  by (cases rule: bs_step_cases) auto

lemma steps_vers: "(bs_step ap E)\<^sup>*\<^sup>* w w' \<Longrightarrow> wd_vers w i \<le> wd_vers w' i"
  by (induction rule: rtranclp_induct) (auto dest: step_vers [where i = i])

text \<open>From a world on in which an Object holds or held its name.\<close>

lemma steps_since:
  assumes "(bs_step ap E)\<^sup>*\<^sup>* w0 w" and ok: "bluestore_ok ap" and inv: "bs_inv E w0"
    and i: "obj w0 i = Some ob" "ob_state ob \<in> {ACTIVE, OLD}" "ob_name ob = n" "ob_ts ob = k"
    and v: "k \<notin> E" "wd_ver w0 (n, k) = Some b" and h: "hdr_ok n k h (logical w0)"
    and l: "at_version n k (logical w0) \<or> past E n k (logical w0)"
  shows "\<exists>dn new. passed w0 w dn new \<and> landed E n k new (logical w0) \<and>
     (obj w i \<noteq> None \<longrightarrow> wd_vers w i = wd_vers w0 i \<longrightarrow> runs (hdr_ok n k h) new (logical w0))"
  using assms(1)
proof (induction rule: rtranclp_induct)
  case base
  then show ?case by (intro exI [of _ "[]"]) (use h l in \<open>auto simp: passed_def\<close>)
next
  case (step w w')
  obtain dn new where d: "passed w0 w dn new" "landed E n k new (logical w0)"
    "obj w i \<noteq> None \<longrightarrow> wd_vers w i = wd_vers w0 i \<longrightarrow> runs (hdr_ok n k h) new (logical w0)" using step.IH by blast
  have inv': "bs_inv E w" by (rule steps_inv [OF step(1) ok inv])
  have L: "logical w = fold effect new (logical w0)" by (rule since_logical [OF d(1)])
  have b: "wd_ver w (n, k) = Some b" by (rule map_le_Some [OF steps_ver [OF step(1) ok inv] v(2)])
  have h0: "same_handle w0 i n k" using inv_handle [OF inv i(1)] i by (simp add: same_handle_def handle_ok_def)
  have hw: "same_handle w i n k" by (rule steps_handle [OF step(1) ok inv h0])
  obtain dn' t where t: "passed w0 w' dn' (new @ t)" "orderly E (logical w) t" "t = [] \<or> queued w' = queued w @ t \<and> store w' = store w"
    using step_since [OF step(2) ok inv' d(1)] by blast
  have "landed E n k (new @ t) (logical w0)"
    by (rule landed_append [OF d(2)])
      (use t(2) v(1) version_held [OF inv', of n k] b in \<open>auto simp: L orderly_def intro: once_landed\<close>)
  moreover have "runs (hdr_ok n k h) (new @ t) (logical w0)" if al: "obj w' i \<noteq> None" and vs: "wd_vers w' i = wd_vers w0 i"
  proof -
    have vw: "wd_vers w i = wd_vers w0 i" "wd_vers w' i = wd_vers w i"
      using steps_vers [OF step(1), of i] step_vers [OF step(2), of i] vs by auto
    obtain ow where ow: "obj w i = Some ow"
      using step_dead [OF step(2) inv', of i] hw al by (cases "obj w i") (auto simp: same_handle_def)
    have r: "runs (hdr_ok n k h) new (logical w0)" using d(3) ow vw by simp
    then have "hdr_ok n k h (logical w)" unfolding L by (rule runs_last)
    moreover have "ob_name ow = n" "ob_ts ow = k" "ob_state ow \<in> {ACTIVE, OLD}" using hw ow by (simp_all add: same_handle_def)
    ultimately have "runs (hdr_ok n k h) t (logical w)"
      using t(3) step_header [OF step(2) ok inv' ow _ vw(2) _ _ v(1)] b by auto
    with r show ?thesis by (simp add: runs_append L)
  qed
  ultimately show ?case using t(1) by blast
qed


text \<open>A read that begins, fetches and checks in the worlds \<open>w\<close>, \<open>w1\<close> and \<open>w2\<close>, after a sync of an Object.\<close>

definition interleaved :: "(txop \<Rightarrow> bstore \<Rightarrow> bstore option) \<Rightarrow> nat set \<Rightarrow> world \<Rightarrow> world \<Rightarrow> world \<Rightarrow> world \<Rightarrow> bool" where
  "interleaved ap E w0 w w1 w2 \<longleftrightarrow> (bs_step ap E)\<^sup>*\<^sup>* w0 w \<and> synced w0 w \<and> (bs_step ap E)\<^sup>*\<^sup>* w w1 \<and> (bs_step ap E)\<^sup>*\<^sup>* w1 w2"

lemma landed_drop: "landed E n k (xs @ ys) st \<Longrightarrow> landed E n k ys (fold effect xs st)"
proof (induction xs arbitrary: st)
  case (Cons p ps)
  have "at_version n k st \<and> landed E n k (ps @ ys) (effect p st) \<or> runs (past E n k) ((p # ps) @ ys) st"
    using Cons.prems by simp
  then show ?case
  proof (elim disjE conjE)
    assume "runs (past E n k) ((p # ps) @ ys) st"
    then show ?thesis by (intro past_landed) (simp only: runs_append)
  qed (use Cons.IH in simp)
qed simp

lemma ver_ok_entry:
  "ver_ok E V st \<Longrightarrow> st a = Some en \<Longrightarrow> en_ts en = k \<Longrightarrow> k \<notin> E \<Longrightarrow> a \<in> {Held n, Temp n k} \<Longrightarrow> V (n, k) = Some (en_data en)"
  unfolding ver_ok_def by blast

lemma handle_start:
  assumes inv: "bs_inv E w0" and i: "obj w0 i = Some ob" "ob_state ob \<in> {ACTIVE, OLD}" "ob_name ob = n" "ob_ts ob = k"
  obtains en where "k \<notin> E" "logical w0 (address_of ob) = Some en" "wd_ver w0 (n, k) = Some (en_data en)"
    "hdr_ok n k (en_header en) (logical w0)" "at_version n k (logical w0) \<or> past E n k (logical w0)"
proof -
  have h: "handle_ok E w0 (logical w0) i ob" by (rule inv_handle [OF inv i(1)])
  have k: "k \<notin> E" using h i by (auto simp: handle_ok_def)
  obtain en where en: "logical w0 (address_of ob) = Some en" "en_ts en = k" using h i by (auto simp: handle_ok_def)
  have v: "ver_ok E (wd_ver w0) (logical w0)" by (rule inv_ver [OF inv])
  have so: "store_ok E (wd_ver w0) (eg_last (wd_eng w0)) (logical w0)" using inv by (simp add: bs_inv_def)
  show thesis
  proof (cases "ob_state ob = OLD")
    case True
    then have a: "address_of ob = Temp n k" using i by (simp add: address_of_def)
    then have "logical w0 (Temp n k) \<noteq> None" using en(1) by simp
    then obtain x where x: "logical w0 (Held n) = Some x" "k < en_ts x" using so k unfolding store_ok_def by blast
    show thesis by (rule that [OF k en(1)]) (use v en a x k in \<open>auto simp: ver_ok_def hdr_ok_def past_def\<close>)
  next
    case False
    then have a: "address_of ob = Held n" using i by (simp add: address_of_def)
    have none: "logical w0 (Temp n k) = None"
    proof (rule ccontr)
      assume "logical w0 (Temp n k) \<noteq> None"
      then obtain x where "logical w0 (Held n) = Some x" "k < en_ts x" using so k unfolding store_ok_def by blast
      then show False using en a by simp
    qed
    show thesis
      by (rule that [OF k en(1)]) (use v en a none k in \<open>auto simp: ver_ok_def hdr_ok_def at_version_def\<close>)
  qed
qed

text \<open>What a checked read after a sync has fetched.\<close>

lemma checked_read_version:
  assumes ok: "bluestore_ok ap" and inv: "bs_inv E w0"
    and ob: "obj w0 i = Some ob" "ob_state ob \<in> {ACTIVE, OLD}" "ob_name ob = n" "ob_ts ob = k"
    and s: "interleaved ap E w0 w w1 w2"
    and ob': "obj w i = Some ob'"
    and cr: "checked_read content offset amount ob' (store w1) (store w2) = Inr bytes"
  obtains en where "store w1 (address_of ob') = Some en" "en_ts en = k" "address_of ob' \<in> {Held n, Temp n k}"
    "bytes = take amount (drop offset (content en))"
proof -
  have st: "(bs_step ap E)\<^sup>*\<^sup>* w0 w" "synced w0 w" "(bs_step ap E)\<^sup>*\<^sup>* w w1" "(bs_step ap E)\<^sup>*\<^sup>* w1 w2"
    using s by (simp_all add: interleaved_def)
  obtain e0 where e: "k \<notin> E" "logical w0 (address_of ob) = Some e0" "wd_ver w0 (n, k) = Some (en_data e0)"
    "hdr_ok n k (en_header e0) (logical w0)" "at_version n k (logical w0) \<or> past E n k (logical w0)"
    by (rule handle_start [OF inv ob])
  note e0 = e(1,3,4,5)
  have i: "bs_inv E w" by (rule steps_inv [OF st(1) ok inv])
  have i1: "bs_inv E w1" by (rule steps_inv [OF st(3) ok i])
  have v: "wd_ver w (n, k) = Some (en_data e0)" by (rule map_le_Some [OF steps_ver [OF st(1) ok inv] e0(2)])
  have v1: "wd_ver w1 (n, k) = Some (en_data e0)" by (rule map_le_Some [OF steps_ver [OF st(3) ok i] v])
  have "same_handle w0 i n k" using inv_handle [OF inv ob(1)] ob by (simp add: same_handle_def handle_ok_def)
  then have "same_handle w i n k" by (rule steps_handle [OF st(1) ok inv])
  then have b: "ob_name ob' = n" "ob_ts ob' = k" "ob_state ob' \<in> {ACTIVE, OLD}" using ob' by (simp_all add: same_handle_def)
  obtain en where en: "store w1 (address_of ob') = Some en" "bytes = take amount (drop offset (content en))"
    and ch: "check_obj ob' (store w2) = Inr ()"
    using cr by (auto simp: checked_read_def map_sum_def split: option.splits sum.splits)
  have vo: "ver_ok E (wd_ver w1) (store w1)" using i1 by (auto simp: bs_inv_def dest: runs_first)
  show thesis
  proof (cases "ob_state ob' = OLD")
    case True
    then have a: "address_of ob' = Temp n k" using b by (simp add: address_of_def)
    then have "en_ts en = k" using en(1) vo e0(1) unfolding ver_ok_def by metis
    then show thesis using that en a by blast
  next
    case False
    then have a: "address_of ob' = Held n" using b by (simp add: address_of_def)
    obtain en2 where en2: "store w2 (Held n) = Some en2" "en_ts en2 = k"
      using ch a b(2) by (auto simp: check_obj_def load_entry_def split: option.splits if_splits)
    obtain dn new where d: "passed w0 w dn new" "landed E n k new (logical w0)"
      using steps_since [OF st(1) ok inv ob e0(1,2,3,4)] by blast
    obtain x where x: "new = x @ queued w" "store w = fold effect x (logical w0)" by (rule since_synced [OF d(1) st(2)])
    have "landed E n k (queued w) (store w)" using d(2) unfolding x by (rule landed_drop)
    then have "landed E n k (queued w1) (store w1)" by (rule steps_landed [OF st(3) ok i e0(1) v])
    moreover have "\<not> runs (past E n k) (queued w1) (store w1)"
    proof
      assume "runs (past E n k) (queued w1) (store w1)"
      then have "runs (past E n k) (queued w2) (store w2)" by (rule steps_past [OF st(4) ok i1 e0(1) v1])
      then have "past E n k (store w2)" by (rule runs_first)
      then show False using en2 e0(1) by (auto simp: past_def)
    qed
    ultimately have "at_version n k (store w1)" by (cases "queued w1") auto
    then have "en_ts en = k" using en(1) a by (simp add: at_version_def)
    then show thesis using that en a by blast
  qed
qed

text \<open>C3: A reader that has synced an Object which holds or held its name gets the bytes of that version and no other's,
  whatever other requests do between the moment a read begins, the moment it looks at the store and the moment
  it checks.\<close>

theorem read_returns_version:
  assumes ok: "bluestore_ok ap" and "swept E st" and "reachable ap E st w0"
    and ob: "obj w0 i = Some ob" "ob_state ob \<in> {ACTIVE, OLD}" and s: "interleaved ap E w0 w w1 w2"
    and r: "read_obj i offset amount (wd_eng w) (store w1) (store w2) = Inr bytes"
  shows "\<exists>v. wd_ver w0 (ob_name ob, ob_ts ob) = Some v \<and> bytes = take amount (drop offset v)"
proof -
  have inv: "bs_inv E w0" by (rule reachable_inv [OF assms(3) ok assms(2)])
  obtain e0 where e: "ob_ts ob \<notin> E" "logical w0 (address_of ob) = Some e0"
    "wd_ver w0 (ob_name ob, ob_ts ob) = Some (en_data e0)" "hdr_ok (ob_name ob) (ob_ts ob) (en_header e0) (logical w0)"
    "at_version (ob_name ob) (ob_ts ob) (logical w0) \<or> past E (ob_name ob) (ob_ts ob) (logical w0)"
    by (rule handle_start [OF inv ob refl refl])
  note e0 = e(1,3)
  have i: "bs_inv E w" using s by (auto simp: interleaved_def intro: steps_inv [OF _ ok inv])
  obtain ob' where ob': "obj w i = Some ob'" using r by (cases "obj w i") (auto simp: read_obj_def require_def)
  show ?thesis
  proof (cases "amount = 0")
    case True
    then show ?thesis using r e0(2) ob' by (simp add: read_obj_def require_def split: if_splits)
  next
    case False
    then have cr: "checked_read en_data offset amount ob' (store w1) (store w2) = Inr bytes"
      using r ob' by (auto simp: read_obj_def require_def split: if_splits)
    obtain en where en: "store w1 (address_of ob') = Some en" "en_ts en = ob_ts ob"
        "address_of ob' \<in> {Held (ob_name ob), Temp (ob_name ob) (ob_ts ob)}" "bytes = take amount (drop offset (en_data en))"
      by (rule checked_read_version [OF ok inv ob refl refl s ob' cr])
    have i1: "bs_inv E w1" using s by (auto simp: interleaved_def intro: steps_inv [OF _ ok i])
    have vo: "ver_ok E (wd_ver w1) (store w1)" using i1 by (auto simp: bs_inv_def dest: runs_first)
    have "wd_ver w1 (ob_name ob, ob_ts ob) = Some (en_data en)" by (rule ver_ok_entry [OF vo en(1,2) e0(1) en(3)])
    moreover have "wd_ver w1 (ob_name ob, ob_ts ob) = Some (en_data e0)"
      using s steps_ver [OF _ ok inv] steps_ver [OF _ ok i] e0(2) unfolding interleaved_def by (blast intro: map_le_Some)
    ultimately show ?thesis using e0(2) en(4) by simp
  qed
qed


section \<open>Reading metadata\<close>

text \<open>
  \<^verbatim>\<open>BluestoreDevice.read_metadata\<close> among other requests.  The version was noted and the last sync began at \<open>w0\<close>; the
  loop runs at \<open>wp\<close> with the bytes \<open>data\<close> in hand.  A chunk is read once the sync has ended, and its reader runs again
  at \<open>w3\<close>, where it looks at the version.
\<close>

inductive md_loop :: "(txop \<Rightarrow> bstore \<Rightarrow> bstore option) \<Rightarrow> nat set \<Rightarrow> nat \<Rightarrow> nat \<Rightarrow> world \<Rightarrow> world \<Rightarrow> string \<Rightarrow> world \<Rightarrow> string \<Rightarrow> bool"
  for ap E chunk i where
  md_done: "(bs_step ap E)\<^sup>*\<^sup>* wp w \<Longrightarrow> interleaved ap E w0 w w1 w2 \<Longrightarrow>
     read_metadata_obj i (length data) chunk (wd_eng w) (store w1) (store w2) = Inr c \<Longrightarrow>
     (bs_step ap E)\<^sup>*\<^sup>* w2 w3 \<Longrightarrow> obj w3 i \<noteq> None \<Longrightarrow> wd_vers w3 i = wd_vers w0 i \<Longrightarrow> length c < chunk \<Longrightarrow>
     md_loop ap E chunk i w0 wp data w3 (data @ c)"
| md_more: "(bs_step ap E)\<^sup>*\<^sup>* wp w \<Longrightarrow> interleaved ap E w0 w w1 w2 \<Longrightarrow>
     read_metadata_obj i (length data) chunk (wd_eng w) (store w1) (store w2) = Inr c \<Longrightarrow>
     (bs_step ap E)\<^sup>*\<^sup>* w2 w3 \<Longrightarrow> obj w3 i \<noteq> None \<Longrightarrow> wd_vers w3 i = wd_vers w0 i \<Longrightarrow> \<not> length c < chunk \<Longrightarrow>
     md_loop ap E chunk i w0 w3 (data @ c) w' blob \<Longrightarrow> md_loop ap E chunk i w0 wp data w' blob"
| md_restart: "(bs_step ap E)\<^sup>*\<^sup>* wp w \<Longrightarrow> interleaved ap E w0 w w1 w2 \<Longrightarrow>
     read_metadata_obj i (length data) chunk (wd_eng w) (store w1) (store w2) = Inr c \<Longrightarrow>
     (bs_step ap E)\<^sup>*\<^sup>* w2 w3 \<Longrightarrow> obj w3 i \<noteq> None \<Longrightarrow> wd_vers w3 i \<noteq> wd_vers w0 i \<Longrightarrow>
     md_loop ap E chunk i w3 w3 [] w' blob \<Longrightarrow> md_loop ap E chunk i w0 wp data w' blob"

text \<open>The header an Object has once everything prepared is applied.\<close>

definition header_of :: "world \<Rightarrow> nat \<Rightarrow> string option" where
  "header_of w i = (case obj w i of None \<Rightarrow> None | Some ob \<Rightarrow> map_option en_header (logical w (address_of ob)))"

lemma hdr_entry: "hdr_ok n k h st \<Longrightarrow> st a = Some en \<Longrightarrow> en_ts en = k \<Longrightarrow> a \<in> {Held n, Temp n k} \<Longrightarrow> en_header en = h"
  by (auto simp: hdr_ok_def)

lemma steps_dead:
  "(bs_step ap E)\<^sup>*\<^sup>* w w' \<Longrightarrow> bluestore_ok ap \<Longrightarrow> bs_inv E w \<Longrightarrow> same_handle w i n k \<Longrightarrow> obj w i = None \<Longrightarrow> obj w' i = None"
proof (induction rule: rtranclp_induct)
  case (step y z)
  have "same_handle y i n k" by (rule steps_handle [OF step(1,4,5,6)])
  then show ?case using step_dead [OF step(2) steps_inv [OF step(1,4,5)]] step.IH [OF step(4-7)] by (simp add: same_handle_def)
qed

lemma steps_handed: "(bs_step ap E)\<^sup>*\<^sup>* w w' \<Longrightarrow> wd_handed w \<le> wd_handed w'"
proof (induction rule: rtranclp_induct)
  case (step y z)
  have "wd_handed y \<le> wd_handed z" using step(2) by (cases rule: bs_step_cases) auto
  with step.IH show ?case by simp
qed simp

lemma header_entry:
  assumes inv: "bs_inv E w" and i: "obj w i = Some ob" "same_handle w i n k" and h: "hdr_ok n k h (logical w)"
  shows "header_of w i = Some h"
proof -
  have b: "ob_name ob = n" "ob_ts ob = k" "ob_state ob \<in> {ACTIVE, OLD}" using i by (simp_all add: same_handle_def)
  obtain en where "logical w (address_of ob) = Some en" "en_ts en = k"
    using inv_handle [OF inv i(1)] b by (auto simp: handle_ok_def)
  moreover have "address_of ob \<in> {Held n, Temp n k}" using b by (auto simp: address_of_def)
  ultimately show ?thesis using hdr_entry [OF h] i(1) by (auto simp: header_of_def)
qed

lemma md_chunk:
  assumes ok: "bluestore_ok ap" and inv: "bs_inv E w0" and h0: "same_handle w0 i n k"
    and s: "interleaved ap E w0 w w1 w2" and s3: "(bs_step ap E)\<^sup>*\<^sup>* w2 w3" and al: "obj w3 i \<noteq> None" and v: "wd_vers w3 i = wd_vers w0 i"
    and r: "read_metadata_obj i offset amount (wd_eng w) (store w1) (store w2) = Inr c"
  shows "\<exists>h. header_of w0 i = Some h \<and> header_of w3 i = Some h \<and> c = take amount (drop offset h)"
proof -
  have st: "(bs_step ap E)\<^sup>*\<^sup>* w0 w" "synced w0 w" "(bs_step ap E)\<^sup>*\<^sup>* w w1" "(bs_step ap E)\<^sup>*\<^sup>* w1 w2"
    using s by (simp_all add: interleaved_def)
  have s1: "(bs_step ap E)\<^sup>*\<^sup>* w0 w1" and s13: "(bs_step ap E)\<^sup>*\<^sup>* w1 w3" using st s3 by simp_all
  then have s03: "(bs_step ap E)\<^sup>*\<^sup>* w0 w3" by (rule rtranclp_trans)
  obtain ob where ob: "obj w0 i = Some ob" using steps_dead [OF s03 ok inv h0] al by (cases "obj w0 i") auto
  have b: "ob_state ob \<in> {ACTIVE, OLD}" "ob_name ob = n" "ob_ts ob = k" using h0 ob by (simp_all add: same_handle_def)
  obtain e0 where e: "k \<notin> E" "logical w0 (address_of ob) = Some e0" "wd_ver w0 (n, k) = Some (en_data e0)"
    "hdr_ok n k (en_header e0) (logical w0)" "at_version n k (logical w0) \<or> past E n k (logical w0)"
    by (rule handle_start [OF inv ob b])
  have kept: "\<exists>dn new. passed w0 w' dn new \<and> runs (hdr_ok n k (en_header e0)) new (logical w0)"
    if q: "(bs_step ap E)\<^sup>*\<^sup>* w0 w'" "(bs_step ap E)\<^sup>*\<^sup>* w' w3" for w'
  proof -
    have inv': "bs_inv E w'" by (rule steps_inv [OF q(1) ok inv])
    have "obj w' i \<noteq> None" using steps_dead [OF q(2) ok inv' steps_handle [OF q(1) ok inv h0]] al by blast
    moreover have "wd_vers w' i = wd_vers w0 i" using steps_vers [OF q(1), of i] steps_vers [OF q(2), of i] v by simp
    ultimately show ?thesis using steps_since [OF q(1) ok inv ob b e(1,3,4,5)] by blast
  qed
  obtain dn new where d: "passed w0 w1 dn new" "runs (hdr_ok n k (en_header e0)) new (logical w0)"
    using kept [OF s1 s13] by blast
  have "synced w0 w1" using st(2) steps_handed [OF st(3)] by (simp add: synced_def)
  then obtain x where x: "new = x @ queued w1" "store w1 = fold effect x (logical w0)" by (rule since_synced [OF d(1)])
  have "runs (hdr_ok n k (en_header e0)) (queued w1) (store w1)" using d(2) by (simp add: x runs_append)
  then have hs: "hdr_ok n k (en_header e0) (store w1)" by (rule runs_first)
  obtain ob' where ob': "obj w i = Some ob'" using r by (cases "obj w i") (auto simp: read_metadata_obj_def require_def)
  then have cr: "checked_read en_header offset amount ob' (store w1) (store w2) = Inr c"
    using r by (auto simp: read_metadata_obj_def require_def split: if_splits)
  obtain en where en: "store w1 (address_of ob') = Some en" "en_ts en = k" "address_of ob' \<in> {Held n, Temp n k}"
      "c = take amount (drop offset (en_header en))"
    by (rule checked_read_version [OF ok inv ob b s ob' cr])
  have c: "c = take amount (drop offset (en_header e0))" using en(4) hdr_entry [OF hs en(1-3)] by simp
  obtain dn3 new3 where d3: "passed w0 w3 dn3 new3" "runs (hdr_ok n k (en_header e0)) new3 (logical w0)"
    using kept [OF s03] by blast
  have "hdr_ok n k (en_header e0) (logical w3)"
    unfolding since_logical [OF d3(1)] by (rule runs_last [OF d3(2)])
  moreover obtain ob3 where "obj w3 i = Some ob3" using al by blast
  ultimately have "header_of w3 i = Some (en_header e0)"
    using header_entry [OF steps_inv [OF s03 ok inv]] steps_handle [OF s03 ok inv h0] by blast
  then show ?thesis using c header_entry [OF inv ob h0 e(4)] by blast
qed

lemma md_loop_whole:
  assumes "md_loop ap E chunk i w0 wp data w' blob" and ok: "bluestore_ok ap" and "bs_inv E w0" and "same_handle w0 i n k"
    and "\<And>h. header_of w0 i = Some h \<Longrightarrow> prefix data h"
  shows "header_of w' i = Some blob"
  using assms(1,3-5)
proof (induction rule: md_loop.induct)
  case (md_done wp w w0 w1 w2 data c w3)
  obtain h where h: "header_of w0 i = Some h" "header_of w3 i = Some h" "c = take chunk (drop (length data) h)"
    using md_chunk [OF ok md_done(8,9,2,4,5,6,3)] by blast
  obtain r where "h = data @ r" using md_done(10) [OF h(1)] by (auto simp: prefix_def)
  then show ?case using h md_done(7) by simp
next
  case (md_more wp w w0 w1 w2 data c w3 w' blob)
  obtain h where h: "header_of w0 i = Some h" "header_of w3 i = Some h" "c = take chunk (drop (length data) h)"
    using md_chunk [OF ok md_more(10,11,2,4,5,6,3)] by blast
  obtain r where "h = data @ r" using md_more(12) [OF h(1)] by (auto simp: prefix_def)
  then have "prefix (data @ c) h" using h(3) by (simp add: take_is_prefix)
  then show ?case using md_more.IH [OF md_more(10,11)] h(1) by simp
next
  case (md_restart wp w w0 w1 w2 data c w3 w' blob)
  have s: "(bs_step ap E)\<^sup>*\<^sup>* w0 w3" using md_restart(2,4) by (auto simp: interleaved_def intro: rtranclp_trans)
  show ?case
    by (rule md_restart.IH [OF steps_inv [OF s ok md_restart(9)] steps_handle [OF s ok md_restart(9,10)]]) simp
qed

text \<open>C7: A read of metadata that runs among other requests, POSTs to the same object included, returns the whole metadata
  as it is when the read ends, never parts of two.\<close>

theorem metadata_read_is_whole:
  assumes ok: "bluestore_ok ap" and "swept E st" and "reachable ap E st w"
    and ob: "obj w i = Some ob" "ob_state ob \<in> {ACTIVE, OLD}" and l: "md_loop ap E chunk i w w [] w' blob"
  shows "header_of w' i = Some blob"
proof -
  have inv: "bs_inv E w" by (rule reachable_inv [OF assms(3) ok assms(2)])
  have "same_handle w i (ob_name ob) (ob_ts ob)" using inv_handle [OF inv ob(1)] ob by (simp add: same_handle_def handle_ok_def)
  then show ?thesis by (rule md_loop_whole [OF l ok inv]) simp
qed

section \<open>An example\<close>

definition sample_ap :: "txop \<Rightarrow> bstore \<Rightarrow> bstore option" where
  "sample_ap p st = (if fits p st then Some (effect p st) else None)"

lemma sample_ap_ok: "bluestore_ok sample_ap"
  by (simp add: bluestore_ok_def sample_ap_def)

definition handed :: "world \<Rightarrow> world" where
  "handed w =
     (case eg_queue (wd_eng w) of
        [] \<Rightarrow> w
      | [] # ts \<Rightarrow> w\<lparr>wd_eng := (wd_eng w)\<lparr>eg_queue := ts\<rparr>, wd_base := store w\<rparr>
      | (p # ps) # ts \<Rightarrow> w\<lparr>wd_eng := (wd_eng w)\<lparr>eg_store := effect p (store w), eg_queue := ps # ts\<rparr>, wd_handed := wd_handed w + 1\<rparr>)"

lemma handed_run:
  assumes "bs_inv E w"
  shows "\<exists>ms. set ms \<subseteq> {Plain} \<and> dev_run sample_ap ms w ((handed ^^ k) w) \<and> bs_inv E ((handed ^^ k) w)"
proof (induction k)
  case 0
  show ?case by (rule exI [of _ "[]"]) (simp add: assms)
next
  case (Suc k)
  let ?w = "(handed ^^ k) w"
  obtain ms where ms: "set ms \<subseteq> {Plain}" "dev_run sample_ap ms w ?w" and inv: "bs_inv E ?w" using Suc by blast
  have "handed ?w = ?w \<or> dev_step sample_ap Plain ?w (handed ?w)"
  proof (cases "eg_queue (wd_eng ?w)")
    case (Cons q ts)
    show ?thesis
    proof (cases q)
      case Nil
      then show ?thesis using Cons by (auto simp: handed_def intro: at_whole)
    next
      case q: (Cons p ps)
      have "fits p (store ?w)" using inv Cons q by (simp add: bs_inv_def)
      then have "sample_ap p (store ?w) = Some (effect p (store ?w))" by (simp add: sample_ap_def)
      from at_hand [OF Cons [unfolded q], of sample_ap, OF this] show ?thesis using Cons q by (simp add: handed_def)
    qed
  qed (simp add: handed_def)
  then show ?case
  proof
    assume "handed ?w = ?w"
    then show ?thesis using ms inv by auto
  next
    assume st: "dev_step sample_ap Plain ?w (handed ?w)"
    have "bs_inv E (handed ?w)" by (rule bs_step_inv [OF stepI [OF st within.simps(1) [THEN iffD2, OF TrueI]] sample_ap_ok inv])
    moreover have "dev_run sample_ap (ms @ [Plain]) w (handed ?w)" using ms(2) st by (auto simp: dev_run_append)
    ultimately show ?thesis using ms(1) by (intro exI [of _ "ms @ [Plain]"]) simp
  qed
qed

lemma handed_steps:
  assumes "bs_inv E w"
  shows "(bs_step sample_ap E)\<^sup>*\<^sup>* w ((handed ^^ k) w) \<and> bs_inv E ((handed ^^ k) w)"
proof -
  obtain ms where "set ms \<subseteq> {Plain}" "dev_run sample_ap ms w ((handed ^^ k) w)" "bs_inv E ((handed ^^ k) w)"
    using handed_run [OF assms] by blast
  moreover from this(1) have "\<forall>m \<in> set ms. within E m" by auto
  ultimately show ?thesis using dev_run_steps by blast
qed

text \<open>The steps as functions.\<close>

definition searched :: "string \<Rightarrow> world \<Rightarrow> world" where
  "searched n w = (let (e, i) = find_obj n (wd_eng w) in w\<lparr>wd_eng := fst (open_obj i e), wd_map := (wd_map w)(n \<mapsto> i)\<rparr>)"

definition created :: "nat \<Rightarrow> string \<Rightarrow> world \<Rightarrow> world" where
  "created now n w = (let (e, i) = create_obj None now n (wd_eng w) in w\<lparr>wd_eng := e, wd_bytes := (wd_bytes w)(i := [])\<rparr>)"

definition wrote :: "nat \<Rightarrow> string \<Rightarrow> world \<Rightarrow> world" where
  "wrote i bytes w = w\<lparr>wd_eng := fst (write_obj i bytes (wd_eng w)), wd_bytes := (wd_bytes w)(i := wd_bytes w i @ bytes)\<rparr>"

definition posted :: "nat \<Rightarrow> string \<Rightarrow> world \<Rightarrow> world" where
  "posted i blob w = w\<lparr>wd_eng := fst (write_metadata_obj i blob (wd_eng w)), wd_vers := (if map_option ob_state (obj w i) = Some ACTIVE
       then (wd_vers w)(i := wd_vers w i + 1) else wd_vers w)\<rparr>"

definition replaced :: "nat \<Rightarrow> nat \<Rightarrow> nat \<Rightarrow> world \<Rightarrow> world" where
  "replaced i prev settled w =
     (let n = ob_name (the (obj w i))
      in w\<lparr>wd_eng := fst (put_obj i prev (Some settled) (wd_eng w)), wd_map := (wd_map w)(n \<mapsto> i),
           wd_ver := (wd_ver w)((n, settled) \<mapsto> wd_bytes w i)\<rparr>)"

lemma searched_step: "live_obj w n = None \<Longrightarrow> dev_step ap Plain w (searched n w)"
proof -
  assume l: "live_obj w n = None"
  obtain e i where f: "find_obj n (wd_eng w) = (e, i)" by (metis surj_pair)
  moreover have "open_obj i e = (fst (open_obj i e), Inr ())"
    using f by (auto simp: find_obj_def new_obj_def open_obj_def require_def prod_eq_iff Let_def)
  ultimately show ?thesis using at_search [OF l] by (simp add: searched_def)
qed

lemma created_step: "eg_last (wd_eng (created now n w)) = t \<Longrightarrow> dev_step ap (Estimate t) w (created now n w)"
  using at_create [of now n w] by (auto simp: created_def split: prod.splits)

lemma wrote_step: "snd (write_obj i bytes (wd_eng w)) = Inr () \<Longrightarrow> dev_step ap Plain w (wrote i bytes w)"
  unfolding wrote_def by (rule at_write) (simp add: prod_eq_iff)

lemma posted_step: "snd (write_metadata_obj i blob (wd_eng w)) = Inr () \<Longrightarrow> dev_step ap Plain w (posted i blob w)"
  unfolding posted_def by (rule at_metadata) (simp add: prod_eq_iff)

lemma replaced_step:
  "live_obj w (ob_name (the (obj w i))) = Some prev \<Longrightarrow> obj w i \<noteq> None \<Longrightarrow> snd (put_obj i prev (Some settled) (wd_eng w)) = Inr () \<Longrightarrow>
   dev_step ap (Settle settled) w (replaced i prev settled w)"
  unfolding replaced_def Let_def by (rule at_put) (auto simp: prod_eq_iff)

definition sample_start :: bstore where
  "sample_start = [Held ''n'' \<mapsto> \<lparr>en_ts = 1, en_deleted = False, en_old = False, en_data = ''old'', en_header = ''head''\<rparr>]"

text \<open>A search, then a PUT of another request: created and written, handed over.\<close>

definition sample_found :: world where
  "sample_found = searched ''n'' (fresh_world sample_start)"

definition sample_created :: world where
  "sample_created = created 100 ''n'' sample_found"

definition sample_written :: world where
  "sample_written = wrote 1 ''new'' sample_created"

definition sample_handed :: world where
  "sample_handed = replaced 1 0 2 sample_written"

definition sample_posted :: world where
  "sample_posted = posted 0 ''tail'' sample_found"

lemma sample_swept: "swept {100..} sample_start"
  by (simp add: swept_def settled_ok_def sample_start_def)

abbreviation sample_step :: "world \<Rightarrow> world \<Rightarrow> bool" where
  "sample_step \<equiv> bs_step sample_ap {100..}"

lemma sample_moves:
  "dev_step sample_ap Plain (fresh_world sample_start) sample_found" "dev_step sample_ap (Estimate 100) sample_found sample_created"
  "dev_step sample_ap Plain sample_created sample_written" "dev_step sample_ap (Settle 2) sample_written sample_handed"
  "dev_step sample_ap Plain sample_found sample_posted"
proof -
  show "dev_step sample_ap Plain (fresh_world sample_start) sample_found" unfolding sample_found_def by (rule searched_step) code_simp
  show "dev_step sample_ap (Estimate 100) sample_found sample_created" unfolding sample_created_def by (rule created_step) code_simp
  show "dev_step sample_ap Plain sample_created sample_written" unfolding sample_written_def by (rule wrote_step) code_simp
  show "dev_step sample_ap (Settle 2) sample_written sample_handed" unfolding sample_handed_def by (rule replaced_step) code_simp+
  show "dev_step sample_ap Plain sample_found sample_posted" unfolding sample_posted_def by (rule posted_step) code_simp
qed

lemma sample_search: "sample_step (fresh_world sample_start) sample_found"
  by (rule stepI [OF sample_moves(1)]) simp

lemma sample_steps:
  "sample_step sample_found sample_created" "sample_step sample_created sample_written" "sample_step sample_written sample_handed"
  "sample_step sample_found sample_posted"
  by (rule stepI [OF sample_moves(2)] stepI [OF sample_moves(3)] stepI [OF sample_moves(4)] stepI [OF sample_moves(5)], simp)+

lemma sample_reachable:
  "reachable sample_ap {100..} sample_start (fresh_world sample_start)" "reachable sample_ap {100..} sample_start sample_found"
  "reachable sample_ap {100..} sample_start sample_written" "reachable sample_ap {100..} sample_start sample_handed"
  "reachable sample_ap {100..} sample_start sample_posted"
  using sample_search sample_steps unfolding reachable_def by (auto intro: rtranclp.rtrancl_into_rtrancl)

lemmas sample_inv = reachable_inv [OF _ sample_ap_ok sample_swept]

lemma sample_put_run:
  "dev_run sample_ap [Plain, Estimate 100, Plain, Settle 2] (fresh_world sample_start) sample_handed"
  using sample_moves by auto

theorem submit_never_kills_witness:
  "\<exists>e. submit sample_ap (wd_eng ((handed ^^ 5) sample_handed)) = Some e \<and> eg_queue e = [] \<and>
     eg_objs e = eg_objs (wd_eng ((handed ^^ 5) sample_handed))"
proof -
  obtain ms where ms: "set ms \<subseteq> {Plain}" "dev_run sample_ap ms sample_handed ((handed ^^ 5) sample_handed)"
    using handed_run [OF sample_inv [OF sample_reachable(4)]] by blast
  let ?ms = "[Plain, Estimate 100, Plain, Settle 2] @ ms"
  have e: "estimates_of ?ms = {100}" using ms(1) by (auto simp: estimates_of_def)
  show ?thesis
  proof (rule submit_never_kills [OF sample_ap_ok, where ms = ?ms])
    show "swept (estimates_of ?ms) sample_start" unfolding e by (simp add: swept_def settled_ok_def sample_start_def)
    show "dev_run sample_ap ?ms (fresh_world sample_start) ((handed ^^ 5) sample_handed)"
      using sample_put_run ms(2) unfolding dev_run_append by blast
    show "apart ?ms" unfolding apart_def e using ms(1) by auto
  qed
qed

theorem crash_leaves_whole_versions_witness:
  "(\<exists>en'. wd_base ((handed ^^ 9) sample_handed) (Held ''n'') = Some en' \<and> 1 \<le> en_ts en' \<and>
     wd_ver ((handed ^^ 9) sample_handed) (''n'', en_ts en') = Some (en_data en')) \<and>
   {a \<in> dom (wd_base ((handed ^^ 9) sample_handed)). is_temp a \<and>
     address_loaded (wd_base ((handed ^^ 9) sample_handed)) a \<noteq> a} = {}"
proof -
  have s: "(sample_step)\<^sup>*\<^sup>* (fresh_world sample_start) ((handed ^^ 9) sample_handed)"
    using sample_reachable(4) handed_steps [OF sample_inv [OF sample_reachable(4)], of 9] unfolding reachable_def by auto
  have "wd_base (fresh_world sample_start) (Held ''n'') =
      Some \<lparr>en_ts = 1, en_deleted = False, en_old = False, en_data = ''old'', en_header = ''head''\<rparr>"
    by (simp add: fresh_world_def sample_start_def)
  from crash_leaves_whole_versions [OF sample_ap_ok sample_swept sample_reachable(1) s this] show ?thesis by simp
qed

theorem read_returns_version_witness:
  "\<exists>v. wd_ver sample_found (''n'', 1) = Some v \<and> ''ld'' = take 9 (drop 1 v)"
proof -
  let ?w1 = "(handed ^^ 2) sample_written" and ?w2 = "(handed ^^ 4) sample_written"
  have "(sample_step)\<^sup>*\<^sup>* sample_found sample_written" using sample_steps(1,2) by auto
  moreover have "(sample_step)\<^sup>*\<^sup>* sample_written ?w1" "(sample_step)\<^sup>*\<^sup>* ?w1 ((handed ^^ 2) ?w1)"
    using handed_steps [OF sample_inv [OF sample_reachable(3)]] handed_steps by blast+
  moreover have "(handed ^^ 2) ?w1 = ?w2" by (simp add: numeral_2_eq_2 numeral_eq_Suc)
  moreover have "synced sample_found sample_found" unfolding synced_def by code_simp
  ultimately have i: "interleaved sample_ap {100..} sample_found sample_found ?w1 ?w2"
    by (simp add: interleaved_def)
  have o: "obj sample_found 0 = Some \<lparr>ob_name = ''n'', ob_ts = 1, ob_deleted = False, ob_state = ACTIVE, ob_written = 0\<rparr>" by code_simp
  have r: "read_obj 0 1 9 (wd_eng sample_found) (store ?w1) (store ?w2) = Inr ''ld''" by code_simp
  from read_returns_version [OF sample_ap_ok sample_swept sample_reachable(2) o _ i r] show ?thesis by simp
qed

theorem metadata_read_is_whole_witness: "header_of ((handed ^^ 3) sample_posted) 0 = Some ''tail''"
proof -
  let ?w = "(handed ^^ 3) sample_posted"
  have s: "(sample_step)\<^sup>*\<^sup>* sample_posted ?w" using handed_steps [OF sample_inv [OF sample_reachable(5)]] by blast
  have o: "obj sample_found 0 = Some \<lparr>ob_name = ''n'', ob_ts = 1, ob_deleted = False, ob_state = ACTIVE, ob_written = 0\<rparr>" by code_simp
  have v: "obj sample_posted 0 \<noteq> None" "wd_vers sample_posted 0 \<noteq> wd_vers sample_found 0" "obj ?w 0 \<noteq> None" "wd_vers ?w 0 = wd_vers sample_posted 0"
    by code_simp+
  have "synced sample_posted ?w" "synced sample_found sample_found" unfolding synced_def by code_simp+
  then have i: "interleaved sample_ap {100..} sample_posted ?w ?w ?w" "interleaved sample_ap {100..} sample_found sample_found sample_found sample_found"
    using s by (simp_all add: interleaved_def)
  have r: "read_metadata_obj 0 (length []) 5 (wd_eng sample_found) (store sample_found) (store sample_found) = Inr ''head''"
    "read_metadata_obj 0 (length []) 5 (wd_eng ?w) (store ?w) (store ?w) = Inr ''tail''" by code_simp+
  have "md_loop sample_ap {100..} 5 0 sample_posted sample_posted [] ?w ([] @ ''tail'')"
    by (rule md_done [OF s i(1) r(2) rtranclp.rtrancl_refl v(3,4)]) simp
  then have "md_loop sample_ap {100..} 5 0 sample_found sample_found [] ?w ''tail''"
    by (intro md_restart [OF rtranclp.rtrancl_refl i(2) r(1) r_into_rtranclp [where r = sample_step, OF sample_steps(4)] v(1,2)]) simp
  from metadata_read_is_whole [OF sample_ap_ok sample_swept sample_reachable(2) o _ this] show ?thesis by simp
qed

text \<open>
  Two things the discipline keeps out.  A read through an Object that was handed its name, but not synced, can pass
  the check with the bytes of the version before.  And an estimate that is a settled time of the same name, which the
  set of estimates rules out, sends the retired Object to the address of one being written, which kills the process.
\<close>

lemma unsynced_read_returns_older_version:
  "read_obj 1 0 9 (wd_eng sample_handed) (store sample_handed) (logical sample_handed) = Inr ''old''"
  "read_obj 1 0 9 (wd_eng sample_handed) (logical sample_handed) (logical sample_handed) = Inr ''new''"
  by code_simp+

text \<open>Three PUTs: the first is being written while the second settles at the first's estimate, and the third takes over from it.\<close>

definition colliding :: "world list" where
  "colliding =
     (let w1 = sample_found; w2 = created 5 ''n'' w1; w3 = wrote 1 ''a'' w2;
          w4 = created 6 ''n'' w3; w5 = wrote 2 ''b'' w4; w6 = replaced 2 0 5 w5;
          w7 = created 7 ''n'' w6; w8 = wrote 3 ''c'' w7; w9 = replaced 3 2 8 w8
      in [w1, w2, w3, w4, w5, w6, w7, w8, w9])"

lemma estimate_collision_kills:
  "dev_run sample_ap [Plain, Estimate 5, Plain, Estimate 6, Plain, Settle 5, Estimate 7, Plain, Settle 8]
     (fresh_world sample_start) (last colliding)"
  "submit sample_ap (wd_eng (last colliding)) = None"
proof -
  let ?n = "''n''"
  define w1 where "w1 = sample_found"
  define w2 where "w2 = created 5 ?n w1"
  define w3 where "w3 = wrote 1 ''a'' w2"
  define w4 where "w4 = created 6 ?n w3"
  define w5 where "w5 = wrote 2 ''b'' w4"
  define w6 where "w6 = replaced 2 0 5 w5"
  define w7 where "w7 = created 7 ?n w6"
  define w8 where "w8 = wrote 3 ''c'' w7"
  define w9 where "w9 = replaced 3 2 8 w8"
  note ws = w9_def w8_def w7_def w6_def w5_def w4_def w3_def w2_def w1_def
  have l: "last colliding = w9" unfolding colliding_def ws Let_def by simp
  have "dev_step sample_ap Plain (fresh_world sample_start) w1" unfolding w1_def by (rule sample_moves(1))
  moreover have "dev_step sample_ap (Estimate 5) w1 w2" unfolding w2_def by (rule created_step) (unfold ws, code_simp)
  moreover have "dev_step sample_ap Plain w2 w3" unfolding w3_def by (rule wrote_step) (unfold ws, code_simp)
  moreover have "dev_step sample_ap (Estimate 6) w3 w4" unfolding w4_def by (rule created_step) (unfold ws, code_simp)
  moreover have "dev_step sample_ap Plain w4 w5" unfolding w5_def by (rule wrote_step) (unfold ws, code_simp)
  moreover have "dev_step sample_ap (Settle 5) w5 w6" unfolding w6_def by (rule replaced_step) (unfold ws, code_simp+)
  moreover have "dev_step sample_ap (Estimate 7) w6 w7" unfolding w7_def by (rule created_step) (unfold ws, code_simp)
  moreover have "dev_step sample_ap Plain w7 w8" unfolding w8_def by (rule wrote_step) (unfold ws, code_simp)
  moreover have "dev_step sample_ap (Settle 8) w8 w9" unfolding w9_def by (rule replaced_step) (unfold ws, code_simp+)
  ultimately show "dev_run sample_ap [Plain, Estimate 5, Plain, Estimate 6, Plain, Settle 5, Estimate 7, Plain, Settle 8]
     (fresh_world sample_start) (last colliding)" unfolding l dev_run.simps by blast
  show "submit sample_ap (wd_eng (last colliding)) = None" unfolding l ws by code_simp
qed

end
