(* ===== verification/BsMetadata.thy ===== *)
theory BsMetadata
  imports DiskFile
begin

text \<open>
  \<^verbatim>\<open>bluestore/src/bluestore/metadata.py\<close>: what a PUT or DELETE wrote and what the newest POST wrote are stored
  apart, as the sections \<^verbatim>\<open>data\<close> and \<^verbatim>\<open>meta\<close> of a blob, and merged when read.  The merge is that of
  \<open>DiskFile\<close>; the view of an object does not depend on the order in which its requests arrive.
\<close>

section \<open>The metadata rules\<close>

text \<open>The sections of a blob, and what \<^verbatim>\<open>MetadataModel.get\<close> makes of them.\<close>

record sections =
  sc_data :: metadata
  sc_meta :: "metadata option"

record 't md_view =
  mv_data :: metadata
  mv_meta :: "metadata option"
  mv_merged :: metadata
  mv_meta_ts :: "'t option"
  mv_data_ts :: "'t option"
  mv_type_ts :: 't

text \<open>
  JSON: writing sections, and reading a blob, whose \<^verbatim>\<open>data\<close> may be missing; \<^verbatim>\<open>json.loads\<close> raises
  \<^verbatim>\<open>ValueError\<close> on anything else.
\<close>

record json_lib =
  js_dumps :: "sections \<Rightarrow> string"
  js_loads :: "string \<Rightarrow> (metadata option \<times> metadata option) option"

definition json_ok :: "json_lib \<Rightarrow> bool" where
  "json_ok js \<longleftrightarrow> (\<forall>s. js_loads js (js_dumps js s) = Some (Some (sc_data s), sc_meta s))"

text \<open>\<^verbatim>\<open>Timestamp(metadata.get('Content-Type-Timestamp', 0))\<close>\<close>

definition ctype_timestamp :: "'t :: order_bot ts_lib \<Rightarrow> metadata \<Rightarrow> pyexc + 't" where
  "ctype_timestamp lib m =
     (case map_of m ''Content-Type-Timestamp'' of None \<Rightarrow> Inr bot | Some s \<Rightarrow> timestamp_of lib (Some s))"

definition merge_sections :: "'t :: {linorder, order_bot} df_env \<Rightarrow> metadata \<Rightarrow> metadata \<Rightarrow> pyexc + metadata" where
  "merge_sections env data meta =
     (let merged = dict_update (dict_update [] meta) (sys_metadata env data)
      in case map_of data ''Content-Type'' of
           None \<Rightarrow> Inr merged
         | Some c \<Rightarrow>
             try_then (case map_of data ''X-Timestamp'' of None \<Rightarrow> Inl KeyError | Some s \<Rightarrow> timestamp_of (de_lib env) (Some s)) (\<lambda>t.
             try_then (ctype_timestamp (de_lib env) meta) (\<lambda>u.
               Inr (if u < t then AList.delete ''Content-Type-Timestamp'' (AList.update ''Content-Type'' c merged) else merged))))"

text \<open>\<^verbatim>\<open>time_of(data)\<close>; \<^verbatim>\<open>time_of(prev, 'meta')\<close> is that of the section.\<close>

definition time_of :: "'t ts_lib \<Rightarrow> metadata \<Rightarrow> pyexc + 't option" where
  "time_of lib data =
     (case map_of data ''X-Timestamp'' of
        None \<Rightarrow> Inr None
      | Some s \<Rightarrow> if s = [] then Inr None else try_then (timestamp_of lib (Some s)) (\<lambda>t. Inr (Some t)))"

text \<open>\<^verbatim>\<open>a > b\<close> of two results of \<^verbatim>\<open>time_of\<close>: \<^verbatim>\<open>TypeError\<close> when one is \<^verbatim>\<open>None\<close>.\<close>

fun later :: "'t :: linorder option \<Rightarrow> 't option \<Rightarrow> pyexc + bool" where
  "later (Some t) (Some u) = Inr (u < t)"
| "later _ _ = Inl TypeError"

definition md_view_of :: "'t :: {linorder, order_bot} df_env \<Rightarrow> metadata \<Rightarrow> metadata option \<Rightarrow> pyexc + 't md_view" where
  "md_view_of env data meta =
     try_then (case meta of None \<Rightarrow> Inr (dict_update [] data) | Some m \<Rightarrow> merge_sections env data m) (\<lambda>merged.
     try_then (time_of (de_lib env) merged) (\<lambda>meta_ts.
     try_then (time_of (de_lib env) data) (\<lambda>data_ts.
     try_then (case map_of data ''X-Timestamp'' of
                 None \<Rightarrow> Inl KeyError
               | Some s \<Rightarrow> timestamp_of (de_lib env) (case map_of merged ''Content-Type-Timestamp'' of None \<Rightarrow> Some s | x \<Rightarrow> x))
       (\<lambda>type_ts. Inr \<lparr>mv_data = data, mv_meta = meta, mv_merged = merged,
          mv_meta_ts = meta_ts, mv_data_ts = data_ts, mv_type_ts = type_ts\<rparr>))))"

definition md_get :: "'t :: {linorder, order_bot} df_env \<Rightarrow> json_lib \<Rightarrow> string \<Rightarrow> pyexc + 't md_view" where
  "md_get env js blob =
     (case js_loads js blob of
        None \<Rightarrow> Inl ValueError
      | Some (None, meta) \<Rightarrow> Inl KeyError
      | Some (Some data, meta) \<Rightarrow> md_view_of env data meta)"

definition md_put :: "'t :: linorder ts_lib \<Rightarrow> 't md_view option \<Rightarrow> metadata \<Rightarrow> pyexc + sections" where
  "md_put lib prev data =
     (case prev of
        None \<Rightarrow> Inr \<lparr>sc_data = data, sc_meta = None\<rparr>
      | Some p \<Rightarrow>
          (case mv_meta p of
             None \<Rightarrow> Inr \<lparr>sc_data = data, sc_meta = None\<rparr>
           | Some m \<Rightarrow>
               try_then (time_of lib m) (\<lambda>mt.
               try_then (time_of lib data) (\<lambda>dt.
               try_then (later mt dt) (\<lambda>keep. Inr \<lparr>sc_data = data, sc_meta = (if keep then Some m else None)\<rparr>)))))"

text \<open>\<open>stamp\<close> is \<^verbatim>\<open>Timestamp(timestamp * PRECISION).internal\<close>.\<close>

definition md_delete :: "'t :: linorder ts_lib \<Rightarrow> 't md_view option \<Rightarrow> string \<Rightarrow> metadata option \<Rightarrow> pyexc + sections" where
  "md_delete lib prev stamp meta =
     md_put lib prev (case meta of None \<Rightarrow> [(''X-Timestamp'', stamp)] | Some m \<Rightarrow> m)"

text \<open>\<^verbatim>\<open>MetadataModel.post\<close>: \<open>None\<close> when nothing changes.\<close>

definition md_post :: "'t :: {linorder, order_bot} ts_lib \<Rightarrow> 't md_view option \<Rightarrow> metadata \<Rightarrow> pyexc + sections option" where
  "md_post lib prev post =
     (case prev of
        None \<Rightarrow> Inr None
      | Some p \<Rightarrow>
          try_then (time_of lib post) (\<lambda>pt.
          try_then (later pt (mv_data_ts p)) (\<lambda>fresh.
            if \<not> fresh then Inr None
            else try_then (case mv_meta p of
                             None \<Rightarrow> Inr (post, [])
                           | Some m \<Rightarrow>
                               try_then (time_of lib m) (\<lambda>mt.
                               try_then (later pt mt) (\<lambda>l. Inr (if l then (post, m) else (m, post)))))
              (\<lambda>(newer, older).
                try_then (ctype_timestamp lib older) (\<lambda>ot.
                try_then (ctype_timestamp lib newer) (\<lambda>nt.
                try_then
                  (if nt < ot
                   then (case (map_of older ''Content-Type'', map_of older ''Content-Type-Timestamp'') of
                           (Some c, Some s) \<Rightarrow> Inr (AList.update ''Content-Type-Timestamp'' s
                             (AList.update ''Content-Type'' c (dict_update [] newer)))
                         | _ \<Rightarrow> Inl KeyError)
                   else Inr (dict_update [] newer))
                  (\<lambda>merged. Inr (if (case mv_meta p of None \<Rightarrow> False | Some m \<Rightarrow> dict_eq merged m) then None
                                 else Some \<lparr>sc_data = mv_data p, sc_meta = Some merged\<rparr>))))))))"

section \<open>The merge is that of the reference backend\<close>

text \<open>C17: Where the metadata of a PUT and of a POST are valid and the PUT has a time, the BlueStore backend merges them
  exactly as the reference backend does for a \<^verbatim>\<open>.data\<close> and a \<^verbatim>\<open>.meta\<close> file, dictionary order included.\<close>

theorem merge_agrees_with_reference:
  fixes env :: "'t :: {linorder, order_bot} df_env"
  assumes "df_datafile df = Some data" and "map_of data ''X-Timestamp'' = Some s" and "ts_parse (de_lib env) s = Some t" and "bot < t"
    and "case map_of meta ''Content-Type-Timestamp'' of None \<Rightarrow> True | Some x \<Rightarrow> ts_parse (de_lib env) x \<noteq> None"
  shows "merge_sections env data meta = merged_metadata env df data meta"
  using assms
  by (cases "map_of data ''Content-Type''"; cases "map_of meta ''Content-Type-Timestamp''")
    (auto simp: merge_sections_def merged_metadata_def ctype_timestamp_def data_timestamp_def timestamp_of_def Let_def)

section \<open>The order of requests does not matter\<close>

text \<open>
  A request as the Device applies it to what holds the name: a PUT (or DELETE) that is not newer is dropped,
  a POST is merged.
\<close>

datatype md_request = MdPut metadata | MdPost metadata

definition md_time :: "'t :: order_bot ts_lib \<Rightarrow> metadata \<Rightarrow> 't" where
  "md_time lib m = (case map_of m ''X-Timestamp'' of None \<Rightarrow> bot | Some s \<Rightarrow> (case ts_parse lib s of None \<Rightarrow> bot | Some t \<Rightarrow> t))"

definition md_ctype :: "'t :: order_bot ts_lib \<Rightarrow> metadata \<Rightarrow> 't" where
  "md_ctype lib m = (case map_of m ''Content-Type-Timestamp'' of None \<Rightarrow> bot | Some s \<Rightarrow> (case ts_parse lib s of None \<Rightarrow> bot | Some t \<Rightarrow> t))"

definition md_step :: "'t :: {linorder, order_bot} df_env \<Rightarrow> sections \<Rightarrow> md_request \<Rightarrow> pyexc + sections" where
  "md_step env s rq =
     try_then (md_view_of env (sc_data s) (sc_meta s)) (\<lambda>v.
       case rq of
         MdPut d \<Rightarrow> if md_time (de_lib env) d \<le> md_time (de_lib env) (sc_data s) then Inr s else md_put (de_lib env) (Some v) d
       | MdPost p \<Rightarrow> try_then (md_post (de_lib env) (Some v) p) (\<lambda>r. Inr (case r of None \<Rightarrow> s | Some s' \<Rightarrow> s')))"

primrec md_run :: "'t :: {linorder, order_bot} df_env \<Rightarrow> sections \<Rightarrow> md_request list \<Rightarrow> pyexc + sections" where
  "md_run env s [] = Inr s"
| "md_run env s (rq # rqs) = try_then (md_step env s rq) (\<lambda>s. md_run env s rqs)"

declare map_of_eq_Some_iff [simp del] Some_eq_map_of_iff [simp del]

text \<open>Valid metadata: a time, no key twice, and a time of the content type only with a content type.\<close>

definition valid_md :: "'t :: {linorder, order_bot} ts_lib \<Rightarrow> metadata \<Rightarrow> bool" where
  "valid_md lib m \<longleftrightarrow> distinct (map fst m) \<and>
     (case map_of m ''X-Timestamp'' of None \<Rightarrow> False | Some s \<Rightarrow> s \<noteq> [] \<and> ts_parse lib s \<noteq> None) \<and>
     (case map_of m ''Content-Type-Timestamp'' of
        None \<Rightarrow> True | Some x \<Rightarrow> ts_parse lib x \<noteq> None \<and> map_of m ''Content-Type'' \<noteq> None)"

definition valid_put :: "'t :: {linorder, order_bot} ts_lib \<Rightarrow> metadata \<Rightarrow> bool" where
  "valid_put lib d \<longleftrightarrow> valid_md lib d \<and> map_of d ''Content-Type-Timestamp'' = None"

definition valid_post :: "'t :: {linorder, order_bot} ts_lib \<Rightarrow> metadata \<Rightarrow> bool" where
  "valid_post lib p \<longleftrightarrow> valid_md lib p \<and> md_ctype lib p \<le> md_time lib p"

lemma valid_times:
  assumes "valid_md lib m"
  shows "time_of lib m = Inr (Some (md_time lib m))" and "ctype_timestamp lib m = Inr (md_ctype lib m)"
  using assms
  by (auto simp: valid_md_def time_of_def md_time_def ctype_timestamp_def md_ctype_def timestamp_of_def split: option.splits)

lemma empty_ctype [simp]: "ctype_timestamp lib [] = Inr bot"
  by (simp add: ctype_timestamp_def)

lemma map_of_time: "map_of m ''X-Timestamp'' = map_of m' ''X-Timestamp'' \<Longrightarrow> md_time lib m = md_time lib m'"
  by (simp add: md_time_def)

lemma map_of_ctype:
  "map_of m ''Content-Type-Timestamp'' = map_of m' ''Content-Type-Timestamp'' \<Longrightarrow> md_ctype lib m = md_ctype lib m'"
  by (simp add: md_ctype_def)

definition ct_pair :: "metadata \<Rightarrow> string option \<times> string option" where
  "ct_pair m = (map_of m ''Content-Type'', map_of m ''Content-Type-Timestamp'')"

lemma ct_pair_ctype: "ct_pair m = ct_pair m' \<Longrightarrow> md_ctype lib m = md_ctype lib m'"
  by (simp add: ct_pair_def md_ctype_def)

text \<open>Reading valid sections.\<close>

lemma map_of_sys_metadata:
  "map_of (sys_metadata env dm) k = (if lower k \<in> set reserved_keys \<or> de_sys_meta env k then map_of dm k else None)"
  unfolding sys_metadata_def by (induction dm) auto

definition user_keys :: "'t df_env \<Rightarrow> bool" where
  "user_keys env \<longleftrightarrow> \<not> de_sys_meta env ''X-Timestamp'' \<and> \<not> de_sys_meta env ''Content-Type'' \<and> \<not> de_sys_meta env ''Content-Type-Timestamp''"

lemma user_keys_sys:
  assumes "user_keys env" and "k \<in> {''X-Timestamp'', ''Content-Type'', ''Content-Type-Timestamp''}"
  shows "map_of (sys_metadata env dm) k = None"
proof -
  have "lower k \<notin> set reserved_keys" using assms(2) by (elim insertE emptyE; hypsubst) (code_simp)+
  then show ?thesis using assms by (auto simp: map_of_sys_metadata user_keys_def)
qed

lemma merge_lookup:
  assumes "user_keys env" and "valid_put (de_lib env) d" and "valid_md (de_lib env) m"
  obtains merged where "merge_sections env d m = Inr merged"
    "\<And>k. k \<noteq> ''Content-Type'' \<Longrightarrow> k \<noteq> ''Content-Type-Timestamp'' \<Longrightarrow> map_of merged k =
       (case map_of (sys_metadata env d) k of None \<Rightarrow> map_of m k | Some v \<Rightarrow> Some v)"
    "ct_pair merged = (if map_of d ''Content-Type'' \<noteq> None \<and> md_ctype (de_lib env) m < md_time (de_lib env) d
       then (map_of d ''Content-Type'', None) else ct_pair m)"
proof -
  have dist: "distinct (map fst (sys_metadata env d))"
    using assms(2) by (simp add: sys_metadata_def valid_put_def valid_md_def distinct_map_filter)
  have m: "dict_update [] m = m" using assms(3) by (simp add: valid_md_def)
  let ?b = "dict_update m (sys_metadata env d)"
  have b: "map_of ?b k = (case map_of (sys_metadata env d) k of None \<Rightarrow> map_of m k | Some v \<Rightarrow> Some v)" for k
    by (simp add: map_of_dict_update_distinct [OF dist] map_add_def)
  have ct: "map_of ?b ''Content-Type'' = map_of m ''Content-Type''"
    "map_of ?b ''Content-Type-Timestamp'' = map_of m ''Content-Type-Timestamp''"
    using user_keys_sys [OF assms(1)] by (simp_all add: b)
  obtain s where s: "map_of d ''X-Timestamp'' = Some s" "timestamp_of (de_lib env) (Some s) = Inr (md_time (de_lib env) d)"
    using assms(2) by (auto simp: valid_put_def valid_md_def md_time_def timestamp_of_def split: option.splits)
  note c = valid_times(2) [OF assms(3)]
  show thesis
  proof (cases "map_of d ''Content-Type''")
    case None
    then have "merge_sections env d m = Inr ?b" by (simp add: merge_sections_def m)
    then show thesis by (rule that) (use None ct in \<open>simp_all add: b ct_pair_def\<close>)
  next
    case (Some x)
    show thesis
    proof (cases "md_ctype (de_lib env) m < md_time (de_lib env) d")
      case True
      with Some have "merge_sections env d m = Inr (AList.delete ''Content-Type-Timestamp'' (AList.update ''Content-Type'' x ?b))"
        by (simp add: merge_sections_def m s c Let_def)
      then show thesis by (rule that) (use Some True in \<open>simp_all add: b ct_pair_def delete_conv'\<close>)
    next
      case False
      with Some have "merge_sections env d m = Inr ?b" by (simp add: merge_sections_def m s c Let_def)
      then show thesis by (rule that) (use False ct in \<open>simp_all add: b ct_pair_def\<close>)
    qed
  qed
qed

lemma view_exists:
  assumes "user_keys env" and "valid_put (de_lib env) d" and "case meta of None \<Rightarrow> True | Some m \<Rightarrow> valid_md (de_lib env) m"
  obtains v where "md_view_of env d meta = Inr v" "mv_data v = d" "mv_meta v = meta" "mv_data_ts v = Some (md_time (de_lib env) d)"
    "meta = None \<Longrightarrow> mv_merged v = d"
    "\<And>m. meta = Some m \<Longrightarrow> merge_sections env d m = Inr (mv_merged v)"
proof -
  obtain s where s: "map_of d ''X-Timestamp'' = Some s" "timestamp_of (de_lib env) (Some s) = Inr (md_time (de_lib env) d)"
    using assms(2) by (auto simp: valid_put_def valid_md_def md_time_def timestamp_of_def split: option.splits)
  have dt: "time_of (de_lib env) d = Inr (Some (md_time (de_lib env) d))"
    using assms(2) by (simp add: valid_put_def valid_times(1))
  have no: "map_of d ''Content-Type-Timestamp'' = None" using assms(2) by (simp add: valid_put_def)
  show thesis
  proof (cases meta)
    case None
    have "dict_update [] d = d" using assms(2) by (simp add: valid_put_def valid_md_def)
    then have "md_view_of env d None = Inr \<lparr>mv_data = d, mv_meta = None, mv_merged = d, mv_meta_ts = Some (md_time (de_lib env) d),
        mv_data_ts = Some (md_time (de_lib env) d), mv_type_ts = md_time (de_lib env) d\<rparr>"
      by (simp add: md_view_of_def dt s no)
    then have v: "md_view_of env d meta = Inr \<lparr>mv_data = d, mv_meta = None, mv_merged = d, mv_meta_ts = Some (md_time (de_lib env) d),
        mv_data_ts = Some (md_time (de_lib env) d), mv_type_ts = md_time (de_lib env) d\<rparr>" by (simp only: None)
    show thesis by (rule that [OF v]) (simp_all add: None)
  next
    case (Some m)
    with assms(3) have m: "valid_md (de_lib env) m" by simp
    obtain merged where merged: "merge_sections env d m = Inr merged"
      and look: "\<And>k. k \<noteq> ''Content-Type'' \<Longrightarrow> k \<noteq> ''Content-Type-Timestamp'' \<Longrightarrow> map_of merged k =
        (case map_of (sys_metadata env d) k of None \<Rightarrow> map_of m k | Some v \<Rightarrow> Some v)"
      and ct: "ct_pair merged = (if map_of d ''Content-Type'' \<noteq> None \<and> md_ctype (de_lib env) m < md_time (de_lib env) d
         then (map_of d ''Content-Type'', None) else ct_pair m)"
      by (rule merge_lookup [OF assms(1,2) m]) (rule that)
    have "map_of merged ''X-Timestamp'' = map_of m ''X-Timestamp''"
      using look [of "''X-Timestamp''"] user_keys_sys [OF assms(1)] by simp
    then have mt: "time_of (de_lib env) merged = Inr (Some (md_time (de_lib env) m))"
      using valid_times(1) [OF m] by (simp add: time_of_def)
    obtain u where u: "timestamp_of (de_lib env) (case map_of merged ''Content-Type-Timestamp'' of None \<Rightarrow> Some s | x \<Rightarrow> x) = Inr u"
      using ct s(2) m by (auto simp: ct_pair_def valid_md_def timestamp_of_def split: if_splits option.splits)
    have v: "md_view_of env d meta = Inr \<lparr>mv_data = d, mv_meta = meta, mv_merged = merged, mv_meta_ts = Some (md_time (de_lib env) m),
        mv_data_ts = Some (md_time (de_lib env) d), mv_type_ts = u\<rparr>"
      using u by (simp add: md_view_of_def Some merged mt dt s(1))
    show thesis by (rule that [OF v]) (simp_all add: Some merged)
  qed
qed

text \<open>What a POST makes of the section of an earlier one, for valid metadata.\<close>

definition post_merge :: "'t :: {linorder, order_bot} ts_lib \<Rightarrow> metadata \<Rightarrow> metadata \<Rightarrow> metadata" where
  "post_merge lib nw od =
     (if md_ctype lib nw < md_ctype lib od
      then AList.update ''Content-Type-Timestamp'' (the (map_of od ''Content-Type-Timestamp''))
             (AList.update ''Content-Type'' (the (map_of od ''Content-Type'')) nw)
      else nw)"

lemma ctype_given:
  assumes "valid_md lib m" and "bot < md_ctype lib m"
  shows "\<exists>c s. map_of m ''Content-Type'' = Some c \<and> map_of m ''Content-Type-Timestamp'' = Some s"
  using assms by (auto simp: valid_md_def md_ctype_def split: option.splits)

lemma post_merge_map_of:
  assumes "valid_md lib od"
  shows "k \<noteq> ''Content-Type'' \<Longrightarrow> k \<noteq> ''Content-Type-Timestamp'' \<Longrightarrow> map_of (post_merge lib nw od) k = map_of nw k"
    and "ct_pair (post_merge lib nw od) = (if md_ctype lib nw < md_ctype lib od then ct_pair od else ct_pair nw)"
proof -
  show "k \<noteq> ''Content-Type'' \<Longrightarrow> k \<noteq> ''Content-Type-Timestamp'' \<Longrightarrow> map_of (post_merge lib nw od) k = map_of nw k"
    by (simp add: post_merge_def)
  have "bot < md_ctype lib od" if "md_ctype lib nw < md_ctype lib od" using bot_least that by (rule le_less_trans)
  with ctype_given [OF assms] show "ct_pair (post_merge lib nw od) = (if md_ctype lib nw < md_ctype lib od then ct_pair od else ct_pair nw)"
    by (auto simp: post_merge_def ct_pair_def)
qed

lemma post_merge_valid:
  assumes "valid_md lib nw" and "valid_md lib od"
  shows "valid_md lib (post_merge lib nw od)"
proof -
  have k: "map_of (post_merge lib nw od) ''X-Timestamp'' = map_of nw ''X-Timestamp''"
    using post_merge_map_of(1) [OF assms(2), of "''X-Timestamp''" nw] by simp
  have "distinct (map fst (post_merge lib nw od))"
    using assms(1) by (simp add: post_merge_def valid_md_def distinct_update)
  moreover have "ct_pair (post_merge lib nw od) \<in> {ct_pair nw, ct_pair od}"
    using post_merge_map_of(2) [OF assms(2)] by simp
  ultimately show ?thesis using assms k by (auto simp: valid_md_def ct_pair_def split: option.splits)
qed

lemma md_post_eq:
  assumes "valid_md lib p" and "mv_data_ts v = Some t" and "case mv_meta v of None \<Rightarrow> True | Some m \<Rightarrow> valid_md lib m"
  shows "md_post lib (Some v) p =
    (if md_time lib p \<le> t then Inr None
     else case mv_meta v of
            None \<Rightarrow> Inr (Some \<lparr>sc_data = mv_data v, sc_meta = Some p\<rparr>)
          | Some m \<Rightarrow>
              (let m' = (if md_time lib m < md_time lib p then post_merge lib p m else post_merge lib m p)
               in Inr (if dict_eq m' m then None else Some \<lparr>sc_data = mv_data v, sc_meta = Some m'\<rparr>)))"
proof (cases "mv_meta v")
  case None
  have "dict_update [] p = p" using assms(1) by (simp add: valid_md_def)
  then show ?thesis
    using assms(2) None by (simp add: md_post_def valid_times [OF assms(1)] not_le)
next
  case (Some m)
  with assms(3) have m: "valid_md lib m" by simp
  have upd: "dict_update [] x = x" if "valid_md lib x" for x using that by (simp add: valid_md_def)
  have given: "(case (map_of x ''Content-Type'', map_of x ''Content-Type-Timestamp'') of
        (Some c, Some s) \<Rightarrow> Inr (AList.update ''Content-Type-Timestamp'' s (AList.update ''Content-Type'' c y)) | _ \<Rightarrow> Inl KeyError)
      = Inr (post_merge lib y x)" if "valid_md lib x" "md_ctype lib y < md_ctype lib x" for x y
    using ctype_given [OF that(1) le_less_trans [OF bot_least that(2)]] that(2) by (auto simp: post_merge_def)
  have f: "try_then (ctype_timestamp lib od) (\<lambda>ot. try_then (ctype_timestamp lib nw) (\<lambda>nt. try_then
      (if nt < ot
       then (case (map_of od ''Content-Type'', map_of od ''Content-Type-Timestamp'') of
               (Some c, Some s) \<Rightarrow> Inr (AList.update ''Content-Type-Timestamp'' s
                 (AList.update ''Content-Type'' c (dict_update [] nw)))
             | _ \<Rightarrow> Inl KeyError)
       else Inr (dict_update [] nw)) g)) = g (post_merge lib nw od)"
    if "valid_md lib od" "valid_md lib nw" for od nw and g :: "metadata \<Rightarrow> pyexc + sections option"
  proof (cases "md_ctype lib nw < md_ctype lib od")
    case True
    with given [OF that(1) True] show ?thesis
      by (simp only: valid_times [OF that(1)] valid_times [OF that(2)] upd [OF that(2)] try_then.simps if_True)
  next
    case False
    then show ?thesis
      by (simp only: valid_times [OF that(1)] valid_times [OF that(2)] upd [OF that(2)] try_then.simps if_False post_merge_def)
  qed
  have "md_time lib p \<le> t \<longleftrightarrow> \<not> t < md_time lib p" by (simp add: not_less)
  then show ?thesis
    by (cases "t < md_time lib p"; cases "md_time lib m < md_time lib p")
      (simp_all only: md_post_def option.case Some assms(2) valid_times(1) [OF assms(1)] valid_times(1) [OF m] later.simps
        try_then.simps f [OF m assms(1), unfolded prod.case] f [OF assms(1) m, unfolded prod.case] prod.case if_True if_False not_True_eq_False not_False_eq_True Let_def)
qed

lemma md_put_eq:
  assumes "valid_md lib d" and "case mv_meta v of None \<Rightarrow> True | Some m \<Rightarrow> valid_md lib m"
  shows "md_put lib (Some v) d = Inr \<lparr>sc_data = d, sc_meta =
    (case mv_meta v of None \<Rightarrow> None | Some m \<Rightarrow> if md_time lib d < md_time lib m then Some m else None)\<rparr>"
  using assms by (auto simp: md_put_def valid_times(1) split: option.split)

section \<open>Convergence\<close>

text \<open>
  What the sections hold after a set of requests: the newest PUT; no POST section exactly when no POST is newer;
  else the newest POST, with the newest content type among some POSTs that include all the newer ones.
\<close>

definition puts_of :: "metadata \<Rightarrow> md_request set \<Rightarrow> metadata set" where
  "puts_of d0 R = insert d0 {d. MdPut d \<in> R}"

definition posts_of :: "md_request set \<Rightarrow> metadata set" where
  "posts_of R = {p. MdPost p \<in> R}"

definition newer_posts :: "'t :: {linorder, order_bot} ts_lib \<Rightarrow> md_request set \<Rightarrow> metadata \<Rightarrow> metadata set" where
  "newer_posts lib R d = {p \<in> posts_of R. md_time lib d < md_time lib p}"

definition best_ctype :: "'t :: {linorder, order_bot} ts_lib \<Rightarrow> metadata set \<Rightarrow> metadata \<Rightarrow> bool" where
  "best_ctype lib A m \<longleftrightarrow> (\<exists>a \<in> A. ct_pair m = ct_pair a \<and> (\<forall>b \<in> A. md_ctype lib b \<le> md_ctype lib a))"

definition same_but_ctype :: "metadata \<Rightarrow> metadata \<Rightarrow> bool" where
  "same_but_ctype m q \<longleftrightarrow> (\<forall>k. k \<noteq> ''Content-Type'' \<longrightarrow> k \<noteq> ''Content-Type-Timestamp'' \<longrightarrow> map_of m k = map_of q k)"

definition meta_inv :: "'t :: {linorder, order_bot} ts_lib \<Rightarrow> md_request set \<Rightarrow> metadata \<Rightarrow> metadata option \<Rightarrow> bool" where
  "meta_inv lib R d meta \<longleftrightarrow>
     (case meta of
        None \<Rightarrow> newer_posts lib R d = {}
      | Some m \<Rightarrow> valid_md lib m \<and>
          (\<exists>q \<in> newer_posts lib R d. same_but_ctype m q \<and> (\<forall>p \<in> newer_posts lib R d. md_time lib p \<le> md_time lib q)) \<and>
          (\<exists>A. newer_posts lib R d \<subseteq> A \<and> A \<subseteq> posts_of R \<and> best_ctype lib A m))"

definition md_inv :: "'t :: {linorder, order_bot} ts_lib \<Rightarrow> metadata \<Rightarrow> md_request set \<Rightarrow> sections \<Rightarrow> bool" where
  "md_inv lib d0 R s \<longleftrightarrow>
     sc_data s \<in> puts_of d0 R \<and> (\<forall>d \<in> puts_of d0 R. md_time lib d \<le> md_time lib (sc_data s)) \<and>
     meta_inv lib R (sc_data s) (sc_meta s)"

lemma same_time: "same_but_ctype m q \<Longrightarrow> md_time lib m = md_time lib q"
  by (rule map_of_time) (simp add: same_but_ctype_def)

lemma best_ctype_insert:
  assumes "best_ctype lib A m" and "ct_pair m' = (if md_ctype lib m < md_ctype lib p then ct_pair p else ct_pair m)"
  shows "best_ctype lib (insert p A) m'"
proof -
  obtain a where a: "a \<in> A" "ct_pair m = ct_pair a" "\<forall>b \<in> A. md_ctype lib b \<le> md_ctype lib a"
    using assms(1) by (auto simp: best_ctype_def)
  have m: "md_ctype lib m = md_ctype lib a" using a(2) by (rule ct_pair_ctype)
  show ?thesis
  proof (cases "md_ctype lib m < md_ctype lib p")
    case True
    with a(3) m have "\<forall>b \<in> A. md_ctype lib b \<le> md_ctype lib p" by (metis order.strict_implies_order order_trans)
    with True assms(2) show ?thesis unfolding best_ctype_def by (intro bexI [of _ p]) auto
  next
    case False
    with a m assms(2) show ?thesis unfolding best_ctype_def by (intro bexI [of _ a]) auto
  qed
qed

lemma best_ctype_insert':
  assumes "best_ctype lib A m" and "ct_pair m' = (if md_ctype lib p < md_ctype lib m then ct_pair m else ct_pair p)"
  shows "best_ctype lib (insert p A) m'"
proof -
  obtain a where a: "a \<in> A" "ct_pair m = ct_pair a" "\<forall>b \<in> A. md_ctype lib b \<le> md_ctype lib a"
    using assms(1) by (auto simp: best_ctype_def)
  have m: "md_ctype lib m = md_ctype lib a" using a(2) by (rule ct_pair_ctype)
  show ?thesis
  proof (cases "md_ctype lib p < md_ctype lib m")
    case True
    with a m assms(2) show ?thesis unfolding best_ctype_def by (intro bexI [of _ a]) auto
  next
    case False
    with a(3) m have "\<forall>b \<in> A. md_ctype lib b \<le> md_ctype lib p" by (metis not_le order.trans order.order_iff_strict)
    with False assms(2) show ?thesis unfolding best_ctype_def by (intro bexI [of _ p]) auto
  qed
qed

lemma posts_of_insert [simp]:
  "posts_of (insert (MdPost p) R) = insert p (posts_of R)" "posts_of (insert (MdPut d) R) = posts_of R"
  by (auto simp: posts_of_def)

lemma puts_of_insert [simp]:
  "puts_of d0 (insert (MdPut d) R) = insert d (puts_of d0 R)" "puts_of d0 (insert (MdPost p) R) = puts_of d0 R"
  by (auto simp: puts_of_def)

lemma newer_posts_insert [simp]:
  "newer_posts lib (insert (MdPost p) R) d = (if md_time lib d < md_time lib p then insert p (newer_posts lib R d) else newer_posts lib R d)"
  "newer_posts lib (insert (MdPut d') R) d = newer_posts lib R d"
  by (auto simp: newer_posts_def)

lemma put_step_inv:
  assumes "md_inv lib d0 R s" and "\<not> md_time lib d \<le> md_time lib (sc_data s)"
  shows "md_inv lib d0 (insert (MdPut d) R) \<lparr>sc_data = d, sc_meta =
    (case sc_meta s of None \<Rightarrow> None | Some m \<Rightarrow> if md_time lib d < md_time lib m then Some m else None)\<rparr>"
proof -
  have sub: "newer_posts lib R d \<subseteq> newer_posts lib R (sc_data s)" using assms(2) by (auto simp: newer_posts_def)
  have "meta_inv lib (insert (MdPut d) R) d
      (case sc_meta s of None \<Rightarrow> None | Some m \<Rightarrow> if md_time lib d < md_time lib m then Some m else None)"
  proof (cases "sc_meta s")
    case None
    with assms(1) sub show ?thesis by (simp add: md_inv_def meta_inv_def)
  next
    case (Some m)
    with assms(1) obtain q A where m: "valid_md lib m" and q: "q \<in> newer_posts lib R (sc_data s)" "same_but_ctype m q"
      "\<forall>p \<in> newer_posts lib R (sc_data s). md_time lib p \<le> md_time lib q"
      and A: "newer_posts lib R (sc_data s) \<subseteq> A" "A \<subseteq> posts_of R" "best_ctype lib A m"
      by (auto simp: md_inv_def meta_inv_def)
    have t: "md_time lib m = md_time lib q" using q(2) by (rule same_time)
    show ?thesis
    proof (cases "md_time lib d < md_time lib m")
      case True
      then have "q \<in> newer_posts lib R d" using q(1) t by (simp add: newer_posts_def)
      with True Some m q sub A show ?thesis by (auto simp: meta_inv_def)
    next
      case False
      then have "newer_posts lib R d = {}" using q(3) sub t by (force simp: newer_posts_def)
      with False Some show ?thesis by (simp add: meta_inv_def)
    qed
  qed
  moreover have "\<forall>x \<in> puts_of d0 R. md_time lib x \<le> md_time lib d"
    using assms by (auto simp: md_inv_def)
  ultimately show ?thesis by (simp add: md_inv_def)
qed

lemma stale_step_inv:
  assumes "md_inv lib d0 R s"
  shows "md_time lib d \<le> md_time lib (sc_data s) \<Longrightarrow> md_inv lib d0 (insert (MdPut d) R) s"
    and "md_time lib p \<le> md_time lib (sc_data s) \<Longrightarrow> md_inv lib d0 (insert (MdPost p) R) s"
  using assms by (auto simp: md_inv_def meta_inv_def split: option.splits)

lemma meta_inv_cong:
  assumes "meta_inv lib R d (Some m)" and "map_of m = map_of m'" and "valid_md lib m'"
  shows "meta_inv lib R d (Some m')"
  using assms by (simp add: meta_inv_def same_but_ctype_def best_ctype_def ct_pair_def)

lemma post_step_inv:
  assumes "md_inv lib d0 R s" and "valid_md lib p" and "md_time lib (sc_data s) < md_time lib p"
  shows "meta_inv lib (insert (MdPost p) R) (sc_data s) (Some (case sc_meta s of
      None \<Rightarrow> p | Some m \<Rightarrow> if md_time lib m < md_time lib p then post_merge lib p m else post_merge lib m p))"
proof (cases "sc_meta s")
  case None
  with assms have "newer_posts lib R (sc_data s) = {}" by (simp add: md_inv_def meta_inv_def)
  with None assms(2,3) show ?thesis
    by (auto simp: meta_inv_def same_but_ctype_def best_ctype_def intro: exI [of _ "{p}"])
next
  case (Some m)
  with assms(1) obtain q A where m: "valid_md lib m" and q: "q \<in> newer_posts lib R (sc_data s)" "same_but_ctype m q"
    "\<forall>p \<in> newer_posts lib R (sc_data s). md_time lib p \<le> md_time lib q"
    and A: "newer_posts lib R (sc_data s) \<subseteq> A" "A \<subseteq> posts_of R" "best_ctype lib A m"
    by (auto simp: md_inv_def meta_inv_def)
  have t: "md_time lib m = md_time lib q" using q(2) by (rule same_time)
  show ?thesis
  proof (cases "md_time lib m < md_time lib p")
    case True
    have "best_ctype lib (insert p A) (post_merge lib p m)"
      by (rule best_ctype_insert' [OF A(3)]) (simp add: post_merge_map_of(2) [OF m])
    moreover have "same_but_ctype (post_merge lib p m) p" using post_merge_map_of(1) [OF m] by (simp add: same_but_ctype_def)
    moreover have "\<forall>x \<in> newer_posts lib R (sc_data s). md_time lib x \<le> md_time lib p"
      using q(3) t True by (metis le_less_trans less_imp_le)
    ultimately show ?thesis
      using Some True assms(3) A(1,2) post_merge_valid [OF assms(2) m]
      by (auto simp: meta_inv_def intro!: exI [of _ "insert p A"])
  next
    case False
    have "best_ctype lib (insert p A) (post_merge lib m p)"
      by (rule best_ctype_insert [OF A(3)]) (simp add: post_merge_map_of(2) [OF assms(2)])
    moreover have "same_but_ctype (post_merge lib m p) q"
      using post_merge_map_of(1) [OF assms(2), of _ m] q(2) by (simp add: same_but_ctype_def)
    ultimately show ?thesis
      using Some False assms(3) A(1,2) q t post_merge_valid [OF m assms(2)]
      by (auto simp: meta_inv_def intro!: exI [of _ "insert p A"] bexI [of _ q])
  qed
qed

fun valid_request :: "'t :: {linorder, order_bot} ts_lib \<Rightarrow> md_request \<Rightarrow> bool" where
  "valid_request lib (MdPut d) = valid_put lib d"
| "valid_request lib (MdPost p) = valid_post lib p"

fun request_time :: "'t :: {linorder, order_bot} ts_lib \<Rightarrow> md_request \<Rightarrow> 't" where
  "request_time lib (MdPut d) = md_time lib d"
| "request_time lib (MdPost p) = md_time lib p"

lemma md_step_inv:
  assumes "user_keys env" and "md_inv (de_lib env) d0 R s" and "\<forall>rq \<in> insert (MdPut d0) R. valid_request (de_lib env) rq"
    and "valid_request (de_lib env) rq"
  shows "\<exists>s'. md_step env s rq = Inr s' \<and> md_inv (de_lib env) d0 (insert rq R) s'"
proof -
  let ?lib = "de_lib env"
  have d: "valid_put ?lib (sc_data s)" using assms(2,3) by (auto simp: md_inv_def puts_of_def)
  have m: "case sc_meta s of None \<Rightarrow> True | Some m \<Rightarrow> valid_md ?lib m"
    using assms(2) by (simp add: md_inv_def meta_inv_def split: option.splits)
  obtain v where v: "md_view_of env (sc_data s) (sc_meta s) = Inr v" "mv_data v = sc_data s" "mv_meta v = sc_meta s"
    "mv_data_ts v = Some (md_time ?lib (sc_data s))"
    by (rule view_exists [OF assms(1) d m]) (rule that)
  show ?thesis
  proof (cases rq)
    case (MdPut e)
    with assms(4) have e: "valid_md ?lib e" by (simp add: valid_put_def)
    show ?thesis
    proof (cases "md_time ?lib e \<le> md_time ?lib (sc_data s)")
      case True
      then show ?thesis using stale_step_inv(1) [OF assms(2) True] by (simp add: md_step_def v MdPut)
    next
      case False
      then show ?thesis
        using put_step_inv [OF assms(2) False] md_put_eq [OF e, of v] m by (simp add: md_step_def v MdPut)
    qed
  next
    case (MdPost p)
    with assms(4) have p: "valid_md ?lib p" by (simp add: valid_post_def)
    have mv: "case mv_meta v of None \<Rightarrow> True | Some m \<Rightarrow> valid_md ?lib m" using m by (simp add: v)
    note post = md_post_eq [OF p v(4) mv]
    have step: "md_step env s rq = try_then (md_post ?lib (Some v) p) (\<lambda>r. Inr (case r of None \<Rightarrow> s | Some s' \<Rightarrow> s'))"
      by (simp only: md_step_def v(1) try_then.simps MdPost md_request.case)
    show ?thesis
    proof (cases "md_time ?lib p \<le> md_time ?lib (sc_data s)")
      case True
      then show ?thesis using stale_step_inv(2) [OF assms(2) True] post by (simp add: step) (simp add: MdPost)
    next
      case False
      then have lt: "md_time ?lib (sc_data s) < md_time ?lib p" by simp
      note inv = post_step_inv [OF assms(2) p lt]
      have puts: "sc_data s \<in> puts_of d0 (insert rq R)" "\<forall>d \<in> puts_of d0 (insert rq R). md_time ?lib d \<le> md_time ?lib (sc_data s)"
        using assms(2) by (simp_all add: md_inv_def MdPost)
      show ?thesis
      proof (cases "sc_meta s")
        case None
        then show ?thesis
          using post False inv puts by (simp add: step v None md_inv_def) (simp add: MdPost)
      next
        case (Some m')
        define m2 where "m2 = (if md_time ?lib m' < md_time ?lib p then post_merge ?lib p m' else post_merge ?lib m' p)"
        have inv2: "meta_inv ?lib (insert (MdPost p) R) (sc_data s) (Some m2)" using inv by (simp add: Some m2_def)
        have po: "md_post ?lib (Some v) p = Inr (if dict_eq m2 m' then None else Some \<lparr>sc_data = sc_data s, sc_meta = Some m2\<rparr>)"
          using post False by (simp add: v Some m2_def Let_def)
        show ?thesis
        proof (cases "dict_eq m2 m'")
          case True
          then have "map_of m2 = map_of m'" by (simp add: dict_eq_map_of)
          from meta_inv_cong [OF inv2 this] m Some have "meta_inv ?lib (insert rq R) (sc_data s) (sc_meta s)" by (simp add: MdPost)
          with puts show ?thesis by (simp add: step po True md_inv_def)
        next
          case False
          then show ?thesis using inv2 [folded MdPost] puts by (simp add: step po md_inv_def)
        qed
      qed
    qed
  qed
qed

lemma md_run_inv:
  assumes "user_keys env" and "md_inv (de_lib env) d0 R s" and "\<forall>rq \<in> insert (MdPut d0) (R \<union> set rqs). valid_request (de_lib env) rq"
  shows "\<exists>s'. md_run env s rqs = Inr s' \<and> md_inv (de_lib env) d0 (R \<union> set rqs) s'"
  using assms(2,3)
proof (induction rqs arbitrary: R s)
  case (Cons rq rqs)
  have ok: "\<forall>rq \<in> insert (MdPut d0) R. valid_request (de_lib env) rq" and rq: "valid_request (de_lib env) rq"
    using Cons.prems(2) by auto
  obtain s1 where s1: "md_step env s rq = Inr s1" "md_inv (de_lib env) d0 (insert rq R) s1"
    using md_step_inv [OF assms(1) Cons.prems(1) ok rq] by blast
  have "\<exists>s'. md_run env s1 rqs = Inr s' \<and> md_inv (de_lib env) d0 (insert rq R \<union> set rqs) s'"
    by (rule Cons.IH [OF s1(2)]) (use Cons.prems(2) in auto)
  with s1(1) show ?case by simp
qed simp

text \<open>What is seen of an object: a deletion's own metadata, or the merged metadata.\<close>

definition same_view :: "'t md_view \<Rightarrow> 't md_view \<Rightarrow> bool" where
  "same_view v w \<longleftrightarrow> mv_data v = mv_data w \<and>
     (map_of (mv_data v) ''Content-Type'' \<noteq> None \<longrightarrow> map_of (mv_merged v) = map_of (mv_merged w))"

definition distinct_times :: "'t :: {linorder, order_bot} ts_lib \<Rightarrow> md_request set \<Rightarrow> bool" where
  "distinct_times lib R \<longleftrightarrow> (\<forall>x \<in> R. \<forall>y \<in> R. request_time lib x = request_time lib y \<longrightarrow> x = y)"

definition ctypes_agree :: "'t :: {linorder, order_bot} ts_lib \<Rightarrow> metadata set \<Rightarrow> bool" where
  "ctypes_agree lib P \<longleftrightarrow> (\<forall>p \<in> P. \<forall>q \<in> P. md_ctype lib p = md_ctype lib q \<longrightarrow> ct_pair p = ct_pair q)"

lemma best_ctype_agrees:
  assumes "best_ctype lib A m" and "best_ctype lib B n" and "Q \<subseteq> A" and "Q \<subseteq> B" and "A \<union> B \<subseteq> P" and "ctypes_agree lib P"
    and "\<forall>p \<in> P - Q. md_ctype lib p < t" and "\<not> md_ctype lib m < t"
  shows "ct_pair m = ct_pair n"
proof -
  obtain a where a: "a \<in> A" "ct_pair m = ct_pair a" "\<forall>x \<in> A. md_ctype lib x \<le> md_ctype lib a"
    using assms(1) by (auto simp: best_ctype_def)
  obtain b where b: "b \<in> B" "ct_pair n = ct_pair b" "\<forall>x \<in> B. md_ctype lib x \<le> md_ctype lib b"
    using assms(2) by (auto simp: best_ctype_def)
  have ma: "md_ctype lib m = md_ctype lib a" using a(2) by (rule ct_pair_ctype)
  have aQ: "a \<in> Q" using a(1) assms(5,7,8) ma by fastforce
  then have ab: "md_ctype lib a \<le> md_ctype lib b" using assms(4) b(3) by blast
  have "b \<in> Q"
  proof (rule ccontr)
    assume "b \<notin> Q"
    then have "md_ctype lib b < t" using b(1) assms(5,7) by blast
    with ab ma assms(8) show False by (simp add: not_less)
  qed
  then have "md_ctype lib b \<le> md_ctype lib a" using assms(3) a(3) by blast
  with ab have "md_ctype lib a = md_ctype lib b" by (rule antisym)
  then show ?thesis using assms(5,6) a(1,2) b(1,2) by (auto simp: ctypes_agree_def)
qed

lemma same_inv_same_view:
  assumes "user_keys env" and inv: "md_inv (de_lib env) d0 R s" "md_inv (de_lib env) d0 R s'"
    and valid: "\<forall>rq \<in> insert (MdPut d0) R. valid_request (de_lib env) rq"
    and "distinct_times (de_lib env) (insert (MdPut d0) R)" and "ctypes_agree (de_lib env) (posts_of R)"
  shows "\<exists>v w. md_view_of env (sc_data s) (sc_meta s) = Inr v \<and> md_view_of env (sc_data s') (sc_meta s') = Inr w \<and> same_view v w"
proof -
  let ?lib = "de_lib env"
  have "MdPut (sc_data s) \<in> insert (MdPut d0) R" "MdPut (sc_data s') \<in> insert (MdPut d0) R"
    using inv by (auto simp: md_inv_def puts_of_def)
  moreover have "md_time ?lib (sc_data s) = md_time ?lib (sc_data s')"
    using inv by (intro antisym) (simp_all add: md_inv_def)
  ultimately have d: "sc_data s' = sc_data s"
    using assms(5) unfolding distinct_times_def by (metis md_request.inject(1) request_time.simps(1))
  have dv: "valid_put ?lib (sc_data s)" using inv(1) valid by (auto simp: md_inv_def puts_of_def)
  let ?Q = "newer_posts ?lib R (sc_data s)"
  have mi: "meta_inv ?lib R (sc_data s) (sc_meta s)" "meta_inv ?lib R (sc_data s) (sc_meta s')"
    using inv by (simp_all add: md_inv_def d)
  have mv: "case sc_meta s of None \<Rightarrow> True | Some m \<Rightarrow> valid_md ?lib m" "case sc_meta s' of None \<Rightarrow> True | Some m \<Rightarrow> valid_md ?lib m"
    using mi by (simp_all add: meta_inv_def split: option.splits)
  obtain v where v: "md_view_of env (sc_data s) (sc_meta s) = Inr v" "mv_data v = sc_data s"
    "sc_meta s = None \<Longrightarrow> mv_merged v = sc_data s" "\<And>m. sc_meta s = Some m \<Longrightarrow> merge_sections env (sc_data s) m = Inr (mv_merged v)"
    by (rule view_exists [OF assms(1) dv mv(1)]) (rule that)
  obtain w where w: "md_view_of env (sc_data s) (sc_meta s') = Inr w" "mv_data w = sc_data s"
    "sc_meta s' = None \<Longrightarrow> mv_merged w = sc_data s" "\<And>m. sc_meta s' = Some m \<Longrightarrow> merge_sections env (sc_data s) m = Inr (mv_merged w)"
    by (rule view_exists [OF assms(1) dv mv(2)]) (rule that)
  have "map_of (mv_merged v) = map_of (mv_merged w)" if ct: "map_of (sc_data s) ''Content-Type'' \<noteq> None"
  proof (cases "sc_meta s")
    case None
    then have "?Q = {}" using mi(1) by (simp add: meta_inv_def)
    then have "sc_meta s' = None" using mi(2) by (auto simp: meta_inv_def split: option.splits)
    with None v(3) w(3) show ?thesis by simp
  next
    case (Some m)
    then have "?Q \<noteq> {}" using mi(1) by (auto simp: meta_inv_def)
    then obtain n where n: "sc_meta s' = Some n" using mi(2) by (cases "sc_meta s'") (simp_all add: meta_inv_def)
    obtain q A where q: "q \<in> ?Q" "same_but_ctype m q" "\<forall>p \<in> ?Q. md_time ?lib p \<le> md_time ?lib q"
      and A: "?Q \<subseteq> A" "A \<subseteq> posts_of R" "best_ctype ?lib A m"
      using mi(1) by (auto simp: meta_inv_def Some)
    obtain q' B where q': "q' \<in> ?Q" "same_but_ctype n q'" "\<forall>p \<in> ?Q. md_time ?lib p \<le> md_time ?lib q'"
      and B: "?Q \<subseteq> B" "B \<subseteq> posts_of R" "best_ctype ?lib B n"
      using mi(2) by (auto simp: meta_inv_def n)
    have "md_time ?lib q = md_time ?lib q'" using q(1,3) q'(1,3) by (intro antisym) blast+
    moreover have "MdPost q \<in> R" "MdPost q' \<in> R" using q(1) q'(1) by (auto simp: newer_posts_def posts_of_def)
    ultimately have "q' = q" using assms(5) unfolding distinct_times_def
      by (metis insertCI md_request.inject(2) request_time.simps(2))
    then have mn: "map_of m k = map_of n k" if "k \<noteq> ''Content-Type''" "k \<noteq> ''Content-Type-Timestamp''" for k
      using q(2) q'(2) that by (simp add: same_but_ctype_def)
    have old: "\<forall>p \<in> posts_of R - ?Q. md_ctype ?lib p < md_time ?lib (sc_data s)"
    proof
      fix p assume p: "p \<in> posts_of R - ?Q"
      then have "md_ctype ?lib p \<le> md_time ?lib p" using valid by (auto simp: posts_of_def valid_post_def)
      moreover have "md_time ?lib p \<le> md_time ?lib (sc_data s)" using p by (auto simp: newer_posts_def)
      moreover have "md_time ?lib p \<noteq> md_time ?lib (sc_data s)"
        using p \<open>MdPut (sc_data s) \<in> insert (MdPut d0) R\<close> assms(5) unfolding distinct_times_def posts_of_def
        by (metis (no_types, lifting) DiffD1 insertCI md_request.distinct(1) mem_Collect_eq request_time.simps(1) request_time.simps(2))
      ultimately show "md_ctype ?lib p < md_time ?lib (sc_data s)" by order
    qed
    have c: "md_ctype ?lib m < md_time ?lib (sc_data s) \<longleftrightarrow> md_ctype ?lib n < md_time ?lib (sc_data s)"
      "\<not> md_ctype ?lib m < md_time ?lib (sc_data s) \<Longrightarrow> ct_pair m = ct_pair n"
    proof -
      have 1: "ct_pair m = ct_pair n" if "\<not> md_ctype ?lib m < md_time ?lib (sc_data s)"
        using best_ctype_agrees [OF A(3) B(3) A(1) B(1) _ assms(6) old that] A(2) B(2) by blast
      have 2: "ct_pair n = ct_pair m" if "\<not> md_ctype ?lib n < md_time ?lib (sc_data s)"
        using best_ctype_agrees [OF B(3) A(3) B(1) A(1) _ assms(6) old that] A(2) B(2) by blast
      show "md_ctype ?lib m < md_time ?lib (sc_data s) \<longleftrightarrow> md_ctype ?lib n < md_time ?lib (sc_data s)"
        using ct_pair_ctype [OF 1, of ?lib] ct_pair_ctype [OF 2, of ?lib] by metis
      show "\<not> md_ctype ?lib m < md_time ?lib (sc_data s) \<Longrightarrow> ct_pair m = ct_pair n" by (rule 1)
    qed
    have vm: "valid_md ?lib m" and vn: "valid_md ?lib n" using mv Some n by simp_all
    obtain x where x: "merge_sections env (sc_data s) m = Inr x"
      "\<And>k. k \<noteq> ''Content-Type'' \<Longrightarrow> k \<noteq> ''Content-Type-Timestamp'' \<Longrightarrow> map_of x k =
         (case map_of (sys_metadata env (sc_data s)) k of None \<Rightarrow> map_of m k | Some v \<Rightarrow> Some v)"
      "ct_pair x = (if map_of (sc_data s) ''Content-Type'' \<noteq> None \<and> md_ctype ?lib m < md_time ?lib (sc_data s)
         then (map_of (sc_data s) ''Content-Type'', None) else ct_pair m)"
      by (rule merge_lookup [OF assms(1) dv vm]) (rule that)
    obtain y where y: "merge_sections env (sc_data s) n = Inr y"
      "\<And>k. k \<noteq> ''Content-Type'' \<Longrightarrow> k \<noteq> ''Content-Type-Timestamp'' \<Longrightarrow> map_of y k =
         (case map_of (sys_metadata env (sc_data s)) k of None \<Rightarrow> map_of n k | Some v \<Rightarrow> Some v)"
      "ct_pair y = (if map_of (sc_data s) ''Content-Type'' \<noteq> None \<and> md_ctype ?lib n < md_time ?lib (sc_data s)
         then (map_of (sc_data s) ''Content-Type'', None) else ct_pair n)"
      by (rule merge_lookup [OF assms(1) dv vn]) (rule that)
    have "ct_pair x = ct_pair y" using x(3) y(3) ct c by auto
    then have ct2: "map_of x ''Content-Type'' = map_of y ''Content-Type''"
      "map_of x ''Content-Type-Timestamp'' = map_of y ''Content-Type-Timestamp''" by (simp_all add: ct_pair_def)
    have "map_of x k = map_of y k" for k
    proof (cases "k = ''Content-Type'' \<or> k = ''Content-Type-Timestamp''")
      case True
      with ct2 show ?thesis by metis
    next
      case False
      then have k: "k \<noteq> ''Content-Type''" "k \<noteq> ''Content-Type-Timestamp''" by blast+
      show ?thesis by (simp only: x(2) [OF k] y(2) [OF k] mn [OF k])
    qed
    then have "map_of x = map_of y" by (rule ext)
    then show ?thesis using v(4) [OF Some] w(4) [OF n] x(1) y(1) by simp
  qed
  then show ?thesis using v(1,2) w(1,2) by (auto simp: d same_view_def)
qed

text \<open>C16: Two servers that start from the same PUT and get the same PUTs, DELETEs and POSTs in any order, some of them
  perhaps more than once, show the same object: the newest PUT with the metadata of the newest POST after it and
  the newest content type, or the newest deletion.\<close>

theorem requests_commute:
  assumes "user_keys env" and "set rqs = set rqs'" and "\<forall>rq \<in> insert (MdPut d0) (set rqs). valid_request (de_lib env) rq"
    and "distinct_times (de_lib env) (insert (MdPut d0) (set rqs))" and "ctypes_agree (de_lib env) (posts_of (set rqs))"
  shows "\<exists>s s' v w. md_run env \<lparr>sc_data = d0, sc_meta = None\<rparr> rqs = Inr s \<and> md_run env \<lparr>sc_data = d0, sc_meta = None\<rparr> rqs' = Inr s' \<and>
     md_view_of env (sc_data s) (sc_meta s) = Inr v \<and> md_view_of env (sc_data s') (sc_meta s') = Inr w \<and> same_view v w"
proof -
  have start: "md_inv (de_lib env) d0 {} \<lparr>sc_data = d0, sc_meta = None\<rparr>"
    by (simp add: md_inv_def puts_of_def meta_inv_def newer_posts_def posts_of_def)
  obtain s where s: "md_run env \<lparr>sc_data = d0, sc_meta = None\<rparr> rqs = Inr s" "md_inv (de_lib env) d0 (set rqs) s"
    using md_run_inv [OF assms(1) start, of rqs] assms(3) by auto
  obtain s' where s': "md_run env \<lparr>sc_data = d0, sc_meta = None\<rparr> rqs' = Inr s'" "md_inv (de_lib env) d0 (set rqs) s'"
    using md_run_inv [OF assms(1) start, of rqs'] assms(2,3) by auto
  show ?thesis using same_inv_same_view [OF assms(1) s(2) s'(2) assms(3-5)] s(1) s'(1) by blast
qed

section \<open>An example\<close>

definition sample_data :: "string \<Rightarrow> metadata" where
  "sample_data t = [(''X-Timestamp'', t), (''Content-Type'', ''text/plain''), (''ETag'', ''e'' @ t)]"

definition sample_post :: "string \<Rightarrow> string option \<Rightarrow> metadata" where
  "sample_post t c = [(''X-Timestamp'', t), (''X-Object-Meta-At'', t)] @
     (case c of None \<Rightarrow> [] | Some c \<Rightarrow> [(''Content-Type'', c), (''Content-Type-Timestamp'', t)])"

lemma sample_parse_simps [simp]:
  "sample_parse ''1'' = Some 1" "sample_parse ''5'' = Some 5" "sample_parse ''6'' = Some 6" "sample_parse ''7'' = Some 7"
  by code_simp+

theorem merge_agrees_with_reference_witness:
  "merge_sections sample_df_env (sample_data ''6'') (sample_post ''7'' None) =
     merged_metadata sample_df_env (sample_df\<lparr>df_datafile := Some (sample_data ''6'')\<rparr>) (sample_data ''6'') (sample_post ''7'' None)"
  by (rule merge_agrees_with_reference [where s = "''6''" and t = 6])
    (simp_all add: sample_data_def sample_post_def sample_df_env_def sample_lib_def bot_nat_def)

definition sample_rqs :: "md_request list" where
  "sample_rqs = [MdPost (sample_post ''5'' (Some ''text/html'')), MdPut (sample_data ''6''), MdPost (sample_post ''7'' None)]"

theorem requests_commute_witness:
  "\<exists>s s' v w. md_run sample_df_env \<lparr>sc_data = sample_data ''1'', sc_meta = None\<rparr> sample_rqs = Inr s \<and>
     md_run sample_df_env \<lparr>sc_data = sample_data ''1'', sc_meta = None\<rparr> (rev sample_rqs @ sample_rqs) = Inr s' \<and>
     md_view_of sample_df_env (sc_data s) (sc_meta s) = Inr v \<and> md_view_of sample_df_env (sc_data s') (sc_meta s') = Inr w \<and>
     same_view v w"
proof -
  have t: "md_time sample_lib (sample_data ''1'') = 1" "md_time sample_lib (sample_data ''6'') = 6"
    "md_time sample_lib (sample_post ''5'' (Some ''text/html'')) = 5" "md_time sample_lib (sample_post ''7'' None) = 7"
    "md_ctype sample_lib (sample_post ''5'' (Some ''text/html'')) = 5" "md_ctype sample_lib (sample_post ''7'' None) = 0"
    by (simp_all add: md_time_def md_ctype_def sample_data_def sample_post_def sample_lib_def bot_nat_def)
  have l: "de_lib sample_df_env = sample_lib" by (simp add: sample_df_env_def)
  have u: "user_keys sample_df_env" by (simp add: user_keys_def sample_df_env_def)
  have e: "set sample_rqs = set (rev sample_rqs @ sample_rqs)" by simp
  have ok: "\<forall>rq \<in> insert (MdPut (sample_data ''1'')) (set sample_rqs). valid_request (de_lib sample_df_env) rq"
    by (auto simp: sample_rqs_def valid_put_def valid_post_def t l)
      (simp_all add: valid_md_def sample_data_def sample_post_def sample_lib_def)
  have d: "distinct_times (de_lib sample_df_env) (insert (MdPut (sample_data ''1'')) (set sample_rqs))"
    by (simp add: distinct_times_def sample_rqs_def t l)
  have c: "ctypes_agree (de_lib sample_df_env) (posts_of (set sample_rqs))"
    by (auto simp: ctypes_agree_def posts_of_def sample_rqs_def t l)
  show ?thesis by (rule requests_commute [OF u e ok d c])
qed

end
