(* ===== verification/BsDevice.thy ===== *)
theory BsDevice
  imports BsReads BsMetadata
begin

text \<open>
  \<^verbatim>\<open>bluestore/src/bluestore\<close>: \<^verbatim>\<open>device.py\<close>, \<^verbatim>\<open>diskfile.py\<close>, \<^verbatim>\<open>writer.py\<close>, \<^verbatim>\<open>reader.py\<close> and \<^verbatim>\<open>manager.py\<close>, as functions over
  the state of a Device.  They run here with nothing in between but what a sleeping retry lets in; the steps they
  are made of are those of \<open>BsSystem\<close>, where they interleave.
\<close>

section \<open>The Device\<close>

text \<open>
  \<^verbatim>\<open>BluestoreDevice\<close>: its engine, the map of Objects (a \<^verbatim>\<open>WeakValueDictionary\<close>: an entry counts while its Object is
  alive) and the metadata versions.  \<open>None\<close> as a result: BlueStore killed the process, or a loop does not end.
\<close>

record device =
  dv_eng :: engine
  dv_objects :: "string \<Rightarrow> nat option"
  dv_versions :: "nat \<Rightarrow> nat"

datatype dev_exc = Engine bs_error | Py pyexc

type_synonym 'a dev_result = "(device \<times> (dev_exc + 'a)) option"

text \<open>
  What is used of the surroundings: BlueStore, the metadata rules' environment, JSON, \<^verbatim>\<open>disk_chunk_size\<close>, what other
  requests do while a retry sleeps, and \<^verbatim>\<open>Timestamp.raw\<close>.
\<close>

record 't dev_env =
  ev_ap :: "txop \<Rightarrow> bstore \<Rightarrow> bstore option"
  ev_md :: "'t df_env"
  ev_js :: json_lib
  ev_chunk :: nat
  ev_sleep :: "nat \<Rightarrow> device \<Rightarrow> device"
  ev_raw :: "'t \<Rightarrow> nat"

fun dev_then :: "'a dev_result \<Rightarrow> ('a \<Rightarrow> device \<Rightarrow> 'b dev_result) \<Rightarrow> 'b dev_result" where
  "dev_then None f = None"
| "dev_then (Some (d, Inl x)) f = Some (d, Inl x)"
| "dev_then (Some (d, Inr a)) f = f a d"

definition on_engine :: "(engine \<Rightarrow> engine \<times> (bs_error + 'a)) \<Rightarrow> device \<Rightarrow> 'a dev_result" where
  "on_engine f d = (let (e, r) = f (dv_eng d) in Some (d\<lparr>dv_eng := e\<rparr>, map_sum Engine id r))"

definition of_python :: "pyexc + 'a \<Rightarrow> device \<Rightarrow> 'a dev_result" where
  "of_python r d = Some (d, map_sum Py id r)"

definition obj_of :: "device \<Rightarrow> nat \<Rightarrow> object option" where
  "obj_of d i = eg_objs (dv_eng d) i"

definition dv_name :: "device \<Rightarrow> nat \<Rightarrow> string" where
  "dv_name d i = (case obj_of d i of None \<Rightarrow> [] | Some ob \<Rightarrow> ob_name ob)"

text \<open>\<^verbatim>\<open>self.objects.get(name)\<close>\<close>

definition objects_get :: "device \<Rightarrow> string \<Rightarrow> nat option" where
  "objects_get d name =
     (case dv_objects d name of None \<Rightarrow> None | Some i \<Rightarrow> if obj_of d i = None then None else Some i)"

text \<open>\<^verbatim>\<open>backend.submit()\<close> and \<^verbatim>\<open>obj.sync()\<close>\<close>

definition dev_submit :: "'t dev_env \<Rightarrow> device \<Rightarrow> unit dev_result" where
  "dev_submit env d = map_option (\<lambda>e. (d\<lparr>dv_eng := e\<rparr>, Inr ())) (submit (ev_ap env) (dv_eng d))"

text \<open>A call of the binding that reads: nothing for a size of 0, else the Object's, here with no other step between.\<close>

definition object_read :: "nat \<Rightarrow> nat \<Rightarrow> nat \<Rightarrow> device \<Rightarrow> string dev_result" where
  "object_read i offset amount d =
     (if amount = 0 then Some (d, Inr [])
      else on_engine (\<lambda>e. (e, read_obj i offset amount e (eg_store e) (eg_store e))) d)"

definition object_read_metadata :: "nat \<Rightarrow> nat \<Rightarrow> nat \<Rightarrow> device \<Rightarrow> string dev_result" where
  "object_read_metadata i offset amount d =
     (if amount = 0 then Some (d, Inr [])
      else on_engine (\<lambda>e. (e, read_metadata_obj i offset amount e (eg_store e) (eg_store e))) d)"

text \<open>\<^verbatim>\<open>find\<close>, inside \<^verbatim>\<open>open\<close>\<close>

definition dev_find :: "string \<Rightarrow> device \<Rightarrow> nat dev_result" where
  "dev_find name d =
     (let (e, i) = find_obj name (dv_eng d)
      in dev_then (on_engine (open_obj i) (d\<lparr>dv_eng := e\<rparr>))
           (\<lambda>u d. Some (d\<lparr>dv_objects := (dv_objects d)(name \<mapsto> i)\<rparr>, Inr i)))"

text \<open>The decorator \<^verbatim>\<open>retry\<close>, over the delays that are left.\<close>

fun retry :: "(nat \<Rightarrow> device \<Rightarrow> device) \<Rightarrow> nat list \<Rightarrow> (device \<Rightarrow> 'a dev_result) \<Rightarrow> device \<Rightarrow> 'a dev_result" where
  "retry sleep [] fn d = fn d"
| "retry sleep (delay # delays) fn d =
     (case fn d of
        Some (d, Inl (Engine ChangedError)) \<Rightarrow> retry sleep delays fn (sleep delay d)
      | r \<Rightarrow> r)"

text \<open>In tenths of a millisecond.\<close>

definition DURATIONS :: "nat list" where
  "DURATIONS = [0, 1, 10, 100]"

text \<open>\<^verbatim>\<open>read\<close>: the chunk, and whether it is the last.  A negative size is refused by the binding.\<close>

definition dev_read :: "'t dev_env \<Rightarrow> nat \<Rightarrow> nat option \<Rightarrow> nat option \<Rightarrow> device \<Rightarrow> (string \<times> bool) dev_result" where
  "dev_read env i start stop =
     retry (ev_sleep env) DURATIONS (\<lambda>d.
       let offset = (case start of None \<Rightarrow> 0 | Some s \<Rightarrow> s);
           amount = (case stop of None \<Rightarrow> ev_chunk env | Some s \<Rightarrow> if s = 0 then ev_chunk env else min (s - offset) (ev_chunk env))
       in if (case stop of None \<Rightarrow> False | Some s \<Rightarrow> s \<noteq> 0 \<and> s < offset) then Some (d, Inl (Py TypeError))
          else dev_then (object_read i offset amount d) (\<lambda>chunk d. Some (d, Inr (chunk, length chunk \<noteq> amount))))"

text \<open>\<^verbatim>\<open>read_metadata\<close>: the loop, and the method.\<close>

partial_function (option) read_md_loop ::
  "'t :: {linorder, order_bot} dev_env \<Rightarrow> nat \<Rightarrow> nat \<Rightarrow> string \<Rightarrow> device \<Rightarrow> 't md_view dev_result" where
  "read_md_loop env i version data d =
     (case object_read_metadata i (length data) (ev_chunk env) d of
        None \<Rightarrow> None
      | Some (d, Inl x) \<Rightarrow> Some (d, Inl x)
      | Some (d, Inr chunk) \<Rightarrow>
          (if dv_versions d i \<noteq> version
           then (case dev_submit env d of
                   None \<Rightarrow> None
                 | Some (d', u) \<Rightarrow> read_md_loop env i (dv_versions d i) [] d')
           else if length chunk < ev_chunk env then of_python (md_get (ev_md env) (ev_js env) (data @ chunk)) d
           else read_md_loop env i version (data @ chunk) d))"

definition dev_read_metadata :: "'t :: {linorder, order_bot} dev_env \<Rightarrow> nat \<Rightarrow> device \<Rightarrow> 't md_view dev_result" where
  "dev_read_metadata env i =
     retry (ev_sleep env) DURATIONS (\<lambda>d. dev_then (dev_submit env d) (\<lambda>u d'. read_md_loop env i (dv_versions d i) [] d'))"

text \<open>\<^verbatim>\<open>open\<close>: the Object that has the name, and its metadata when asked for.\<close>

partial_function (option) dev_open ::
  "'t :: {linorder, order_bot} dev_env \<Rightarrow> string \<Rightarrow> bool \<Rightarrow> device \<Rightarrow> (nat \<times> 't md_view option) dev_result" where
  "dev_open env name with_metadata d =
     (case objects_get d name of
        None \<Rightarrow>
          (case dev_find name d of
             None \<Rightarrow> None
           | Some (d, Inl x) \<Rightarrow> Some (d, Inl x)
           | Some (d, Inr i) \<Rightarrow> dev_open env name with_metadata d)
      | Some i \<Rightarrow>
          if map_option ob_state (obj_of d i) = Some MISSING \<or> \<not> with_metadata then Some (d, Inr (i, None))
          else (case dev_read_metadata env i d of
                  None \<Rightarrow> None
                | Some (d, Inl x) \<Rightarrow> Some (d, Inl x)
                | Some (d, Inr v) \<Rightarrow>
                    if objects_get d name \<noteq> Some i then dev_open env name with_metadata d
                    else Some (d, Inr (i, Some v))))"

definition dev_create :: "nat \<Rightarrow> nat \<Rightarrow> device \<Rightarrow> nat dev_result" where
  "dev_create now i d = (let (e, j) = create_obj None now (dv_name d i) (dv_eng d) in Some (d\<lparr>dv_eng := e\<rparr>, Inr j))"

definition dev_write :: "'t dev_env \<Rightarrow> nat \<Rightarrow> string \<Rightarrow> device \<Rightarrow> unit dev_result" where
  "dev_write env i data d = dev_then (on_engine (write_obj i data) d) (\<lambda>u. dev_submit env)"

definition dev_write_metadata :: "'t :: {linorder, order_bot} dev_env \<Rightarrow> nat \<Rightarrow> metadata \<Rightarrow> device \<Rightarrow> unit dev_result" where
  "dev_write_metadata env i post d =
     dev_then (dev_open env (dv_name d i) True d) (\<lambda>(i, prev) d.
     dev_then (of_python (md_post (de_lib (ev_md env)) prev post) d) (\<lambda>meta d.
       case meta of
         None \<Rightarrow> Some (d, Inr ())
       | Some s \<Rightarrow>
           dev_then (on_engine (write_metadata_obj i (js_dumps (ev_js env) s)) d) (\<lambda>u d.
             dev_submit env (d\<lparr>dv_versions := (dv_versions d)(i := dv_versions d i + 1)\<rparr>))))"

text \<open>An Object nobody refers to any more.\<close>

definition let_go :: "nat \<Rightarrow> device \<Rightarrow> device" where
  "let_go i d = d\<lparr>dv_eng := release_obj i (dv_eng d)\<rparr>"

text \<open>\<^verbatim>\<open>backend.put(nxt, prev, timestamp)\<close>, \<^verbatim>\<open>except ConflictError: return\<close>, the map, and \<^verbatim>\<open>nxt.sync()\<close>.\<close>

definition hand_over :: "'t dev_env \<Rightarrow> nat \<Rightarrow> nat \<Rightarrow> nat \<Rightarrow> string \<Rightarrow> device \<Rightarrow> bool dev_result" where
  "hand_over env nxt prev timestamp name d =
     (case put_obj nxt prev (Some timestamp) (dv_eng d) of
        (e, Inl ConflictError) \<Rightarrow> Some (d\<lparr>dv_eng := e\<rparr>, Inr False)
      | (e, Inl x) \<Rightarrow> Some (d\<lparr>dv_eng := e\<rparr>, Inl (Engine x))
      | (e, Inr u) \<Rightarrow>
          dev_then (dev_submit env (d\<lparr>dv_eng := e, dv_objects := (dv_objects d)(name \<mapsto> nxt)\<rparr>)) (\<lambda>u d. Some (d, Inr True)))"

definition dev_delete ::
  "'t :: {linorder, order_bot} dev_env \<Rightarrow> nat \<Rightarrow> nat \<Rightarrow> nat \<Rightarrow> string \<Rightarrow> metadata option \<Rightarrow> device \<Rightarrow> unit dev_result" where
  "dev_delete env now i timestamp stamp meta d =
     (let name = dv_name d i
      in dev_then (dev_open env name True d) (\<lambda>(prev, prev_meta) d.
         let (e, tomb) = create_obj None now name (dv_eng d); d = d\<lparr>dv_eng := e\<rparr>
         in dev_then (of_python (md_delete (de_lib (ev_md env)) prev_meta stamp meta) d) (\<lambda>s d.
            dev_then (on_engine (tombstone_obj tomb (js_dumps (ev_js env) s)) d) (\<lambda>u d.
            dev_then (hand_over env tomb prev timestamp name d) (\<lambda>won d.
              Some (if won then d else let_go tomb d, Inr ()))))))"

definition dev_put :: "'t :: {linorder, order_bot} dev_env \<Rightarrow> nat \<Rightarrow> nat \<Rightarrow> metadata \<Rightarrow> device \<Rightarrow> unit dev_result" where
  "dev_put env i timestamp meta d =
     (let name = dv_name d i
      in dev_then (dev_open env name True d) (\<lambda>(prev, prev_meta) d.
         dev_then (of_python (md_put (de_lib (ev_md env)) prev_meta meta) d) (\<lambda>s d.
         dev_then (on_engine (write_metadata_obj i (js_dumps (ev_js env) s)) d) (\<lambda>u d.
         dev_then (hand_over env i prev timestamp name d) (\<lambda>won d. Some (d, Inr ()))))))"


section \<open>Files, readers, writers and the manager\<close>

text \<open>\<^verbatim>\<open>BluestoreDiskFile\<close>; the decorator \<^verbatim>\<open>when_open\<close>.\<close>

record 't bs_file =
  bf_object :: nat
  bf_metadata :: "'t md_view option"

definition when_open :: "('t md_view \<Rightarrow> 'a) \<Rightarrow> 't bs_file \<Rightarrow> pyexc + 'a" where
  "when_open f df = (case bf_metadata df of None \<Rightarrow> Inl DiskFileNotOpen | Some v \<Rightarrow> Inr (f v))"

definition file_open :: "'t :: {linorder, order_bot} dev_env \<Rightarrow> 't bs_file \<Rightarrow> device \<Rightarrow> 't bs_file dev_result" where
  "file_open env df d =
     (if map_option ob_state (obj_of d (bf_object df)) = Some MISSING then Some (d, Inl (Py DiskFileNotExist))
      else case dev_read_metadata env (bf_object df) d of
             None \<Rightarrow> None
           | Some (d, Inl x) \<Rightarrow> Some (d, Inl (if x \<in> {Py ValueError, Py KeyError} then Py DiskFileQuarantined else x))
           | Some (d, Inr v) \<Rightarrow>
               if map_option ob_deleted (obj_of d (bf_object df)) = Some True then Some (d, Inl (Py (DiskFileDeleted (mv_data v))))
               else Some (d, Inr (df\<lparr>bf_metadata := Some v\<rparr>)))"

definition file_get_metadata :: "'t bs_file \<Rightarrow> pyexc + metadata" where
  "file_get_metadata = when_open mv_merged"

definition file_get_datafile_metadata :: "'t bs_file \<Rightarrow> pyexc + metadata" where
  "file_get_datafile_metadata = when_open mv_data"

definition file_get_metafile_metadata :: "'t bs_file \<Rightarrow> pyexc + metadata option" where
  "file_get_metafile_metadata = when_open mv_meta"

definition file_timestamp :: "'t bs_file \<Rightarrow> pyexc + 't option" where
  "file_timestamp = when_open mv_meta_ts"

definition file_data_timestamp :: "'t bs_file \<Rightarrow> pyexc + 't option" where
  "file_data_timestamp = when_open mv_data_ts"

definition file_content_type_timestamp :: "'t bs_file \<Rightarrow> pyexc + 't" where
  "file_content_type_timestamp = when_open mv_type_ts"

definition file_content_type :: "'t bs_file \<Rightarrow> pyexc + string option" where
  "file_content_type = when_open (\<lambda>v. map_of (mv_merged v) ''Content-Type'')"

definition file_read_metadata :: "'t :: {linorder, order_bot} dev_env \<Rightarrow> 't bs_file \<Rightarrow> device \<Rightarrow> metadata dev_result" where
  "file_read_metadata env df d = dev_then (file_open env df d) (\<lambda>df d. of_python (file_get_metadata df) d)"

definition file_write_metadata :: "'t :: {linorder, order_bot} dev_env \<Rightarrow> 't bs_file \<Rightarrow> metadata \<Rightarrow> device \<Rightarrow> unit dev_result" where
  "file_write_metadata env df metadata d =
     dev_then (file_open env df d) (\<lambda>df d. dev_write_metadata env (bf_object df) metadata d)"

text \<open>\<open>timestamp\<close> is what \<^verbatim>\<open>Timestamp(timestamp)\<close> gives.  The last two arguments of \<^verbatim>\<open>Device.delete\<close> are used only without metadata.\<close>

definition file_delete :: "'t :: {linorder, order_bot} dev_env \<Rightarrow> nat \<Rightarrow> 't bs_file \<Rightarrow> 't \<Rightarrow> device \<Rightarrow> unit dev_result" where
  "file_delete env now df timestamp d =
     (let internal = ts_internal (de_lib (ev_md env)) timestamp
      in dev_delete env now (bf_object df) (ev_raw env timestamp) internal (Some [(''X-Timestamp'', internal)]) d)"

text \<open>\<^verbatim>\<open>BluestoreDiskFileWriter\<close>; its digest is kept as the bytes it has seen.\<close>

record bs_writer =
  bw_object :: "nat option"
  bw_etag :: string
  bw_size :: nat

definition file_writer :: "nat \<Rightarrow> 't bs_file \<Rightarrow> device \<Rightarrow> bs_writer dev_result" where
  "file_writer now df d =
     dev_then (dev_create now (bf_object df) d) (\<lambda>j d. Some (d, Inr \<lparr>bw_object = Some j, bw_etag = [], bw_size = 0\<rparr>))"

definition bs_writer_write :: "'t dev_env \<Rightarrow> bs_writer \<Rightarrow> string \<Rightarrow> device \<Rightarrow> bs_writer dev_result" where
  "bs_writer_write env w chunk d =
     (case bw_object w of
        None \<Rightarrow> Some (d, Inl (Py AttributeError))
      | Some j \<Rightarrow> dev_then (dev_write env j chunk d)
          (\<lambda>u d. Some (d, Inr (w\<lparr>bw_size := bw_size w + length chunk, bw_etag := bw_etag w @ chunk\<rparr>))))"

definition writer_chunks_finished :: "(string \<Rightarrow> string) \<Rightarrow> bs_writer \<Rightarrow> nat \<times> string" where
  "writer_chunks_finished md5 w = (bw_size w, md5 (bw_etag w))"

definition writer_put :: "'t :: {linorder, order_bot} dev_env \<Rightarrow> bs_writer \<Rightarrow> metadata \<Rightarrow> device \<Rightarrow> unit dev_result" where
  "writer_put env w metadata d =
     dev_then (of_python (case map_of metadata ''X-Timestamp'' of
                            None \<Rightarrow> Inl KeyError | Some s \<Rightarrow> timestamp_of (de_lib (ev_md env)) (Some s)) d) (\<lambda>t d.
       case bw_object w of
         None \<Rightarrow> Some (d, Inl (Py AttributeError))
       | Some j \<Rightarrow> dev_put env j (ev_raw env t) metadata d)"

definition bs_writer_close :: "bs_writer \<Rightarrow> bs_writer" where
  "bs_writer_close w = w\<lparr>bw_object := None\<rparr>"

text \<open>\<^verbatim>\<open>BluestoreDiskFileReader.app_iter_range\<close>: the chunks it yields.\<close>

partial_function (option) range_chunks ::
  "'t dev_env \<Rightarrow> nat \<Rightarrow> nat \<Rightarrow> nat option \<Rightarrow> string list \<Rightarrow> device \<Rightarrow> string list dev_result" where
  "range_chunks env i offset stop chunks d =
     (if (case stop of None \<Rightarrow> False | Some s \<Rightarrow> \<not> offset < s) then Some (d, Inr chunks)
      else case dev_read env i (Some offset) stop d of
             None \<Rightarrow> None
           | Some (d, Inl x) \<Rightarrow> Some (d, Inl x)
           | Some (d, Inr r) \<Rightarrow>
               (case r of (chunk, eof) \<Rightarrow>
                 if chunk = [] then Some (d, Inr chunks)
                 else if eof then Some (d, Inr (chunks @ [chunk]))
                 else range_chunks env i (offset + length chunk) stop (chunks @ [chunk]) d))"

definition file_app_iter_range :: "'t dev_env \<Rightarrow> 't bs_file \<Rightarrow> nat option \<Rightarrow> nat option \<Rightarrow> device \<Rightarrow> string list dev_result" where
  "file_app_iter_range env df start stop =
     range_chunks env (bf_object df) (case start of None \<Rightarrow> 0 | Some s \<Rightarrow> s) stop []"

text \<open>
  Mounting: \<open>listing\<close> is how BlueStore lists its collections.  The manager's devices: for every device that is a
  directory, the Devices made so far, by policy; \<open>disks\<close> is what the directories hold.
\<close>

definition mount_device :: "'t dev_env \<Rightarrow> (bstore \<Rightarrow> address list list) \<Rightarrow> bstore \<Rightarrow> device option" where
  "mount_device env listing st =
     map_option (\<lambda>e. \<lparr>dv_eng = e, dv_objects = (\<lambda>n. None), dv_versions = (\<lambda>i. 0)\<rparr>)
       (submit (ev_ap env) (clean_store listing (new_engine st)))"

type_synonym bs_manager = "string \<Rightarrow> (string \<Rightarrow> device option) option"

definition get_device ::
  "'t dev_env \<Rightarrow> (bstore \<Rightarrow> address list list) \<Rightarrow> (string \<Rightarrow> string \<Rightarrow> bstore) \<Rightarrow> string \<Rightarrow> string \<Rightarrow> bs_manager
   \<Rightarrow> (bs_manager \<times> (pyexc + device)) option" where
  "get_device env listing disks dev policy m =
     (case m dev of
        None \<Rightarrow> Some (m, Inl DiskFileDeviceUnavailable)
      | Some made \<Rightarrow>
          (case made policy of
             Some d \<Rightarrow> Some (m, Inr d)
           | None \<Rightarrow> map_option (\<lambda>d. (m(dev \<mapsto> made(policy \<mapsto> d)), Inr d)) (mount_device env listing (disks dev policy))))"

definition object_name :: "string \<Rightarrow> string \<Rightarrow> string \<Rightarrow> string" where
  "object_name account container ob = account @ ''/'' @ container @ ''/'' @ ob"

definition get_bs_file :: "'t :: {linorder, order_bot} dev_env \<Rightarrow> string \<Rightarrow> string \<Rightarrow> string \<Rightarrow> device \<Rightarrow> 't bs_file dev_result" where
  "get_bs_file env account container ob d =
     dev_then (dev_open env (object_name account container ob) False d)
       (\<lambda>(i, v) d. Some (d, Inr \<lparr>bf_object = i, bf_metadata = None\<rparr>))"

end
