(* ===== verification/BsSteps.thy ===== *)
theory BsSteps
  imports BsDevice
begin

text \<open>
  The methods of the Device, run with nothing in between, are sequences of the steps of \<open>BsSystem\<close>: what each does to
  the names, to the Objects and to the queue, with the invariant carried along.
\<close>

section \<open>The Device takes the steps\<close>

definition matches :: "device \<Rightarrow> world \<Rightarrow> bool" where
  "matches d w \<longleftrightarrow> wd_eng w = dv_eng d \<and> wd_map w = dv_objects d \<and> wd_vers w = dv_versions d"

text \<open>No change of an entry that holds a name is on its way, and the store is as a transaction leaves it: temporary
  entries have the times of their addresses.\<close>

definition quiet :: "world \<Rightarrow> bool" where
  "quiet w \<longleftrightarrow> (\<forall>p \<in> set (queued w). \<forall>n. Held n \<notin> touches p) \<and>
     (\<forall>n g en. store w (Temp n g) = Some en \<longrightarrow> en_ts en = g)"

lemma quiet_empty: "queued w = [] \<Longrightarrow> bs_inv E w \<Longrightarrow> quiet w"
proof -
  assume q: "queued w = []" and inv: "bs_inv E w"
  have "store w = logical w" unfolding logical_def q by simp
  moreover have "\<forall>n g en. logical w (Temp n g) = Some en \<longrightarrow> en_ts en = g" using inv unfolding bs_inv_def store_ok_def by blast
  ultimately show "quiet w" unfolding quiet_def q by simp
qed

lemma matches_get: "matches d w \<Longrightarrow> objects_get d n = live_obj w n"
  by (simp add: matches_def objects_get_def live_obj_def obj_of_def cong: option.case_cong)

lemma submit_steps:
  assumes ok: "bluestore_ok ap" and "bs_inv E w"
  shows "\<exists>w'. (bs_step ap E)\<^sup>*\<^sup>* w w' \<and> wd_eng w' = (wd_eng w)\<lparr>eg_store := logical w, eg_queue := []\<rparr> \<and>
    wd_map w' = wd_map w \<and> wd_vers w' = wd_vers w \<and> wd_bytes w' = wd_bytes w \<and> wd_ver w' = wd_ver w"
  using assms(2)
proof (induction "length (eg_queue (wd_eng w)) + length (queued w)" arbitrary: w rule: less_induct)
  case less
  show ?case
  proof (cases "eg_queue (wd_eng w)")
    case Nil
    then have "wd_eng w = (wd_eng w)\<lparr>eg_store := logical w, eg_queue := []\<rparr>" by (simp add: logical_def)
    then show ?thesis by (intro exI [of _ w]) simp
  next
    case (Cons q ts)
    obtain w1 where w1: "bs_step ap E w w1" "eg_queue (wd_eng w1) = (case q of [] \<Rightarrow> ts | p # ps \<Rightarrow> ps # ts)"
      "length (queued w1) \<le> length (queued w)"
      "logical w1 = logical w" "(wd_eng w1)\<lparr>eg_store := s, eg_queue := []\<rparr> = (wd_eng w)\<lparr>eg_store := s, eg_queue := []\<rparr>"
      "wd_map w1 = wd_map w" "wd_vers w1 = wd_vers w" "wd_bytes w1 = wd_bytes w" "wd_ver w1 = wd_ver w"
      "length (eg_queue (wd_eng w1)) + length (queued w1) < length (eg_queue (wd_eng w)) + length (queued w)" for s
    proof (cases q)
      case Nil
      show thesis
        by (rule that [of "w\<lparr>wd_eng := (wd_eng w)\<lparr>eg_queue := ts\<rparr>, wd_base := store w\<rparr>"])
          (use Cons Nil in \<open>auto intro: step_whole simp: logical_def\<close>)
    next
      case (Cons p ps)
      have q: "eg_queue (wd_eng w) = (p # ps) # ts" using \<open>eg_queue (wd_eng w) = q # ts\<close> Cons by simp
      have "fits p (store w)" using less.prems q by (simp add: bs_inv_def)
      then have a: "ap p (store w) = Some (effect p (store w))" using ok by (simp add: bluestore_ok_def)
      show thesis
        by (rule that [OF step_hand [where ap = ap, OF q a]]) (use q Cons in \<open>simp_all add: logical_def\<close>)
    qed
    obtain w' where w': "(bs_step ap E)\<^sup>*\<^sup>* w1 w'" "wd_eng w' = (wd_eng w1)\<lparr>eg_store := logical w1, eg_queue := []\<rparr>"
      "wd_map w' = wd_map w1" "wd_vers w' = wd_vers w1" "wd_bytes w' = wd_bytes w1" "wd_ver w' = wd_ver w1"
      using less.hyps [OF w1(10) bs_step_inv [OF w1(1) ok less.prems]] by blast
    show ?thesis
      by (rule exI [of _ w']) (use w' w1 in \<open>auto intro: converse_rtranclp_into_rtranclp\<close>)
  qed
qed

text \<open>\<^verbatim>\<open>submit\<close> on a Device.\<close>

definition submitted :: "world \<Rightarrow> device \<Rightarrow> device" where
  "submitted w d = d\<lparr>dv_eng := (dv_eng d)\<lparr>eg_store := logical w, eg_queue := []\<rparr>\<rparr>"

lemma dev_submit_ok:
  assumes ok: "bluestore_ok (ev_ap env)" and inv: "bs_inv E w" and m: "matches d w"
  obtains w' where "dev_submit env d = Some (submitted w d, Inr ())" "(bs_step (ev_ap env) E)\<^sup>*\<^sup>* w w'" "matches (submitted w d) w'"
    "bs_inv E w'" "logical w' = logical w" "queued w' = []" "store w' = logical w" "wd_bytes w' = wd_bytes w" "eg_objs (wd_eng w') = eg_objs (wd_eng w)"
    "wd_map w' = wd_map w" "eg_next (wd_eng w') = eg_next (wd_eng w)" "eg_last (wd_eng w') = eg_last (wd_eng w)"
proof -
  obtain w' where w': "(bs_step (ev_ap env) E)\<^sup>*\<^sup>* w w'" "wd_eng w' = (wd_eng w)\<lparr>eg_store := logical w, eg_queue := []\<rparr>"
    "wd_map w' = wd_map w" "wd_vers w' = wd_vers w" "wd_bytes w' = wd_bytes w" "wd_ver w' = wd_ver w"
    using submit_steps [OF ok inv] by blast
  have "apply_txs (ev_ap env) (eg_queue (wd_eng w)) (store w) = Some (logical w)"
    unfolding logical_def using inv by (auto simp: bs_inv_def intro: runs_apply_txs [OF ok])
  then have "dev_submit env d = Some (submitted w d, Inr ())"
    using m by (simp add: dev_submit_def submit_def submitted_def matches_def)
  moreover have "matches (submitted w d) w'" using m w' by (simp add: matches_def submitted_def)
  moreover have "logical w' = logical w" using w'(2) by (simp add: logical_def)
  ultimately show thesis using that w' steps_inv [OF w'(1) ok inv] by simp
qed


text \<open>What a search finds.\<close>

definition found :: "string \<Rightarrow> bs_entry option \<Rightarrow> object" where
  "found n x =
     (case x of
        None \<Rightarrow> \<lparr>ob_name = n, ob_ts = 0, ob_deleted = False, ob_state = MISSING, ob_written = 0\<rparr>
      | Some en \<Rightarrow> \<lparr>ob_name = n, ob_ts = en_ts en, ob_deleted = en_deleted en, ob_state = ACTIVE, ob_written = 0\<rparr>)"

lemma dev_find_ok:
  assumes inv: "bs_inv E w" and m: "matches d w" and l: "live_obj w n = None"
  obtains d' w' where "dev_find n d = Some (d', Inr (eg_next (wd_eng w)))" "bs_step ap E w w'" "matches d' w'"
    "logical w' = logical w" "queued w' = queued w \<and> store w' = store w" "wd_bytes w' = wd_bytes w"
    "obj w' = (obj w)(eg_next (wd_eng w) \<mapsto> found n (logical w (Held n)))" "wd_map w' n = Some (eg_next (wd_eng w))"
    "eg_next (wd_eng w') = eg_next (wd_eng w) + 1" "eg_last (wd_eng w') = eg_last (wd_eng w)"
proof -
  let ?i = "eg_next (wd_eng w)"
  obtain e i where f: "find_obj n (wd_eng w) = (e, i)" by (cases "find_obj n (wd_eng w)")
  then have i: "i = ?i" and e: "e = (wd_eng w)\<lparr>eg_objs := (obj w)(?i \<mapsto> \<lparr>ob_name = n, ob_ts = 0, ob_deleted = False,
      ob_state = PRE_SEARCH, ob_written = 0\<rparr>), eg_next := ?i + 1\<rparr>"
    by (auto simp: find_obj_def new_obj_def)
  have L: "store w (Held n) = logical w (Held n)" using inv l unfolding bs_inv_def by (blast dest: runs_first)
  define e' where "e' = (wd_eng w)\<lparr>eg_objs := (obj w)(?i \<mapsto> found n (logical w (Held n))), eg_next := ?i + 1\<rparr>"
  have o: "open_obj i e = (e', Inr ())"
    unfolding e i e'_def
    by (simp add: open_obj_def require_def load_entry_def address_of_def set_obj_def found_def L Let_def split: option.split)
  let ?w = "w\<lparr>wd_eng := e', wd_map := (wd_map w)(n \<mapsto> i)\<rparr>"
  let ?d = "d\<lparr>dv_eng := e', dv_objects := (dv_objects d)(n \<mapsto> i)\<rparr>"
  have df: "dev_find n d = Some (?d, Inr ?i)"
    using m f o i by (simp add: dev_find_def on_engine_def matches_def)
  show thesis
    by (rule that [OF df step_search [where ap = ap, OF l f o]]) (use m i in \<open>simp_all add: matches_def logical_def e'_def\<close>)
qed

lemma dev_open_new:
  assumes inv: "bs_inv E w" and m: "matches d w" and l: "live_obj w n = None"
  obtains d' w' where "dev_open env n False d = Some (d', Inr (eg_next (wd_eng w), None))" "bs_step ap E w w'" "matches d' w'"
    "logical w' = logical w" "queued w' = queued w \<and> store w' = store w" "wd_bytes w' = wd_bytes w"
    "obj w' = (obj w)(eg_next (wd_eng w) \<mapsto> found n (logical w (Held n)))" "wd_map w' n = Some (eg_next (wd_eng w))"
    "eg_next (wd_eng w') = eg_next (wd_eng w) + 1" "eg_last (wd_eng w') = eg_last (wd_eng w)"
proof -
  obtain d' w' where w': "dev_find n d = Some (d', Inr (eg_next (wd_eng w)))" "bs_step ap E w w'" "matches d' w'"
    "logical w' = logical w" "queued w' = queued w \<and> store w' = store w" "wd_bytes w' = wd_bytes w"
    "obj w' = (obj w)(eg_next (wd_eng w) \<mapsto> found n (logical w (Held n)))" "wd_map w' n = Some (eg_next (wd_eng w))"
    "eg_next (wd_eng w') = eg_next (wd_eng w) + 1" "eg_last (wd_eng w') = eg_last (wd_eng w)"
    by (rule dev_find_ok [OF inv m l, of ap])
  have "live_obj w' n = Some (eg_next (wd_eng w))" using w'(7,8) by (simp add: live_obj_def)
  then have "dev_open env n False d = Some (d', Inr (eg_next (wd_eng w), None))"
    using l w'(1,3) m by (subst dev_open.simps) (simp add: matches_get, subst dev_open.simps, simp add: matches_get)
  then show thesis using that w' by blast
qed

lemma read_md_loop_synced:
  assumes m: "matches d w" and inv: "bs_inv E w" and q: "queued w = []" and i: "obj w i = Some ob" "ob_state ob \<in> {ACTIVE, OLD}"
    and h: "header_of w i = Some h" and c: "0 < ev_chunk env" and p: "prefix data h"
  shows "read_md_loop env i (dv_versions d i) data d = Some (d, map_sum Py id (md_get (ev_md env) (ev_js env) h))"
  using p
proof (induction "length h - length data" arbitrary: data rule: less_induct)
  case less
  then obtain r where r: "h = data @ r" by (auto simp: prefix_def)
  have st: "logical w = store w" unfolding logical_def q by simp
  obtain en where en: "store w (address_of ob) = Some en" "en_ts en = ob_ts ob"
    using inv_handle [OF inv i(1)] i(2) by (auto simp: handle_ok_def st)
  have hdr: "en_header en = h" using h i(1) en(1) by (simp add: header_of_def st)
  have "read_metadata_obj i (length data) (ev_chunk env) (wd_eng w) (store w) (store w) = Inr (take (ev_chunk env) r)"
    using i en hdr r
    by (auto simp: read_metadata_obj_def require_def checked_read_def check_obj_def load_entry_def split: address.splits)
  then have rd: "object_read_metadata i (length data) (ev_chunk env) d = Some (d, Inr (take (ev_chunk env) r))"
    using m c by (simp add: object_read_metadata_def on_engine_def matches_def)
  show ?case
  proof (cases "length r < ev_chunk env")
    case True
    then show ?thesis using r by (subst read_md_loop.simps) (simp add: rd of_python_def)
  next
    case False
    have "read_md_loop env i (dv_versions d i) (data @ take (ev_chunk env) r) d
        = Some (d, map_sum Py id (md_get (ev_md env) (ev_js env) h))"
      by (rule less.hyps) (use False c r in \<open>auto simp: take_is_prefix\<close>)
    then show ?thesis using False by (subst read_md_loop.simps) (simp add: rd)
  qed
qed

lemma retry_plain: "(\<And>d'. fn d \<noteq> Some (d', Inl (Engine ChangedError))) \<Longrightarrow> retry sleep delays fn d = fn d"
  by (cases delays) (auto split: option.splits prod.splits sum.splits dev_exc.splits bs_error.splits)

lemma dev_read_metadata_ok:
  assumes ok: "bluestore_ok (ev_ap env)" and inv: "bs_inv E w" and m: "matches d w" and i: "obj w i = Some ob" "ob_state ob \<in> {ACTIVE, OLD}"
    and h: "header_of w i = Some h" and c: "0 < ev_chunk env"
  shows "dev_read_metadata env i d = Some (submitted w d, map_sum Py id (md_get (ev_md env) (ev_js env) h))"
proof -
  obtain w' where w': "dev_submit env d = Some (submitted w d, Inr ())" "(bs_step (ev_ap env) E)\<^sup>*\<^sup>* w w'" "matches (submitted w d) w'"
    "bs_inv E w'" "logical w' = logical w" "queued w' = []" "store w' = logical w" "wd_bytes w' = wd_bytes w" "eg_objs (wd_eng w') = eg_objs (wd_eng w)"
    "wd_map w' = wd_map w" "eg_next (wd_eng w') = eg_next (wd_eng w)" "eg_last (wd_eng w') = eg_last (wd_eng w)"
    by (rule dev_submit_ok [OF ok inv m])
  have "header_of w' i = Some h" using h w' by (simp add: header_of_def cong: option.case_cong)
  then have "read_md_loop env i (dv_versions (submitted w d) i) [] (submitted w d)
      = Some (submitted w d, map_sum Py id (md_get (ev_md env) (ev_js env) h))"
    using i c w' by (intro read_md_loop_synced [OF w'(3,4,6)]) simp_all
  moreover have "dv_versions (submitted w d) i = dv_versions d i" by (simp add: submitted_def)
  ultimately have *: "dev_then (dev_submit env d) (\<lambda>u d'. read_md_loop env i (dv_versions d i) [] d')
      = Some (submitted w d, map_sum Py id (md_get (ev_md env) (ev_js env) h))" using w'(1) by simp
  show ?thesis unfolding dev_read_metadata_def
    by (subst retry_plain) (use * in \<open>auto simp: map_sum_def split: sum.splits\<close>)
qed

lemma dev_open_known:
  assumes ok: "bluestore_ok (ev_ap env)" and inv: "bs_inv E w" and m: "matches d w" and l: "live_obj w n = Some i" "obj w i = Some ob"
    and h: "ob_state ob = ACTIVE \<Longrightarrow> \<exists>h. header_of w i = Some h \<and> md_get (ev_md env) (ev_js env) h = Inr (f h)" and c: "0 < ev_chunk env"
  shows "dev_open env n True d =
    (if ob_state ob = MISSING then Some (d, Inr (i, None)) else Some (submitted w d, Inr (i, Some (f (the (header_of w i))))))"
proof -
  have st: "ob_state ob \<in> {ACTIVE, MISSING}"
    using inv l unfolding bs_inv_def objs_ok_def live_obj_def by (auto split: option.splits if_splits)
  have o: "obj_of d i = Some ob" using m l(2) by (simp add: obj_of_def matches_def)
  have g: "objects_get d n = Some i" using m l(1) by (simp add: matches_get)
  show ?thesis
  proof (cases "ob_state ob = MISSING")
    case True
    then show ?thesis by (subst dev_open.simps) (simp add: g o)
  next
    case False
    with st have a: "ob_state ob = ACTIVE" by simp
    obtain x where x: "header_of w i = Some x" "md_get (ev_md env) (ev_js env) x = Inr (f x)" using h [OF a] by blast
    have r: "dev_read_metadata env i d = Some (submitted w d, Inr (f x))"
      using dev_read_metadata_ok [OF ok inv m l(2) _ x(1) c] a x(2) by simp
    have "objects_get (submitted w d) n = Some i"
      using g by (simp add: objects_get_def obj_of_def submitted_def cong: option.case_cong)
    then show ?thesis using False x(1) by (subst dev_open.simps) (simp add: g o r)
  qed
qed


text \<open>An Object being written, its bytes and its entry's header.\<close>

definition writing :: "world \<Rightarrow> nat \<Rightarrow> string \<Rightarrow> bool \<Rightarrow> string \<Rightarrow> string \<Rightarrow> bool" where
  "writing w j n del body hdr \<longleftrightarrow> wd_bytes w j = body \<and>
     (\<exists>ob. obj w j = Some ob \<and> ob_name ob = n \<and> ob_deleted ob = del \<and>
        (ob_state ob = PRE_WRITE \<and> body = [] \<and> hdr = [] \<or>
         ob_state ob = IN_WRITE \<and> (\<exists>en. logical w (address_of ob) = Some en \<and> en_header en = hdr)))"

text \<open>What one Object's steps leave as it was.\<close>

definition frame :: "nat \<Rightarrow> world \<Rightarrow> world \<Rightarrow> bool" where
  "frame j w w' \<longleftrightarrow> (\<forall>k. k \<noteq> j \<longrightarrow> obj w' k = obj w k) \<and> (\<forall>n. logical w' (Held n) = logical w (Held n)) \<and> wd_map w' = wd_map w"

lemma frame_trans: "frame j w w1 \<Longrightarrow> frame j w1 w2 \<Longrightarrow> frame j w w2"
  by (simp add: frame_def)

lemma writing_cong:
  "writing w j n del body hdr \<Longrightarrow> logical w' = logical w \<Longrightarrow> eg_objs (wd_eng w') = eg_objs (wd_eng w) \<Longrightarrow> wd_bytes w' = wd_bytes w \<Longrightarrow>
   writing w' j n del body hdr"
  by (simp add: writing_def)

lemma frame_cong:
  "frame j w w1 \<Longrightarrow> logical w' = logical w1 \<Longrightarrow> eg_objs (wd_eng w') = eg_objs (wd_eng w1) \<Longrightarrow> wd_map w' = wd_map w1 \<Longrightarrow> frame j w w'"
  by (simp add: frame_def)

lemma dev_create_ok:
  assumes m: "matches d w" and i: "obj w i = Some ob" and E: "max now (eg_last (wd_eng w) + 1) \<in> E"
  obtains d' w' where "dev_create now i d = Some (d', Inr (eg_next (wd_eng w)))" "bs_step ap E w w'" "matches d' w'"
    "writing w' (eg_next (wd_eng w)) (ob_name ob) False [] []" "frame (eg_next (wd_eng w)) w w'" "queued w' = queued w \<and> store w' = store w"
    "eg_next (wd_eng w') = eg_next (wd_eng w) + 1" "\<exists>o'. obj w' (eg_next (wd_eng w)) = Some o' \<and> ob_state o' = PRE_WRITE"
    "eg_last (wd_eng w') = max now (eg_last (wd_eng w) + 1)"
proof -
  let ?n = "ob_name ob"
  obtain e j where c: "create_obj None now ?n (wd_eng w) = (e, j)" by (cases "create_obj None now ?n (wd_eng w)")
  then have j: "j = eg_next (wd_eng w)" and e: "e = (wd_eng w)\<lparr>eg_last := max now (eg_last (wd_eng w) + 1),
      eg_objs := (obj w)(j \<mapsto> \<lparr>ob_name = ?n, ob_ts = max now (eg_last (wd_eng w) + 1), ob_deleted = False,
        ob_state = PRE_WRITE, ob_written = 0\<rparr>), eg_next := j + 1\<rparr>"
    by (auto simp: create_obj_def estimate_def new_obj_def Let_def)
  have l: "eg_last e \<in> E" using E by (simp add: e)
  have n: "dv_name d i = ?n" using m i by (simp add: dv_name_def obj_of_def matches_def)
  have dc: "dev_create now i d = Some (d\<lparr>dv_eng := e\<rparr>, Inr j)" using m c by (simp add: dev_create_def n matches_def)
  show thesis
    by (rule that [OF dc [unfolded j] step_create [where ap = ap, OF c l]])
      (use m in \<open>simp_all add: matches_def writing_def frame_def logical_def e j\<close>)
qed

lemma writing_ok:
  assumes w': "wd_eng w' = prepare t (set_obj j ob' (wd_eng w))" "wd_map w' = wd_map w" and j: "obj w j = Some ob"
    and t: "\<forall>p \<in> set t. touches p \<subseteq> {Temp m g}"
  shows "frame j w w'"
proof -
  have "logical w' = fold effect t (logical w)" by (rule logical_prepare) (simp_all add: w')
  then show ?thesis using t by (auto simp: frame_def w' intro!: fold_untouched)
qed

lemma dev_write_ok:
  assumes ok: "bluestore_ok (ev_ap env)" and inv: "bs_inv E w" and m: "matches d w" and j: "writing w j n del body hdr"
  obtains d' w' where "dev_write env j bytes d = Some (d', Inr ())" "(bs_step (ev_ap env) E)\<^sup>*\<^sup>* w w'" "matches d' w'" "bs_inv E w'"
    "writing w' j n del (body @ bytes) hdr" "frame j w w'" "queued w' = []" "eg_next (wd_eng w') = eg_next (wd_eng w)"
    "eg_last (wd_eng w') = eg_last (wd_eng w)"
proof -
  obtain ob where ob: "obj w j = Some ob" "ob_name ob = n" "ob_deleted ob = del" "ob_state ob \<in> {PRE_WRITE, IN_WRITE}"
    using j by (auto simp: writing_def)
  let ?a = "Temp n (ob_ts ob)"
  obtain e where e: "write_obj j bytes (wd_eng w) = (e, Inr ())"
    using ob by (auto simp: write_obj_def require_def Let_def)
  let ?w = "w\<lparr>wd_eng := e, wd_bytes := (wd_bytes w)(j := wd_bytes w j @ bytes)\<rparr>"
  have st: "bs_step (ev_ap env) E w ?w" by (rule step_write [OF e])
  have inv1: "bs_inv E ?w" by (rule bs_step_inv [OF st ok inv])
  have m1: "matches (d\<lparr>dv_eng := e\<rparr>) ?w" using m by (simp add: matches_def)
  have *: "writing ?w j n del (body @ bytes) hdr \<and> frame j w ?w \<and> eg_next e = eg_next (wd_eng w) \<and> eg_last e = eg_last (wd_eng w)"
    using e
  proof (cases rule: write_obj_prepares)
    case (first ob1)
    have o1: "ob1 = ob" using first(1) ob(1) by simp
    have L: "logical ?w = fold effect [Touch ?a, SetAttrs ?a (ob_ts ob) (ob_deleted ob) False, WriteAt ?a (ob_written ob) bytes] (logical w)"
      by (rule logical_prepare) (simp_all add: first(3) o1 ob)
    have "frame j w ?w" by (rule writing_ok [OF _ _ ob(1), where m = n and g = "ob_ts ob"]) (auto simp: first(3) o1 ob)
    moreover have "\<exists>en. logical ?w ?a = Some en \<and> en_header en = []" unfolding L by (simp add: change_entry_def)
    ultimately show ?thesis using j ob first(2)
      by (auto simp: writing_def first(3) o1 address_of_def)
  next
    case (later ob1)
    have o1: "ob1 = ob" using later(1) ob(1) by simp
    have L: "logical ?w = fold effect [WriteAt ?a (ob_written ob) bytes] (logical w)"
      by (rule logical_prepare) (simp_all add: later(3) o1 ob)
    have "frame j w ?w" by (rule writing_ok [OF _ _ ob(1), where m = n and g = "ob_ts ob"]) (auto simp: later(3) o1 ob)
    moreover have "\<exists>en. logical ?w ?a = Some en \<and> en_header en = hdr"
      unfolding L using j ob later(2) o1 by (auto simp: writing_def address_of_def change_entry_def)
    ultimately show ?thesis using j ob later(2)
      by (auto simp: writing_def later(3) o1 address_of_def)
  qed
  obtain w' where w': "dev_submit env (d\<lparr>dv_eng := e\<rparr>) = Some (submitted ?w (d\<lparr>dv_eng := e\<rparr>), Inr ())"
    "(bs_step (ev_ap env) E)\<^sup>*\<^sup>* ?w w'" "matches (submitted ?w (d\<lparr>dv_eng := e\<rparr>)) w'"
    "bs_inv E w'" "logical w' = logical ?w" "queued w' = []" "store w' = logical ?w" "wd_bytes w' = wd_bytes ?w" "eg_objs (wd_eng w') = eg_objs (wd_eng ?w)"
    "wd_map w' = wd_map ?w" "eg_next (wd_eng w') = eg_next (wd_eng ?w)" "eg_last (wd_eng w') = eg_last (wd_eng ?w)"
    by (rule dev_submit_ok [OF ok inv1 m1])
  have "dev_write env j bytes d = Some (submitted ?w (d\<lparr>dv_eng := e\<rparr>), Inr ())"
    using m e w'(1) by (simp add: dev_write_def on_engine_def matches_def)
  moreover have "(bs_step (ev_ap env) E)\<^sup>*\<^sup>* w w'" using st w'(2) by (rule converse_rtranclp_into_rtranclp)
  moreover have "writing w' j n del (body @ bytes) hdr" using * by (intro writing_cong [OF _ w'(5,9,8)]) blast
  moreover have "frame j w w'" using * by (intro frame_cong [OF _ w'(5,9,10)]) blast
  ultimately show thesis using that w'(3,4,6,11,12) * by simp
qed

lemma object_metadata_ok:
  assumes ok: "bluestore_ok ap" and inv: "bs_inv E w" and j: "writing w j n del body hdr"
  obtains e where "write_metadata_obj j blob (wd_eng w) = (e, Inr ())" "bs_step ap E w (w\<lparr>wd_eng := e\<rparr>)"
    "writing (w\<lparr>wd_eng := e\<rparr>) j n del body blob" "frame j w (w\<lparr>wd_eng := e\<rparr>)" "eg_next e = eg_next (wd_eng w)"
    "quiet w \<Longrightarrow> quiet (w\<lparr>wd_eng := e\<rparr>)" "\<exists>ob. eg_objs e j = Some ob \<and> ob_state ob = IN_WRITE" "eg_last e = eg_last (wd_eng w)"
proof -
  obtain ob where ob: "obj w j = Some ob" "ob_name ob = n" "ob_deleted ob = del" "ob_state ob \<in> {PRE_WRITE, IN_WRITE}"
    using j by (auto simp: writing_def)
  let ?a = "Temp n (ob_ts ob)"
  obtain e where e: "write_metadata_obj j blob (wd_eng w) = (e, Inr ())"
    using ob by (auto simp: write_metadata_obj_def require_def Let_def)
  have "bs_step ap E w (w\<lparr>wd_eng := e, wd_vers := (if map_option ob_state (obj w j) = Some ACTIVE
       then (wd_vers w)(j := wd_vers w j + 1) else wd_vers w)\<rparr>)" by (rule step_metadata [OF e])
  then have st: "bs_step ap E w (w\<lparr>wd_eng := e\<rparr>)" using ob by auto
  show thesis
    using e
  proof (cases rule: write_metadata_obj_prepares)
    case (first ob1)
    have o1: "ob1 = ob" using first(1) ob(1) by simp
    have L: "logical (w\<lparr>wd_eng := e\<rparr>) = fold effect [Touch ?a, SetHeader ?a blob, SetAttrs ?a (ob_ts ob) (ob_deleted ob) False] (logical w)"
      by (rule logical_prepare) (simp_all add: first(3) o1 ob)
    have f: "frame j w (w\<lparr>wd_eng := e\<rparr>)" by (rule writing_ok [OF _ _ ob(1), where m = n and g = "ob_ts ob"]) (auto simp: first(3) o1 ob)
    have "\<exists>en. logical (w\<lparr>wd_eng := e\<rparr>) ?a = Some en \<and> en_header en = blob" unfolding L by (simp add: change_entry_def)
    then show thesis
      by (intro that [OF e st _ f]) (use j ob first(2) in \<open>auto simp: writing_def first(3) o1 address_of_def quiet_def\<close>)
  next
    case (later ob1)
    have o1: "ob1 = ob" using later(1) ob(1) by simp
    have a: "address_of ob = ?a" using later(2) ob(2,4) o1 by (auto simp: address_of_def)
    have L: "logical (w\<lparr>wd_eng := e\<rparr>) = fold effect [SetHeader ?a blob, SetAttrs ?a (ob_ts ob) (ob_deleted ob) False] (logical w)"
      by (rule logical_prepare) (simp_all add: later(3) o1 ob a)
    have f: "frame j w (w\<lparr>wd_eng := e\<rparr>)" by (rule writing_ok [OF _ _ ob(1), where m = n and g = "ob_ts ob"]) (auto simp: later(3) o1 ob a)
    have "\<exists>en. logical (w\<lparr>wd_eng := e\<rparr>) ?a = Some en \<and> en_header en = blob"
      unfolding L using j ob later(2) o1 by (auto simp: writing_def a change_entry_def)
    then show thesis
      by (intro that [OF e st _ f]) (use j ob later(2) a in \<open>auto simp: writing_def later(3) o1 quiet_def\<close>)
  qed
qed

lemma object_tombstone_ok:
  assumes ok: "bluestore_ok ap" and inv: "bs_inv E w" and j: "writing w j n False [] []"
    and fresh: "\<exists>ob. obj w j = Some ob \<and> ob_state ob = PRE_WRITE"
  obtains e where "tombstone_obj j blob (wd_eng w) = (e, Inr ())" "bs_step ap E w (w\<lparr>wd_eng := e\<rparr>)"
    "writing (w\<lparr>wd_eng := e\<rparr>) j n True [] blob" "frame j w (w\<lparr>wd_eng := e\<rparr>)" "eg_next e = eg_next (wd_eng w)"
    "quiet w \<Longrightarrow> quiet (w\<lparr>wd_eng := e\<rparr>)" "\<exists>ob. eg_objs e j = Some ob \<and> ob_state ob = IN_WRITE" "eg_last e = eg_last (wd_eng w)"
proof -
  obtain ob where ob: "obj w j = Some ob" "ob_name ob = n" "ob_state ob = PRE_WRITE"
    using j fresh by (auto simp: writing_def)
  let ?a = "Temp n (ob_ts ob)"
  obtain e where e: "tombstone_obj j blob (wd_eng w) = (e, Inr ())"
    using ob by (auto simp: tombstone_obj_def write_metadata_obj_def require_def set_obj_def Let_def)
  have st: "bs_step ap E w (w\<lparr>wd_eng := e\<rparr>)" by (rule step_tombstone [OF e])
  show thesis
    using e
  proof (cases rule: tombstone_obj_prepares)
    case (1 ob1)
    have o1: "ob1 = ob" using 1(1) ob(1) by simp
    have L: "logical (w\<lparr>wd_eng := e\<rparr>) = fold effect [Touch ?a, SetHeader ?a blob, SetAttrs ?a (ob_ts ob) True False] (logical w)"
      by (rule logical_prepare) (simp_all add: 1(3) o1 ob)
    have f: "frame j w (w\<lparr>wd_eng := e\<rparr>)" by (rule writing_ok [OF _ _ ob(1), where m = n and g = "ob_ts ob"]) (auto simp: 1(3) o1 ob)
    have "\<exists>en. logical (w\<lparr>wd_eng := e\<rparr>) ?a = Some en \<and> en_header en = blob" unfolding L by (simp add: change_entry_def)
    then show thesis
      by (intro that [OF e st _ f]) (use j ob in \<open>auto simp: writing_def 1(3) o1 address_of_def quiet_def\<close>)
  qed
qed


text \<open>Handing a name over.\<close>

lemma hand_over_conflict:
  assumes m: "matches d w" and j: "writing w j n del body hdr" "\<exists>ob. obj w j = Some ob \<and> ob_state ob = IN_WRITE"
    and i: "obj w i = Some po" "ob_name po = n" "ob_state po \<in> {ACTIVE, MISSING}" and c: "settled \<le> ob_ts po"
  shows "hand_over env j i settled n d = Some (d, Inr False)"
proof -
  have "put_obj j i (Some settled) (dv_eng d) = (dv_eng d, Inl ConflictError)"
    using m j i c by (auto simp: put_obj_def require_def writing_def matches_def Let_def)
  then show ?thesis by (simp add: hand_over_def)
qed

lemma hand_over_ok:
  assumes ok: "bluestore_ok (ev_ap env)" and inv: "bs_inv E w" and m: "matches d w"
    and j: "writing w j n del body hdr" "\<exists>ob. obj w j = Some ob \<and> ob_state ob = IN_WRITE"
    and l: "live_obj w n = Some i" and i: "obj w i = Some po" and c: "ob_ts po < settled" "settled \<notin> E"
  obtains d' w' en where "hand_over env j i settled n d = Some (d', Inr True)" "matches d' w'" "bs_inv E w'" "queued w' = []"
    "logical w' (Held n) = Some en" "en_ts en = settled" "en_deleted en = del" "en_data en = body" "en_header en = hdr"
    "\<And>k. k \<noteq> n \<Longrightarrow> logical w' (Held k) = logical w (Held k)" "eg_last (wd_eng w') = eg_last (wd_eng w)"
proof -
  obtain ob where ob: "obj w j = Some ob" "ob_name ob = n" "ob_deleted ob = del" "ob_state ob = IN_WRITE"
    using j by (auto simp: writing_def)
  obtain e0 where e0: "logical w (Temp n (ob_ts ob)) = Some e0" "en_header e0 = hdr" "en_data e0 = body"
    using j ob inv_handle [OF inv ob(1)] by (auto simp: writing_def address_of_def handle_ok_def)
  have g: "ob_ts ob \<in> E" using inv_handle [OF inv ob(1)] ob by (simp add: handle_ok_def)
  have po: "ob_name po = n" "ob_state po \<in> {ACTIVE, MISSING}"
    using inv l i unfolding bs_inv_def objs_ok_def live_obj_def by (auto split: option.splits if_splits)
  have p: "put_obj j i (Some settled) (wd_eng w) =
      (fst (put_obj j i (Some settled) (wd_eng w)), Inr ())"
    using ob i po c by (auto simp: put_obj_def require_def Let_def)
  define e where "e = fst (put_obj j i (Some settled) (wd_eng w))"
  note p = p [folded e_def]
  let ?w = "w\<lparr>wd_eng := e, wd_map := (wd_map w)(ob_name ob \<mapsto> j), wd_ver := (wd_ver w)((ob_name ob, settled) \<mapsto> wd_bytes w j)\<rparr>"
  let ?d = "d\<lparr>dv_eng := e, dv_objects := (dv_objects d)(n \<mapsto> j)\<rparr>"
  have st: "bs_step (ev_ap env) E w ?w" by (rule step_put [OF ob(1) _ p]) (use l ob c in simp_all)
  have inv1: "bs_inv E ?w" by (rule bs_step_inv [OF st ok inv])
  have m1: "matches ?d ?w" using m by (simp add: matches_def ob(2))
  have *: "(\<exists>en. logical ?w (Held n) = Some en \<and> en_ts en = settled \<and> en_deleted en = del \<and> en_data en = body \<and> en_header en = hdr) \<and>
      (\<forall>k. k \<noteq> n \<longrightarrow> logical ?w (Held k) = logical w (Held k))"
    using p ob(1) i
  proof (cases rule: put_obj_prepares)
    case over
    have "ob_ts po \<notin> E" using inv_handle [OF inv i] over(2) by (simp add: handle_ok_def)
    then have po_ts: "ob_ts po \<noteq> ob_ts ob" using g by auto
    have L: "logical ?w = fold effect [MoveRename (Held n) (Temp n (ob_ts po)), SetAttrs (Temp n (ob_ts po)) (ob_ts po) (ob_deleted po) True,
        MoveRename (Temp n (ob_ts ob)) (Held n), SetAttrs (Held n) settled del False] (logical w)"
      by (rule logical_prepare) (simp_all add: over(5) ob)
    show ?thesis unfolding L using e0 po_ts by (simp add: change_entry_def)
  next
    case fresh
    have L: "logical ?w = fold effect [MoveRename (Temp n (ob_ts ob)) (Held n), SetAttrs (Held n) settled del False] (logical w)"
      by (rule logical_prepare) (simp_all add: fresh(5) ob)
    show ?thesis unfolding L using e0 by (simp add: change_entry_def)
  qed
  obtain w' where w': "dev_submit env ?d = Some (submitted ?w ?d, Inr ())"
    "(bs_step (ev_ap env) E)\<^sup>*\<^sup>* ?w w'" "matches (submitted ?w ?d) w'"
    "bs_inv E w'" "logical w' = logical ?w" "queued w' = []" "store w' = logical ?w" "wd_bytes w' = wd_bytes ?w" "eg_objs (wd_eng w') = eg_objs (wd_eng ?w)"
    "wd_map w' = wd_map ?w" "eg_next (wd_eng w') = eg_next (wd_eng ?w)" "eg_last (wd_eng w') = eg_last (wd_eng ?w)"
    by (rule dev_submit_ok [OF ok inv1 m1])
  have h: "hand_over env j i settled n d = Some (submitted ?w ?d, Inr True)"
    using p m w'(1) by (simp add: hand_over_def matches_def)
  have la: "eg_last e = eg_last (wd_eng w)" using p ob(1) i by (cases rule: put_obj_prepares) simp_all
  obtain en where en: "logical ?w (Held n) = Some en" "en_ts en = settled" "en_deleted en = del" "en_data en = body" "en_header en = hdr"
    using * by blast
  show thesis by (rule that [OF h w'(3,4,6)]) (use en * la in \<open>simp_all add: w'(5,12)\<close>)
qed

text \<open>A POST.\<close>

lemma post_ok:
  assumes ok: "bluestore_ok (ev_ap env)" and inv: "bs_inv E w" and m: "matches d w" and i: "obj w i = Some ob" "ob_state ob = ACTIVE"
    and en: "logical w (Held (ob_name ob)) = Some en"
  obtains d' w' where "dev_then (on_engine (write_metadata_obj i blob) d) (\<lambda>u d.
             dev_submit env (d\<lparr>dv_versions := (dv_versions d)(i := dv_versions d i + 1)\<rparr>)) = Some (d', Inr ())"
    "matches d' w'" "bs_inv E w'" "queued w' = []"
    "logical w' (Held (ob_name ob)) = Some (en\<lparr>en_header := blob, en_old := False\<rparr>)"
    "\<And>k. k \<noteq> ob_name ob \<Longrightarrow> logical w' (Held k) = logical w (Held k)" "eg_last (wd_eng w') = eg_last (wd_eng w)"
proof -
  let ?a = "Held (ob_name ob)"
  obtain e where e: "write_metadata_obj i blob (wd_eng w) = (e, Inr ())"
    using i by (auto simp: write_metadata_obj_def require_def Let_def)
  let ?w = "w\<lparr>wd_eng := e, wd_vers := (if map_option ob_state (obj w i) = Some ACTIVE
       then (wd_vers w)(i := wd_vers w i + 1) else wd_vers w)\<rparr>"
  let ?d = "d\<lparr>dv_eng := e, dv_versions := (dv_versions d)(i := dv_versions d i + 1)\<rparr>"
  have st: "bs_step (ev_ap env) E w ?w" by (rule step_metadata [OF e])
  have inv1: "bs_inv E ?w" by (rule bs_step_inv [OF st ok inv])
  have m1: "matches ?d ?w" using m i by (simp add: matches_def)
  have at: "en_ts en = ob_ts ob" "en_deleted en = ob_deleted ob" using inv_handle [OF inv i(1)] i(2) en by (auto simp: handle_ok_def address_of_def)
  have L: "logical ?w = fold effect [SetHeader ?a blob, SetAttrs ?a (ob_ts ob) (ob_deleted ob) False] (logical w)"
    using e
  proof (cases rule: write_metadata_obj_prepares)
    case (first ob1)
    then show ?thesis using i by simp
  next
    case (later ob1)
    then have "ob1 = ob" using i by simp
    moreover have "address_of ob = ?a" using i by (simp add: address_of_def)
    ultimately show ?thesis by (intro logical_prepare) (simp_all add: later(3))
  qed
  obtain w' where w': "dev_submit env ?d = Some (submitted ?w ?d, Inr ())"
    "(bs_step (ev_ap env) E)\<^sup>*\<^sup>* ?w w'" "matches (submitted ?w ?d) w'"
    "bs_inv E w'" "logical w' = logical ?w" "queued w' = []" "store w' = logical ?w" "wd_bytes w' = wd_bytes ?w" "eg_objs (wd_eng w') = eg_objs (wd_eng ?w)"
    "wd_map w' = wd_map ?w" "eg_next (wd_eng w') = eg_next (wd_eng ?w)" "eg_last (wd_eng w') = eg_last (wd_eng ?w)"
    by (rule dev_submit_ok [OF ok inv1 m1])
  have "dev_then (on_engine (write_metadata_obj i blob) d) (\<lambda>u d.
      dev_submit env (d\<lparr>dv_versions := (dv_versions d)(i := dv_versions d i + 1)\<rparr>)) = Some (submitted ?w ?d, Inr ())"
    using m e w'(1) by (simp add: on_engine_def matches_def)
  moreover have "logical w' ?a = Some (en\<lparr>en_header := blob, en_old := False\<rparr>)"
    unfolding w'(5) L using en at by (cases en) (simp add: change_entry_def)
  moreover have "logical w' (Held k) = logical w (Held k)" if "k \<noteq> ob_name ob" for k
    unfolding w'(5) L using that by (simp add: change_entry_def)
  moreover have "eg_last (wd_eng w') = eg_last (wd_eng w)"
    unfolding w'(12) using e by (cases rule: write_metadata_obj_prepares) simp_all
  ultimately show thesis using that w'(3,4,6) by blast
qed

text \<open>The end of a request: every Object is let go of.\<close>

definition end_request :: "device \<Rightarrow> device" where
  "end_request d = fold let_go [0..<eg_next (dv_eng d)] d"

lemma let_go_ok:
  assumes ok: "bluestore_ok ap" and inv: "bs_inv E w" and m: "matches d w" and q: "quiet w"
  shows "\<exists>w'. matches (let_go i d) w' \<and> bs_inv E w' \<and> quiet w' \<and> (\<forall>n. logical w' (Held n) = logical w (Held n)) \<and>
    obj w' = (obj w)(i := None) \<and> eg_last (wd_eng w') = eg_last (wd_eng w)"
proof (cases "obj w i")
  case None
  then have "let_go i d = d" "obj w = (obj w)(i := None)" using m by (auto simp: let_go_def release_obj_def matches_def)
  then show ?thesis using inv m q by (intro exI [of _ w]) simp
next
  case (Some ob)
  let ?w = "w\<lparr>wd_eng := release_obj i (wd_eng w)\<rparr>"
  have st: "bs_step ap E w ?w" by (rule step_release [OF Some]) (use q in \<open>simp add: quiet_def\<close>)
  have o: "obj ?w = (obj w)(i := None)" "eg_last (wd_eng ?w) = eg_last (wd_eng w)"
    using Some by (simp_all add: release_obj_def prepare_def Let_def)
  have mm: "matches (let_go i d) ?w" using m by (simp add: matches_def let_go_def)
  show ?thesis
  proof (cases "ob_state ob \<in> {IN_WRITE, OLD}")
    case True
    then have a: "address_of ob = Temp (ob_name ob) (ob_ts ob)" by (auto simp: address_of_def)
    have L: "logical ?w = fold effect [RemoveEntry (address_of ob)] (logical w)"
      by (rule logical_prepare) (use Some True in \<open>auto simp: release_obj_def Let_def\<close>)
    have "quiet ?w" using q Some True a by (auto simp: quiet_def release_obj_def Let_def)
    then show ?thesis using mm o bs_step_inv [OF st ok inv] by (intro exI [of _ ?w]) (simp add: L a)
  next
    case False
    then have "eg_queue (release_obj i (wd_eng w)) = eg_queue (wd_eng w)" "eg_store (release_obj i (wd_eng w)) = store w"
      using Some by (auto simp: release_obj_def Let_def)
    then show ?thesis using mm o q bs_step_inv [OF st ok inv] by (intro exI [of _ ?w]) (simp add: logical_def quiet_def)
  qed
qed

lemma let_all_go_ok:
  assumes ok: "bluestore_ok ap" and "bs_inv E w" and "matches d w" and "quiet w"
  shows "\<exists>w'. matches (fold let_go is d) w' \<and> bs_inv E w' \<and> quiet w' \<and> (\<forall>n. logical w' (Held n) = logical w (Held n)) \<and>
    (\<forall>i. obj w' i = (if i \<in> set is then None else obj w i)) \<and> eg_last (wd_eng w') = eg_last (wd_eng w)"
  using assms(2-4)
proof (induction "is" arbitrary: d w)
  case Nil
  then show ?case by auto
next
  case (Cons i "is")
  obtain w1 where w1: "matches (let_go i d) w1" "bs_inv E w1" "quiet w1" "\<forall>n. logical w1 (Held n) = logical w (Held n)"
    "obj w1 = (obj w)(i := None)" "eg_last (wd_eng w1) = eg_last (wd_eng w)" using let_go_ok [OF ok Cons.prems] by blast
  obtain w' where "matches (fold let_go is (let_go i d)) w'" "bs_inv E w'" "quiet w'" "\<forall>n. logical w' (Held n) = logical w1 (Held n)"
    "\<forall>i. obj w' i = (if i \<in> set is then None else obj w1 i)" "eg_last (wd_eng w') = eg_last (wd_eng w1)" using Cons.IH [OF w1(2,1,3)] by blast
  then show ?case using w1 by (intro exI [of _ w']) auto
qed

lemma end_request_ok:
  assumes ok: "bluestore_ok ap" and inv: "bs_inv E w" and m: "matches d w" and q: "quiet w"
  obtains w' where "matches (end_request d) w'" "bs_inv E w'" "quiet w'" "\<And>n. logical w' (Held n) = logical w (Held n)" "\<And>i. obj w' i = None"
    "eg_last (wd_eng w') = eg_last (wd_eng w)"
proof -
  obtain w' where w': "matches (end_request d) w'" "bs_inv E w'" "quiet w'" "\<forall>n. logical w' (Held n) = logical w (Held n)"
    "\<forall>i. obj w' i = (if i < eg_next (dv_eng d) then None else obj w i)" "eg_last (wd_eng w') = eg_last (wd_eng w)"
    using let_all_go_ok [OF ok inv m q, of "[0..<eg_next (dv_eng d)]"] by (auto simp: end_request_def)
  have "obj w i = None" if "\<not> i < eg_next (dv_eng d)" for i
    using inv_handle [OF inv, of i] that m by (cases "obj w i") (auto simp: handle_ok_def matches_def)
  then show thesis using that w' by metis
qed

end
