(* ===== verification/BsServe.thy ===== *)
theory BsServe
  imports BsSteps
begin

text \<open>
  An object server's requests on the disk files of the BlueStore backend, the specification they are to meet, and
  what each method of the Device does to a store that meets it.
\<close>


section \<open>Requests\<close>

text \<open>
  What an object server does with the classes, a request at a time; nothing is held when it ends.
\<close>

type_synonym bs_path = "string \<times> string \<times> string"

datatype 't bs_request =
    BsPut bs_path "string list" metadata
  | BsDelete bs_path 't
  | BsPost bs_path metadata
  | BsGet bs_path "nat option" "nat option"

datatype bs_answer = BsOk | BsGot metadata string | BsError dev_exc

primrec bs_write_chunks :: "'t dev_env \<Rightarrow> string list \<Rightarrow> bs_writer \<Rightarrow> device \<Rightarrow> bs_writer dev_result" where
  "bs_write_chunks env [] w d = Some (d, Inr w)"
| "bs_write_chunks env (c # cs) w d = dev_then (bs_writer_write env w c d) (bs_write_chunks env cs)"

definition path_file :: "'t :: {linorder, order_bot} dev_env \<Rightarrow> bs_path \<Rightarrow> device \<Rightarrow> 't bs_file dev_result" where
  "path_file env p d = (case p of (a, c, ob) \<Rightarrow> get_bs_file env a c ob d)"

definition path_name :: "bs_path \<Rightarrow> string" where
  "path_name p = (case p of (a, c, ob) \<Rightarrow> object_name a c ob)"

fun bs_serve :: "'t :: {linorder, order_bot} dev_env \<Rightarrow> nat \<Rightarrow> 't bs_request \<Rightarrow> device \<Rightarrow> bs_answer dev_result" where
  "bs_serve env now (BsPut p chunks metadata) d =
     dev_then (path_file env p d) (\<lambda>df d.
     dev_then (file_writer now df d) (\<lambda>w d.
     dev_then (bs_write_chunks env chunks w d) (\<lambda>w d.
     dev_then (writer_put env w metadata d) (\<lambda>u d. Some (d, Inr BsOk)))))"
| "bs_serve env now (BsDelete p timestamp) d =
     dev_then (path_file env p d) (\<lambda>df d.
     dev_then (file_delete env now df timestamp d) (\<lambda>u d. Some (d, Inr BsOk)))"
| "bs_serve env now (BsPost p metadata) d =
     dev_then (path_file env p d) (\<lambda>df d.
     dev_then (file_write_metadata env df metadata d) (\<lambda>u d. Some (d, Inr BsOk)))"
| "bs_serve env now (BsGet p start stop) d =
     dev_then (path_file env p d) (\<lambda>df d.
     dev_then (file_open env df d) (\<lambda>df d.
     dev_then (of_python (file_get_metadata df) d) (\<lambda>md d.
     dev_then (file_app_iter_range env df start stop d) (\<lambda>chunks d. Some (d, Inr (BsGot md (concat chunks)))))))"

definition handle_request :: "'t :: {linorder, order_bot} dev_env \<Rightarrow> nat \<Rightarrow> 't bs_request \<Rightarrow> device \<Rightarrow> (device \<times> bs_answer) option" where
  "handle_request env now rq d =
     map_option (\<lambda>(d, r). (end_request d, case r of Inl x \<Rightarrow> BsError x | Inr a \<Rightarrow> a)) (bs_serve env now rq d)"

primrec handle_requests ::
  "'t :: {linorder, order_bot} dev_env \<Rightarrow> (nat \<times> 't bs_request) list \<Rightarrow> device \<Rightarrow> (device \<times> bs_answer list) option" where
  "handle_requests env [] d = Some (d, [])"
| "handle_requests env (rq # rqs) d =
     (case handle_request env (fst rq) (snd rq) d of
        None \<Rightarrow> None
      | Some (d, a) \<Rightarrow> map_option (\<lambda>(d, as). (d, a # as)) (handle_requests env rqs d))"

section \<open>The specification\<close>

text \<open>What has each name: the sections of its metadata, whether it is a deletion, and its bytes.\<close>

type_synonym bs_abs = "string \<Rightarrow> (sections \<times> bool \<times> string) option"

text \<open>The bytes from \<open>start\<close> up to before \<open>stop\<close>.\<close>

definition byte_range :: "nat option \<Rightarrow> nat option \<Rightarrow> string \<Rightarrow> string" where
  "byte_range start stop b =
     (let offset = case_option 0 id start
      in (case stop of None \<Rightarrow> id | Some s \<Rightarrow> take (s - offset)) (drop offset b))"

definition spec_store ::
  "'t :: {linorder, order_bot} dev_env \<Rightarrow> bs_abs \<Rightarrow> string \<Rightarrow> bool \<Rightarrow> string \<Rightarrow> metadata \<Rightarrow> bs_abs \<times> bs_answer" where
  "spec_store env A n del body md =
     (case A n of
        None \<Rightarrow> (A(n \<mapsto> (\<lparr>sc_data = md, sc_meta = None\<rparr>, del, body)), BsOk)
      | Some (s, d, b) \<Rightarrow>
          (case md_step (ev_md env) s (MdPut md) of
             Inl x \<Rightarrow> (A, BsError (Py x))
           | Inr s' \<Rightarrow> (if md_time (de_lib (ev_md env)) md \<le> md_time (de_lib (ev_md env)) (sc_data s) then A
                        else A(n \<mapsto> (s', del, body)), BsOk)))"

fun spec_request :: "'t :: {linorder, order_bot} dev_env \<Rightarrow> bs_abs \<Rightarrow> 't bs_request \<Rightarrow> bs_abs \<times> bs_answer" where
  "spec_request env A (BsPut p chunks md) = spec_store env A (path_name p) False (concat chunks) md"
| "spec_request env A (BsDelete p t) =
     spec_store env A (path_name p) True [] [(''X-Timestamp'', ts_internal (de_lib (ev_md env)) t)]"
| "spec_request env A (BsPost p md) =
     (case A (path_name p) of
        None \<Rightarrow> (A, BsError (Py DiskFileNotExist))
      | Some (s, del, b) \<Rightarrow>
          if del then (A, BsError (Py (DiskFileDeleted (sc_data s))))
          else (case md_step (ev_md env) s (MdPost md) of
                  Inl x \<Rightarrow> (A, BsError (Py x))
                | Inr s' \<Rightarrow> (A(path_name p \<mapsto> (s', False, b)), BsOk)))"
| "spec_request env A (BsGet p start stop) =
     (A, case A (path_name p) of
           None \<Rightarrow> BsError (Py DiskFileNotExist)
         | Some (s, del, b) \<Rightarrow>
             if del then BsError (Py (DiskFileDeleted (sc_data s)))
             else (case md_view_of (ev_md env) (sc_data s) (sc_meta s) of
                     Inl x \<Rightarrow> BsError (Py x) | Inr v \<Rightarrow> BsGot (mv_merged v) (byte_range start stop b)))"

primrec spec_requests :: "'t :: {linorder, order_bot} dev_env \<Rightarrow> bs_abs \<Rightarrow> (nat \<times> 't bs_request) list \<Rightarrow> bs_answer list" where
  "spec_requests env A [] = []"
| "spec_requests env A (rq # rqs) = (case spec_request env A (snd rq) of (A, a) \<Rightarrow> a # spec_requests env A rqs)"

text \<open>An entry that stores what the specification has, with valid metadata.\<close>

fun stores :: "'t :: {linorder, order_bot} dev_env \<Rightarrow> (sections \<times> bool \<times> string) option \<Rightarrow> bs_entry option \<Rightarrow> bool" where
  "stores env None None = True"
| "stores env (Some (s, del, b)) (Some en) =
     (en_ts en = ev_raw env (md_time (de_lib (ev_md env)) (sc_data s)) \<and> en_deleted en = del \<and> en_data en = b \<and>
      en_header en = js_dumps (ev_js env) s \<and> valid_put (de_lib (ev_md env)) (sc_data s) \<and>
      (case sc_meta s of None \<Rightarrow> True | Some m \<Rightarrow> valid_md (de_lib (ev_md env)) m))"
| "stores env _ _ = False"

text \<open>Between requests, with the last estimate that the engine gave; \<open>E\<close> holds those of the whole run.\<close>

definition idle :: "'t :: {linorder, order_bot} dev_env \<Rightarrow> nat set \<Rightarrow> nat \<Rightarrow> device \<Rightarrow> bs_abs \<Rightarrow> bool" where
  "idle env E l d A \<longleftrightarrow> (\<exists>w. matches d w \<and> bs_inv E w \<and> quiet w \<and> eg_last (wd_eng w) = l \<and> (\<forall>i. obj w i = None) \<and>
     (\<forall>n. stores env (A n) (logical w (Held n))))"

text \<open>What is assumed of the surroundings, BlueStore with room left among them, and of the requests: valid metadata and positive times.\<close>

definition env_ok :: "'t :: {linorder, order_bot} dev_env \<Rightarrow> bool" where
  "env_ok env \<longleftrightarrow> bluestore_ok (ev_ap env) \<and> json_ok (ev_js env) \<and> user_keys (ev_md env) \<and> 0 < ev_chunk env \<and>
     (\<forall>t u. t < u \<longleftrightarrow> ev_raw env t < ev_raw env u)"

fun bs_request_ok :: "'t :: {linorder, order_bot} dev_env \<Rightarrow> 't bs_request \<Rightarrow> bool" where
  "bs_request_ok env (BsPut p chunks md) \<longleftrightarrow> valid_put (de_lib (ev_md env)) md \<and> 0 < ev_raw env (md_time (de_lib (ev_md env)) md)"
| "bs_request_ok env (BsDelete p t) \<longleftrightarrow> ts_internal (de_lib (ev_md env)) t \<noteq> [] \<and>
     ts_parse (de_lib (ev_md env)) (ts_internal (de_lib (ev_md env)) t) = Some t \<and> 0 < ev_raw env t"
| "bs_request_ok env (BsPost p md) \<longleftrightarrow> valid_md (de_lib (ev_md env)) md"
| "bs_request_ok env (BsGet p start stop) \<longleftrightarrow> True"

text \<open>
  The time a request settles, and the one that its entry is written at: the clock's, or the next after the last.  These
  are to be different, within a run; the times of the requests are free otherwise, before or after the clock's.
\<close>

fun settles_at :: "'t :: {linorder, order_bot} dev_env \<Rightarrow> 't bs_request \<Rightarrow> nat option" where
  "settles_at env (BsPut p chunks md) = Some (ev_raw env (md_time (de_lib (ev_md env)) md))"
| "settles_at env (BsDelete p t) = Some (ev_raw env t)"
| "settles_at env r = None"

definition last_estimate :: "'t :: {linorder, order_bot} dev_env \<Rightarrow> nat \<Rightarrow> nat \<times> 't bs_request \<Rightarrow> nat" where
  "last_estimate env l rq = (if settles_at env (snd rq) = None then l else max (fst rq) (l + 1))"

primrec estimates_in :: "'t :: {linorder, order_bot} dev_env \<Rightarrow> nat \<Rightarrow> (nat \<times> 't bs_request) list \<Rightarrow> nat set" where
  "estimates_in env l [] = {}"
| "estimates_in env l (rq # rqs) =
     (if settles_at env (snd rq) = None then {} else {last_estimate env l rq}) \<union> estimates_in env (last_estimate env l rq) rqs"

definition keeps_apart :: "'t :: {linorder, order_bot} dev_env \<Rightarrow> nat set \<Rightarrow> 't bs_request \<Rightarrow> bool" where
  "keeps_apart env E r \<longleftrightarrow> (\<forall>t. settles_at env r = Some t \<longrightarrow> t \<notin> E)"

text \<open>The first step of every request.\<close>

lemma stores_None: "stores env a x \<Longrightarrow> (a = None \<longleftrightarrow> x = None)"
  by (cases a; cases x) auto

lemma path_file_ok:
  assumes id: "idle env E l d A" and ok: "bluestore_ok (ev_ap env)"
  obtains d' w i where "path_file env p d = Some (d', Inr \<lparr>bf_object = i, bf_metadata = None\<rparr>)" "matches d' w" "bs_inv E w" "quiet w"
    "obj w i = Some (found (path_name p) (logical w (Held (path_name p))))" "live_obj w (path_name p) = Some i" "i < eg_next (wd_eng w)"
    "\<And>n. stores env (A n) (logical w (Held n))" "eg_last (wd_eng w) = l"
proof -
  obtain w0 where w0: "matches d w0" "bs_inv E w0" "quiet w0" "\<And>i. obj w0 i = None" "\<And>n. stores env (A n) (logical w0 (Held n))"
    "eg_last (wd_eng w0) = l"
    using id unfolding idle_def by blast
  have lo: "live_obj w0 (path_name p) = None" using w0(4) by (simp add: live_obj_def split: option.split)
  obtain d' w where w: "dev_open env (path_name p) False d = Some (d', Inr (eg_next (wd_eng w0), None))" "bs_step (ev_ap env) E w0 w" "matches d' w"
    "logical w = logical w0" "queued w = queued w0 \<and> store w = store w0" "wd_bytes w = wd_bytes w0"
    "obj w = (obj w0)(eg_next (wd_eng w0) \<mapsto> found (path_name p) (logical w0 (Held (path_name p))))" "wd_map w (path_name p) = Some (eg_next (wd_eng w0))"
    "eg_next (wd_eng w) = eg_next (wd_eng w0) + 1" "eg_last (wd_eng w) = eg_last (wd_eng w0)"
    by (rule dev_open_new [OF w0(2,1) lo])
  have "path_file env p d = Some (d', Inr \<lparr>bf_object = eg_next (wd_eng w0), bf_metadata = None\<rparr>)"
    using w(1) by (cases p) (simp add: path_file_def path_name_def get_bs_file_def)
  moreover have "quiet w" using w0(3) w(5) by (simp add: quiet_def)
  moreover have "live_obj w (path_name p) = Some (eg_next (wd_eng w0))" using w(7,8) by (simp add: live_obj_def)
  ultimately show thesis
    using that w(3) bs_step_inv [OF w(2) ok w0(2)] w(7,9,10) w0(5,6) by (simp add: w(4))
qed

lemma stored_view:
  assumes env: "env_ok env" and st: "stores env (Some (s, del, b)) (Some en)"
  obtains v where "md_get (ev_md env) (ev_js env) (en_header en) = Inr v" "md_view_of (ev_md env) (sc_data s) (sc_meta s) = Inr v"
    "mv_data v = sc_data s" "mv_meta v = sc_meta s" "mv_data_ts v = Some (md_time (de_lib (ev_md env)) (sc_data s))"
proof -
  have vp: "valid_put (de_lib (ev_md env)) (sc_data s)" "case sc_meta s of None \<Rightarrow> True | Some m \<Rightarrow> valid_md (de_lib (ev_md env)) m"
    and h: "en_header en = js_dumps (ev_js env) s" using st by simp_all
  obtain v where v: "md_view_of (ev_md env) (sc_data s) (sc_meta s) = Inr v" "mv_data v = sc_data s" "mv_meta v = sc_meta s"
      "mv_data_ts v = Some (md_time (de_lib (ev_md env)) (sc_data s))"
    using env unfolding env_ok_def by (elim conjE) (rule view_exists [OF _ vp], assumption, rule that)
  have "md_get (ev_md env) (ev_js env) (en_header en) = Inr v"
    using env v(1) by (simp add: md_get_def h env_ok_def json_ok_def)
  then show thesis using that v by blast
qed

text \<open>What holds a name is an Object, as a search found it.\<close>

definition name_holds :: "world \<Rightarrow> string \<Rightarrow> nat \<Rightarrow> bool" where
  "name_holds w n i \<longleftrightarrow> live_obj w n = Some i \<and> obj w i = Some (found n (logical w (Held n)))"

lemma name_holds_frame: "name_holds w n i \<Longrightarrow> frame j w w' \<Longrightarrow> i \<noteq> j \<Longrightarrow> name_holds w' n i"
  by (auto simp: name_holds_def frame_def live_obj_def split: option.splits if_splits)

lemma name_holds_cong:
  "name_holds w n i \<Longrightarrow> logical w' = logical w \<Longrightarrow> eg_objs (wd_eng w') = eg_objs (wd_eng w) \<Longrightarrow> wd_map w' = wd_map w \<Longrightarrow> name_holds w' n i"
  by (auto simp: name_holds_def live_obj_def split: option.splits if_splits)

text \<open>Opening the name again, with the metadata.\<close>

definition is_view :: "'t :: {linorder, order_bot} dev_env \<Rightarrow> (sections \<times> bool \<times> string) option \<Rightarrow> 't md_view option \<Rightarrow> bool" where
  "is_view env a v = (case a of
     None \<Rightarrow> v = None
   | Some (s, del, b) \<Rightarrow> \<exists>x. v = Some x \<and> md_view_of (ev_md env) (sc_data s) (sc_meta s) = Inr x \<and>
       mv_data x = sc_data s \<and> mv_meta x = sc_meta s \<and> mv_data_ts x = Some (md_time (de_lib (ev_md env)) (sc_data s)))"

lemma open_again:
  assumes env: "env_ok env" and inv: "bs_inv E w" and m: "matches d w" and q: "quiet w" and h: "name_holds w n i"
    and st: "stores env a (logical w (Held n))"
  obtains d' w' v where "dev_open env n True d = Some (d', Inr (i, v))" "matches d' w'" "bs_inv E w'" "quiet w'"
    "logical w' = logical w" "eg_objs (wd_eng w') = eg_objs (wd_eng w)" "wd_bytes w' = wd_bytes w" "wd_map w' = wd_map w"
    "eg_next (wd_eng w') = eg_next (wd_eng w)" "is_view env a v" "eg_last (wd_eng w') = eg_last (wd_eng w)"
proof -
  have ok: "bluestore_ok (ev_ap env)" and c: "0 < ev_chunk env" using env by (simp_all add: env_ok_def)
  have l: "live_obj w n = Some i" and i: "obj w i = Some (found n (logical w (Held n)))" using h by (simp_all add: name_holds_def)
  obtain w' where w': "dev_submit env d = Some (submitted w d, Inr ())" "(bs_step (ev_ap env) E)\<^sup>*\<^sup>* w w'" "matches (submitted w d) w'"
    "bs_inv E w'" "logical w' = logical w" "queued w' = []" "store w' = logical w" "wd_bytes w' = wd_bytes w" "eg_objs (wd_eng w') = eg_objs (wd_eng w)"
    "wd_map w' = wd_map w" "eg_next (wd_eng w') = eg_next (wd_eng w)" "eg_last (wd_eng w') = eg_last (wd_eng w)"
    by (rule dev_submit_ok [OF ok inv m])
  show thesis
  proof (cases "logical w (Held n)")
    case None
    then have a: "a = None" using stores_None [OF st] by simp
    have "dev_open env n True d = Some (d, Inr (i, None))"
      using dev_open_known [OF ok inv m l i _ c] None by (simp add: found_def)
    then show thesis using that [of d None w] m inv q a by (simp add: is_view_def)
  next
    case (Some en)
    then obtain s del b where a: "a = Some (s, del, b)" using stores_None [OF st] by (cases a) auto
    obtain v where v: "md_get (ev_md env) (ev_js env) (en_header en) = Inr v" "md_view_of (ev_md env) (sc_data s) (sc_meta s) = Inr v"
      "mv_data v = sc_data s" "mv_meta v = sc_meta s" "mv_data_ts v = Some (md_time (de_lib (ev_md env)) (sc_data s))"
      by (rule stored_view [OF env]) (use st Some in \<open>simp add: a\<close>)
    have "header_of w i = Some (en_header en)" using i Some by (simp add: header_of_def found_def address_of_def)
    then have "dev_open env n True d = Some (submitted w d, Inr (i, Some v))"
      using dev_open_known [OF ok inv m l i _ c, where f = "\<lambda>h. v"] v(1) Some by (simp add: found_def)
    then show thesis using that [of "submitted w d" "Some v" w'] w' v a by (simp add: is_view_def quiet_empty)
  qed
qed

text \<open>Reading the bytes.\<close>

lemma dev_read_ok:
  assumes m: "matches d w" and q: "queued w = []" and i: "obj w i = Some ob" "ob_state ob \<in> {ACTIVE, OLD}"
    and en: "logical w (address_of ob) = Some en" "en_ts en = ob_ts ob"
    and n: "0 < ev_chunk env" "case stop of None \<Rightarrow> True | Some s \<Rightarrow> offset < s"
  defines "amount \<equiv> case stop of None \<Rightarrow> ev_chunk env | Some s \<Rightarrow> min (s - offset) (ev_chunk env)"
  shows "dev_read env i (Some offset) stop d =
    Some (d, Inr (take amount (drop offset (en_data en)), length (take amount (drop offset (en_data en))) \<noteq> amount))"
proof -
  have a: "0 < amount" using n by (auto simp: amount_def split: option.splits)
  have st: "store w = logical w" unfolding logical_def q by simp
  have "read_obj i offset amount (wd_eng w) (store w) (store w) = Inr (take amount (drop offset (en_data en)))"
    unfolding st using i en a by (auto simp: read_obj_def require_def checked_read_def check_obj_def load_entry_def split: address.splits)
  then have r: "object_read i offset amount d = Some (d, Inr (take amount (drop offset (en_data en))))"
    using m a by (simp add: object_read_def on_engine_def matches_def)
  have am: "(case stop of None \<Rightarrow> ev_chunk env | Some s \<Rightarrow> if s = 0 then ev_chunk env else min (s - offset) (ev_chunk env)) = amount"
    "\<not> (case stop of None \<Rightarrow> False | Some s \<Rightarrow> s \<noteq> 0 \<and> s < offset)"
    using n(2) by (auto simp: amount_def split: option.splits)
  show ?thesis unfolding dev_read_def by (subst retry_plain) (simp_all add: am r)
qed

lemma range_chunks_ok:
  assumes m: "matches d w" and q: "queued w = []" and i: "obj w i = Some ob" "ob_state ob \<in> {ACTIVE, OLD}"
    and en: "logical w (address_of ob) = Some en" "en_ts en = ob_ts ob" and c: "0 < ev_chunk env"
  shows "\<exists>chunks'. range_chunks env i offset stop chunks d = Some (d, Inr chunks') \<and>
    concat chunks' = concat chunks @ (case stop of None \<Rightarrow> id | Some s \<Rightarrow> take (s - offset)) (drop offset (en_data en))"
proof (induction "length (en_data en) - offset" arbitrary: offset chunks rule: less_induct)
  case less
  show ?case
  proof (cases "case stop of None \<Rightarrow> True | Some s \<Rightarrow> offset < s")
    case False
    then show ?thesis by (subst range_chunks.simps) (auto split: option.splits)
  next
    case True
    define amount where "amount = (case stop of None \<Rightarrow> ev_chunk env | Some s \<Rightarrow> min (s - offset) (ev_chunk env))"
    have a: "0 < amount" using True c by (auto simp: amount_def split: option.splits)
    let ?r = "drop offset (en_data en)"
    have rd: "dev_read env i (Some offset) stop d = Some (d, Inr (take amount ?r, length (take amount ?r) \<noteq> amount))"
      unfolding amount_def by (rule dev_read_ok [OF m q i en c True])
    have t: "\<not> (case stop of None \<Rightarrow> False | Some s \<Rightarrow> \<not> offset < s)" using True by (auto split: option.splits)
    note s = range_chunks.simps [of env i offset stop chunks d, unfolded rd if_not_P [OF t] option.case prod.case sum.case]
    consider (empty) "?r = []" | (eof) "?r \<noteq> []" "length ?r < amount" | (more) "?r \<noteq> []" "amount \<le> length ?r" by linarith
    then show ?thesis
    proof cases
      case empty
      then show ?thesis unfolding s by (simp split: option.splits)
    next
      case eof
      have "(case stop of None \<Rightarrow> id | Some s \<Rightarrow> take (s - offset)) ?r = ?r"
        using eof(2) by (auto simp: amount_def split: option.splits)
      then show ?thesis unfolding s using eof by simp
    next
      case more
      have l: "length (take amount ?r) = amount" using more(2) by (simp only: length_take min_absorb2)
      then have ne: "take amount ?r \<noteq> []" using a by auto
      have "length (en_data en) - (offset + amount) < length (en_data en) - offset" using more a by simp
      from less [OF this, of "chunks @ [take amount ?r]"] obtain chunks' where
        c': "range_chunks env i (offset + amount) stop (chunks @ [take amount ?r]) d = Some (d, Inr chunks')"
          "concat chunks' = concat (chunks @ [take amount ?r]) @
             (case stop of None \<Rightarrow> id | Some s \<Rightarrow> take (s - (offset + amount))) (drop (offset + amount) (en_data en))" by blast
      have "take amount ?r @ (case stop of None \<Rightarrow> id | Some s \<Rightarrow> take (s - (offset + amount))) (drop (offset + amount) (en_data en))
          = (case stop of None \<Rightarrow> id | Some s \<Rightarrow> take (s - offset)) ?r"
      proof (cases stop)
        case None
        then show ?thesis by (simp add: add.commute flip: drop_drop)
      next
        case (Some x)
        then have "x - offset = amount + (x - (offset + amount))" using True by (simp add: amount_def)
        then have "take (x - offset) ?r = take amount ?r @ take (x - (offset + amount)) (drop amount ?r)" by (metis take_add)
        then show ?thesis using Some by (simp add: add.commute)
      qed
      then show ?thesis unfolding s l if_not_P [OF ne] using c' by simp
    qed
  qed
qed

text \<open>What takes the name over, when it is newer.\<close>

definition new_entry ::
  "'t :: {linorder, order_bot} dev_env \<Rightarrow> (sections \<times> bool \<times> string) option \<Rightarrow> bool \<Rightarrow> string \<Rightarrow> metadata \<Rightarrow> (sections \<times> bool \<times> string) option" where
  "new_entry env a del body md =
     (let time = md_time (de_lib (ev_md env))
      in case a of
           None \<Rightarrow> Some (\<lparr>sc_data = md, sc_meta = None\<rparr>, del, body)
         | Some (s, d, b) \<Rightarrow>
             if time md \<le> time (sc_data s) then a
             else Some (\<lparr>sc_data = md, sc_meta = (case sc_meta s of None \<Rightarrow> None | Some m \<Rightarrow> if time md < time m then Some m else None)\<rparr>, del, body))"

lemma spec_store_ok:
  assumes env: "env_ok env" and st: "stores env (A n) x" and md: "valid_put (de_lib (ev_md env)) md"
  shows "spec_store env A n del body md = (A(n := new_entry env (A n) del body md), BsOk)"
proof (cases "A n")
  case None
  then show ?thesis by (simp add: spec_store_def new_entry_def)
next
  case (Some y)
  obtain s d b where a: "A n = Some (s, d, b)" using Some by (cases y) auto
  obtain en where x: "x = Some en" using stores_None [OF st] a by auto
  have st: "stores env (Some (s, d, b)) (Some en)" using st a x by simp
  obtain v where v: "md_get (ev_md env) (ev_js env) (en_header en) = Inr v" "md_view_of (ev_md env) (sc_data s) (sc_meta s) = Inr v"
    "mv_data v = sc_data s" "mv_meta v = sc_meta s" "mv_data_ts v = Some (md_time (de_lib (ev_md env)) (sc_data s))"
    by (rule stored_view [OF env st])
  have "md_put (de_lib (ev_md env)) (Some v) md = Inr \<lparr>sc_data = md, sc_meta = (case sc_meta s of None \<Rightarrow> None
      | Some m \<Rightarrow> if md_time (de_lib (ev_md env)) md < md_time (de_lib (ev_md env)) m then Some m else None)\<rparr>"
    using md_put_eq [of "de_lib (ev_md env)" md v] md st v(4) by (simp add: valid_put_def)
  then show ?thesis using v(2) a by (auto simp: spec_store_def new_entry_def md_step_def Let_def)
qed

lemma take_over:
  assumes env: "env_ok env" and inv: "bs_inv E w" and m: "matches d w" and q: "quiet w"
    and j: "writing w j n del body (js_dumps (ev_js env) s')" "\<exists>ob. obj w j = Some ob \<and> ob_state ob = IN_WRITE"
    and h: "name_holds w n i" and st: "stores env a (logical w (Held n))" and v: "is_view env a v"
    and md: "valid_put (de_lib (ev_md env)) md" "md_put (de_lib (ev_md env)) v md = Inr s'"
    and t: "0 < ev_raw env (md_time (de_lib (ev_md env)) md)" "ev_raw env (md_time (de_lib (ev_md env)) md) \<notin> E"
  shows "\<exists>won d' w'. hand_over env j i (ev_raw env (md_time (de_lib (ev_md env)) md)) n d = Some (d', Inr won) \<and> matches d' w' \<and>
    bs_inv E w' \<and> quiet w' \<and> (\<forall>k. k \<noteq> n \<longrightarrow> logical w' (Held k) = logical w (Held k)) \<and>
    eg_last (wd_eng w') = eg_last (wd_eng w) \<and> stores env (new_entry env a del body md) (logical w' (Held n))"
proof -
  let ?t = "md_time (de_lib (ev_md env))"
  have ok: "bluestore_ok (ev_ap env)" and raw: "\<And>t u. ev_raw env t < ev_raw env u \<longleftrightarrow> t < u" using env by (simp_all add: env_ok_def)
  have le: "ev_raw env t \<le> ev_raw env u \<longleftrightarrow> t \<le> u" for t u using raw [of u t] by (simp add: not_less [symmetric])
  have l: "live_obj w n = Some i" and i: "obj w i = Some (found n (logical w (Held n)))" using h by (simp_all add: name_holds_def)
  show ?thesis
  proof (cases "\<exists>s d b. a = Some (s, d, b) \<and> ?t md \<le> ?t (sc_data s)")
    case True
    then obtain s d' b where a: "a = Some (s, d', b)" "?t md \<le> ?t (sc_data s)" by blast
    obtain en where en: "logical w (Held n) = Some en" using stores_None [OF st] a(1) by auto
    have "hand_over env j i (ev_raw env (?t md)) n d = Some (d, Inr False)"
      by (rule hand_over_conflict [OF m j i]) (use st a en in \<open>auto simp: found_def le\<close>)
    moreover have "new_entry env a del body md = a" using a by (simp add: new_entry_def)
    ultimately show ?thesis using m inv q st by (intro exI [of _ False] exI [of _ d] exI [of _ w]) simp
  next
    case False
    have lt: "ob_ts (found n (logical w (Held n))) < ev_raw env (?t md)"
    proof (cases a)
      case None
      then show ?thesis using stores_None [OF st] t by (simp add: found_def)
    next
      case (Some y)
      obtain s d' b where a: "a = Some (s, d', b)" using Some by (cases y) auto
      obtain en where en: "logical w (Held n) = Some en" using stores_None [OF st] a(1) by auto
      show ?thesis using st a en False raw by (simp add: found_def not_le)
    qed
    obtain d' w' en where w': "hand_over env j i (ev_raw env (?t md)) n d = Some (d', Inr True)" "matches d' w'" "bs_inv E w'" "queued w' = []"
      "logical w' (Held n) = Some en" "en_ts en = ev_raw env (?t md)" "en_deleted en = del" "en_data en = body" "en_header en = js_dumps (ev_js env) s'"
      "\<And>k. k \<noteq> n \<Longrightarrow> logical w' (Held k) = logical w (Held k)" "eg_last (wd_eng w') = eg_last (wd_eng w)"
      by (rule hand_over_ok [OF ok inv m j l i lt t(2)]) (rule that)
    have "stores env (new_entry env a del body md) (Some en)"
    proof (cases a)
      case None
      then have "v = None" using v by (simp add: is_view_def)
      then have "s' = \<lparr>sc_data = md, sc_meta = None\<rparr>" using md(2) by (simp add: md_put_def)
      then show ?thesis using None md(1) w'(6-9) by (simp add: new_entry_def)
    next
      case (Some y)
      obtain s d' b where a: "a = Some (s, d', b)" using Some by (cases y) auto
      obtain x where x: "v = Some x" "mv_data x = sc_data s" "mv_meta x = sc_meta s" using v a by (auto simp: is_view_def)
      obtain e0 where e0: "logical w (Held n) = Some e0" using stores_None [OF st] a(1) by auto
      have sm: "case sc_meta s of None \<Rightarrow> True | Some m \<Rightarrow> valid_md (de_lib (ev_md env)) m" using st a e0 by simp
      have "s' = \<lparr>sc_data = md, sc_meta = (case sc_meta s of None \<Rightarrow> None | Some m \<Rightarrow> if ?t md < ?t m then Some m else None)\<rparr>"
        using md_put_eq [of "de_lib (ev_md env)" md x] md x sm by (simp add: valid_put_def)
      then show ?thesis using False a md(1) w'(6-9) sm by (auto simp: new_entry_def Let_def split: option.splits)
    qed
    then show ?thesis using w' quiet_empty by (intro exI [of _ True] exI [of _ d'] exI [of _ w']) simp
  qed
qed

lemma put_given: "valid_put (de_lib (ev_md env)) md \<Longrightarrow> is_view env a v \<Longrightarrow> stores env a x \<Longrightarrow> \<exists>s'. md_put (de_lib (ev_md env)) v md = Inr s'"
proof (cases a)
  case None
  moreover assume "is_view env a v"
  ultimately show ?thesis by (simp add: is_view_def md_put_def)
next
  assume md: "valid_put (de_lib (ev_md env)) md" and v: "is_view env a v" and st: "stores env a x"
  case (Some y)
  obtain s d' b where a: "a = Some (s, d', b)" using Some by (cases y) auto
  obtain en where "x = Some en" using stores_None [OF st] a by auto
  with st a have sm: "case sc_meta s of None \<Rightarrow> True | Some m \<Rightarrow> valid_md (de_lib (ev_md env)) m" by simp
  obtain z where z: "v = Some z" "mv_meta z = sc_meta s" using v a by (auto simp: is_view_def)
  show ?thesis using md_put_eq [of "de_lib (ev_md env)" md z] md sm z by (simp add: valid_put_def)
qed

lemma frame_refl: "frame j w w"
  by (simp add: frame_def)

lemma bs_write_chunks_ok:
  assumes ok: "bluestore_ok (ev_ap env)" and "bs_inv E w" and "matches d w" and "writing w j n del body hdr" and "quiet w"
    and "bw_object wr = Some j"
  shows "\<exists>d' w' wr'. bs_write_chunks env cs wr d = Some (d', Inr wr') \<and> bw_object wr' = Some j \<and> matches d' w' \<and> bs_inv E w' \<and>
    writing w' j n del (body @ concat cs) hdr \<and> frame j w w' \<and> quiet w' \<and> eg_last (wd_eng w') = eg_last (wd_eng w)"
  using assms(2-)
proof (induction cs arbitrary: w d body wr)
  case Nil
  then show ?case by (auto intro: frame_refl)
next
  case (Cons c cs)
  obtain d1 w1 where w1: "dev_write env j c d = Some (d1, Inr ())" "(bs_step (ev_ap env) E)\<^sup>*\<^sup>* w w1" "matches d1 w1" "bs_inv E w1"
    "writing w1 j n del (body @ c) hdr" "frame j w w1" "queued w1 = []" "eg_next (wd_eng w1) = eg_next (wd_eng w)"
    "eg_last (wd_eng w1) = eg_last (wd_eng w)"
    by (rule dev_write_ok [OF ok Cons.prems(1,2,3)])
  let ?wr = "wr\<lparr>bw_size := bw_size wr + length c, bw_etag := bw_etag wr @ c\<rparr>"
  have "bs_writer_write env wr c d = Some (d1, Inr ?wr)" using w1(1) Cons.prems(5) by (simp add: bs_writer_write_def)
  moreover obtain d' w' wr' where "bs_write_chunks env cs ?wr d1 = Some (d', Inr wr')" "bw_object wr' = Some j" "matches d' w'" "bs_inv E w'"
    "writing w' j n del ((body @ c) @ concat cs) hdr" "frame j w1 w'" "quiet w'" "eg_last (wd_eng w') = eg_last (wd_eng w1)"
    using Cons.IH [OF w1(4,3,5) quiet_empty [OF w1(7,4)], of ?wr] Cons.prems(5) by auto
  ultimately show ?case using frame_trans [OF w1(6)] w1(9)
    by (intro exI [of _ d'] exI [of _ w'] exI [of _ wr']) simp
qed

lemma writing_name: "matches d w \<Longrightarrow> writing w j n del body hdr \<Longrightarrow> dv_name d j = n"
  by (auto simp: dv_name_def obj_of_def matches_def writing_def)

lemma name_holds_live: "name_holds w n i \<Longrightarrow> bs_inv E w \<Longrightarrow> i < eg_next (wd_eng w)"
  unfolding name_holds_def by (elim conjE, drule inv_handle, assumption) (simp add: handle_ok_def)

lemma name_holds_name: "matches d w \<Longrightarrow> name_holds w n i \<Longrightarrow> dv_name d i = n"
  by (auto simp: dv_name_def obj_of_def matches_def name_holds_def found_def split: option.splits)

lemma dev_put_ok:
  assumes env: "env_ok env" and inv: "bs_inv E w" and m: "matches d w" and q: "quiet w"
    and j: "writing w j n False body hdr" and h: "name_holds w n i" and ne: "i \<noteq> j" and st: "stores env a (logical w (Held n))"
    and md: "valid_put (de_lib (ev_md env)) md"
    and t: "0 < ev_raw env (md_time (de_lib (ev_md env)) md)" "ev_raw env (md_time (de_lib (ev_md env)) md) \<notin> E"
  shows "\<exists>d' w'. dev_put env j (ev_raw env (md_time (de_lib (ev_md env)) md)) md d = Some (d', Inr ()) \<and> matches d' w' \<and>
    bs_inv E w' \<and> quiet w' \<and> (\<forall>k. k \<noteq> n \<longrightarrow> logical w' (Held k) = logical w (Held k)) \<and>
    eg_last (wd_eng w') = eg_last (wd_eng w) \<and> stores env (new_entry env a False body md) (logical w' (Held n))"
proof -
  have ok: "bluestore_ok (ev_ap env)" using env by (simp add: env_ok_def)
  have n: "dv_name d j = n" by (rule writing_name [OF m j])
  obtain d1 w1 v where w1: "dev_open env n True d = Some (d1, Inr (i, v))" "matches d1 w1" "bs_inv E w1" "quiet w1"
    "logical w1 = logical w" "eg_objs (wd_eng w1) = eg_objs (wd_eng w)" "wd_bytes w1 = wd_bytes w" "wd_map w1 = wd_map w"
    "eg_next (wd_eng w1) = eg_next (wd_eng w)" "is_view env a v" "eg_last (wd_eng w1) = eg_last (wd_eng w)"
    by (rule open_again [OF env inv m q h st])
  have st1: "stores env a (logical w1 (Held n))" using st w1(5) by simp
  obtain s' where s': "md_put (de_lib (ev_md env)) v md = Inr s'" using put_given [OF md w1(10) st] by blast
  have j1: "writing w1 j n False body hdr" by (rule writing_cong [OF j w1(5,6,7)])
  have h1: "name_holds w1 n i" by (rule name_holds_cong [OF h w1(5,6,8)])
  obtain e where e: "write_metadata_obj j (js_dumps (ev_js env) s') (wd_eng w1) = (e, Inr ())" "bs_step (ev_ap env) E w1 (w1\<lparr>wd_eng := e\<rparr>)"
    "writing (w1\<lparr>wd_eng := e\<rparr>) j n False body (js_dumps (ev_js env) s')" "frame j w1 (w1\<lparr>wd_eng := e\<rparr>)" "eg_next e = eg_next (wd_eng w1)"
    "quiet w1 \<Longrightarrow> quiet (w1\<lparr>wd_eng := e\<rparr>)" "\<exists>ob. eg_objs e j = Some ob \<and> ob_state ob = IN_WRITE" "eg_last e = eg_last (wd_eng w1)"
    by (rule object_metadata_ok [OF ok w1(3) j1]) (rule that)
  let ?w = "w1\<lparr>wd_eng := e\<rparr>"
  have m2: "matches (d1\<lparr>dv_eng := e\<rparr>) ?w" using w1(2) by (simp add: matches_def)
  have "stores env a (logical ?w (Held n))" using st1 e(4) by (simp add: frame_def)
  then obtain won d' w' where w': "hand_over env j i (ev_raw env (md_time (de_lib (ev_md env)) md)) n (d1\<lparr>dv_eng := e\<rparr>) = Some (d', Inr won)"
    "matches d' w'" "bs_inv E w'" "quiet w'" "\<forall>k. k \<noteq> n \<longrightarrow> logical w' (Held k) = logical ?w (Held k)"
    "eg_last (wd_eng w') = eg_last e" "stores env (new_entry env a False body md) (logical w' (Held n))"
    using take_over [OF env bs_step_inv [OF e(2) ok w1(3)] m2 e(6) [OF w1(4)] e(3) _ name_holds_frame [OF h1 e(4) ne] _ w1(10) md s' t] e(7) by auto
  have "on_engine (write_metadata_obj j (js_dumps (ev_js env) s')) d1 = Some (d1\<lparr>dv_eng := e\<rparr>, Inr ())"
    using w1(2) e(1) by (simp add: on_engine_def matches_def)
  then have "dev_put env j (ev_raw env (md_time (de_lib (ev_md env)) md)) md d = Some (d', Inr ())"
    using w1(1) s' w'(1) by (simp add: dev_put_def n of_python_def)
  moreover have "logical ?w (Held k) = logical w (Held k)" for k using e(4) w1(5) by (simp add: frame_def)
  ultimately show ?thesis using w' e(8) w1(11) by (intro exI [of _ d'] exI [of _ w']) simp
qed

lemma dev_delete_ok:
  assumes env: "env_ok env" and inv: "bs_inv E w" and m: "matches d w" and q: "quiet w" and now: "max now (eg_last (wd_eng w) + 1) \<in> E"
    and h: "name_holds w n i" and st: "stores env a (logical w (Held n))"
    and md: "valid_put (de_lib (ev_md env)) md"
    and t: "0 < ev_raw env (md_time (de_lib (ev_md env)) md)" "ev_raw env (md_time (de_lib (ev_md env)) md) \<notin> E"
  shows "\<exists>d' w'. dev_delete env now i (ev_raw env (md_time (de_lib (ev_md env)) md)) stamp (Some md) d = Some (d', Inr ()) \<and> matches d' w' \<and>
    bs_inv E w' \<and> quiet w' \<and> (\<forall>k. k \<noteq> n \<longrightarrow> logical w' (Held k) = logical w (Held k)) \<and>
    eg_last (wd_eng w') = max now (eg_last (wd_eng w) + 1) \<and> stores env (new_entry env a True [] md) (logical w' (Held n))"
proof -
  have ok: "bluestore_ok (ev_ap env)" using env by (simp add: env_ok_def)
  have n: "dv_name d i = n" by (rule name_holds_name [OF m h])
  obtain d1 w1 v where w1: "dev_open env n True d = Some (d1, Inr (i, v))" "matches d1 w1" "bs_inv E w1" "quiet w1"
    "logical w1 = logical w" "eg_objs (wd_eng w1) = eg_objs (wd_eng w)" "wd_bytes w1 = wd_bytes w" "wd_map w1 = wd_map w"
    "eg_next (wd_eng w1) = eg_next (wd_eng w)" "is_view env a v" "eg_last (wd_eng w1) = eg_last (wd_eng w)"
    by (rule open_again [OF env inv m q h st])
  have now1: "max now (eg_last (wd_eng w1) + 1) \<in> E" using now w1(11) by simp
  have st1: "stores env a (logical w1 (Held n))" using st w1(5) by simp
  obtain s' where s': "md_put (de_lib (ev_md env)) v md = Inr s'" using put_given [OF md w1(10) st] by blast
  have h1: "name_holds w1 n i" by (rule name_holds_cong [OF h w1(5,6,8)])
  define j where "j = eg_next (wd_eng w1)"
  have ne: "i \<noteq> j" using name_holds_live [OF h1 w1(3)] by (simp add: j_def)
  obtain po where po: "obj w1 i = Some po" "ob_name po = n"
    using h1 by (auto simp: name_holds_def found_def split: option.splits)
  obtain d2 w2 where w2: "dev_create now i d1 = Some (d2, Inr j)" "bs_step (ev_ap env) E w1 w2" "matches d2 w2"
    "writing w2 j n False [] []" "frame j w1 w2" "queued w2 = queued w1 \<and> store w2 = store w1" "eg_next (wd_eng w2) = j + 1"
    "\<exists>o'. obj w2 j = Some o' \<and> ob_state o' = PRE_WRITE" "eg_last (wd_eng w2) = max now (eg_last (wd_eng w1) + 1)"
    unfolding j_def po(2) [symmetric] by (rule dev_create_ok [OF w1(2) po(1) now1])
  have c: "create_obj None now n (dv_eng d1) = (dv_eng d2, j)" "d2 = d1\<lparr>dv_eng := dv_eng d2\<rparr>"
    using w2(1) name_holds_name [OF w1(2) h1] by (auto simp: dev_create_def split: prod.splits)
  have inv2: "bs_inv E w2" by (rule bs_step_inv [OF w2(2) ok w1(3)])
  have q2: "quiet w2" using w1(4) w2(6) by (simp add: quiet_def)
  obtain e where e: "tombstone_obj j (js_dumps (ev_js env) s') (wd_eng w2) = (e, Inr ())" "bs_step (ev_ap env) E w2 (w2\<lparr>wd_eng := e\<rparr>)"
    "writing (w2\<lparr>wd_eng := e\<rparr>) j n True [] (js_dumps (ev_js env) s')" "frame j w2 (w2\<lparr>wd_eng := e\<rparr>)" "eg_next e = eg_next (wd_eng w2)"
    "quiet w2 \<Longrightarrow> quiet (w2\<lparr>wd_eng := e\<rparr>)" "\<exists>ob. eg_objs e j = Some ob \<and> ob_state ob = IN_WRITE" "eg_last e = eg_last (wd_eng w2)"
    by (rule object_tombstone_ok [OF ok inv2 w2(4,8)]) (rule that)
  let ?w = "w2\<lparr>wd_eng := e\<rparr>"
  have m3: "matches (d2\<lparr>dv_eng := e\<rparr>) ?w" using w2(3) by (simp add: matches_def)
  have fr: "frame j w1 ?w" by (rule frame_trans [OF w2(5) e(4)])
  have "stores env a (logical ?w (Held n))" using st1 fr by (simp add: frame_def)
  then obtain won d3 w3 where w3: "hand_over env j i (ev_raw env (md_time (de_lib (ev_md env)) md)) n (d2\<lparr>dv_eng := e\<rparr>) = Some (d3, Inr won)"
    "matches d3 w3" "bs_inv E w3" "quiet w3" "\<forall>k. k \<noteq> n \<longrightarrow> logical w3 (Held k) = logical ?w (Held k)"
    "eg_last (wd_eng w3) = eg_last e" "stores env (new_entry env a True [] md) (logical w3 (Held n))"
    using take_over [OF env bs_step_inv [OF e(2) ok inv2] m3 e(6) [OF q2] e(3) _ name_holds_frame [OF h1 fr ne] _ w1(10) md s' t] e(7) by auto
  have "on_engine (tombstone_obj j (js_dumps (ev_js env) s')) d2 = Some (d2\<lparr>dv_eng := e\<rparr>, Inr ())"
    using w2(3) e(1) by (simp add: on_engine_def matches_def)
  then have r: "dev_delete env now i (ev_raw env (md_time (de_lib (ev_md env)) md)) stamp (Some md) d
      = Some (if won then d3 else let_go j d3, Inr ())"
    using w1(1) s' w3(1) c by (simp add: dev_delete_def n of_python_def md_delete_def Let_def)
  have l: "logical ?w (Held k) = logical w (Held k)" for k using fr w1(5) by (simp add: frame_def)
  obtain w4 where w4: "matches (let_go j d3) w4" "bs_inv E w4" "quiet w4" "\<forall>n. logical w4 (Held n) = logical w3 (Held n)"
    "eg_last (wd_eng w4) = eg_last (wd_eng w3)"
    using let_go_ok [OF ok w3(3,2,4)] by blast
  have la: "eg_last (wd_eng w3) = max now (eg_last (wd_eng w) + 1)" using w3(6) e(8) w2(9) w1(11) by simp
  show ?thesis
  proof (cases won)
    case True
    then show ?thesis using r w3 l la by (intro exI [of _ d3] exI [of _ w3]) simp
  next
    case False
    then show ?thesis using r w3(5,7) w4 l la by (intro exI [of _ "let_go j d3"] exI [of _ w4]) simp
  qed
qed

lemma file_open_ok:
  assumes env: "env_ok env" and inv: "bs_inv E w" and m: "matches d w" and h: "name_holds w n i"
    and st: "stores env (Some (s, del, b)) (logical w (Held n))" and df: "bf_object df = i"
  obtains d' w' v where "file_open env df d =
      Some (d', if del then Inl (Py (DiskFileDeleted (sc_data s))) else Inr (df\<lparr>bf_metadata := Some v\<rparr>))"
    "matches d' w'" "bs_inv E w'" "queued w' = []" "logical w' = logical w" "name_holds w' n i" "is_view env (Some (s, del, b)) (Some v)"
    "eg_last (wd_eng w') = eg_last (wd_eng w)"
proof -
  have ok: "bluestore_ok (ev_ap env)" and c: "0 < ev_chunk env" using env by (simp_all add: env_ok_def)
  obtain en where en: "logical w (Held n) = Some en" using stores_None [OF st] by auto
  have i: "obj w i = Some (found n (Some en))" using h en by (simp add: name_holds_def)
  obtain v where v: "md_get (ev_md env) (ev_js env) (en_header en) = Inr v" "md_view_of (ev_md env) (sc_data s) (sc_meta s) = Inr v"
    "mv_data v = sc_data s" "mv_meta v = sc_meta s" "mv_data_ts v = Some (md_time (de_lib (ev_md env)) (sc_data s))"
    by (rule stored_view [OF env]) (use st en in simp)
  have "header_of w i = Some (en_header en)" using i en by (simp add: header_of_def found_def address_of_def)
  then have r: "dev_read_metadata env i d = Some (submitted w d, Inr v)"
    using dev_read_metadata_ok [OF ok inv m i _ _ c] v(1) by (simp add: found_def)
  obtain w' where w': "dev_submit env d = Some (submitted w d, Inr ())" "(bs_step (ev_ap env) E)\<^sup>*\<^sup>* w w'" "matches (submitted w d) w'"
    "bs_inv E w'" "logical w' = logical w" "queued w' = []" "store w' = logical w" "wd_bytes w' = wd_bytes w" "eg_objs (wd_eng w') = eg_objs (wd_eng w)"
    "wd_map w' = wd_map w" "eg_next (wd_eng w') = eg_next (wd_eng w)" "eg_last (wd_eng w') = eg_last (wd_eng w)"
    by (rule dev_submit_ok [OF ok inv m])
  have o: "obj_of d i = Some (found n (Some en))" "obj_of (submitted w d) i = Some (found n (Some en))"
    using m i by (simp_all add: obj_of_def matches_def submitted_def)
  have "en_deleted en = del" using st en by simp
  then have "file_open env df d =
      Some (submitted w d, if del then Inl (Py (DiskFileDeleted (sc_data s))) else Inr (df\<lparr>bf_metadata := Some v\<rparr>))"
    using r o v(3) by (simp add: file_open_def df found_def)
  then show thesis
    by (rule that [OF _ w'(3,4,6,5) name_holds_cong [OF h w'(5,9,10)] _ w'(12)]) (use v in \<open>simp add: is_view_def\<close>)
qed

lemma file_open_missing:
  assumes m: "matches d w" and h: "name_holds w n i" and st: "stores env None (logical w (Held n))" and df: "bf_object df = i"
  shows "file_open env df d = Some (d, Inl (Py DiskFileNotExist))"
  using m h stores_None [OF st] by (simp add: file_open_def df obj_of_def matches_def name_holds_def found_def)

lemma dev_write_metadata_ok:
  assumes env: "env_ok env" and inv: "bs_inv E w" and m: "matches d w" and q: "quiet w" and h: "name_holds w n i"
    and st: "stores env (Some (s, del, b)) (logical w (Held n))" and md: "valid_md (de_lib (ev_md env)) md"
  shows "\<exists>s' d' w'. md_step (ev_md env) s (MdPost md) = Inr s' \<and> dev_write_metadata env i md d = Some (d', Inr ()) \<and> matches d' w' \<and>
    bs_inv E w' \<and> quiet w' \<and> (\<forall>k. k \<noteq> n \<longrightarrow> logical w' (Held k) = logical w (Held k)) \<and>
    eg_last (wd_eng w') = eg_last (wd_eng w) \<and> stores env (Some (s', del, b)) (logical w' (Held n))"
proof -
  let ?lib = "de_lib (ev_md env)"
  have ok: "bluestore_ok (ev_ap env)" using env by (simp add: env_ok_def)
  have n: "dv_name d i = n" by (rule name_holds_name [OF m h])
  obtain en where en: "logical w (Held n) = Some en" using stores_None [OF st] by auto
  obtain d1 w1 v' where w1: "dev_open env n True d = Some (d1, Inr (i, v'))" "matches d1 w1" "bs_inv E w1" "quiet w1"
    "logical w1 = logical w" "eg_objs (wd_eng w1) = eg_objs (wd_eng w)" "wd_bytes w1 = wd_bytes w" "wd_map w1 = wd_map w"
    "eg_next (wd_eng w1) = eg_next (wd_eng w)" "is_view env (Some (s, del, b)) v'" "eg_last (wd_eng w1) = eg_last (wd_eng w)"
    by (rule open_again [OF env inv m q h st])
  then obtain v where v: "v' = Some v" "md_view_of (ev_md env) (sc_data s) (sc_meta s) = Inr v"
    "mv_data v = sc_data s" "mv_meta v = sc_meta s" "mv_data_ts v = Some (md_time ?lib (sc_data s))"
    by (auto simp: is_view_def)
  have sm: "case sc_meta s of None \<Rightarrow> True | Some m \<Rightarrow> valid_md ?lib m" using st en by simp
  have vm: "case mv_meta v of None \<Rightarrow> True | Some m \<Rightarrow> valid_md ?lib m" using sm by (simp only: v(4))
  have "\<exists>r. md_post ?lib (Some v) md = Inr r \<and>
    (case r of None \<Rightarrow> True | Some s' \<Rightarrow> sc_data s' = sc_data s \<and> (\<exists>m'. sc_meta s' = Some m' \<and> valid_md ?lib m'))"
    using md_post_eq [OF md v(5) vm] md sm by (auto simp: v(3,4) Let_def post_merge_valid split: option.splits)
  then obtain r where r: "md_post ?lib (Some v) md = Inr r"
    "case r of None \<Rightarrow> True | Some s' \<Rightarrow> sc_data s' = sc_data s \<and> (\<exists>m'. sc_meta s' = Some m' \<and> valid_md ?lib m')" by blast
  have step: "md_step (ev_md env) s (MdPost md) = Inr (case r of None \<Rightarrow> s | Some s' \<Rightarrow> s')"
    using v(2) r(1) by (simp add: md_step_def)
  show ?thesis
  proof (cases r)
    case None
    then have "dev_write_metadata env i md d = Some (d1, Inr ())"
      using w1(1) r(1) v(1) by (simp add: dev_write_metadata_def n of_python_def)
    then show ?thesis using step None w1 st by (intro exI [of _ s] exI [of _ d1] exI [of _ w1]) simp
  next
    case (Some s')
    have i: "obj w1 i = Some (found n (Some en))" using h en w1(6) by (simp add: name_holds_def)
    have o: "ob_state (found n (Some en)) = ACTIVE" "ob_name (found n (Some en)) = n" by (simp_all add: found_def)
    have en1: "logical w1 (Held (ob_name (found n (Some en)))) = Some en" using en w1(5) o(2) by simp
    obtain d' w' where w': "dev_then (on_engine (write_metadata_obj i (js_dumps (ev_js env) s')) d1) (\<lambda>u d.
             dev_submit env (d\<lparr>dv_versions := (dv_versions d)(i := dv_versions d i + 1)\<rparr>)) = Some (d', Inr ())"
      "matches d' w'" "bs_inv E w'" "queued w' = []"
      "logical w' (Held (ob_name (found n (Some en)))) = Some (en\<lparr>en_header := js_dumps (ev_js env) s', en_old := False\<rparr>)"
      "\<And>k. k \<noteq> ob_name (found n (Some en)) \<Longrightarrow> logical w' (Held k) = logical w1 (Held k)" "eg_last (wd_eng w') = eg_last (wd_eng w1)"
      by (rule post_ok [OF ok w1(3,2) i o(1) en1]) (rule that)
    have "dev_write_metadata env i md d = Some (d', Inr ())"
      using w1(1) r(1) v(1) w'(1) Some by (simp add: dev_write_metadata_def n of_python_def)
    moreover have "stores env (Some (s', del, b)) (logical w' (Held n))"
      using w'(5) st en r(2) Some o(2) by auto
    ultimately show ?thesis using step Some w' w1(5,11) o(2) quiet_empty
      by (intro exI [of _ s'] exI [of _ d'] exI [of _ w']) simp
  qed
qed

end
