(* ===== verification/BsRefine.thy ===== *)
theory BsRefine
  imports BsServe
begin

text \<open>
  The Device refines its specification: each kind of request, mounting, and restarting after a crash.
\<close>

section \<open>A request at a time\<close>

text \<open>What serving a request is to give: the answer, and a store that has what the specification has.\<close>

definition served :: "'t :: {linorder, order_bot} dev_env \<Rightarrow> nat set \<Rightarrow> nat \<Rightarrow> bs_abs \<Rightarrow> bs_answer dev_result \<Rightarrow> bs_answer \<Rightarrow> bool" where
  "served env E l A r answer \<longleftrightarrow> (\<exists>d' x w'. r = Some (d', x) \<and> answer = (case x of Inl e \<Rightarrow> BsError e | Inr a \<Rightarrow> a) \<and>
     matches d' w' \<and> bs_inv E w' \<and> quiet w' \<and> eg_last (wd_eng w') = l \<and> (\<forall>n. stores env (A n) (logical w' (Held n))))"

text \<open>A request that may be served: its estimate is one of \<open>E\<close>, the time it settles is not.\<close>

definition may_serve :: "'t :: {linorder, order_bot} dev_env \<Rightarrow> nat set \<Rightarrow> nat \<Rightarrow> nat \<times> 't bs_request \<Rightarrow> bool" where
  "may_serve env E l rq \<longleftrightarrow> bs_request_ok env (snd rq) \<and> keeps_apart env E (snd rq) \<and>
     (settles_at env (snd rq) \<noteq> None \<longrightarrow> last_estimate env l rq \<in> E)"

lemma bs_serve_put:
  assumes env: "env_ok env" and id: "idle env E l d A" and rq: "may_serve env E l (now, BsPut p chunks md)"
  shows "served env E (last_estimate env l (now, BsPut p chunks md)) (fst (spec_request env A (BsPut p chunks md))) (bs_serve env now (BsPut p chunks md) d) (snd (spec_request env A (BsPut p chunks md)))"
proof -
  let ?n = "path_name p" and ?t = "md_time (de_lib (ev_md env)) md"
  have ok: "bluestore_ok (ev_ap env)" using env by (simp add: env_ok_def)
  have md: "valid_put (de_lib (ev_md env)) md" and now: "max now (l + 1) \<in> E" and t: "0 < ev_raw env ?t" "ev_raw env ?t \<notin> E"
    using rq by (simp_all add: may_serve_def keeps_apart_def last_estimate_def)
  obtain d1 w1 i where w1: "path_file env p d = Some (d1, Inr \<lparr>bf_object = i, bf_metadata = None\<rparr>)" "matches d1 w1" "bs_inv E w1" "quiet w1"
    "obj w1 i = Some (found ?n (logical w1 (Held ?n)))" "live_obj w1 ?n = Some i" "i < eg_next (wd_eng w1)"
    "\<And>n. stores env (A n) (logical w1 (Held n))" "eg_last (wd_eng w1) = l"
    by (rule path_file_ok [OF id ok]) (rule that)
  have h1: "name_holds w1 ?n i" using w1(5,6) by (simp add: name_holds_def)
  define j where "j = eg_next (wd_eng w1)"
  have ne: "i \<noteq> j" using w1(7) by (simp add: j_def)
  obtain po where po: "obj w1 i = Some po" "ob_name po = ?n"
    using w1(5) by (auto simp: found_def split: option.splits)
  obtain d2 w2 where w2: "dev_create now i d1 = Some (d2, Inr j)" "bs_step (ev_ap env) E w1 w2" "matches d2 w2"
    "writing w2 j ?n False [] []" "frame j w1 w2" "queued w2 = queued w1 \<and> store w2 = store w1" "eg_next (wd_eng w2) = j + 1"
    "\<exists>o'. obj w2 j = Some o' \<and> ob_state o' = PRE_WRITE" "eg_last (wd_eng w2) = max now (l + 1)"
    unfolding j_def po(2) [symmetric] w1(9) [symmetric] by (rule dev_create_ok [OF w1(2) po(1) now [folded w1(9)]])
  have inv2: "bs_inv E w2" by (rule bs_step_inv [OF w2(2) ok w1(3)])
  have q2: "quiet w2" using w1(4) w2(6) by (simp add: quiet_def)
  let ?wr = "\<lparr>bw_object = Some j, bw_etag = [], bw_size = 0\<rparr>"
  have wr: "file_writer now (\<lparr>bf_object = i, bf_metadata = None\<rparr> :: 'a bs_file) d1 = Some (d2, Inr ?wr)" using w2(1) by (simp add: file_writer_def)
  obtain d3 w3 wr' where w3: "bs_write_chunks env chunks ?wr d2 = Some (d3, Inr wr')" "bw_object wr' = Some j" "matches d3 w3" "bs_inv E w3"
    "writing w3 j ?n False (concat chunks) []" "frame j w2 w3" "quiet w3" "eg_last (wd_eng w3) = eg_last (wd_eng w2)"
    using bs_write_chunks_ok [OF ok inv2 w2(3,4) q2, of ?wr chunks] by auto
  have fr: "frame j w1 w3" by (rule frame_trans [OF w2(5) w3(6)])
  have st3: "stores env (A n) (logical w3 (Held n))" for n using w1(8) [of n] fr by (simp add: frame_def)
  obtain d4 w4 where w4: "dev_put env j (ev_raw env ?t) md d3 = Some (d4, Inr ())" "matches d4 w4" "bs_inv E w4" "quiet w4"
    "\<forall>k. k \<noteq> ?n \<longrightarrow> logical w4 (Held k) = logical w3 (Held k)" "stores env (new_entry env (A ?n) False (concat chunks) md) (logical w4 (Held ?n))" "eg_last (wd_eng w4) = eg_last (wd_eng w3)"
    using dev_put_ok [OF env w3(4,3,7,5) name_holds_frame [OF h1 fr ne] ne st3 md t] by blast
  obtain s where s: "map_of md ''X-Timestamp'' = Some s" "timestamp_of (de_lib (ev_md env)) (Some s) = Inr ?t"
    using md by (auto simp: valid_put_def valid_md_def md_time_def timestamp_of_def split: option.splits)
  have wp: "writer_put env wr' md d3 = Some (d4, Inr ())" using s w3(2) w4(1) by (simp add: writer_put_def of_python_def)
  have "bs_serve env now (BsPut p chunks md) d = Some (d4, Inr BsOk)" by (simp add: w1(1) wr w3(1) wp)
  moreover have "spec_request env A (BsPut p chunks md) = (A(?n := new_entry env (A ?n) False (concat chunks) md), BsOk)"
    using spec_store_ok [OF env st3 md] by simp
  moreover have "eg_last (wd_eng w4) = last_estimate env l (now, BsPut p chunks md)" using w4(7) w3(8) w2(9) by (simp add: last_estimate_def)
  ultimately show ?thesis using w4 st3 by (auto simp: served_def)
qed

lemma bs_serve_delete:
  assumes env: "env_ok env" and id: "idle env E l d A" and rq: "may_serve env E l (now, BsDelete p t)"
  shows "served env E (last_estimate env l (now, BsDelete p t)) (fst (spec_request env A (BsDelete p t))) (bs_serve env now (BsDelete p t) d) (snd (spec_request env A (BsDelete p t)))"
proof -
  let ?n = "path_name p" and ?lib = "de_lib (ev_md env)"
  let ?md = "[(''X-Timestamp'', ts_internal ?lib t)]"
  have ok: "bluestore_ok (ev_ap env)" using env by (simp add: env_ok_def)
  have rq': "bs_request_ok env (BsDelete p t)" using rq by (simp add: may_serve_def)
  have now: "max now (l + 1) \<in> E" and tt: "md_time ?lib ?md = t"
    using rq by (simp_all add: may_serve_def last_estimate_def md_time_def)
  have md: "valid_put ?lib ?md" and t: "0 < ev_raw env (md_time ?lib ?md)" "ev_raw env (md_time ?lib ?md) \<notin> E"
    using rq rq' by (simp_all add: may_serve_def keeps_apart_def tt valid_put_def valid_md_def)
  obtain d1 w1 i where w1: "path_file env p d = Some (d1, Inr \<lparr>bf_object = i, bf_metadata = None\<rparr>)" "matches d1 w1" "bs_inv E w1" "quiet w1"
    "obj w1 i = Some (found ?n (logical w1 (Held ?n)))" "live_obj w1 ?n = Some i" "i < eg_next (wd_eng w1)"
    "\<And>n. stores env (A n) (logical w1 (Held n))" "eg_last (wd_eng w1) = l"
    by (rule path_file_ok [OF id ok]) (rule that)
  have h1: "name_holds w1 ?n i" using w1(5,6) by (simp add: name_holds_def)
  obtain d2 w2 where w2: "dev_delete env now i (ev_raw env (md_time ?lib ?md)) (ts_internal ?lib t) (Some ?md) d1 = Some (d2, Inr ())"
    "matches d2 w2" "bs_inv E w2" "quiet w2" "\<forall>k. k \<noteq> ?n \<longrightarrow> logical w2 (Held k) = logical w1 (Held k)"
    "stores env (new_entry env (A ?n) True [] ?md) (logical w2 (Held ?n))" "eg_last (wd_eng w2) = max now (l + 1)"
    using dev_delete_ok [OF env w1(3,2,4) now [folded w1(9)] h1 w1(8) md t] unfolding w1(9) by blast
  have "bs_serve env now (BsDelete p t) d = Some (d2, Inr BsOk)" using w2(1) by (simp add: w1(1) file_delete_def Let_def tt)
  moreover have "spec_request env A (BsDelete p t) = (A(?n := new_entry env (A ?n) True [] ?md), BsOk)"
    using spec_store_ok [OF env w1(8) md] by simp
  ultimately show ?thesis using w2 w1(8) by (auto simp: served_def last_estimate_def)
qed

lemma bs_serve_post:
  assumes env: "env_ok env" and id: "idle env E l d A" and rq: "may_serve env E l (now, BsPost p md)"
  shows "served env E (last_estimate env l (now, BsPost p md)) (fst (spec_request env A (BsPost p md))) (bs_serve env now (BsPost p md) d) (snd (spec_request env A (BsPost p md)))"
proof -
  let ?n = "path_name p"
  have ok: "bluestore_ok (ev_ap env)" using env by (simp add: env_ok_def)
  have md: "valid_md (de_lib (ev_md env)) md" using rq by (simp add: may_serve_def)
  obtain d1 w1 i where w1: "path_file env p d = Some (d1, Inr \<lparr>bf_object = i, bf_metadata = None\<rparr>)" "matches d1 w1" "bs_inv E w1" "quiet w1"
    "obj w1 i = Some (found ?n (logical w1 (Held ?n)))" "live_obj w1 ?n = Some i" "i < eg_next (wd_eng w1)"
    "\<And>n. stores env (A n) (logical w1 (Held n))" "eg_last (wd_eng w1) = l"
    by (rule path_file_ok [OF id ok]) (rule that)
  have h1: "name_holds w1 ?n i" using w1(5,6) by (simp add: name_holds_def)
  let ?df = "\<lparr>bf_object = i, bf_metadata = None\<rparr> :: 'a bs_file"
  show ?thesis
  proof (cases "A ?n")
    case None
    have "file_open env ?df d1 = Some (d1, Inl (Py DiskFileNotExist))"
      by (rule file_open_missing [OF w1(2) h1]) (use w1(8) [of ?n] None in simp_all)
    then have "bs_serve env now (BsPost p md) d = Some (d1, Inl (Py DiskFileNotExist))" by (simp add: w1(1) file_write_metadata_def)
    then show ?thesis using None w1 by (auto simp: served_def last_estimate_def)
  next
    case (Some y)
    obtain s del b where a: "A ?n = Some (s, del, b)" using Some by (cases y) auto
    have st: "stores env (Some (s, del, b)) (logical w1 (Held ?n))" using w1(8) [of ?n] by (simp only: a)
    obtain d2 w2 v where w2: "file_open env ?df d1 =
        Some (d2, if del then Inl (Py (DiskFileDeleted (sc_data s))) else Inr (?df\<lparr>bf_metadata := Some v\<rparr>))"
      "matches d2 w2" "bs_inv E w2" "queued w2 = []" "logical w2 = logical w1" "name_holds w2 ?n i" "is_view env (Some (s, del, b)) (Some v)"
      "eg_last (wd_eng w2) = eg_last (wd_eng w1)"
      by (rule file_open_ok [OF env w1(3,2) h1 st, of ?df]) simp
    show ?thesis
    proof (cases del)
      case True
      then have "bs_serve env now (BsPost p md) d = Some (d2, Inl (Py (DiskFileDeleted (sc_data s))))"
        using w2(1) by (simp add: w1(1) file_write_metadata_def)
      then show ?thesis using a True w2 w1(8,9) quiet_empty by (auto simp: served_def last_estimate_def)
    next
      case False
      have st2: "stores env (Some (s, del, b)) (logical w2 (Held ?n))" using st by (simp only: w2(5))
      obtain s' d3 w3 where w3: "md_step (ev_md env) s (MdPost md) = Inr s'" "dev_write_metadata env i md d2 = Some (d3, Inr ())" "matches d3 w3"
        "bs_inv E w3" "quiet w3" "\<forall>k. k \<noteq> ?n \<longrightarrow> logical w3 (Held k) = logical w2 (Held k)"
        "stores env (Some (s', del, b)) (logical w3 (Held ?n))" "eg_last (wd_eng w3) = eg_last (wd_eng w2)"
        using dev_write_metadata_ok [OF env w2(3,2) quiet_empty [OF w2(4,3)] w2(6) st2 md] by blast
      have "bs_serve env now (BsPost p md) d = Some (d3, Inr BsOk)" using w2(1) w3(2) False by (simp add: w1(1) file_write_metadata_def)
      moreover have "spec_request env A (BsPost p md) = (A(?n \<mapsto> (s', False, b)), BsOk)" using a False w3(1) by simp
      ultimately show ?thesis using False w3 w2(5,8) w1(8,9) by (auto simp: served_def last_estimate_def)
    qed
  qed
qed

lemma bs_serve_get:
  assumes env: "env_ok env" and id: "idle env E l d A"
  shows "served env E (last_estimate env l (now, BsGet p start stop)) (fst (spec_request env A (BsGet p start stop))) (bs_serve env now (BsGet p start stop) d) (snd (spec_request env A (BsGet p start stop)))"
proof -
  let ?n = "path_name p"
  have ok: "bluestore_ok (ev_ap env)" and c: "0 < ev_chunk env" using env by (simp_all add: env_ok_def)
  obtain d1 w1 i where w1: "path_file env p d = Some (d1, Inr \<lparr>bf_object = i, bf_metadata = None\<rparr>)" "matches d1 w1" "bs_inv E w1" "quiet w1"
    "obj w1 i = Some (found ?n (logical w1 (Held ?n)))" "live_obj w1 ?n = Some i" "i < eg_next (wd_eng w1)"
    "\<And>n. stores env (A n) (logical w1 (Held n))" "eg_last (wd_eng w1) = l"
    by (rule path_file_ok [OF id ok]) (rule that)
  have h1: "name_holds w1 ?n i" using w1(5,6) by (simp add: name_holds_def)
  let ?df = "\<lparr>bf_object = i, bf_metadata = None\<rparr> :: 'a bs_file"
  show ?thesis
  proof (cases "A ?n")
    case None
    have "file_open env ?df d1 = Some (d1, Inl (Py DiskFileNotExist))"
      by (rule file_open_missing [OF w1(2) h1]) (use w1(8) [of ?n] None in simp_all)
    then have "bs_serve env now (BsGet p start stop) d = Some (d1, Inl (Py DiskFileNotExist))" by (simp add: w1(1))
    then show ?thesis using None w1 by (auto simp: served_def last_estimate_def)
  next
    case (Some y)
    obtain s del b where a: "A ?n = Some (s, del, b)" using Some by (cases y) auto
    have st: "stores env (Some (s, del, b)) (logical w1 (Held ?n))" using w1(8) [of ?n] by (simp only: a)
    obtain d2 w2 v where w2: "file_open env ?df d1 =
        Some (d2, if del then Inl (Py (DiskFileDeleted (sc_data s))) else Inr (?df\<lparr>bf_metadata := Some v\<rparr>))"
      "matches d2 w2" "bs_inv E w2" "queued w2 = []" "logical w2 = logical w1" "name_holds w2 ?n i" "is_view env (Some (s, del, b)) (Some v)"
      "eg_last (wd_eng w2) = eg_last (wd_eng w1)"
      by (rule file_open_ok [OF env w1(3,2) h1 st, of ?df]) simp
    show ?thesis
    proof (cases del)
      case True
      then have "bs_serve env now (BsGet p start stop) d = Some (d2, Inl (Py (DiskFileDeleted (sc_data s))))"
        using w2(1) by (simp add: w1(1))
      then show ?thesis using a True w2 w1(8,9) quiet_empty by (auto simp: served_def last_estimate_def)
    next
      case False
      have st2: "stores env (Some (s, del, b)) (logical w2 (Held ?n))" using st by (simp only: w2(5))
      obtain en where en: "logical w2 (Held ?n) = Some en" "en_data en = b" using st2 stores_None [OF st2] by auto
      have i: "obj w2 i = Some (found ?n (Some en))" using w2(6) en by (simp add: name_holds_def)
      have o: "ob_state (found ?n (Some en)) \<in> {ACTIVE, OLD}" "address_of (found ?n (Some en)) = Held ?n" "en_ts en = ob_ts (found ?n (Some en))"
        by (simp_all add: found_def address_of_def)
      have e: "logical w2 (address_of (found ?n (Some en))) = Some en" using en(1) by (simp only: o(2))
      obtain chunks where ch: "range_chunks env i (case_option 0 id start) stop [] d2 = Some (d2, Inr chunks)"
        "concat chunks = byte_range start stop b"
        using range_chunks_ok [OF w2(2,4) i o(1) e o(3) c, of "case_option 0 id start" stop "[]"]
        unfolding byte_range_def Let_def en(2) by (metis append_Nil concat.simps(1))
      have "(case start of None \<Rightarrow> 0 | Some s \<Rightarrow> s) = case_option 0 id start" by (simp split: option.split)
      then have "bs_serve env now (BsGet p start stop) d = Some (d2, Inr (BsGot (mv_merged v) (byte_range start stop b)))"
        using w2(1) False ch by (simp add: w1(1) of_python_def file_get_metadata_def when_open_def file_app_iter_range_def)
      then show ?thesis using a False w2 w1(8,9) quiet_empty by (auto simp: served_def is_view_def last_estimate_def)
    qed
  qed
qed

lemma bs_serve_ok:
  assumes "env_ok env" and "idle env E l d A" and "may_serve env E l rq"
  shows "served env E (last_estimate env l rq) (fst (spec_request env A (snd rq))) (bs_serve env (fst rq) (snd rq) d) (snd (spec_request env A (snd rq)))"
proof (cases rq)
  case (Pair now r)
  show ?thesis
  proof (cases r)
    case (BsPut p chunks md)
    then show ?thesis using bs_serve_put [OF assms(1,2)] assms(3) by (simp only: Pair fst_conv snd_conv)
  next
    case (BsDelete p t)
    then show ?thesis using bs_serve_delete [OF assms(1,2)] assms(3) by (simp only: Pair fst_conv snd_conv)
  next
    case (BsPost p md)
    then show ?thesis using bs_serve_post [OF assms(1,2)] assms(3) by (simp only: Pair fst_conv snd_conv)
  next
    case (BsGet p start stop)
    then show ?thesis using bs_serve_get [OF assms(1,2)] by (simp only: Pair fst_conv snd_conv)
  qed
qed

lemma handle_request_ok:
  assumes env: "env_ok env" and id: "idle env E l d A" and rq: "may_serve env E l rq"
  obtains d' where "handle_request env (fst rq) (snd rq) d = Some (d', snd (spec_request env A (snd rq)))"
    "idle env E (last_estimate env l rq) d' (fst (spec_request env A (snd rq)))"
proof -
  have ok: "bluestore_ok (ev_ap env)" using env by (simp add: env_ok_def)
  obtain d1 x w1 where d1: "bs_serve env (fst rq) (snd rq) d = Some (d1, x)"
    "snd (spec_request env A (snd rq)) = (case x of Inl e \<Rightarrow> BsError e | Inr a \<Rightarrow> a)"
    "matches d1 w1" "bs_inv E w1" "quiet w1" "\<forall>n. stores env (fst (spec_request env A (snd rq)) n) (logical w1 (Held n))"
    "eg_last (wd_eng w1) = last_estimate env l rq"
    using bs_serve_ok [OF assms] unfolding served_def by blast
  obtain w' where w': "matches (end_request d1) w'" "bs_inv E w'" "quiet w'" "\<And>n. logical w' (Held n) = logical w1 (Held n)" "\<And>i. obj w' i = None"
    "eg_last (wd_eng w') = eg_last (wd_eng w1)"
    by (rule end_request_ok [OF ok d1(4,3,5)]) (rule that)
  have "idle env E (last_estimate env l rq) (end_request d1) (fst (spec_request env A (snd rq)))"
    unfolding idle_def using w' d1(6,7) by (intro exI [of _ w']) simp
  then show thesis by (rule that [rotated]) (simp add: handle_request_def d1(1,2))
qed

primrec spec_after :: "'t :: {linorder, order_bot} dev_env \<Rightarrow> bs_abs \<Rightarrow> (nat \<times> 't bs_request) list \<Rightarrow> bs_abs" where
  "spec_after env A [] = A"
| "spec_after env A (rq # rqs) = spec_after env (fst (spec_request env A (snd rq))) rqs"

lemma spec_requests_append:
  "spec_requests env A (rqs @ rqs') = spec_requests env A rqs @ spec_requests env (spec_after env A rqs) rqs'"
  by (induction rqs arbitrary: A) (simp_all split: prod.split)

lemma handle_requests_ok:
  assumes env: "env_ok env" and "idle env E l d A" and "estimates_in env l rqs \<subseteq> E"
    and "\<forall>rq \<in> set rqs. bs_request_ok env (snd rq) \<and> keeps_apart env E (snd rq)"
  shows "\<exists>d' l'. handle_requests env rqs d = Some (d', spec_requests env A rqs) \<and> idle env E l' d' (spec_after env A rqs)"
  using assms(2-)
proof (induction rqs arbitrary: d A l)
  case Nil
  then show ?case by auto
next
  case (Cons rq rqs)
  have rq: "may_serve env E l rq" using Cons.prems(2,3) by (auto simp: may_serve_def split: if_splits)
  obtain d1 where d1: "handle_request env (fst rq) (snd rq) d = Some (d1, snd (spec_request env A (snd rq)))"
    "idle env E (last_estimate env l rq) d1 (fst (spec_request env A (snd rq)))"
    by (rule handle_request_ok [OF env Cons.prems(1) rq])
  obtain d' l' where "handle_requests env rqs d1 = Some (d', spec_requests env (fst (spec_request env A (snd rq))) rqs)"
    "idle env E l' d' (spec_after env (fst (spec_request env A (snd rq))) rqs)"
    using Cons.IH [OF d1(2)] Cons.prems(2,3) by auto
  then show ?case using d1(1) by (auto split: prod.split)
qed


section \<open>Mounting\<close>

text \<open>How BlueStore lists what it has: every entry once, a collection's temporary ones first.\<close>

definition listing_ok :: "(bstore \<Rightarrow> address list list) \<Rightarrow> bstore \<Rightarrow> bool" where
  "listing_ok listing st \<longleftrightarrow> distinct (concat (listing st)) \<and> set (concat (listing st)) = dom st \<and>
     (\<forall>l \<in> set (listing st). filter is_temp l = takeWhile is_temp l)"

definition lists_entries :: "(bstore \<Rightarrow> address list list) \<Rightarrow> bool" where
  "lists_entries listing \<longleftrightarrow> (\<forall>st. finite (dom st) \<longrightarrow> listing_ok listing st)"

definition sweep :: "bstore \<Rightarrow> bstore" where
  "sweep st = (\<lambda>a. if is_temp a then None else st a)"

lemma clean_collection:
  "fold (\<lambda>a. prepare [RemoveEntry (address_loaded (eg_store e) a)]) as e' =
     e'\<lparr>eg_queue := eg_queue e' @ map (\<lambda>a. [RemoveEntry (address_loaded (eg_store e) a)]) as\<rparr>"
  by (induction "as" arbitrary: e') (simp_all add: prepare_def)

lemma clean_store_queue:
  "clean_store listing e =
     e\<lparr>eg_queue := eg_queue e @ map (\<lambda>a. [RemoveEntry (address_loaded (eg_store e) a)])
        (concat (map (takeWhile is_temp) (listing (eg_store e))))\<rparr>"
proof -
  have "fold (\<lambda>l e'. fold (\<lambda>a. prepare [RemoveEntry (address_loaded (eg_store e') a)]) (takeWhile is_temp l) e') ls e' =
      e'\<lparr>eg_queue := eg_queue e' @ map (\<lambda>a. [RemoveEntry (address_loaded (eg_store e') a)]) (concat (map (takeWhile is_temp) ls))\<rparr>" for ls e'
    by (induction ls arbitrary: e') (simp_all add: clean_collection)
  then show ?thesis by (simp add: clean_store_def)
qed

lemma remove_all:
  assumes ok: "bluestore_ok ap" and "distinct as" and "set as \<subseteq> dom st"
  shows "apply_txs ap (map (\<lambda>a. [RemoveEntry a]) as) st = Some (\<lambda>a. if a \<in> set as then None else st a)"
  using assms(2,3)
proof (induction "as" arbitrary: st)
  case (Cons a "as")
  have "ap (RemoveEntry a) st = Some (st(a := None))" using ok Cons.prems unfolding bluestore_ok_def by force
  moreover have "apply_txs ap (map (\<lambda>a. [RemoveEntry a]) as) (st(a := None)) = Some (\<lambda>b. if b \<in> set as then None else (st(a := None)) b)"
    by (rule Cons.IH) (use Cons.prems in auto)
  ultimately show ?case by (auto simp: fun_eq_iff)
qed simp

lemma mount_ok:
  assumes ok: "bluestore_ok (ev_ap env)" and l: "listing_ok listing st" and own: "\<forall>n g en. st (Temp n g) = Some en \<longrightarrow> en_ts en = g"
  shows "mount_device env listing st =
    Some \<lparr>dv_eng = new_engine (sweep st), dv_objects = (\<lambda>n. None), dv_versions = (\<lambda>i. 0)\<rparr>"
proof -
  let ?as = "concat (map (takeWhile is_temp) (listing st))"
  have eq: "?as = filter is_temp (concat (listing st))"
    using l by (simp add: listing_ok_def filter_concat cong: map_cong)
  have "set ?as \<subseteq> dom st" "distinct ?as" using l by (auto simp: eq listing_ok_def simp del: set_concat)
  from remove_all [OF ok this(2,1)]
  have "apply_txs (ev_ap env) (map (\<lambda>a. [RemoveEntry a]) ?as) st = Some (\<lambda>a. if a \<in> set ?as then None else st a)" .
  moreover have "(\<lambda>a. if a \<in> set ?as then None else st a) = sweep st"
  proof
    fix a
    have "a \<in> set ?as \<longleftrightarrow> st a \<noteq> None \<and> is_temp a" using l by (auto simp: eq listing_ok_def simp del: set_concat)
    then show "(if a \<in> set ?as then None else st a) = sweep st a" by (simp add: sweep_def)
  qed
  moreover have "map (\<lambda>a. [RemoveEntry (address_loaded st a)]) ?as = map (\<lambda>a. [RemoveEntry a]) ?as"
  proof (rule map_cong [OF refl])
    fix a assume "a \<in> set ?as"
    then have "is_temp a" "a \<in> dom st" using l by (simp_all add: eq listing_ok_def del: set_concat)
    then show "[RemoveEntry (address_loaded st a)] = [RemoveEntry a]"
      using own address_loaded_own by (cases a) (auto simp: is_temp_def)
  qed
  ultimately have "apply_txs (ev_ap env) (map (\<lambda>a. [RemoveEntry (address_loaded st a)]) ?as) st = Some (sweep st)" by (simp only:)
  then show ?thesis by (simp add: mount_device_def clean_store_queue submit_def new_engine_def)
qed

text \<open>What a store has for the specification.\<close>

definition describes :: "'t :: {linorder, order_bot} dev_env \<Rightarrow> nat set \<Rightarrow> bs_abs \<Rightarrow> bstore \<Rightarrow> bool" where
  "describes env E A st \<longleftrightarrow> finite (dom st) \<and> settled_ok E st \<and> (\<forall>n. stores env (A n) (st (Held n)))"

lemma mount_idle:
  assumes env: "env_ok env" and ls: "lists_entries listing" and A: "describes env E A st"
  obtains d where "mount_device env listing st = Some d" "idle env E 0 d A"
proof -
  let ?d = "\<lparr>dv_eng = new_engine (sweep st), dv_objects = (\<lambda>n. None), dv_versions = (\<lambda>i. 0)\<rparr>"
  let ?w = "fresh_world (sweep st)"
  have s: "sweep st (Held n) = st (Held n)" for n by (simp add: sweep_def is_temp_def)
  have l: "listing_ok listing st" using ls A by (simp add: lists_entries_def describes_def)
  have "finite (dom st)" using A by (simp add: describes_def)
  then have "finite (dom (sweep st))" by (rule finite_subset [rotated]) (auto simp: sweep_def split: if_splits)
  then have "swept E (sweep st)" using A s by (simp add: swept_def describes_def settled_ok_def) (simp add: sweep_def is_temp_def)
  then have inv: "bs_inv E ?w" by (rule inv_fresh)
  moreover have "matches ?d ?w" by (simp add: matches_def fresh_world_def)
  moreover have "quiet ?w" by (rule quiet_empty [OF _ inv]) (simp add: fresh_world_def new_engine_def)
  moreover have "\<forall>n. stores env (A n) (logical ?w (Held n))" using A s by (simp add: logical_def fresh_world_def new_engine_def describes_def)
  ultimately have "idle env E 0 ?d A" unfolding idle_def by (intro exI [of _ ?w]) (simp add: fresh_world_def new_engine_def)
  moreover have "mount_device env listing st = Some ?d" using mount_ok [of env, OF _ l] env A unfolding env_ok_def describes_def settled_ok_def by blast
  ultimately show thesis by (intro that)
qed

text \<open>Between requests the names' entries are all in the store: a crash then loses nothing.\<close>

lemma idle_describes:
  assumes "idle env E l d A"
  shows "describes env E A (eg_store (dv_eng d))"
proof -
  obtain w where w: "matches d w" "bs_inv E w" "quiet w" "\<And>n. stores env (A n) (logical w (Held n))"
    using assms unfolding idle_def by blast
  have L: "store w (Held n) = logical w (Held n)" for n
    using w(3) by (auto simp: logical_def quiet_def intro!: fold_untouched [symmetric])
  have f: "finite (dom (store w))" using w(2) by (simp add: bs_inv_def)
  have "\<forall>n en. logical w (Held n) = Some en \<longrightarrow> en_ts en \<notin> E" using w(2) unfolding bs_inv_def store_ok_def by blast
  then have "settled_ok E (store w)" using w(3) unfolding settled_ok_def quiet_def L by blast
  then show ?thesis using f w(1,4) by (simp add: describes_def matches_def L [symmetric])
qed

text \<open>C2: A Device that is mounted on a store, whatever temporary entries a crash left in it, and then serves requests
  one after another, answers as the specification does: each name has the newest PUT or deletion, with the metadata
  that the POSTs give it, a GET returns its merged metadata and the bytes of its range, and an older request is dropped.
  The clock and the requests' times are free, but none of these may be one of the run's estimates, which the clock gives
  at each PUT and DELETE.\<close>

theorem device_refines_spec:
  assumes "env_ok env" and "lists_entries listing" and "describes env (estimates_in env 0 rqs) A st"
    and "\<forall>rq \<in> set rqs. bs_request_ok env (snd rq) \<and> keeps_apart env (estimates_in env 0 rqs) (snd rq)"
  shows "\<exists>d0 d. mount_device env listing st = Some d0 \<and> handle_requests env rqs d0 = Some (d, spec_requests env A rqs)"
proof -
  obtain d0 where d0: "mount_device env listing st = Some d0" "idle env (estimates_in env 0 rqs) 0 d0 A" by (rule mount_idle [OF assms(1-3)])
  then show ?thesis using handle_requests_ok [OF assms(1) d0(2) subset_refl assms(4)] by blast
qed

definition estimates_around :: "'t :: {linorder, order_bot} dev_env \<Rightarrow> (nat \<times> 't bs_request) list \<Rightarrow> (nat \<times> 't bs_request) list \<Rightarrow> nat set" where
  "estimates_around env rqs rqs' = estimates_in env 0 rqs \<union> estimates_in env 0 rqs'"

text \<open>C4: What was answered survives a crash between requests: a Device mounted on the store as it is after some requests
  answers the next ones as if the first had never stopped, uploads that are newer than all before the crash included.
  The new Device's estimates begin anew, and the times of both runs are not among those of either.\<close>

theorem restart_keeps_answers:
  assumes "env_ok env" and "lists_entries listing" and "describes env (estimates_around env rqs rqs') A st"
    and "\<forall>rq \<in> set (rqs @ rqs'). bs_request_ok env (snd rq) \<and> keeps_apart env (estimates_around env rqs rqs') (snd rq)"
    and "mount_device env listing st = Some d0" and "handle_requests env rqs d0 = Some (d, answers)"
  shows "\<exists>d1 d2. mount_device env listing (eg_store (dv_eng d)) = Some d1 \<and>
    handle_requests env rqs' d1 = Some (d2, drop (length rqs) (spec_requests env A (rqs @ rqs')))"
proof -
  let ?E = "estimates_around env rqs rqs'"
  have rq: "\<forall>rq \<in> set rqs. bs_request_ok env (snd rq) \<and> keeps_apart env ?E (snd rq)"
    "\<forall>rq \<in> set rqs'. bs_request_ok env (snd rq) \<and> keeps_apart env ?E (snd rq)" using assms(4) by auto
  have e: "estimates_in env 0 rqs \<subseteq> ?E" "estimates_in env 0 rqs' \<subseteq> ?E" by (auto simp: estimates_around_def)
  have "idle env ?E 0 d0 A" using mount_idle [OF assms(1-3)] assms(5) by (metis option.inject)
  with handle_requests_ok [OF assms(1) this e(1) rq(1)] assms(6) obtain l where "idle env ?E l d (spec_after env A rqs)" by auto
  from mount_idle [OF assms(1,2) idle_describes [OF this]] obtain d1 where
    d1: "mount_device env listing (eg_store (dv_eng d)) = Some d1" "idle env ?E 0 d1 (spec_after env A rqs)" by blast
  have "length (spec_requests env A rqs) = length rqs" by (induction rqs arbitrary: A) (simp_all split: prod.split)
  then have "drop (length rqs) (spec_requests env A (rqs @ rqs')) = spec_requests env (spec_after env A rqs) rqs'"
    by (simp add: spec_requests_append)
  then show ?thesis using d1 handle_requests_ok [OF assms(1) d1(2) e(2) rq(2)] by auto
qed

section \<open>An example\<close>

text \<open>Sections as a blob: a mark before each character and each entry, a dot at the end.\<close>

fun enc_str :: "string \<Rightarrow> string" where
  "enc_str [] = ''.''"
| "enc_str (c # s) = CHR ''+'' # c # enc_str s"

fun dec_str :: "string \<Rightarrow> (string \<times> string) option" where
  "dec_str (x # c # r) = (if x = CHR ''.'' then Some ([], c # r) else map_option (apfst (Cons c)) (dec_str r))"
| "dec_str [x] = (if x = CHR ''.'' then Some ([], []) else None)"
| "dec_str [] = None"

lemma dec_enc_str [simp]: "dec_str (enc_str s @ r) = Some (s, r)"
proof (induction s)
  case Nil
  then show ?case by (cases r) simp_all
qed simp

fun enc_md :: "metadata \<Rightarrow> string" where
  "enc_md [] = ''.''"
| "enc_md ((k, v) # m) = CHR ''+'' # enc_str k @ enc_str v @ enc_md m"

fun dec_md :: "nat \<Rightarrow> string \<Rightarrow> (metadata \<times> string) option" where
  "dec_md (Suc n) (x # r) =
     (if x = CHR ''.'' then Some ([], r)
      else case dec_str r of None \<Rightarrow> None | Some (k, r) \<Rightarrow>
           (case dec_str r of None \<Rightarrow> None | Some (v, r) \<Rightarrow> map_option (apfst (Cons (k, v))) (dec_md n r)))"
| "dec_md _ _ = None"

lemma dec_enc_md [simp]: "length m < n \<Longrightarrow> dec_md n (enc_md m @ r) = Some (m, r)"
proof (induction m arbitrary: n)
  case Nil
  then show ?case by (cases n) simp_all
next
  case (Cons x m)
  then show ?case by (cases n; cases x) simp_all
qed

lemma enc_md_length: "length m < length (enc_md m)"
  by (induction m rule: enc_md.induct) simp_all

definition sample_js :: json_lib where
  "sample_js = \<lparr>js_dumps = (\<lambda>s. enc_md (sc_data s) @ (case sc_meta s of None \<Rightarrow> [] | Some m \<Rightarrow> enc_md m)),
     js_loads = (\<lambda>b. case dec_md (length b) b of
       None \<Rightarrow> None
     | Some (d, r) \<Rightarrow> if r = [] then Some (Some d, None) else map_option (\<lambda>(m, r). (Some d, Some m)) (dec_md (length b) r))\<rparr>"

lemma sample_js_ok: "json_ok sample_js"
proof -
  have "js_loads sample_js (js_dumps sample_js s) = Some (Some (sc_data s), sc_meta s)" for s
  proof (cases "sc_meta s")
    case None
    then show ?thesis using dec_enc_md [of "sc_data s" "length (enc_md (sc_data s))" "[]"] enc_md_length by (simp add: sample_js_def)
  next
    case (Some m)
    have l: "length (sc_data s) < length (enc_md (sc_data s)) + length (enc_md m)" "length m < length (enc_md (sc_data s)) + length (enc_md m)"
      using enc_md_length [of "sc_data s"] enc_md_length [of m] by simp_all
    have "enc_md m \<noteq> []" using enc_md_length [of m] by auto
    then show ?thesis using dec_enc_md [OF l(1), of "enc_md m"] dec_enc_md [OF l(2), of "[]"] by (simp add: sample_js_def Some)
  qed
  then show ?thesis by (simp add: json_ok_def)
qed

text \<open>Addresses in order, the temporary ones first.\<close>

instantiation address :: linorder
begin

fun less_eq_address :: "address \<Rightarrow> address \<Rightarrow> bool" where
  "less_eq_address (Temp m g) (Temp n h) = (m < n \<or> m = n \<and> g \<le> h)"
| "less_eq_address (Temp m g) (Held n) = True"
| "less_eq_address (Held m) (Temp n h) = False"
| "less_eq_address (Held m) (Held n) = (m \<le> n)"

definition less_address :: "address \<Rightarrow> address \<Rightarrow> bool" where
  "less_address a b = (a \<le> b \<and> \<not> b \<le> a)"

instance
proof
  fix a b c :: address
  show "a \<le> a" by (cases a) simp_all
  show "a < b \<longleftrightarrow> a \<le> b \<and> \<not> b \<le> a" by (rule less_address_def)
  show "a \<le> b \<Longrightarrow> b \<le> c \<Longrightarrow> a \<le> c" by (cases a; cases b; cases c) auto
  show "a \<le> b \<Longrightarrow> b \<le> a \<Longrightarrow> a = b" by (cases a; cases b) auto
  show "a \<le> b \<or> b \<le> a" by (cases a; cases b) auto
qed

end

definition sample_listing :: "bstore \<Rightarrow> address list list" where
  "sample_listing st = [sorted_list_of_set (dom st)]"

lemma temps_first: "sorted l \<Longrightarrow> filter is_temp l = takeWhile is_temp l"
proof (induction l)
  case (Cons a l)
  have "filter is_temp l = []" if "\<not> is_temp a"
    using Cons.prems that by (auto simp: filter_empty_conv is_temp_def split: address.splits)
  then show ?case using Cons by auto
qed simp

lemma sample_listing_ok: "lists_entries sample_listing"
  by (simp add: lists_entries_def listing_ok_def sample_listing_def temps_first)

definition sample_dev_env :: "nat dev_env" where
  "sample_dev_env = \<lparr>ev_ap = sample_ap, ev_md = sample_df_env, ev_js = sample_js, ev_chunk = 2, ev_sleep = (\<lambda>t d. d), ev_raw = id\<rparr>"

lemma sample_dev_env_ok: "env_ok sample_dev_env"
  by (simp add: env_ok_def sample_dev_env_def sample_ap_ok sample_js_ok) (simp add: user_keys_def sample_df_env_def)

definition sample_sections :: sections where
  "sample_sections = \<lparr>sc_data = sample_data ''1'', sc_meta = None\<rparr>"

definition sample_bstore :: bstore where
  "sample_bstore =
     [Held ''a/c/o'' \<mapsto> \<lparr>en_ts = 1, en_deleted = False, en_old = False, en_data = ''first'', en_header = js_dumps sample_js sample_sections\<rparr>,
      Temp ''a/c/o'' 70 \<mapsto> \<lparr>en_ts = 70, en_deleted = False, en_old = False, en_data = ''cut'', en_header = []\<rparr>]"

definition sample_abs :: bs_abs where
  "sample_abs = [''a/c/o'' \<mapsto> (sample_sections, False, ''first'')]"

definition sample_path :: bs_path where
  "sample_path = (''a'', ''c'', ''o'')"

definition sample_trace :: "(nat \<times> nat bs_request) list" where
  "sample_trace =
     [(2, BsGet sample_path None None), (2, BsPut sample_path [''sec'', ''ond''] (sample_data ''6'')),
      (4, BsPut sample_path [''late''] (sample_data ''5'')), (4, BsPost sample_path (sample_post ''7'' None))]"

definition sample_trace_after :: "(nat \<times> nat bs_request) list" where
  "sample_trace_after =
     [(5, BsGet sample_path (Some 1) (Some 4)), (9, BsDelete sample_path 7), (9, BsGet sample_path None None),
      (9, BsPut sample_path [''an'', ''ew''] (sample_data ''8'')), (9, BsGet sample_path None None)]"

text \<open>The estimates of the two runs; some uploads have later times than the clock of an earlier one.\<close>

lemma sample_estimates:
  "estimates_in sample_dev_env 0 (sample_trace @ sample_trace_after) = {2, 4, 9, 10}"
  "estimates_around sample_dev_env sample_trace sample_trace_after = {2, 4, 9, 10}"
  by (auto simp: estimates_around_def sample_trace_def sample_trace_after_def last_estimate_def)

lemma sample_bstore_ok: "describes sample_dev_env {2, 4, 9, 10} sample_abs sample_bstore"
proof -
  have "stores sample_dev_env (sample_abs n) (sample_bstore (Held n))" for n
    by (simp add: sample_abs_def sample_bstore_def sample_dev_env_def sample_df_env_def sample_sections_def)
      (simp add: sample_lib_def md_time_def valid_put_def valid_md_def sample_data_def)
  moreover have "finite (dom sample_bstore)" by (simp add: sample_bstore_def)
  ultimately show ?thesis by (simp add: describes_def) (simp add: sample_bstore_def settled_ok_def)
qed

lemma sample_trace_ok:
  "\<forall>rq \<in> set (sample_trace @ sample_trace_after). bs_request_ok sample_dev_env (snd rq) \<and> keeps_apart sample_dev_env {2, 4, 9, 10} (snd rq)"
proof -
  have "sample_parse ''8'' = Some 8" by code_simp
  then show ?thesis
    by (simp add: sample_trace_def sample_trace_after_def sample_dev_env_def sample_df_env_def keeps_apart_def)
      (simp add: sample_lib_def md_time_def valid_put_def valid_md_def sample_data_def sample_post_def)
qed

lemma sample_answers:
  "spec_requests sample_dev_env sample_abs (sample_trace @ sample_trace_after) =
     [BsGot (sample_data ''1'') ''first'', BsOk, BsOk, BsOk,
      BsGot [(''X-Timestamp'', ''7''), (''X-Object-Meta-At'', ''7''), (''ETag'', ''e6''), (''Content-Type'', ''text/plain'')] ''eco'', BsOk,
      BsError (Py (DiskFileDeleted [(''X-Timestamp'', ''7'')])), BsOk, BsGot (sample_data ''8'') ''anew'']"
  by code_simp

theorem device_refines_spec_witness:
  "\<exists>d0 d. mount_device sample_dev_env sample_listing sample_bstore = Some d0 \<and>
     handle_requests sample_dev_env (sample_trace @ sample_trace_after) d0 =
       Some (d, [BsGot (sample_data ''1'') ''first'', BsOk, BsOk, BsOk,
         BsGot [(''X-Timestamp'', ''7''), (''X-Object-Meta-At'', ''7''), (''ETag'', ''e6''), (''Content-Type'', ''text/plain'')] ''eco'', BsOk,
         BsError (Py (DiskFileDeleted [(''X-Timestamp'', ''7'')])), BsOk, BsGot (sample_data ''8'') ''anew''])"
  unfolding sample_answers [symmetric]
  by (rule device_refines_spec [OF sample_dev_env_ok sample_listing_ok])
    (use sample_bstore_ok sample_trace_ok in \<open>simp_all only: sample_estimates\<close>)

theorem restart_keeps_answers_witness:
  "\<exists>d0 d answers d1 d2. mount_device sample_dev_env sample_listing sample_bstore = Some d0 \<and>
     handle_requests sample_dev_env sample_trace d0 = Some (d, answers) \<and>
     mount_device sample_dev_env sample_listing (eg_store (dv_eng d)) = Some d1 \<and>
     handle_requests sample_dev_env sample_trace_after d1 =
       Some (d2, drop (length sample_trace) (spec_requests sample_dev_env sample_abs (sample_trace @ sample_trace_after)))"
proof -
  have b: "describes sample_dev_env (estimates_around sample_dev_env sample_trace sample_trace_after) sample_abs sample_bstore"
    and t: "\<forall>rq \<in> set (sample_trace @ sample_trace_after). bs_request_ok sample_dev_env (snd rq) \<and>
      keeps_apart sample_dev_env (estimates_around sample_dev_env sample_trace sample_trace_after) (snd rq)"
    using sample_bstore_ok sample_trace_ok by (simp_all only: sample_estimates)
  obtain d0 where d0: "mount_device sample_dev_env sample_listing sample_bstore = Some d0"
      "idle sample_dev_env (estimates_around sample_dev_env sample_trace sample_trace_after) 0 d0 sample_abs"
    by (rule mount_idle [OF sample_dev_env_ok sample_listing_ok b])
  have "estimates_in sample_dev_env 0 sample_trace \<subseteq> estimates_around sample_dev_env sample_trace sample_trace_after"
    by (simp add: estimates_around_def)
  then obtain d where d: "handle_requests sample_dev_env sample_trace d0 = Some (d, spec_requests sample_dev_env sample_abs sample_trace)"
    using handle_requests_ok [OF sample_dev_env_ok d0(2)] t by (metis UnCI set_append)
  show ?thesis
    using d0(1) d restart_keeps_answers [OF sample_dev_env_ok sample_listing_ok b t d0(1) d] by blast
qed

end
