(* ===== verification/Spec2Isabelle.thy ===== *)
theory Spec2Isabelle
  imports Answers Reader ECDiskFile Xattr Walks Auditor BsRefine
begin

text \<open>
  Swiftacular: OpenStack Swift's object server with BlueStore as a place for object metadata
  (\<^verbatim>\<open>src/swift_patches/obj\<close>, \<^verbatim>\<open>src/ceph_patches\<close>), and its second backend, which keeps whole objects in a
  BlueStore (\<^verbatim>\<open>src/bluestore\<close>).

  \<^bold>\<open>The program.\<close>  An object server (\<^verbatim>\<open>bs_server.py\<close>) answers PUT, POST, GET, HEAD and DELETE for objects that
  live on the disks of its machine.  For each request it makes a \<^verbatim>\<open>DiskFile\<close> (\<^verbatim>\<open>bs_diskfile.py\<close>), which keeps an
  object as files in one hash directory: \<^verbatim>\<open><time>.data\<close>, \<^verbatim>\<open><time>.meta\<close> and \<^verbatim>\<open><time>.ts\<close> (a tombstone).  The
  manager of the storage policy decides from the names which files make up the object and which are
  obsolete; in an erasure-coded policy a \<^verbatim>\<open>.data\<close> file is one fragment, made durable by a rename in a second
  phase.  Metadata is in extended attributes, which the patch can divert to a BlueStore key-value store through
  the utility \<^verbatim>\<open>bs_xattr\<close>.  Every write invalidates the suffix directory above the hash directory; the hashes of
  the suffixes of a partition are cached in \<^verbatim>\<open>hashes.pkl\<close> for replication.  After a write the server tells the
  container servers and the expirer's queue.

  \<^bold>\<open>The theories\<close>, each importing those it calls:

  \<^item> \<^verbatim>\<open>Prelude\<close>, \<^verbatim>\<open>PyStrings\<close>: exceptions as values (\<open>pyexc + 'a\<close>), dictionaries as association lists, stable
    sorts, Python's string and path functions.
  \<^item> \<^verbatim>\<open>OnDisk\<close> (\<^verbatim>\<open>BaseDiskFileManager.get_ondisk_files\<close>, \<^verbatim>\<open>cleanup_ondisk_files\<close>): the template method over a
    record of the operations a policy provides; \<^verbatim>\<open>PolicyInterface\<close> states what a policy promises as locales
    and proves the clean-up once inside them.
  \<^item> \<^verbatim>\<open>Replicated\<close> (\<^verbatim>\<open>DiskFileManager\<close>) and \<^verbatim>\<open>ErasureCoded\<close> (\<^verbatim>\<open>ECDiskFileManager\<close>) interpret these locales: file
    names and their round trips, which files are chosen, and that cleaning up changes no choice.
  \<^item> \<^verbatim>\<open>DiskFile\<close> (\<^verbatim>\<open>BaseDiskFile\<close>, \<^verbatim>\<open>BaseDiskFileWriter\<close>): opening, metadata, writing, deleting.  A hash directory
    maps names to files; an instance and a writer are records; a system call's errno is a parameter.  Lemmas:
    a put or delete that is newest is what opening finds, replicas converge in any order of requests, a put
    that raises changes nothing.
  \<^item> \<^verbatim>\<open>ECDiskFile\<close> (\<^verbatim>\<open>ECDiskFile\<close>, \<^verbatim>\<open>ECDiskFileWriter\<close>): fragment index and preferences of an instance, put, the
    commit that makes a fragment durable, purge.
  \<^item> \<^verbatim>\<open>Reader\<close> (\<^verbatim>\<open>BaseDiskFileReader\<close>, \<^verbatim>\<open>ECDiskFileReader\<close>): the iterator over the bytes, ranges, checks of etag and
    fragments, and quarantining at close.
  \<^item> \<^verbatim>\<open>Xattr\<close> (\<^verbatim>\<open>read_metadata\<close>, \<^verbatim>\<open>write_metadata\<close> and \<^verbatim>\<open>bs_xattr.cc\<close>): metadata in chunks of at most the attribute
    size, with a checksum, in the file system or in the key-value store.
  \<^item> \<^verbatim>\<open>Hashes\<close> (\<^verbatim>\<open>read_hashes\<close> .. \<^verbatim>\<open>get_hashes\<close>): the cache of suffix hashes and its invalidations.
  \<^item> \<^verbatim>\<open>Walks\<close> (\<^verbatim>\<open>yield_suffixes\<close>, \<^verbatim>\<open>yield_hashes\<close>): what SSYNC is told of a partition is what opening its objects finds.
  \<^item> \<^verbatim>\<open>Auditor\<close> (\<^verbatim>\<open>object_audit_location_generator\<close> and the auditor's status files): a sweep that is killed anywhere is
    finished by the next.
  \<^item> \<^verbatim>\<open>Http\<close>, \<^verbatim>\<open>Updates\<close>, \<^verbatim>\<open>ObjectServer\<close> (\<^verbatim>\<open>bs_server.py\<close>): headers and responses, updates of containers and of
    the expirer's queue, and the handlers over a record of what Swift's library provides.
  \<^item> \<^verbatim>\<open>Register\<close> and \<^verbatim>\<open>Answers\<close>: the composition.  Serving requests of one object refines a register that takes a
    write exactly when it is newer; uploads that do not match their announcement change nothing.

  \<^bold>\<open>The BlueStore backend\<close> (\<^verbatim>\<open>src/bluestore/src\<close>).  The object server's disk files are Python classes over a \<^verbatim>\<open>Device\<close>, which
  keeps the Objects that requests share and calls an engine in C++; the engine turns calls into transactions,
  which BlueStore gets later, in order.  Green threads interleave between the Device's steps.

  \<^item> \<^verbatim>\<open>BsMetadata\<close> (\<^verbatim>\<open>metadata.py\<close>): sections of a blob and what PUT, DELETE and POST make of them; the view of an
    object does not depend on the order of its requests.
  \<^item> \<^verbatim>\<open>BsEngine\<close> (\<^verbatim>\<open>injection/object.cpp\<close>, \<^verbatim>\<open>backend.cpp\<close>, \<^verbatim>\<open>internal.cpp\<close>): entries, addresses, Objects and their states, the
    queue.  BlueStore is a parameter: what it does with a change that fits the store (\<open>bluestore_ok\<close>), while it has room; nothing
    is assumed of other changes, which may kill the process.
  \<^item> \<^verbatim>\<open>BsSystem\<close>: the Device's atomic steps in any order, as a relation on worlds (\<open>dev_step\<close>), which carry history (the bytes of
    every version of a name, the store after whole transactions); \<open>bs_step\<close> are those of runs whose requests settle no
    time that the clock gives as an estimate; and an invariant that every such step keeps.
  \<^item> \<^verbatim>\<open>BsReads\<close>: what the invariant gives.  The queue of such a run never kills the process, a crash leaves whole versions, a read
    returns the bytes of one version though renames land between its fetch and its check, and a read of metadata
    never mixes two POSTs.
  \<^item> \<^verbatim>\<open>BsDevice\<close> (\<^verbatim>\<open>device.py\<close>, \<^verbatim>\<open>diskfile.py\<close>, \<^verbatim>\<open>writer.py\<close>, \<^verbatim>\<open>reader.py\<close>, \<^verbatim>\<open>manager.py\<close>): the methods as functions over a Device.
  \<^item> \<^verbatim>\<open>BsSteps\<close>, \<^verbatim>\<open>BsServe\<close>, \<^verbatim>\<open>BsRefine\<close>: the methods take the steps of \<open>BsSystem\<close>; a Device that is mounted, on a store
    with the leftovers of a crash, and serves requests one after another refines a specification without Objects, queue
    or addresses, and a restart keeps it.  \<open>bs_serve\<close> is what an object server does with the classes.

  \<^bold>\<open>Correspondence.\<close>  Exceptions are values; a function that raises after changing the disk returns the changed
  disk with the exception.  Timestamps are any linear order with a least element, with the library's string
  conversions as a record (\<open>ts_lib\<close>) and named hypotheses (\<open>internal_ok\<close>, \<open>encode_ok\<close>) for their round trips.
  Bytes and strings are character lists.  Logging, locks and cache hints have no counterpart,
  nor have green threads outside of \<open>BsSystem\<close> and \<open>BsReads\<close>.

  \<^bold>\<open>Bounds.\<close>  \<open>write_loop\<close> (short writes) and \<open>get_hashes\<close> (retries) may not end, so their value is an option; it is
  proved that they do end when writes make progress and when nothing else writes.  The reader's loops end
  because the position grows.  \<open>read_md_loop\<close>, \<open>dev_open\<close> and \<open>range_chunks\<close> may not end among other requests or with a chunk
  size of 0; the refinement shows that they do between requests.  The estimates that the clock gives in a run of the BlueStore
  backend are a set \<open>E\<close> (\<open>estimates_of\<close>, \<open>estimates_in\<close>); no time that the run's requests settle is one of them, and they are free
  otherwise: an estimate that equals a settled time lets two Objects share an address, which kills the process
  (\<open>estimate_collision_kills\<close> has the run).

  \<^bold>\<open>What is taken for granted.\<close>  Unlinks, \<^verbatim>\<open>fsync\<close>, the rename of a quarantine and the lines added to \<^verbatim>\<open>hashes.invalid\<close> succeed;
  BlueStore does not run full; the Device's methods run with nothing in between in \<open>BsRefine\<close>.

  \<^bold>\<open>Not modelled.\<close>  \<^verbatim>\<open>zero_copy_send\<close> (splicing in the kernel), opening disk files by hash
  (\<^verbatim>\<open>get_diskfile_from_hash\<close>), REPLICATE and SSYNC (parameters of the server), and the
  start-up code are I/O around the modelled parts.  Of \<^verbatim>\<open>src/bluestore\<close>: making and expanding a store, the
  command line, the bindings' argument checks, Ceph's own locks and threads, \<^verbatim>\<open>app_iter_ranges\<close> (Swift's iterator over
  several ranges) and the registration with Swift.  Ansible roles, dashboards, benchmarks and tests are listed as components
  that are not modelled.
\<close>

end
